(* ===== verification/Prelude.thy ===== *)
theory Prelude
  imports Main "HOL-Library.Word"
begin

text \<open>
  Shared material of the development: the fault type that stands for the undefined behaviours
  and escaping exceptions of the C++ sources, the result type built on it, the reading operation
  of the standard associative containers, the ordered-set operations of \<^verbatim>\<open>std::set\<close>, and the
  generic lemmas and fact collections the component theories use.
\<close>

section \<open>Fact collections\<close>

named_theorems result_simps \<open>evaluation of the result combinators\<close>
named_theorems inv_intros \<open>an operation preserves an invariant\<close>
named_theorems frame_simps \<open>a field an operation leaves alone\<close>

section \<open>Machine types\<close>

type_synonym u64 = "64 word"  \<comment> \<open>\<^verbatim>\<open>std::uint64_t\<close>, \<^verbatim>\<open>size_t\<close>\<close>
type_synonym i32 = "32 word"  \<comment> \<open>\<^verbatim>\<open>std::int32_t\<close>, read with \<open>sint\<close>\<close>
type_synonym int53 = int      \<comment> \<open>identifiers of td_api, compared and stored only\<close>

section \<open>Faults and results\<close>

text \<open>
  Where the C++ code would run into undefined behaviour or let an exception escape, the model
  returns a fault. \<open>Null_deref\<close>: a null pointer is dereferenced; \<open>Out_of_range\<close>: a vector is
  indexed past its size; \<open>Past_the_end\<close>: an iterator is advanced past or read at \<open>end()\<close>;
  \<open>Use_after_free\<close>: a deleted window is used; \<open>Invalid_argument\<close> and \<open>Stoi_out_of_range\<close>: what
  \<^verbatim>\<open>std::stoi\<close> throws; \<open>Length_error\<close>: a string is built with a negative count converted to
  \<^verbatim>\<open>size_t\<close>; \<open>Signed_overflow\<close>: a signed counter runs past its least value; \<open>Qr_exception\<close>: what the QR
  code generator throws, or an assertion of it that fails; \<open>Data_race\<close>: the two threads access the same
  object, one of them to write, without a common lock.
\<close>

datatype fault =
    Null_deref
  | Out_of_range
  | Past_the_end
  | Use_after_free
  | Invalid_argument
  | Stoi_out_of_range
  | Length_error
  | Signed_overflow
  | Qr_exception
  | Data_race

type_synonym 'a result = "fault + 'a"

text \<open>
  The combinators are polymorphic in the type of the error: the libraries the program links
  (the QR code generator, TDLib's utilities) report errors of their own.
\<close>

definition bind_r :: "'e + 'a \<Rightarrow> ('a \<Rightarrow> 'e + 'b) \<Rightarrow> 'e + 'b" where
  "bind_r m f = (case m of Inl e \<Rightarrow> Inl e | Inr x \<Rightarrow> f x)"

lemma bind_r_simps [simp, result_simps]:
  "bind_r (Inl e) f = Inl e"
  "bind_r (Inr x) f = f x"
  by (simp_all add: bind_r_def)

lemma bind_r_eq_Inr:
  "bind_r m f = Inr y \<longleftrightarrow> (\<exists>x. m = Inr x \<and> f x = Inr y)"
  by (cases m) auto

lemma bind_r_eq_Inl:
  "bind_r m f = Inl e \<longleftrightarrow> m = Inl e \<or> (\<exists>x. m = Inr x \<and> f x = Inl e)"
  by (cases m) auto

lemma bind_r_assoc: "bind_r (bind_r m f) g = bind_r m (\<lambda>x. bind_r (f x) g)"
  by (cases m) auto

lemma bind_r_InrE [elim]:
  assumes "bind_r m f = Inr y"
  obtains x where "m = Inr x" "f x = Inr y"
  using assms by (auto simp: bind_r_eq_Inr)

text \<open>A loop whose body may fault stops at the first fault.\<close>

fun fold_r :: "('a \<Rightarrow> 's \<Rightarrow> 'e + 's) \<Rightarrow> 'a list \<Rightarrow> 's \<Rightarrow> 'e + 's" where
  "fold_r f [] s = Inr s"
| "fold_r f (x # xs) s = bind_r (f x s) (fold_r f xs)"

lemma fold_r_append:
  "fold_r f (xs @ ys) s = bind_r (fold_r f xs s) (fold_r f ys)"
  by (induction xs arbitrary: s) (simp_all add: bind_r_def split: sum.splits)

lemma fold_r_invariant:
  assumes "\<And>x s s'. x \<in> set xs \<Longrightarrow> P s \<Longrightarrow> f x s = Inr s' \<Longrightarrow> P s'"
    and "P s" and "fold_r f xs s = Inr s'"
  shows "P s'"
  using assms
proof (induction xs arbitrary: s)
  case Nil
  then show ?case by simp
next
  case (Cons x xs)
  then obtain t where "f x s = Inr t" and "fold_r f xs t = Inr s'"
    by auto
  with Cons.prems(1)[of x s t] Cons.prems(1,2) show ?case
    by (intro Cons.IH[of t]) auto
qed

lemma fold_r_total:
  assumes "\<And>x s. x \<in> set xs \<Longrightarrow> P s \<Longrightarrow> \<exists>s'. f x s = Inr s' \<and> P s'" and "P s"
  shows "\<exists>s'. fold_r f xs s = Inr s' \<and> P s'"
  using assms
proof (induction xs arbitrary: s)
  case Nil
  then show ?case by simp
next
  case (Cons x xs)
  then obtain t where t: "f x s = Inr t" "P t"
    by (meson list.set_intros(1))
  with Cons.IH[of t] Cons.prems(1) show ?case
    by auto
qed

section \<open>Associative containers\<close>

text \<open>
  \<open>at_def d m k\<close> is the value of \<^verbatim>\<open>m[k]\<close> for \<^verbatim>\<open>std::map\<close> and \<^verbatim>\<open>std::unordered_map\<close>: a missing
  key reads as the value-initialised element \<open>d\<close>. The C++ operator also stores that default
  element; the program never iterates over these maps nor asks for their size, so the stored
  default cannot be told from a missing key and the model leaves the map as it is.
\<close>

definition at_def :: "'v \<Rightarrow> ('k \<rightharpoonup> 'v) \<Rightarrow> 'k \<Rightarrow> 'v" where
  "at_def d m k = (case m k of None \<Rightarrow> d | Some v \<Rightarrow> v)"

lemma at_def_upd [simp]: "at_def d (m(k \<mapsto> v)) k' = (if k' = k then v else at_def d m k')"
  by (simp add: at_def_def)

lemma at_def_empty [simp]: "at_def d Map.empty k = d"
  by (simp add: at_def_def)

text \<open>\<^verbatim>\<open>emplace\<close> of a map keeps an element that is already there.\<close>

definition map_emplace :: "('k \<rightharpoonup> 'v) \<Rightarrow> 'k \<Rightarrow> 'v \<Rightarrow> ('k \<rightharpoonup> 'v)" where
  "map_emplace m k v = (case m k of None \<Rightarrow> m(k \<mapsto> v) | Some _ \<Rightarrow> m)"

lemma map_emplace_fresh [simp]: "m k = None \<Longrightarrow> map_emplace m k v = m(k \<mapsto> v)"
  by (simp add: map_emplace_def)

lemma dom_map_emplace [simp]: "dom (map_emplace m k v) = insert k (dom m)"
  by (auto simp: map_emplace_def split: option.splits)

lemma map_emplace_other: "k' \<noteq> k \<Longrightarrow> map_emplace m k v k' = m k'"
  by (auto simp: map_emplace_def split: option.splits)

section \<open>Ordered sets\<close>

text \<open>
  A \<^verbatim>\<open>std::set\<close> is the list of its elements in iteration order. The comparator is a key function
  \<open>f\<close> compared with \<open>>\<close>: \<^verbatim>\<open>std::greater\<close> on pairs is the identity key, a comparator on one field
  is that field. \<open>oset f xs\<close> is the container's representation invariant; two elements with equal
  keys are equivalent, so only one of them can be in the set. \<open>oset_insert\<close> leaves the set alone
  when an equivalent element is there, as \<^verbatim>\<open>insert\<close> and \<^verbatim>\<open>emplace\<close> do.
\<close>

definition oset :: "('a \<Rightarrow> 'k::linorder) \<Rightarrow> 'a list \<Rightarrow> bool" where
  "oset f xs \<longleftrightarrow> sorted_wrt (\<lambda>a b. f a > f b) xs"

fun oset_insert :: "('a \<Rightarrow> 'k::linorder) \<Rightarrow> 'a \<Rightarrow> 'a list \<Rightarrow> 'a list" where
  "oset_insert f x [] = [x]"
| "oset_insert f x (y # ys) =
     (if f x > f y then x # y # ys
      else if f y > f x then y # oset_insert f x ys
      else y # ys)"

fun oset_erase :: "('a \<Rightarrow> 'k::linorder) \<Rightarrow> 'k \<Rightarrow> 'a list \<Rightarrow> 'a list" where
  "oset_erase f k [] = []"
| "oset_erase f k (y # ys) = (if f y = k then ys else y # oset_erase f k ys)"

lemma oset_Nil [simp]: "oset f []"
  by (simp add: oset_def)

lemma oset_Cons [simp]: "oset f (x # xs) \<longleftrightarrow> (\<forall>y \<in> set xs. f x > f y) \<and> oset f xs"
  by (simp add: oset_def)

lemma oset_insert_keys: "f ` set (oset_insert f x xs) = insert (f x) (f ` set xs)"
  by (induction xs) auto

lemma set_oset_insert_subset: "set (oset_insert f x xs) \<subseteq> insert x (set xs)"
  by (induction xs) auto

lemma set_subset_oset_insert: "set xs \<subseteq> set (oset_insert f x xs)"
  by (induction xs) auto

lemma oset_insert_oset [simp]: "oset f xs \<Longrightarrow> oset f (oset_insert f x xs)"
proof (induction xs)
  case Nil
  then show ?case by simp
next
  case (Cons y ys)
  have "\<forall>z \<in> set (oset_insert f x ys). z = x \<or> z \<in> set ys"
    using set_oset_insert_subset[of f x ys] by auto
  with Cons show ?case by force
qed

lemma oset_insert_dup: "oset f xs \<Longrightarrow> f x \<in> f ` set xs \<Longrightarrow> oset_insert f x xs = xs"
  by (induction xs) auto

lemma oset_insert_new:
  "f x \<notin> f ` set xs \<Longrightarrow> set (oset_insert f x xs) = insert x (set xs)"
  by (induction xs) auto

lemma length_oset_insert:
  "f x \<notin> f ` set xs \<Longrightarrow> length (oset_insert f x xs) = Suc (length xs)"
  by (induction xs) auto

lemma set_oset_erase: "oset f xs \<Longrightarrow> set (oset_erase f k xs) = {x \<in> set xs. f x \<noteq> k}"
  by (induction xs) auto

lemma oset_erase_oset [simp]: "oset f xs \<Longrightarrow> oset f (oset_erase f k xs)"
  by (induction xs) (auto simp: set_oset_erase)

lemma oset_distinct: "oset f xs \<Longrightarrow> distinct (map f xs)"
  by (induction xs) auto

lemma oset_inj_on: "oset f xs \<Longrightarrow> inj_on f (set xs)"
  using oset_distinct[of f xs] by (simp add: distinct_map)

lemma oset_nth_mono:
  "oset f xs \<Longrightarrow> i < j \<Longrightarrow> j < length xs \<Longrightarrow> f (xs ! i) > f (xs ! j)"
  unfolding oset_def by (rule sorted_wrt_nth_less)

text \<open>Two ordered sets with the same elements iterate in the same order.\<close>

lemma oset_unique: "oset f xs \<Longrightarrow> oset f ys \<Longrightarrow> set xs = set ys \<Longrightarrow> xs = ys"
proof (induction xs arbitrary: ys)
  case Nil
  then show ?case by simp
next
  case (Cons x xs)
  then obtain y ys' where ys: "ys = y # ys'" by (cases ys) auto
  from Cons.prems ys have "x = y"
    by (metis insert_iff list.simps(15) oset_Cons order_less_asym)
  with Cons.prems ys have "set xs = set ys'"
    by (auto simp: insert_eq_iff)
  with Cons ys \<open>x = y\<close> show ?case by auto
qed

section \<open>The set interface\<close>

text \<open>
  What a client of an ordered container relies on. \<open>elems\<close> is the abstract set, \<open>key\<close> the
  equivalence key of the comparator.
\<close>

locale ordered_container =
  fixes key :: "'a \<Rightarrow> 'k::linorder"
    and ins :: "'a \<Rightarrow> 'c \<Rightarrow> 'c"
    and del :: "'k \<Rightarrow> 'c \<Rightarrow> 'c"
    and iter :: "'c \<Rightarrow> 'a list"
    and ok :: "'c \<Rightarrow> bool"
  assumes ok_ins: "ok c \<Longrightarrow> ok (ins x c)"
    and ok_del: "ok c \<Longrightarrow> ok (del k c)"
    and iter_ins: "ok c \<Longrightarrow> set (iter (ins x c)) =
      (if key x \<in> key ` set (iter c) then set (iter c) else insert x (set (iter c)))"
    and iter_del: "ok c \<Longrightarrow> set (iter (del k c)) = {x \<in> set (iter c). key x \<noteq> k}"
    and iter_sorted: "ok c \<Longrightarrow> sorted_wrt (\<lambda>a b. key a > key b) (iter c)"
begin

text \<open>Moving an element to a new key: erase the old key, insert the element with the new one.\<close>

lemma replace_elems:
  assumes "ok c" and "key x \<notin> key ` {y \<in> set (iter c). key y \<noteq> k}"
  shows "set (iter (ins x (del k c))) = insert x {y \<in> set (iter c). key y \<noteq> k}"
  using assms by (simp add: iter_ins ok_del iter_del)

lemma keys_ins: "ok c \<Longrightarrow> key ` set (iter (ins x c)) = insert (key x) (key ` set (iter c))"
  by (auto simp: iter_ins)

lemma ins_idem: "ok c \<Longrightarrow> set (iter (ins x (ins x c))) = set (iter (ins x c))"
  by (auto simp: iter_ins ok_ins)

end

interpretation std_set: ordered_container f "oset_insert f" "oset_erase f" "\<lambda>xs. xs" "oset f"
  for f :: "'a \<Rightarrow> 'k::linorder"
proof unfold_locales
  fix c x k
  assume "oset f c"
  then show "oset f (oset_insert f x c)" "oset f (oset_erase f k c)"
    "set (oset_erase f k c) = {x \<in> set c. f x \<noteq> k}" "sorted_wrt (\<lambda>a b. f a > f b) c"
    by (simp_all add: set_oset_erase oset_def[symmetric])
  from \<open>oset f c\<close> show "set (oset_insert f x c) =
      (if f x \<in> f ` set c then set c else insert x (set c))"
    by (simp add: oset_insert_dup oset_insert_new)
qed

section \<open>C strings\<close>

text \<open>What a C string function sees of a string: up to the first zero byte.\<close>

definition c_str :: "string \<Rightarrow> string" where
  "c_str s = takeWhile (\<lambda>c. c \<noteq> CHR 0x00) s"

end
