(* ===== verification/Curses.thy ===== *)
theory Curses
  imports Prelude
begin

text \<open>
  The interface to the curses and panel libraries, which are not part of the repository. What a
  call computes from its arguments is a field of \<open>curses_api\<close>, a parameter of every definition
  that uses it; what the library documents of these functions is the predicate \<open>curses_ok\<close>. Calls
  that only draw are recorded in order. Windows live in a store from window handles to rectangles,
  so that the use of a deleted window is a fault of the model.
\<close>

section \<open>Library functions\<close>

text \<open>
  \<open>newwin_size L C nl nc y x\<close>: the size of the window \<^verbatim>\<open>newwin(nl, nc, y, x)\<close> creates on a screen of
  \<open>L\<close> lines and \<open>C\<close> columns, \<open>None\<close> when it returns a null pointer. \<open>new_panel_win w\<close>: the window of
  the panel \<^verbatim>\<open>new_panel(w)\<close> creates, \<open>None\<close> for a null panel. \<open>replace_panel_win old w\<close>: the window
  of a panel of window \<open>old\<close> after \<^verbatim>\<open>replace_panel\<close>. \<open>maxyx\<close>: what \<^verbatim>\<open>getmaxyx\<close> yields for a window of
  a size, or for a null pointer.
\<close>

record curses_api =
  newwin_size :: "int \<Rightarrow> int \<Rightarrow> int \<Rightarrow> int \<Rightarrow> int \<Rightarrow> int \<Rightarrow> (int \<times> int) option"
  new_panel_win :: "nat option \<Rightarrow> nat option"
  replace_panel_win :: "nat \<Rightarrow> nat option \<Rightarrow> nat"
  maxyx :: "(int \<times> int) option \<Rightarrow> int \<times> int"

text \<open>
  The manual pages: a window of positive size that fits on the screen is created with that size; a
  zero number of lines or columns stands for the rest of the screen; a panel has the window it was
  created with or that replaced it, and replacing it by a null pointer is an error that changes
  nothing; \<^verbatim>\<open>getmaxyx\<close> gives the size.
\<close>

definition curses_ok :: "curses_api \<Rightarrow> bool" where
  "curses_ok api \<longleftrightarrow>
     (\<forall>L C nl nc y x. 0 < nl \<and> 0 < nc \<and> 0 \<le> y \<and> 0 \<le> x \<and> y + nl \<le> L \<and> x + nc \<le> C
        \<longrightarrow> newwin_size api L C nl nc y x = Some (nl, nc))
   \<and> (\<forall>L C nl y x. 0 < nl \<and> 0 \<le> y \<and> 0 \<le> x \<and> y + nl \<le> L \<and> x < C
        \<longrightarrow> newwin_size api L C nl 0 y x = Some (nl, C - x))
   \<and> (\<forall>w. new_panel_win api (Some w) = Some w)
   \<and> (\<forall>old w. replace_panel_win api old (Some w) = w)
   \<and> (\<forall>old. replace_panel_win api old None = old)
   \<and> (\<forall>h w. maxyx api (Some (h, w)) = (h, w))"

text \<open>A concrete library that behaves as documented, for evaluation.\<close>

definition plain_curses :: curses_api where
  "plain_curses =
     \<lparr>newwin_size = (\<lambda>L C nl nc y x.
        if nl < 0 \<or> nc < 0 \<or> y < 0 \<or> x < 0 then None
        else let nl' = (if nl = 0 then L - y else nl); nc' = (if nc = 0 then C - x else nc)
             in if nl' \<le> 0 \<or> nc' \<le> 0 then None else Some (nl', nc')),
      new_panel_win = (\<lambda>w. w),
      replace_panel_win = (\<lambda>old w. case w of None \<Rightarrow> old | Some i \<Rightarrow> i),
      maxyx = (\<lambda>s. case s of None \<Rightarrow> (- 1, - 1) | Some p \<Rightarrow> p)\<rparr>"

lemma curses_ok_plain [simp]: "curses_ok plain_curses"
  by (simp add: curses_ok_def plain_curses_def Let_def)

lemma curses_okD:
  assumes "curses_ok api"
  shows "\<lbrakk>0 < nl; 0 < nc; 0 \<le> y; 0 \<le> x; y + nl \<le> L; x + nc \<le> C\<rbrakk>
      \<Longrightarrow> newwin_size api L C nl nc y x = Some (nl, nc)"
    and "\<lbrakk>0 < nl; 0 \<le> y; 0 \<le> x; y + nl \<le> L; x < C\<rbrakk>
      \<Longrightarrow> newwin_size api L C nl 0 y x = Some (nl, C - x)"
    and "new_panel_win api (Some w) = Some w"
    and "replace_panel_win api old (Some w) = w"
    and "replace_panel_win api old None = old"
    and "maxyx api (Some (h, v)) = (h, v)"
  using assms by (simp_all add: curses_ok_def)

section \<open>The screen\<close>

record rect =
  r_y :: int
  r_x :: int
  r_rows :: int
  r_cols :: int

definition cell_in :: "int \<Rightarrow> int \<Rightarrow> rect \<Rightarrow> bool" where
  "cell_in y x r \<longleftrightarrow> r_y r \<le> y \<and> y < r_y r + r_rows r \<and> r_x r \<le> x \<and> x < r_x r + r_cols r"

text \<open>A window argument is a handle or the null pointer.\<close>

datatype curses_call =
    Mvwaddstr "nat option" int int string
  | Mvwvline "nat option" int int int
  | Mvwhline "nat option" int int int
  | Mvwaddch "nat option" int int
  | Attr_on "nat option"
  | Attr_off "nat option"
  | Wmove "nat option" int int
  | Wnoutrefresh "nat option"
  | Doupdate
  | Update_panels
  | Curs_set int

text \<open>
  The globals of \<^verbatim>\<open>src/global.cc\<close> that describe the layout, the size of the terminal (\<^verbatim>\<open>LINES\<close>,
  \<^verbatim>\<open>COLS\<close>), the window store and the calls made so far. \<open>panels k\<close> is the window of the panel stored
  under the key \<open>k\<close>, \<open>None\<close> when there is no panel (a null panel has a null window).
\<close>

record screen =
  LINES :: int
  COLS :: int
  windows :: "nat \<rightharpoonup> rect"
  next_window :: nat
  panels :: "int \<rightharpoonup> nat"
  side_w :: int
  composer_h :: int
  current_pan :: int
  cursor_positions :: "int \<rightharpoonup> int \<times> int"
  calls :: "curses_call list"

definition record_call :: "curses_call \<Rightarrow> screen \<Rightarrow> screen" where
  "record_call c scr = scr\<lparr>calls := calls scr @ [c]\<rparr>"

text \<open>A call on a window: a null pointer only makes the call return an error, a deleted window is a fault.\<close>

definition alive :: "nat option \<Rightarrow> screen \<Rightarrow> bool" where
  "alive w scr \<longleftrightarrow> (case w of None \<Rightarrow> True | Some i \<Rightarrow> windows scr i \<noteq> None)"

definition on_window :: "nat option \<Rightarrow> curses_call \<Rightarrow> screen \<Rightarrow> screen result" where
  "on_window w c scr = (if alive w scr then Inr (record_call c scr) else Inl Use_after_free)"

definition newwin :: "curses_api \<Rightarrow> int \<Rightarrow> int \<Rightarrow> int \<Rightarrow> int \<Rightarrow> screen \<Rightarrow> nat option \<times> screen" where
  "newwin api nl nc y x scr =
     (case newwin_size api (LINES scr) (COLS scr) nl nc y x of
        None \<Rightarrow> (None, scr)
      | Some (h, w) \<Rightarrow>
          (Some (next_window scr),
           scr\<lparr>windows := (windows scr)(next_window scr \<mapsto>
                  \<lparr>r_y = y, r_x = x, r_rows = h, r_cols = w\<rparr>),
               next_window := Suc (next_window scr)\<rparr>))"

definition delwin :: "nat option \<Rightarrow> screen \<Rightarrow> screen result" where
  "delwin w scr =
     (case w of
        None \<Rightarrow> Inr scr
      | Some i \<Rightarrow> if windows scr i = None then Inl Use_after_free
                  else Inr (scr\<lparr>windows := (windows scr)(i := None)\<rparr>))"

definition getmaxyx :: "curses_api \<Rightarrow> nat option \<Rightarrow> screen \<Rightarrow> (int \<times> int) result" where
  "getmaxyx api w scr =
     (case w of
        None \<Rightarrow> Inr (maxyx api None)
      | Some i \<Rightarrow> (case windows scr i of
                    None \<Rightarrow> Inl Use_after_free
                  | Some r \<Rightarrow> Inr (maxyx api (Some (r_rows r, r_cols r)))))"

definition getmaxy :: "curses_api \<Rightarrow> nat option \<Rightarrow> screen \<Rightarrow> int result" where
  "getmaxy api w scr = bind_r (getmaxyx api w scr) (\<lambda>m. Inr (fst m))"

definition getmaxx :: "curses_api \<Rightarrow> nat option \<Rightarrow> screen \<Rightarrow> int result" where
  "getmaxx api w scr = bind_r (getmaxyx api w scr) (\<lambda>m. Inr (snd m))"

definition panel_window :: "screen \<Rightarrow> int \<Rightarrow> nat option" where
  "panel_window scr k = panels scr k"

definition new_panel :: "curses_api \<Rightarrow> int \<Rightarrow> nat option \<Rightarrow> screen \<Rightarrow> screen" where
  "new_panel api k w scr = scr\<lparr>panels := (panels scr)(k := new_panel_win api w)\<rparr>"

definition replace_panel :: "curses_api \<Rightarrow> int \<Rightarrow> nat option \<Rightarrow> screen \<Rightarrow> screen" where
  "replace_panel api k w scr =
     scr\<lparr>panels := (panels scr)(k := map_option (\<lambda>old. replace_panel_win api old w) (panels scr k))\<rparr>"

end
