(* ===== verification/Td_Api.thy ===== *)
theory Td_Api
  imports Prelude
begin

text \<open>
  The objects of the TDLib interface the client exchanges, as declared in
  \<^verbatim>\<open>lib/td/td/generate/scheme/td_api.tl\<close> (the C++ classes of \<^verbatim>\<open>td_api.h\<close> are generated from
  it). A class the client reads is a record or constructor with the fields it reads; the fields it
  only stores are one opaque value of type \<open>blob\<close>. A field documented as \<open>may be null\<close> is an
  option, every other object pointer is present.
\<close>

type_synonym blob = nat

section \<open>Chat lists and positions\<close>

datatype chat_list = ChatListMain | ChatListArchive | ChatListFolder int

text \<open>
  \<^verbatim>\<open>get_id\<close> is the constructor number of the object's class, the CRC32 of its declaration as the
  generator computes it: all folders share one number.
\<close>

fun chat_list_id :: "chat_list \<Rightarrow> int" where
  "chat_list_id ChatListMain = - 400991316"
| "chat_list_id ChatListArchive = 362770115"
| "chat_list_id (ChatListFolder n) = 385760856"

record chat_position =
  pos_list :: chat_list
  pos_order :: int

section \<open>Messages, chats and the other stored objects\<close>

datatype message_content = MessageText string | MessageOther blob

record message =
  msg_id :: int53
  msg_chat_id :: int53
  msg_date :: int
  msg_content :: message_content

record chat =
  chat_id :: int53
  chat_title :: string
  chat_last_message :: "message option"
  chat_positions :: "chat_position list"
  chat_lists :: "chat_list list"

record user = user_id :: int53 user_rest :: blob
record basic_group = basic_group_id :: int53 basic_group_rest :: blob
record supergroup = supergroup_id :: int53 supergroup_rest :: blob

section \<open>Authorization states\<close>

datatype authorization_state =
    WaitTdlibParameters
  | WaitPhoneNumber
  | WaitEmailAddress
  | WaitEmailCode
  | WaitCode
  | WaitOtherDeviceConfirmation string
  | WaitRegistration
  | WaitPassword
  | Ready
  | LoggingOut
  | Closing
  | Closed

section \<open>Updates and other incoming objects\<close>

datatype update =
    UpdateAuthorizationState authorization_state
  | UpdateUser user
  | UpdateUserFullInfo int53 blob
  | UpdateNewChat chat
  | UpdateBasicGroup basic_group
  | UpdateBasicGroupFullInfo int53 blob
  | UpdateSupergroup supergroup
  | UpdateSupergroupFullInfo int53 blob
  | UpdateChatAddedToList int53 chat_list
  | UpdateChatPosition int53 chat_position
  | UpdateChatLastMessage int53 "message option" "chat_position list"
  | UpdateOption string
  | UpdateOther blob

datatype td_object =
    Update update
  | Error int string
  | Messages int "message option list"
  | OtherObject blob

definition is_update_option :: "td_object \<Rightarrow> bool" where
  "is_update_option o' = (case o' of Update (UpdateOption _) \<Rightarrow> True | _ \<Rightarrow> False)"

definition is_error :: "td_object \<Rightarrow> bool" where
  "is_error o' = (case o' of Error _ _ \<Rightarrow> True | _ \<Rightarrow> False)"

text \<open>\<^verbatim>\<open>ClientManager::Response\<close>: an empty object pointer means that the wait timed out.\<close>

record response =
  resp_request_id :: u64
  resp_object :: "td_object option"

section \<open>Outgoing requests\<close>

record tdlib_parameters =
  par_use_test_dc :: bool
  par_database_directory :: string
  par_use_message_database :: bool
  par_use_secret_chats :: bool
  par_api_id :: int
  par_api_hash :: string
  par_system_language_code :: string
  par_device_model :: string
  par_application_version :: string

datatype td_function =
    GetOption string
  | LoadChats chat_list int
  | GetChatHistory int53 int53 int int bool
  | SetTdlibParameters tdlib_parameters
  | SetAuthenticationPhoneNumber string
  | RequestQrCodeAuthentication
  | CheckAuthenticationCode string
  | SetAuthenticationEmailAddress string
  | CheckAuthenticationEmailCode string
  | RegisterUser string string bool
  | LogOut

end
