(* ===== verification/Event_Queue.thy ===== *)
theory Event_Queue
  imports Prelude "HOL-Library.AList"
begin

text \<open>
  The queue through which the Telegram thread tells the user-interface thread what to redraw
  (\<^verbatim>\<open>src/event_types.h\<close>, \<^verbatim>\<open>event_queue_struct\<close> of \<^verbatim>\<open>src/global.h\<close> and \<^verbatim>\<open>src/global.cc\<close>). At most one
  event of a type waits at a time: a second event of a waiting type takes the place of the first
  one's payload and keeps its position. Both methods run under \<^verbatim>\<open>q_mutex\<close> from their first to
  their last statement, so each is one atomic operation of the model.
\<close>

section \<open>Events\<close>

definition ET_QUIT :: int where "ET_QUIT = 0"
definition ET_RESIZE :: int where "ET_RESIZE = 1"
definition ET_CHATLIST :: int where "ET_CHATLIST = 2"
definition ET_CYCLE_PANEL :: int where "ET_CYCLE_PANEL = 3"
definition ET_MESSAGES :: int where "ET_MESSAGES = 4"

lemmas ET_defs = ET_QUIT_def ET_RESIZE_def ET_CHATLIST_def ET_CYCLE_PANEL_def ET_MESSAGES_def

text \<open>
  The class hierarchy under \<^verbatim>\<open>event_base\<close>, one constructor per class, with the members a class
  adds: the two new sizes of \<^verbatim>\<open>event_resize\<close> and the chat of \<^verbatim>\<open>event_messages\<close>.
\<close>

datatype event =
    event_quit
  | event_cycle_panel
  | event_resize int int
  | event_chatlist
  | event_messages int53

text \<open>The member \<^verbatim>\<open>event_base::type\<close>, as each constructor initialises it.\<close>

fun event_type :: "event \<Rightarrow> int" where
  "event_type event_quit = ET_QUIT"
| "event_type event_cycle_panel = ET_CYCLE_PANEL"
| "event_type (event_resize w h) = ET_RESIZE"
| "event_type event_chatlist = ET_CHATLIST"
| "event_type (event_messages c) = ET_MESSAGES"

lemma event_type_range: "event_type e \<in> {0..4}"
  by (cases e) (simp_all add: ET_defs)

section \<open>The queue and its methods\<close>

record event_queue_struct =
  queue :: "int list"
  event_map :: "int \<rightharpoonup> event"

definition empty_event_queue :: event_queue_struct where
  "empty_event_queue = \<lparr>queue = [], event_map = Map.empty\<rparr>"

definition push :: "event \<Rightarrow> event_queue_struct \<Rightarrow> event_queue_struct" where
  "push e q =
     (let q' = (if event_map q (event_type e) = None
                then q\<lparr>queue := queue q @ [event_type e]\<rparr> else q)
      in q'\<lparr>event_map := (event_map q')(event_type e \<mapsto> e)\<rparr>)"

text \<open>
  The empty \<^verbatim>\<open>shared_ptr\<close> is \<open>None\<close>. The iterator found for the front type is dereferenced without
  a test; were there no entry, that would read \<^verbatim>\<open>end()\<close>.
\<close>

definition pop_and_get :: "event_queue_struct \<Rightarrow> (event option \<times> event_queue_struct) result" where
  "pop_and_get q =
     (case queue q of
        [] \<Rightarrow> Inr (None, q)
      | t # ts \<Rightarrow>
          (case event_map q t of
             None \<Rightarrow> Inl Past_the_end
           | Some res \<Rightarrow> Inr (Some res, q\<lparr>queue := ts, event_map := (event_map q)(t := None)\<rparr>)))"

section \<open>Serving a queue\<close>

text \<open>
  \<open>serve get n q\<close> calls \<open>get\<close> at most \<open>n\<close> times and stops at an empty queue: what repeated
  iterations of the main loop obtain from the queue.
\<close>

fun serve :: "('q \<Rightarrow> ('e option \<times> 'q) result) \<Rightarrow> nat \<Rightarrow> 'q \<Rightarrow> ('e list \<times> 'q) result" where
  "serve get 0 q = Inr ([], q)"
| "serve get (Suc n) q =
     bind_r (get q) (\<lambda>(r, q'). case r of None \<Rightarrow> Inr ([], q')
       | Some e \<Rightarrow> bind_r (serve get n q') (\<lambda>(es, q''). Inr (e # es, q'')))"

text \<open>
  The service order a coalescing queue promises for the events \<open>es\<close> put into an empty queue: the
  types in the order of their first event, each with the payload of its last one.
\<close>

definition coalesced :: "('e \<Rightarrow> 't) \<Rightarrow> 'e list \<Rightarrow> 'e list" where
  "coalesced tag es =
     map (\<lambda>t. last (filter (\<lambda>e. tag e = t) es)) (rev (remdups (rev (map tag es))))"

lemma fold_update_keys:
  "map fst (fold (\<lambda>e. AList.update (tag e) e) es []) = rev (remdups (rev (map tag es)))"
proof (induction es rule: rev_induct)
  case Nil
  then show ?case by simp
next
  case (snoc e es)
  have "set (map fst (fold (\<lambda>e. AList.update (tag e) e) es [])) = tag ` set es"
    unfolding snoc by simp
  with snoc show ?case by (simp add: update_keys)
qed

lemma map_of_fold_update:
  "t \<in> tag ` set es \<Longrightarrow>
   map_of (fold (\<lambda>e. AList.update (tag e) e) es []) t = Some (last (filter (\<lambda>e. tag e = t) es))"
  by (induction es rule: rev_induct) (auto simp: update_conv')

lemma snd_fold_update:
  "map snd (fold (\<lambda>e. AList.update (tag e) e) es []) = coalesced tag es"
proof -
  let ?c = "fold (\<lambda>e. AList.update (tag e) e) es []"
  have d: "distinct (map fst ?c)"
    by (simp add: fold_update_keys)
  have "map snd ?c = map (\<lambda>t. the (map_of ?c t)) (map fst ?c)"
    using d by (auto simp: map_of_is_SomeI)
  also have "\<dots> = coalesced tag es"
    unfolding coalesced_def fold_update_keys
    by (rule map_cong) (auto simp: map_of_fold_update)
  finally show ?thesis .
qed

section \<open>The interface\<close>

text \<open>
  The contract of a coalescing queue, stated on its content as an association list from event
  type to event in service order. The client lemmas below are about a queue that is filled and
  then served until it is empty.
\<close>

locale coalescing_queue =
  fixes tag :: "'e \<Rightarrow> 't"
    and put :: "'e \<Rightarrow> 'q \<Rightarrow> 'q"
    and get :: "'q \<Rightarrow> ('e option \<times> 'q) result"
    and contents :: "'q \<Rightarrow> ('t \<times> 'e) list"
    and ok :: "'q \<Rightarrow> bool"
  assumes ok_put: "ok q \<Longrightarrow> ok (put e q)"
    and contents_put: "ok q \<Longrightarrow> contents (put e q) = AList.update (tag e) e (contents q)"
    and get_empty: "ok q \<Longrightarrow> contents q = [] \<Longrightarrow> get q = Inr (None, q)"
    and get_first: "ok q \<Longrightarrow> contents q = (t, e) # rest \<Longrightarrow>
      \<exists>q'. get q = Inr (Some e, q') \<and> ok q' \<and> contents q' = rest"
    and keys_distinct: "ok q \<Longrightarrow> distinct (map fst (contents q))"
begin

lemma ok_puts: "ok q \<Longrightarrow> ok (fold put es q)"
  by (induction es arbitrary: q) (auto intro: ok_put)

lemma contents_puts:
  "ok q \<Longrightarrow> contents (fold put es q) = fold (\<lambda>e. AList.update (tag e) e) es (contents q)"
  by (induction es arbitrary: q) (auto simp: ok_put contents_put)

lemma get_total: "ok q \<Longrightarrow> \<exists>r q'. get q = Inr (r, q') \<and> ok q'"
  by (cases "contents q") (use get_empty get_first in fastforce)+

lemma get_none_iff: "ok q \<Longrightarrow> get q = Inr (r, q') \<Longrightarrow> r = None \<longleftrightarrow> contents q = []"
  by (cases "contents q") (use get_empty get_first in fastforce)+

text \<open>Serving the whole content gives the events in content order.\<close>

lemma serve_contents:
  "ok q \<Longrightarrow> \<exists>q'. serve get (length (contents q)) q = Inr (map snd (contents q), q')
     \<and> ok q' \<and> contents q' = []"
proof (induction "contents q" arbitrary: q)
  case Nil
  then show ?case by simp
next
  case (Cons p rest)
  obtain t e where p: "p = (t, e)" by force
  with Cons.hyps(2) Cons.prems obtain q' where
    q': "get q = Inr (Some e, q')" "ok q'" "contents q' = rest"
    using get_first by metis
  with Cons.hyps(1)[of q'] obtain q'' where
    "serve get (length rest) q' = Inr (map snd rest, q'')" "ok q''" "contents q'' = []"
    by auto
  with q' p Cons.hyps(2)[symmetric] show ?case by auto
qed

lemma serve_puts:
  assumes "ok q" and "contents q = []"
  shows "\<exists>q'. serve get (length (coalesced tag es)) (fold put es q) = Inr (coalesced tag es, q')
    \<and> ok q' \<and> contents q' = []"
proof -
  have c: "map snd (contents (fold put es q)) = coalesced tag es"
    using assms by (simp add: contents_puts snd_fold_update)
  then have "length (coalesced tag es) = length (contents (fold put es q))"
    by (metis length_map)
  with c serve_contents[OF ok_puts[OF assms(1)], of es] show ?thesis by simp
qed

end

section \<open>The implementation meets the interface\<close>

definition eq_inv :: "event_queue_struct \<Rightarrow> bool" where
  "eq_inv q \<longleftrightarrow> distinct (queue q) \<and> set (queue q) = dom (event_map q)
     \<and> (\<forall>t e. event_map q t = Some e \<longrightarrow> event_type e = t)"

definition eq_contents :: "event_queue_struct \<Rightarrow> (int \<times> event) list" where
  "eq_contents q = map (\<lambda>t. (t, the (event_map q t))) (queue q)"

lemma eq_inv_empty [simp]: "eq_inv empty_event_queue"
  by (simp add: eq_inv_def empty_event_queue_def)

lemma eq_contents_empty [simp]: "eq_contents empty_event_queue = []"
  by (simp add: eq_contents_def empty_event_queue_def)

lemma eq_inv_push [simp, inv_intros]: "eq_inv q \<Longrightarrow> eq_inv (push e q)"
  by (auto simp: eq_inv_def push_def Let_def)

lemma fst_eq_contents [simp]: "map fst (eq_contents q) = queue q"
  by (simp add: eq_contents_def comp_def)

lemma AList_update_map_self:
  assumes "distinct ks" and "k \<in> set ks"
  shows "AList.update k v (map (\<lambda>t. (t, f t)) ks) = map (\<lambda>t. (t, (f(k := v)) t)) ks"
  using assms by (induction ks) auto

lemma AList_update_new: "k \<notin> fst ` set xs \<Longrightarrow> AList.update k v xs = xs @ [(k, v)]"
  by (induction xs) auto

lemma eq_contents_push:
  assumes "eq_inv q"
  shows "eq_contents (push e q) = AList.update (event_type e) e (eq_contents q)"
proof (cases "event_map q (event_type e)")
  case None
  with assms have "event_type e \<notin> set (queue q)"
    by (auto simp: eq_inv_def)
  then have "event_type e \<notin> fst ` set (eq_contents q)"
    by (auto simp: eq_contents_def)
  then have "AList.update (event_type e) e (eq_contents q) = eq_contents q @ [(event_type e, e)]"
    by (rule AList_update_new)
  with None \<open>event_type e \<notin> set (queue q)\<close> show ?thesis
    by (auto simp: eq_contents_def push_def Let_def)
next
  case (Some x)
  with assms have "distinct (queue q)" "event_type e \<in> set (queue q)"
    by (auto simp: eq_inv_def)
  with Some show ?thesis
    by (auto simp: eq_contents_def push_def Let_def AList_update_map_self)
qed

lemma pop_first:
  assumes "eq_inv q" and "eq_contents q = (t, e) # rest"
  shows "\<exists>q'. pop_and_get q = Inr (Some e, q') \<and> eq_inv q' \<and> eq_contents q' = rest"
proof -
  from assms(2) obtain ts where ts: "queue q = t # ts" "e = the (event_map q t)"
    "rest = map (\<lambda>t. (t, the (event_map q t))) ts"
    by (auto simp: eq_contents_def)
  moreover from ts assms(1) have "t \<in> dom (event_map q)"
    by (auto simp: eq_inv_def)
  ultimately have "event_map q t = Some e"
    by auto
  with ts assms(1) show ?thesis
    by (auto simp: pop_and_get_def eq_inv_def eq_contents_def)
qed

interpretation eq: coalescing_queue event_type push pop_and_get eq_contents eq_inv
proof unfold_locales
  fix q e t rest
  assume ok: "eq_inv q"
  show "eq_inv (push e q)" "eq_contents (push e q) = AList.update (event_type e) e (eq_contents q)"
    using ok by (simp_all add: eq_contents_push)
  show "pop_and_get q = Inr (None, q)" if "eq_contents q = []"
    using that by (simp add: eq_contents_def pop_and_get_def)
  show "\<exists>q'. pop_and_get q = Inr (Some e, q') \<and> eq_inv q' \<and> eq_contents q' = rest"
    if "eq_contents q = (t, e) # rest"
    using ok that by (rule pop_first)
  show "distinct (map fst (eq_contents q))"
    using ok by (simp add: eq_inv_def)
qed

section \<open>Properties\<close>

lemma eq_inv_serve:
  "eq_inv q \<Longrightarrow> serve pop_and_get n q = Inr (es, q') \<Longrightarrow> eq_inv q'"
proof (induction n arbitrary: q es)
  case 0
  then show ?case by simp
next
  case (Suc n)
  from eq.get_total[OF Suc.prems(1)] obtain r q1 where "pop_and_get q = Inr (r, q1)" "eq_inv q1"
    by blast
  with Suc show ?case
    by (auto split: option.splits elim!: bind_r_InrE)
qed

text \<open>
  C1: Starting from the empty queue, any number of pushes followed by as many pops as there are
  waiting events hands out, for each event type in the order in which it was first pushed, the
  last event of that type that was pushed, and then the queue is empty. No event is handed out
  twice, and no pop reads past the end of the event map.
\<close>

theorem push_all_then_serve:
  "\<exists>q'. serve pop_and_get (length (coalesced event_type es)) (fold push es empty_event_queue)
          = Inr (coalesced event_type es, q')
      \<and> queue q' = [] \<and> pop_and_get q' = Inr (None, q')"
proof -
  from eq.serve_puts[of empty_event_queue es] obtain q' where
    "serve pop_and_get (length (coalesced event_type es)) (fold push es empty_event_queue)
       = Inr (coalesced event_type es, q')" "eq_inv q'" "eq_contents q' = []"
    by auto
  moreover from this have "queue q' = []"
    by (metis fst_eq_contents list.simps(8))
  ultimately show ?thesis
    by (blast intro: eq.get_empty)
qed

lemma eq_length_bound:
  assumes "eq_inv q"
  shows "length (queue q) \<le> 5"
proof -
  have "set (queue q) \<subseteq> {0..4}"
  proof
    fix t
    assume "t \<in> set (queue q)"
    with assms obtain e where "event_map q t = Some e" "event_type e = t"
      by (fastforce simp: eq_inv_def)
    with event_type_range[of e] show "t \<in> {0..4}" by simp
  qed
  then have "card (set (queue q)) \<le> card {0..4::int}"
    by (intro card_mono) auto
  moreover have "card (set (queue q)) = length (queue q)"
    using assms by (intro distinct_card) (simp add: eq_inv_def)
  ultimately show ?thesis by simp
qed

lemma eq_pop_total:
  assumes "eq_inv q"
  shows "\<exists>r q'. pop_and_get q = Inr (r, q') \<and> eq_inv q' \<and> (r = None \<longleftrightarrow> queue q = [])"
proof -
  from eq.get_total[OF assms] obtain r q' where "pop_and_get q = Inr (r, q')" "eq_inv q'"
    by blast
  moreover from this have "r = None \<longleftrightarrow> queue q = []"
    using eq.get_none_iff[OF assms] by (metis fst_eq_contents list.map_disc_iff)
  ultimately show ?thesis by blast
qed

text \<open>
  C2: In every queue that obeys the representation invariant, both operations are total and keep
  the invariant, a pop hands out nothing exactly when nothing waits, and at most five events wait,
  one per event type.
\<close>

theorem event_queue_safe:
  assumes "eq_inv q"
  shows "eq_inv (push e q) \<and> length (queue q) \<le> 5
    \<and> (\<exists>r q'. pop_and_get q = Inr (r, q') \<and> eq_inv q' \<and> (r = None \<longleftrightarrow> queue q = []))"
  using assms by (simp add: eq_length_bound eq_pop_total)

theorem event_queue_safe_witness:
  "eq_inv (push event_quit empty_event_queue) \<and> length (queue empty_event_queue) \<le> 5"
  using event_queue_safe[OF eq_inv_empty, of event_quit] by blast

end
