(* ===== verification/App_State.thy ===== *)
theory App_State
  imports Td_Api Event_Queue "HOL-Library.Product_Lexorder"
begin

text \<open>
  \<^verbatim>\<open>tl_app_state_struct\<close> of \<^verbatim>\<open>src/global.h\<close>: what the client knows of the account, shared by the
  Telegram thread, which writes it, and the user-interface thread, which displays it. The locks of
  \<^verbatim>\<open>mutexes\<close> make the accessors and the update handlers atomic; they carry no data and are not part
  of the record.
\<close>

section \<open>The state\<close>

type_synonym chat_order = "int \<times> int53"  \<comment> \<open>\<^verbatim>\<open>p64_53\<close>: order, then chat identifier\<close>

record tl_app_state =
  st_current_pane :: int
  st_terminating :: bool
  id_to_user :: "int53 \<rightharpoonup> user"
  id_to_user_full_info :: "int53 \<rightharpoonup> blob"
  id_to_chat :: "int53 \<rightharpoonup> chat"
  id_to_basicgroup :: "int53 \<rightharpoonup> basic_group"
  id_to_basicgroup_full_info :: "int53 \<rightharpoonup> blob"
  id_to_supergroup :: "int53 \<rightharpoonup> supergroup"
  id_to_supergroup_full_info :: "int53 \<rightharpoonup> blob"
  position_sets :: "int \<rightharpoonup> chat_order list"
  id_to_position :: "int \<rightharpoonup> (int53 \<rightharpoonup> int)"
  chosen_chat_id :: int53
  scroll_offset :: "int \<rightharpoonup> u64"
  current_chatlist :: int
  st_messages :: "int53 \<rightharpoonup> message list"

text \<open>
  The constructor. \<^verbatim>\<open>_current_pane\<close> and \<^verbatim>\<open>_terminating\<close> have no initialiser, so their first values
  are whatever the memory held: they are arguments of the model.
\<close>

definition new_app_state :: "int \<Rightarrow> bool \<Rightarrow> tl_app_state" where
  "new_app_state garbage_pane garbage_terminating =
     \<lparr>st_current_pane = garbage_pane, st_terminating = garbage_terminating,
      id_to_user = Map.empty, id_to_user_full_info = Map.empty, id_to_chat = Map.empty,
      id_to_basicgroup = Map.empty, id_to_basicgroup_full_info = Map.empty,
      id_to_supergroup = Map.empty, id_to_supergroup_full_info = Map.empty,
      position_sets = Map.empty, id_to_position = Map.empty,
      chosen_chat_id = - 1, scroll_offset = Map.empty,
      current_chatlist = chat_list_id ChatListMain, st_messages = Map.empty\<rparr>"

section \<open>Accessors\<close>

definition current_pane :: "tl_app_state \<Rightarrow> int" where
  "current_pane st = st_current_pane st"

definition set_current_pane :: "int \<Rightarrow> tl_app_state \<Rightarrow> tl_app_state" where
  "set_current_pane e st = st\<lparr>st_current_pane := e\<rparr>"

definition terminating :: "tl_app_state \<Rightarrow> bool" where
  "terminating st = st_terminating st"

definition set_terminating :: "bool \<Rightarrow> tl_app_state \<Rightarrow> tl_app_state" where
  "set_terminating e st = st\<lparr>st_terminating := e\<rparr>"

section \<open>The containers\<close>

text \<open>
  \<^verbatim>\<open>position_sets[l]\<close> iterates by \<^verbatim>\<open>std::greater\<close> on the pair (order, chat); \<^verbatim>\<open>messages[c]\<close> by
  \<^verbatim>\<open>cmp_msg_reverse_chrono\<close>, that is by the date alone.
\<close>

definition position_set :: "tl_app_state \<Rightarrow> int \<Rightarrow> chat_order list" where
  "position_set st l = at_def [] (position_sets st) l"

definition position_map :: "tl_app_state \<Rightarrow> int \<Rightarrow> (int53 \<rightharpoonup> int)" where
  "position_map st l = at_def Map.empty (id_to_position st) l"

definition messages_of :: "tl_app_state \<Rightarrow> int53 \<Rightarrow> message list" where
  "messages_of st c = at_def [] (st_messages st) c"

definition scroll_of :: "tl_app_state \<Rightarrow> int \<Rightarrow> u64" where
  "scroll_of st pan = at_def 0 (scroll_offset st) pan"

definition cmp_msg_reverse_chrono :: "message \<Rightarrow> message \<Rightarrow> bool" where
  "cmp_msg_reverse_chrono m1 m2 \<longleftrightarrow> msg_date m1 > msg_date m2"

abbreviation pset_insert :: "chat_order \<Rightarrow> chat_order list \<Rightarrow> chat_order list" where
  "pset_insert \<equiv> oset_insert (\<lambda>p. p)"

abbreviation pset_erase :: "chat_order \<Rightarrow> chat_order list \<Rightarrow> chat_order list" where
  "pset_erase \<equiv> oset_erase (\<lambda>p. p)"

lemma oset_cmp_msg:
  "oset msg_date xs \<longleftrightarrow> sorted_wrt cmp_msg_reverse_chrono xs"
  unfolding oset_def cmp_msg_reverse_chrono_def by simp

section \<open>The shared state of the two threads\<close>

record shared_state =
  app_state :: tl_app_state
  events :: event_queue_struct

definition push_event :: "event \<Rightarrow> shared_state \<Rightarrow> shared_state" where
  "push_event e s = s\<lparr>events := push e (events s)\<rparr>"

definition upd_app :: "(tl_app_state \<Rightarrow> tl_app_state) \<Rightarrow> shared_state \<Rightarrow> shared_state" where
  "upd_app f s = s\<lparr>app_state := f (app_state s)\<rparr>"

lemma shared_simps [simp, frame_simps]:
  "app_state (push_event e s) = app_state s"
  "events (push_event e s) = push e (events s)"
  "app_state (upd_app f s) = f (app_state s)"
  "events (upd_app f s) = events s"
  by (simp_all add: push_event_def upd_app_def)

end
