(* ===== verification/Layout.thy ===== *)
theory Layout
  imports Curses App_State
begin

unbundle bit_operations_syntax

text \<open>
  The windows and what is drawn into them (\<^verbatim>\<open>src/layout.h\<close>, \<^verbatim>\<open>src/layout.cc\<close>): the chat list on
  the left, the messages on the right, the composer at the bottom, and the two border windows.
  Sizes and coordinates are C++ \<^verbatim>\<open>int\<close>s bounded by the terminal size, modelled as integers;
  \<^verbatim>\<open>size_t\<close> values are 64-bit words.
\<close>

section \<open>Panel identifiers\<close>

definition ID_SIDE :: int where "ID_SIDE = 1"
definition ID_MAIN :: int where "ID_MAIN = 2"
definition ID_COMP :: int where "ID_COMP = 4"
definition ID_E_SIDE_MAIN :: int where "ID_E_SIDE_MAIN = 16"
definition ID_E_COMP_TOP :: int where "ID_E_COMP_TOP = 32"
definition ID_C_SIDE_MAIN_COMP :: int where
  "ID_C_SIDE_MAIN_COMP = ID_E_SIDE_MAIN OR ID_E_COMP_TOP"

lemma ID_values:
  "ID_SIDE = 1" "ID_MAIN = 2" "ID_COMP = 4" "ID_E_SIDE_MAIN = 16" "ID_E_COMP_TOP = 32"
  "ID_C_SIDE_MAIN_COMP = 48"
  by (simp_all add: ID_SIDE_def ID_MAIN_def ID_COMP_def ID_E_SIDE_MAIN_def ID_E_COMP_TOP_def
      ID_C_SIDE_MAIN_COMP_def)

definition panel_ids :: "int list" where
  "panel_ids = [ID_SIDE, ID_MAIN, ID_COMP, ID_E_SIDE_MAIN, ID_C_SIDE_MAIN_COMP]"

section \<open>Geometry\<close>

text \<open>The division of \<^verbatim>\<open>int\<close> by a positive constant truncates towards zero.\<close>

definition int_div :: "int \<Rightarrow> int \<Rightarrow> int" where
  "int_div a b = (if a < 0 then - ((- a) div b) else a div b)"

definition init_config :: "screen \<Rightarrow> screen" where
  "init_config scr = scr\<lparr>side_w := min 32 (int_div (COLS scr) 4),
                         composer_h := min 3 (int_div (LINES scr) 5)\<rparr>"

text \<open>
  The arguments of the five \<^verbatim>\<open>newwin\<close> calls of \<^verbatim>\<open>init_layout\<close>, in call order, with the panel each
  window is for: panel, lines, columns, first line, first column. \<^verbatim>\<open>resize\<close> has calls of its own.
\<close>

definition init_windows :: "screen \<Rightarrow> (int \<times> int \<times> int \<times> int \<times> int) list" where
  "init_windows scr =
     [(ID_SIDE, LINES scr - composer_h scr - 1, side_w scr, 0, 0),
      (ID_MAIN, LINES scr - composer_h scr - 1, COLS scr - side_w scr - 1, 0, side_w scr + 1),
      (ID_COMP, composer_h scr, COLS scr, LINES scr - composer_h scr, 0),
      (ID_E_SIDE_MAIN, LINES scr - composer_h scr - 1, 1, 0, side_w scr),
      (ID_C_SIDE_MAIN_COMP, 1, COLS scr, LINES scr - composer_h scr - 1, 0)]"

definition resize_windows :: "screen \<Rightarrow> (int \<times> int \<times> int \<times> int \<times> int) list" where
  "resize_windows scr =
     [(ID_SIDE, LINES scr - composer_h scr - 1, side_w scr, 0, 0),
      (ID_MAIN, LINES scr - composer_h scr - 1, COLS scr - side_w scr - 1, 0, side_w scr + 1),
      (ID_COMP, composer_h scr, COLS scr, LINES scr - composer_h scr, 0),
      (ID_E_SIDE_MAIN, LINES scr - composer_h scr - 1, 1, 0, side_w scr),
      (ID_C_SIDE_MAIN_COMP, 1, COLS scr, LINES scr - composer_h scr - 1, 0)]"

fun create_windows ::
    "curses_api \<Rightarrow> (int \<times> int \<times> int \<times> int \<times> int) list \<Rightarrow> screen \<Rightarrow>
     (int \<times> nat option) list \<times> screen" where
  "create_windows api [] scr = ([], scr)"
| "create_windows api ((k, nl, nc, y, x) # specs) scr =
     (let (w, scr1) = newwin api nl nc y x scr;
          (ws, scr2) = create_windows api specs scr1
      in ((k, w) # ws, scr2))"

section \<open>Drawing\<close>

definition draw_border :: "screen \<Rightarrow> screen result" where
  "draw_border scr =
     (let v = panel_window scr ID_E_SIDE_MAIN; h = panel_window scr ID_C_SIDE_MAIN_COMP
      in bind_r (on_window v (Mvwvline v 0 0 (LINES scr - composer_h scr - 1)) scr) (\<lambda>scr1.
         bind_r (on_window h (Mvwhline h 0 0 (COLS scr)) scr1) (\<lambda>scr2.
           on_window h (Mvwaddch h 0 (side_w scr)) scr2)))"

text \<open>
  \<^verbatim>\<open>size_t\<close> from \<^verbatim>\<open>int\<close>, and the largest size of a \<^verbatim>\<open>std::string\<close>, beyond which its operations throw
  \<^verbatim>\<open>std::length_error\<close>.
\<close>

definition size_of_int :: "int \<Rightarrow> u64" where
  "size_of_int i = word_of_int i"

definition string_max_size :: nat where
  "string_max_size = 2 ^ 63 - 1"

definition pad_string :: "string \<Rightarrow> u64 \<Rightarrow> string result" where
  "pad_string s n =
     (if length s + unat n > string_max_size then Inl Length_error
      else Inr (s @ replicate (unat n) CHR '' ''))"

text \<open>The text of one line of the chat list, as it is passed to \<^verbatim>\<open>mvwaddstr\<close>.\<close>

definition side_text :: "int \<Rightarrow> string \<Rightarrow> string result" where
  "side_text maxx title =
     bind_r
       (if length title = 0 then Inr ''deleted account''
        else if length title < unat (size_of_int maxx)
        then pad_string title (size_of_int maxx - of_nat (length title))
        else Inr title)
       (\<lambda>name. Inr (c_str (take (unat (size_of_int maxx)) name)))"

definition blank_line :: "int \<Rightarrow> string result" where
  "blank_line width = pad_string [] (size_of_int width)"

fun draw_side_lines ::
    "nat option \<Rightarrow> int \<Rightarrow> tl_app_state \<Rightarrow> nat \<Rightarrow> nat \<Rightarrow> chat_order list \<Rightarrow> screen \<Rightarrow> screen result" where
  "draw_side_lines win maxx st i 0 pos scr = Inr scr"
| "draw_side_lines win maxx st i (Suc n) pos scr =
     (case pos of
        p # pos' \<Rightarrow>
          (case id_to_chat st (snd p) of
             None \<Rightarrow> Inl Null_deref
           | Some ch \<Rightarrow>
               bind_r (side_text maxx (chat_title ch)) (\<lambda>t.
               bind_r (if chosen_chat_id st = chat_id ch then on_window win (Attr_on win) scr
                       else Inr scr) (\<lambda>scr1.
               bind_r (on_window win (Mvwaddstr win (int i) 0 t) scr1) (\<lambda>scr2.
               bind_r (if chosen_chat_id st = chat_id ch then on_window win (Attr_off win) scr2
                       else Inr scr2) (\<lambda>scr3.
                 draw_side_lines win maxx st (Suc i) n pos' scr3)))))
      | [] \<Rightarrow>
          bind_r (blank_line maxx) (\<lambda>t.
          bind_r (on_window win (Mvwaddstr win (int i) 0 t) scr) (\<lambda>scr1.
            draw_side_lines win maxx st (Suc i) n [] scr1)))"

text \<open>
  \<^verbatim>\<open>std::advance\<close> beyond \<^verbatim>\<open>end()\<close> is undefined; \<open>drop_r n xs\<close> is the rest of the sequence from there.
\<close>

definition drop_r :: "u64 \<Rightarrow> 'a list \<Rightarrow> 'a list result" where
  "drop_r n xs = (if unat n > length xs then Inl Past_the_end else Inr (drop (unat n) xs))"

definition draw_side :: "curses_api \<Rightarrow> tl_app_state \<Rightarrow> screen \<Rightarrow> screen result" where
  "draw_side api st scr =
     (let set' = position_set st (current_chatlist st); win = panel_window scr ID_SIDE
      in bind_r (getmaxyx api win scr) (\<lambda>(maxy, maxx).
         bind_r (drop_r (scroll_of st ID_SIDE) set') (\<lambda>pos.
           draw_side_lines win maxx st 0
             (min (length set') (unat (size_of_int maxy))) pos scr)))"

text \<open>
  The text of one line of the message window. A text message is padded with spaces to the width
  and then cut to it; any other content is shown as a padded placeholder.
\<close>

definition main_text :: "int \<Rightarrow> message_content \<Rightarrow> string result" where
  "main_text width content =
     (case content of
        MessageText text \<Rightarrow>
          bind_r (pad_string text (size_of_int (max 0 (width - int (length text))))) (\<lambda>t.
            if unat (size_of_int width) > string_max_size then Inl Length_error
            else Inr (c_str (take (unat (size_of_int width)) t)))
      | MessageOther _ \<Rightarrow>
          pad_string ''<empty>'' (size_of_int (max 0 (width - int (length ''<empty>'')))))"

text \<open>The loop of \<^verbatim>\<open>draw_main\<close>, from the bottom line upwards: \<open>n\<close> is \<^verbatim>\<open>lines\<close> before the decrement.\<close>

fun draw_main_lines ::
    "nat option \<Rightarrow> int \<Rightarrow> nat \<Rightarrow> message list \<Rightarrow> screen \<Rightarrow> screen result" where
  "draw_main_lines win width 0 it scr = Inr scr"
| "draw_main_lines win width (Suc n) it scr =
     (case it of
        m # it' \<Rightarrow>
          bind_r (main_text width (msg_content m)) (\<lambda>t.
          bind_r (on_window win (Mvwaddstr win (int n) 0 t) scr) (\<lambda>scr1.
            draw_main_lines win width n it' scr1))
      | [] \<Rightarrow>
          bind_r (blank_line width) (\<lambda>t.
          bind_r (on_window win (Mvwaddstr win (int n) 0 t) scr) (\<lambda>scr1.
            draw_main_lines win width n [] scr1)))"

text \<open>
  With a negative number of lines (a null window) the loop counts down from there: it ends in the
  exception of the first blank line when the width is negative too, otherwise it would overflow.
\<close>

definition draw_main :: "curses_api \<Rightarrow> tl_app_state \<Rightarrow> screen \<Rightarrow> screen result" where
  "draw_main api st scr =
     (if chosen_chat_id st = - 1 then Inr scr
      else
        (let win = panel_window scr ID_MAIN
         in bind_r (drop_r (scroll_of st ID_MAIN) (messages_of st (chosen_chat_id st))) (\<lambda>it.
            bind_r (getmaxy api win scr) (\<lambda>lines.
            bind_r (getmaxx api win scr) (\<lambda>width.
            bind_r (if lines < 0 then Inl (if width < 0 then Length_error else Signed_overflow)
                    else draw_main_lines win width (nat lines) it scr) (\<lambda>scr1.
              on_window win (Wnoutrefresh win) scr1))))))"

definition draw_composer :: "tl_app_state \<Rightarrow> screen \<Rightarrow> screen result" where
  "draw_composer st scr = Inr scr"

definition cursor_of :: "screen \<Rightarrow> int \<Rightarrow> int \<times> int" where
  "cursor_of scr pan = at_def (0, 0) (cursor_positions scr) pan"

definition draw_cursor :: "screen \<Rightarrow> screen result" where
  "draw_cursor scr =
     (let win = panel_window scr (current_pan scr); curpos = cursor_of scr (current_pan scr)
      in bind_r (on_window win (Wmove win (fst curpos) (snd curpos)) scr) (\<lambda>scr1.
           on_window win (Wnoutrefresh win) scr1))"

definition fill :: "curses_api \<Rightarrow> tl_app_state \<Rightarrow> screen \<Rightarrow> screen result" where
  "fill api st scr =
     bind_r (draw_main api st scr) (\<lambda>scr1.
     bind_r (draw_side api st scr1) (\<lambda>scr2.
       draw_composer st scr2))"

definition draw_pane :: "curses_api \<Rightarrow> tl_app_state \<Rightarrow> int \<Rightarrow> screen \<Rightarrow> screen result" where
  "draw_pane api st pane scr =
     (if pane = ID_SIDE then draw_side api st scr
      else if pane = ID_COMP then draw_composer st scr
      else if pane = ID_MAIN then draw_main api st scr
      else Inr scr)"

text \<open>\<^verbatim>\<open>update_panels\<close> reads the window of every panel.\<close>

definition update_panels :: "screen \<Rightarrow> screen result" where
  "update_panels scr =
     (if list_all (\<lambda>k. alive (panel_window scr k) scr) panel_ids
      then Inr (record_call Update_panels scr) else Inl Use_after_free)"

definition doupdate :: "screen \<Rightarrow> screen" where
  "doupdate scr = record_call Doupdate scr"

definition curs_set :: "int \<Rightarrow> screen \<Rightarrow> screen" where
  "curs_set v scr = record_call (Curs_set v) scr"

section \<open>Creating and resizing the layout\<close>

definition init_layout :: "curses_api \<Rightarrow> tl_app_state \<Rightarrow> screen \<Rightarrow> screen result" where
  "init_layout api st scr =
     (let (ws, scr1) = create_windows api (init_windows scr) scr;
          scr2 = fold (\<lambda>(k, w). new_panel api k w) ws scr1;
          scr3 = scr2\<lparr>current_pan := ID_SIDE\<rparr>
      in bind_r (draw_border scr3) (\<lambda>scr4.
         bind_r (fill api st scr4) (\<lambda>scr5.
         bind_r (draw_cursor scr5) (\<lambda>scr6.
         bind_r (update_panels scr6) (\<lambda>scr7.
           Inr (doupdate scr7))))))"

definition clamp_cursor :: "curses_api \<Rightarrow> int \<Rightarrow> screen \<Rightarrow> screen result" where
  "clamp_cursor api i scr =
     bind_r (getmaxyx api (panel_window scr i) scr) (\<lambda>(maxy, maxx).
       Inr (scr\<lparr>cursor_positions := (cursor_positions scr)
              (i \<mapsto> (min (fst (cursor_of scr i)) (maxy - 1),
                     min (snd (cursor_of scr i)) (maxx - 1)))\<rparr>))"

definition resize :: "curses_api \<Rightarrow> tl_app_state \<Rightarrow> int \<Rightarrow> int \<Rightarrow> screen \<Rightarrow> screen result" where
  "resize api st new_side_w new_composer_h scr =
     (if new_side_w \<ge> COLS scr then Inr scr
      else if new_composer_h \<ge> LINES scr then Inr scr
      else
        (let scr0 = scr\<lparr>side_w := new_side_w, composer_h := new_composer_h\<rparr>;
             (ws, scr1) = create_windows api (resize_windows scr0) scr0;
             old = map (\<lambda>(k, w). panel_window scr1 k) ws;
             scr2 = fold (\<lambda>(k, w). replace_panel api k w) ws scr1
         in bind_r (fold_r delwin old scr2) (\<lambda>scr3.
            bind_r (fold_r (clamp_cursor api) [ID_SIDE, ID_MAIN, ID_COMP] scr3) (\<lambda>scr4.
            bind_r (draw_border scr4) (\<lambda>scr5.
            bind_r (fill api st scr5) (\<lambda>scr6.
            bind_r (draw_cursor scr6) (\<lambda>scr7.
              update_panels scr7)))))))"

end
