(* ===== verification/Chat_Updates.thy ===== *)
theory Chat_Updates
  imports App_State
begin

text \<open>
  The update handlers of \<^verbatim>\<open>TgClient\<close> that write the application state (\<^verbatim>\<open>src/tg.cc\<close>): chat lists and
  positions, stored objects, received messages. Each handler of chat lists and messages runs under the lock
  of the containers it writes, the others write what only the Telegram thread uses, so each is one
  operation on the shared state; what the other thread reads without the lock is in \<open>Chatcurse\<close>.
\<close>

section \<open>Chat positions\<close>

definition update_position :: "int53 \<Rightarrow> chat_position \<Rightarrow> tl_app_state \<Rightarrow> tl_app_state" where
  "update_position cid u st =
     (let list_id = chat_list_id (pos_list u);
          pos_map = position_map st list_id;
          pos_set = position_set st list_id
      in case pos_map cid of
           None \<Rightarrow> st
         | Some old_order \<Rightarrow>
             (let pos_set' = pset_erase (old_order, cid) pos_set
              in if pos_order u \<noteq> 0 then
                   st\<lparr>position_sets := (position_sets st)
                        (list_id \<mapsto> pset_insert (pos_order u, cid) pos_set'),
                      id_to_position := (id_to_position st)
                        (list_id \<mapsto> pos_map(cid \<mapsto> pos_order u))\<rparr>
                 else
                   st\<lparr>position_sets := (position_sets st)(list_id \<mapsto> pos_set'),
                      id_to_position := (id_to_position st)
                        (list_id \<mapsto> pos_map(cid := None))\<rparr>))"

text \<open>
  The two statements with which \<^verbatim>\<open>process_update_new_chat\<close> and
  \<^verbatim>\<open>process_update_chat_added_to_list\<close> put a chat into a list at order 0.
\<close>

definition list_chat :: "int53 \<Rightarrow> chat_list \<Rightarrow> tl_app_state \<Rightarrow> tl_app_state" where
  "list_chat cid l st =
     (let list_id = chat_list_id l
      in st\<lparr>id_to_position := (id_to_position st)(list_id \<mapsto> (position_map st list_id)(cid \<mapsto> 0)),
            position_sets := (position_sets st)
              (list_id \<mapsto> pset_insert (0, cid) (position_set st list_id))\<rparr>)"

section \<open>The handlers\<close>

definition process_update_user :: "user \<Rightarrow> shared_state \<Rightarrow> shared_state" where
  "process_update_user u =
     upd_app (\<lambda>st. st\<lparr>id_to_user := (id_to_user st)(user_id u \<mapsto> u)\<rparr>)"

definition process_update_user_full_info :: "int53 \<Rightarrow> blob \<Rightarrow> shared_state \<Rightarrow> shared_state" where
  "process_update_user_full_info uid info =
     upd_app (\<lambda>st. st\<lparr>id_to_user_full_info := (id_to_user_full_info st)(uid \<mapsto> info)\<rparr>)"

definition process_update_new_chat :: "chat \<Rightarrow> shared_state \<Rightarrow> shared_state" where
  "process_update_new_chat ch s =
     (let s1 = upd_app (fold (list_chat (chat_id ch)) (chat_lists ch)) s;
          s2 = upd_app (fold (update_position (chat_id ch)) (chat_positions ch)) s1;
          s3 = push_event event_chatlist s2
      in upd_app (\<lambda>st. st\<lparr>id_to_chat := (id_to_chat st)(chat_id ch \<mapsto> ch)\<rparr>) s3)"

definition process_update_basicgroup :: "basic_group \<Rightarrow> shared_state \<Rightarrow> shared_state" where
  "process_update_basicgroup g =
     upd_app (\<lambda>st. st\<lparr>id_to_basicgroup := (id_to_basicgroup st)(basic_group_id g \<mapsto> g)\<rparr>)"

definition process_update_basicgroup_full_info ::
    "int53 \<Rightarrow> blob \<Rightarrow> shared_state \<Rightarrow> shared_state" where
  "process_update_basicgroup_full_info gid info =
     upd_app (\<lambda>st. st\<lparr>id_to_basicgroup_full_info := (id_to_basicgroup_full_info st)(gid \<mapsto> info)\<rparr>)"

definition process_update_supergroup :: "supergroup \<Rightarrow> shared_state \<Rightarrow> shared_state" where
  "process_update_supergroup g =
     upd_app (\<lambda>st. st\<lparr>id_to_supergroup := (id_to_supergroup st)(supergroup_id g \<mapsto> g)\<rparr>)"

definition process_update_supergroup_full_info ::
    "int53 \<Rightarrow> blob \<Rightarrow> shared_state \<Rightarrow> shared_state" where
  "process_update_supergroup_full_info gid info =
     upd_app (\<lambda>st. st\<lparr>id_to_supergroup_full_info := (id_to_supergroup_full_info st)(gid \<mapsto> info)\<rparr>)"

definition process_update_chat_added_to_list ::
    "int53 \<Rightarrow> chat_list \<Rightarrow> shared_state \<Rightarrow> shared_state" where
  "process_update_chat_added_to_list cid l s =
     push_event event_chatlist (upd_app (list_chat cid l) s)"

definition process_update_chat_position ::
    "int53 \<Rightarrow> chat_position \<Rightarrow> shared_state \<Rightarrow> shared_state" where
  "process_update_chat_position cid p s =
     push_event event_chatlist (upd_app (update_position cid p) s)"

text \<open>
  \<^verbatim>\<open>id_to_chat[id]\<close> of a chat that was never announced is a null pointer, and it is dereferenced.
\<close>

definition process_update_chat_last_message ::
    "int53 \<Rightarrow> message option \<Rightarrow> chat_position list \<Rightarrow> shared_state \<Rightarrow> shared_state result" where
  "process_update_chat_last_message cid msg positions s =
     (case id_to_chat (app_state s) cid of
        None \<Rightarrow> Inl Null_deref
      | Some ch \<Rightarrow>
          (let s1 = upd_app (\<lambda>st. st\<lparr>id_to_chat := (id_to_chat st)
                               (cid \<mapsto> ch\<lparr>chat_last_message := msg\<rparr>)\<rparr>) s;
               s2 = (if positions \<noteq> []
                     then upd_app (fold (update_position cid) positions) s1 else s1)
           in Inr (push_event event_chatlist s2)))"

section \<open>Received messages\<close>

text \<open>
  \<^verbatim>\<open>messages[chat_id].emplace(std::move(*it))\<close>. The comparator dereferences both pointers. A null
  pointer in the vector is compared with an element of the set, because the first message, whose
  \<^verbatim>\<open>chat_id_\<close> was read, is in the set or equivalent to one that is.
\<close>

definition emplace_message ::
    "int53 \<Rightarrow> message option \<Rightarrow> tl_app_state \<Rightarrow> tl_app_state result" where
  "emplace_message cid m st =
     (case m of
        None \<Rightarrow> Inl Null_deref
      | Some x \<Rightarrow> Inr (st\<lparr>st_messages := (st_messages st)
                       (cid \<mapsto> oset_insert msg_date x (messages_of st cid))\<rparr>))"

definition process_get_chat_history ::
    "int \<Rightarrow> message option list \<Rightarrow> shared_state \<Rightarrow> shared_state result" where
  "process_get_chat_history total_count msgs s =
     (if total_count = 0 then Inr s
      else case msgs of
             [] \<Rightarrow> Inl Out_of_range
           | None # _ \<Rightarrow> Inl Null_deref
           | Some m # _ \<Rightarrow>
               bind_r (fold_r (emplace_message (msg_chat_id m)) msgs (app_state s)) (\<lambda>st.
                 Inr (push_event (event_messages (msg_chat_id m)) (s\<lparr>app_state := st\<rparr>))))"

section \<open>Invariants\<close>

text \<open>
  The two representations of a chat list agree: \<open>position_set\<close> is an ordered set and holds exactly
  the pairs of \<open>position_map\<close>.
\<close>

definition chat_lists_ok :: "tl_app_state \<Rightarrow> bool" where
  "chat_lists_ok st \<longleftrightarrow>
     (\<forall>l. oset (\<lambda>p. p) (position_set st l)
        \<and> (\<forall>q c. (q, c) \<in> set (position_set st l) \<longleftrightarrow> position_map st l c = Some q))"

text \<open>Every listed chat was announced, and a chat is stored under its own identifier.\<close>

definition chats_known :: "tl_app_state \<Rightarrow> bool" where
  "chats_known st \<longleftrightarrow>
     (\<forall>l. dom (position_map st l) \<subseteq> dom (id_to_chat st))
     \<and> (\<forall>c ch. id_to_chat st c = Some ch \<longrightarrow> chat_id ch = c)"

definition messages_ok :: "tl_app_state \<Rightarrow> bool" where
  "messages_ok st \<longleftrightarrow> (\<forall>c. oset msg_date (messages_of st c))"

definition app_inv :: "tl_app_state \<Rightarrow> bool" where
  "app_inv st \<longleftrightarrow> chat_lists_ok st \<and> chats_known st \<and> messages_ok st"

lemma chat_lists_okD:
  assumes "chat_lists_ok st"
  shows "oset (\<lambda>p. p) (position_set st l)"
    and "(q, c) \<in> set (position_set st l) \<longleftrightarrow> position_map st l c = Some q"
  using assms by (simp_all add: chat_lists_ok_def)

subsection \<open>What the two position operations do to each list\<close>

lemma position_map_update_position:
  "position_map (update_position cid u st) l =
     (if l = chat_list_id (pos_list u) \<and> position_map st l cid \<noteq> None
      then (position_map st l)(cid := (if pos_order u \<noteq> 0 then Some (pos_order u) else None))
      else position_map st l)"
  by (auto simp: update_position_def position_map_def Let_def split: option.splits)

lemma position_set_update_position:
  "position_set (update_position cid u st) l =
     (case position_map st l cid of
        Some old \<Rightarrow>
          if l = chat_list_id (pos_list u) then
            (if pos_order u \<noteq> 0
             then pset_insert (pos_order u, cid) (pset_erase (old, cid) (position_set st l))
             else pset_erase (old, cid) (position_set st l))
          else position_set st l
      | None \<Rightarrow> position_set st l)"
  by (auto simp: update_position_def position_map_def position_set_def Let_def
      split: option.splits)

lemma position_map_list_chat:
  "position_map (list_chat cid li st) l =
     (if l = chat_list_id li then (position_map st l)(cid \<mapsto> 0) else position_map st l)"
  by (simp add: list_chat_def position_map_def Let_def)

lemma position_set_list_chat:
  "position_set (list_chat cid li st) l =
     (if l = chat_list_id li then pset_insert (0, cid) (position_set st l) else position_set st l)"
  by (simp add: list_chat_def position_set_def Let_def)

lemmas position_simps =
  position_map_update_position position_set_update_position
  position_map_list_chat position_set_list_chat

lemma update_position_frame [simp, frame_simps]:
  "id_to_chat (update_position cid u st) = id_to_chat st"
  "st_messages (update_position cid u st) = st_messages st"
  "chosen_chat_id (update_position cid u st) = chosen_chat_id st"
  "scroll_offset (update_position cid u st) = scroll_offset st"
  "current_chatlist (update_position cid u st) = current_chatlist st"
  "st_terminating (update_position cid u st) = st_terminating st"
  by (simp_all add: update_position_def Let_def split: option.splits)

lemma list_chat_frame [simp, frame_simps]:
  "id_to_chat (list_chat cid li st) = id_to_chat st"
  "st_messages (list_chat cid li st) = st_messages st"
  "chosen_chat_id (list_chat cid li st) = chosen_chat_id st"
  "scroll_offset (list_chat cid li st) = scroll_offset st"
  "current_chatlist (list_chat cid li st) = current_chatlist st"
  "st_terminating (list_chat cid li st) = st_terminating st"
  by (simp_all add: list_chat_def Let_def)

lemma fold_frame:
  assumes "\<And>x st. g (f x st) = g st"
  shows "g (fold f xs st) = g st"
  using assms by (induction xs arbitrary: st) auto

lemmas fold_update_position_frame [simp, frame_simps] =
  fold_frame[where f = "update_position cid" for cid, OF update_position_frame(1)]
  fold_frame[where f = "update_position cid" for cid, OF update_position_frame(2)]
  fold_frame[where f = "update_position cid" for cid, OF update_position_frame(3)]
  fold_frame[where f = "update_position cid" for cid, OF update_position_frame(4)]
  fold_frame[where f = "update_position cid" for cid, OF update_position_frame(5)]
  fold_frame[where f = "update_position cid" for cid, OF update_position_frame(6)]

lemmas fold_list_chat_frame [simp, frame_simps] =
  fold_frame[where f = "list_chat cid" for cid, OF list_chat_frame(1)]
  fold_frame[where f = "list_chat cid" for cid, OF list_chat_frame(2)]
  fold_frame[where f = "list_chat cid" for cid, OF list_chat_frame(3)]
  fold_frame[where f = "list_chat cid" for cid, OF list_chat_frame(4)]
  fold_frame[where f = "list_chat cid" for cid, OF list_chat_frame(5)]
  fold_frame[where f = "list_chat cid" for cid, OF list_chat_frame(6)]

subsection \<open>Preservation of the agreement\<close>

text \<open>Moving a chat within a list, over the interface of the ordered container.\<close>

lemma set_update_position:
  assumes ok: "chat_lists_ok st" and old: "position_map st (chat_list_id (pos_list u)) cid = Some q0"
  shows "set (position_set (update_position cid u st) (chat_list_id (pos_list u))) =
    {p \<in> set (position_set st (chat_list_id (pos_list u))). snd p \<noteq> cid}
    \<union> (if pos_order u \<noteq> 0 then {(pos_order u, cid)} else {})"
proof -
  let ?ps = "position_set st (chat_list_id (pos_list u))"
  have eq: "{p \<in> set ?ps. p \<noteq> (q0, cid)} = {p \<in> set ?ps. snd p \<noteq> cid}"
    using chat_lists_okD(2)[OF ok, of _ _ "chat_list_id (pos_list u)"] old by auto
  have del: "set (pset_erase (q0, cid) ?ps) = {p \<in> set ?ps. p \<noteq> (q0, cid)}"
    using std_set.iter_del[OF chat_lists_okD(1)[OF ok]] by simp
  have "set (pset_insert (pos_order u, cid) (pset_erase (q0, cid) ?ps))
      = insert (pos_order u, cid) {p \<in> set ?ps. p \<noteq> (q0, cid)}"
    by (rule std_set.replace_elems[OF chat_lists_okD(1)[OF ok]]) (auto simp: eq)
  then show ?thesis
    by (auto simp: position_set_update_position old del eq)
qed

lemma chat_lists_ok_update_position [simp, inv_intros]:
  assumes ok: "chat_lists_ok st"
  shows "chat_lists_ok (update_position cid u st)"
proof (cases "position_map st (chat_list_id (pos_list u)) cid")
  case None
  then have "update_position cid u st = st"
    by (simp add: update_position_def Let_def)
  with ok show ?thesis by simp
next
  case (Some q0)
  show ?thesis
    unfolding chat_lists_ok_def
  proof (intro allI conjI)
    fix l q c
    show "oset (\<lambda>p. p) (position_set (update_position cid u st) l)"
      using chat_lists_okD(1)[OF ok]
      by (simp add: position_set_update_position split: option.splits)
    show "(q, c) \<in> set (position_set (update_position cid u st) l)
        \<longleftrightarrow> position_map (update_position cid u st) l c = Some q"
    proof (cases "l = chat_list_id (pos_list u)")
      case True
      with Some chat_lists_okD(2)[OF ok, of q c l] show ?thesis
        by (auto simp: set_update_position[OF ok Some] position_map_update_position)
    next
      case False
      with chat_lists_okD(2)[OF ok, of q c l] show ?thesis
        by (auto simp: position_simps split: option.splits)
    qed
  qed
qed

lemma chat_lists_ok_list_chat [inv_intros]:
  assumes ok: "chat_lists_ok st"
    and fresh: "position_map st (chat_list_id li) cid \<in> {None, Some 0}"
  shows "chat_lists_ok (list_chat cid li st)"
  unfolding chat_lists_ok_def
proof (intro allI conjI)
  fix l q c
  show "oset (\<lambda>p. p) (position_set (list_chat cid li st) l)"
    using chat_lists_okD(1)[OF ok] by (simp add: position_set_list_chat)
  have "set (pset_insert (0, cid) (position_set st l)) = insert (0, cid) (set (position_set st l))"
    using std_set.iter_ins[OF chat_lists_okD(1)[OF ok, of l], of "(0, cid)"] by auto
  with fresh chat_lists_okD(2)[OF ok, of q c l]
  show "(q, c) \<in> set (position_set (list_chat cid li st) l)
      \<longleftrightarrow> position_map (list_chat cid li st) l c = Some q"
    by (auto simp: position_simps)
qed

lemma fresh_list_chat:
  "position_map st l cid \<in> {None, Some 0} \<Longrightarrow>
   position_map (list_chat cid li st) l cid \<in> {None, Some 0}"
  by (auto simp: position_map_list_chat)

lemma chat_lists_ok_fold_update_position [simp, inv_intros]:
  "chat_lists_ok st \<Longrightarrow> chat_lists_ok (fold (update_position cid) ps st)"
  by (induction ps arbitrary: st) auto

lemma chat_lists_ok_fold_list_chat [inv_intros]:
  assumes "chat_lists_ok st" and "\<And>l. position_map st l cid \<in> {None, Some 0}"
  shows "chat_lists_ok (fold (list_chat cid) ls st)
    \<and> (\<forall>l. position_map (fold (list_chat cid) ls st) l cid \<in> {None, Some 0})"
  using assms
proof (induction ls arbitrary: st)
  case Nil
  then show ?case by simp
next
  case (Cons li ls)
  have "chat_lists_ok (list_chat cid li st)"
    using Cons.prems by (intro chat_lists_ok_list_chat)
  with Cons.IH[of "list_chat cid li st"] Cons.prems(2) fresh_list_chat show ?case
    by simp
qed

subsection \<open>Which chats are listed\<close>

lemma dom_update_position:
  "dom (position_map (update_position cid u st) l) \<subseteq> dom (position_map st l)"
  by (auto simp: position_map_update_position split: if_splits)

lemma dom_fold_update_position:
  "dom (position_map (fold (update_position cid) ps st) l) \<subseteq> dom (position_map st l)"
proof (induction ps arbitrary: st)
  case Nil
  then show ?case by simp
next
  case (Cons p ps)
  from Cons[of "update_position cid p st"] dom_update_position[of cid p st l]
  show ?case by simp
qed

lemma dom_list_chat:
  "dom (position_map (list_chat cid li st) l) \<subseteq> insert cid (dom (position_map st l))"
  by (auto simp: position_map_list_chat split: if_splits)

lemma dom_fold_list_chat:
  "dom (position_map (fold (list_chat cid) ls st) l) \<subseteq> insert cid (dom (position_map st l))"
proof (induction ls arbitrary: st)
  case Nil
  then show ?case by auto
next
  case (Cons li ls)
  from Cons[of "list_chat cid li st"] dom_list_chat[of cid li st l]
  show ?case by auto
qed

lemma chats_knownI:
  assumes "chats_known st"
    and "\<And>l. dom (position_map st' l) \<subseteq> D \<union> dom (position_map st l)"
    and "D \<union> dom (id_to_chat st) \<subseteq> dom (id_to_chat st')"
    and "\<And>c ch. id_to_chat st' c = Some ch \<Longrightarrow> chat_id ch = c"
  shows "chats_known st'"
  unfolding chats_known_def
proof (intro conjI allI impI assms(4))
  fix l
  have "dom (position_map st l) \<subseteq> dom (id_to_chat st)"
    using assms(1) by (simp add: chats_known_def)
  with assms(2)[of l] assms(3) show "dom (position_map st' l) \<subseteq> dom (id_to_chat st')"
    by blast
qed

lemma chats_known_id: "chats_known st \<Longrightarrow> id_to_chat st c = Some ch \<Longrightarrow> chat_id ch = c"
  by (simp add: chats_known_def)

subsection \<open>The handlers keep the invariant\<close>

text \<open>
  What the handlers rely on, as TDLib documents it: \<^verbatim>\<open>updateNewChat\<close> announces a chat before its
  identifier is used anywhere else, so the chat has no position yet, and a chat is added to a list
  it is not in.
\<close>

definition announces_new :: "tl_app_state \<Rightarrow> int53 \<Rightarrow> bool" where
  "announces_new st cid \<longleftrightarrow> (\<forall>l. position_map st l cid \<in> {None, Some 0})"

definition adds_unlisted :: "tl_app_state \<Rightarrow> int53 \<Rightarrow> chat_list \<Rightarrow> bool" where
  "adds_unlisted st cid li \<longleftrightarrow>
     id_to_chat st cid \<noteq> None \<and> position_map st (chat_list_id li) cid \<in> {None, Some 0}"

lemma position_frame [simp]:
  "position_map (st\<lparr>id_to_chat := m\<rparr>) l = position_map st l"
  "position_set (st\<lparr>id_to_chat := m\<rparr>) l = position_set st l"
  "position_map (st\<lparr>st_messages := ms\<rparr>) l = position_map st l"
  "position_set (st\<lparr>st_messages := ms\<rparr>) l = position_set st l"
  by (simp_all add: position_map_def position_set_def)

lemma chat_lists_ok_frame [simp]:
  "chat_lists_ok (st\<lparr>id_to_chat := m\<rparr>) = chat_lists_ok st"
  "chat_lists_ok (st\<lparr>st_messages := ms\<rparr>) = chat_lists_ok st"
  by (simp_all add: chat_lists_ok_def)

lemma messages_ok_frame [simp]:
  "messages_ok (st\<lparr>id_to_chat := m\<rparr>) = messages_ok st"
  "messages_ok (update_position cid u st) = messages_ok st"
  "messages_ok (list_chat cid li st) = messages_ok st"
  "messages_ok (fold (update_position cid) ps st) = messages_ok st"
  "messages_ok (fold (list_chat cid) ls st) = messages_ok st"
  by (simp_all add: messages_ok_def messages_of_def)

lemma app_inv_new_chat [inv_intros]:
  assumes inv: "app_inv (app_state s)" and new: "announces_new (app_state s) (chat_id ch)"
  shows "app_inv (app_state (process_update_new_chat ch s))"
proof -
  let ?st1 = "fold (list_chat (chat_id ch)) (chat_lists ch) (app_state s)"
  let ?st2 = "fold (update_position (chat_id ch)) (chat_positions ch) ?st1"
  let ?st3 = "?st2\<lparr>id_to_chat := (id_to_chat ?st2)(chat_id ch \<mapsto> ch)\<rparr>"
  have "chat_lists_ok ?st2"
    using inv new chat_lists_ok_fold_list_chat[of "app_state s" "chat_id ch" "chat_lists ch"]
    by (simp add: app_inv_def announces_new_def)
  moreover have "chats_known ?st3"
  proof (rule chats_knownI[where D = "{chat_id ch}"])
    show "chats_known (app_state s)"
      using inv by (simp add: app_inv_def)
    then show "chat_id x = c" if "id_to_chat ?st3 c = Some x" for c x
      using that by (auto dest: chats_known_id split: if_splits)
    show "dom (position_map ?st3 l) \<subseteq> {chat_id ch} \<union> dom (position_map (app_state s) l)" for l
      unfolding position_frame insert_is_Un[symmetric]
      by (rule subset_trans[OF dom_fold_update_position dom_fold_list_chat])
  qed simp
  ultimately show ?thesis
    using inv by (simp add: app_inv_def process_update_new_chat_def Let_def)
qed

lemma app_inv_added_to_list [inv_intros]:
  assumes "app_inv (app_state s)" and "adds_unlisted (app_state s) cid li"
  shows "app_inv (app_state (process_update_chat_added_to_list cid li s))"
proof -
  have "chats_known (list_chat cid li (app_state s))"
    by (rule chats_knownI[where D = "{cid}" and st = "app_state s"])
      (use assms dom_list_chat in \<open>simp_all add: app_inv_def adds_unlisted_def chats_known_id[of "app_state s"] domIff\<close>)
  with assms show ?thesis
    by (simp add: process_update_chat_added_to_list_def app_inv_def adds_unlisted_def
        chat_lists_ok_list_chat)
qed

lemma app_inv_chat_position [inv_intros]:
  assumes "app_inv (app_state s)"
  shows "app_inv (app_state (process_update_chat_position cid p s))"
proof -
  have "chats_known (update_position cid p (app_state s))"
    by (rule chats_knownI[where D = "{}" and st = "app_state s"])
      (use assms dom_update_position in \<open>simp_all add: app_inv_def chats_known_id[of "app_state s"]\<close>)
  with assms show ?thesis
    by (simp add: process_update_chat_position_def app_inv_def)
qed

lemma app_inv_last_message [inv_intros]:
  assumes inv: "app_inv (app_state s)"
    and ret: "process_update_chat_last_message cid msg ps s = Inr s'"
  shows "app_inv (app_state s')"
proof -
  from ret obtain ch where ch: "id_to_chat (app_state s) cid = Some ch"
    by (auto simp: process_update_chat_last_message_def split: option.splits)
  let ?st1 = "(app_state s)\<lparr>id_to_chat := (id_to_chat (app_state s))
      (cid \<mapsto> ch\<lparr>chat_last_message := msg\<rparr>)\<rparr>"
  have s': "app_state s' = fold (update_position cid) ps ?st1"
    using ret ch by (auto simp: process_update_chat_last_message_def Let_def split: if_splits)
  have "chats_known (fold (update_position cid) ps ?st1)"
  proof (rule chats_knownI[where D = "{}"])
    show "chats_known (app_state s)"
      using inv by (simp add: app_inv_def)
    then show "chat_id x = c"
      if "id_to_chat (fold (update_position cid) ps ?st1) c = Some x" for c x
      using that ch by (auto dest: chats_known_id split: if_splits)
    show "dom (position_map (fold (update_position cid) ps ?st1) l)
        \<subseteq> {} \<union> dom (position_map (app_state s) l)" for l
      using dom_fold_update_position[of cid ps ?st1 l] by simp
  qed (use ch in auto)
  with inv show ?thesis
    by (simp add: app_inv_def s')
qed

subsection \<open>Messages\<close>

lemma messages_of_emplace:
  "emplace_message cid (Some x) st = Inr st' \<Longrightarrow>
   messages_of st' c = (if c = cid then oset_insert msg_date x (messages_of st cid)
                        else messages_of st c)"
  by (auto simp: emplace_message_def messages_of_def)

lemma emplace_all:
  "fold_r (emplace_message cid) (map Some ms) st =
     Inr (if ms = [] then st
          else st\<lparr>st_messages := (st_messages st)
                 (cid \<mapsto> fold (oset_insert msg_date) ms (messages_of st cid))\<rparr>)"
  by (induction ms arbitrary: st) (auto simp: emplace_message_def messages_of_def)



lemma fold_oset_insert_subset: "set (fold (oset_insert f) ms xs) \<subseteq> set ms \<union> set xs"
proof (induction ms arbitrary: xs)
  case Nil
  then show ?case by simp
next
  case (Cons m ms)
  then show ?case using set_oset_insert_subset[of f m xs] by fastforce
qed

text \<open>The complete effect of a history response without null messages.\<close>

lemma process_get_chat_history_eq:
  assumes "n_total \<noteq> 0"
  shows "process_get_chat_history n_total (map Some (m # ms)) s =
    Inr (push_event (event_messages (msg_chat_id m))
      (upd_app (\<lambda>st. st\<lparr>st_messages := (st_messages st)
         (msg_chat_id m \<mapsto> fold (oset_insert msg_date) (m # ms)
            (messages_of st (msg_chat_id m)))\<rparr>) s))"
  using assms emplace_all[of "msg_chat_id m" "m # ms" "app_state s"]
  by (simp add: process_get_chat_history_def upd_app_def push_event_def)

lemma emplace_message_frame:
  assumes "emplace_message cid m st = Inr st'"
  shows "\<exists>x. m = Some x \<and> st' = st\<lparr>st_messages := (st_messages st)
    (cid \<mapsto> oset_insert msg_date x (messages_of st cid))\<rparr>"
  using assms by (auto simp: emplace_message_def split: option.splits)

lemma app_inv_emplace:
  assumes "app_inv st" and "emplace_message cid m st = Inr st'"
  shows "app_inv st'"
proof -
  from emplace_message_frame[OF assms(2)] obtain x where
    "st' = st\<lparr>st_messages := (st_messages st)
      (cid \<mapsto> oset_insert msg_date x (messages_of st cid))\<rparr>" by blast
  with assms(1) show ?thesis
    by (auto simp: app_inv_def chats_known_def messages_ok_def messages_of_def)
qed

lemma app_inv_get_chat_history [inv_intros]:
  assumes inv: "app_inv (app_state s)"
    and ret: "process_get_chat_history n_total msgs s = Inr s'"
  shows "app_inv (app_state s')"
proof (cases "n_total = 0")
  case True
  with inv ret show ?thesis by (simp add: process_get_chat_history_def)
next
  case False
  with ret obtain m rest st where "msgs = Some m # rest"
    "fold_r (emplace_message (msg_chat_id m)) msgs (app_state s) = Inr st" "app_state s' = st"
    by (auto simp: process_get_chat_history_def bind_r_eq_Inr
        split: list.splits option.splits)
  with fold_r_invariant[where P = app_inv and f = "emplace_message (msg_chat_id m)"] inv
  show ?thesis by (metis app_inv_emplace)
qed

section \<open>The abstract chat list\<close>

text \<open>
  What a chat list promises, following the comments of \<^verbatim>\<open>td_api.tl\<close>: a finite map from chats to
  orders, shown by descending (order, chat). A new position of a listed chat replaces the old one,
  order 0 removes the chat, and a chat that is not listed stays unlisted.
\<close>

definition spec_set_position :: "int53 \<Rightarrow> int \<Rightarrow> (int53 \<rightharpoonup> int) \<Rightarrow> (int53 \<rightharpoonup> int)" where
  "spec_set_position cid q m =
     (if cid \<in> dom m then m(cid := (if q \<noteq> 0 then Some q else None)) else m)"

definition spec_display :: "(int53 \<rightharpoonup> int) \<Rightarrow> chat_order list" where
  "spec_display m = rev (sorted_list_of_set {(q, c). m c = Some q})"

lemma position_set_display:
  assumes "chat_lists_ok st"
  shows "position_set st l = spec_display (position_map st l)"
proof -
  have g: "{(q, c). position_map st l c = Some q} = set (position_set st l)"
    using chat_lists_okD(2)[OF assms, of _ _ l] by auto
  have "oset (\<lambda>p. p) (spec_display (position_map st l))"
    unfolding oset_def spec_display_def sorted_wrt_rev
    by (rule strict_sorted_list_of_set)
  moreover have "set (spec_display (position_map st l)) = set (position_set st l)"
    unfolding spec_display_def g by simp
  ultimately show ?thesis
    using oset_unique[OF chat_lists_okD(1)[OF assms, of l]] by simp
qed

lemma listed_once:
  assumes "chat_lists_ok st"
  shows "distinct (map snd (position_set st l))"
proof -
  have "inj_on snd (set (position_set st l))"
    using chat_lists_okD(2)[OF assms, of _ _ l] by (auto intro!: inj_onI)
  then show ?thesis
    using oset_distinct[OF chat_lists_okD(1)[OF assms, of l]] by (simp add: distinct_map)
qed

section \<open>Properties\<close>

text \<open>
  C3: \<^verbatim>\<open>_update_position\<close> implements the abstract chat list. If the set and the map of every list
  agree, then after the call they agree again, the map of the named list has changed as the
  abstract operation says and no other list has changed, and iterating over the set of any list
  shows the chats of its map by descending (order, chat), each chat once.
\<close>

theorem update_position_refines:
  assumes "chat_lists_ok st"
  shows "chat_lists_ok (update_position cid u st)
    \<and> (\<forall>l. position_map (update_position cid u st) l =
         (if l = chat_list_id (pos_list u)
          then spec_set_position cid (pos_order u) (position_map st l)
          else position_map st l))
    \<and> (\<forall>l. position_set (update_position cid u st) l
         = spec_display (position_map (update_position cid u st) l))
    \<and> (\<forall>l. distinct (map snd (position_set (update_position cid u st) l)))"
proof (intro conjI allI)
  show ok: "chat_lists_ok (update_position cid u st)"
    using assms by simp
  fix l
  show "position_map (update_position cid u st) l =
      (if l = chat_list_id (pos_list u)
       then spec_set_position cid (pos_order u) (position_map st l) else position_map st l)"
    by (simp add: position_map_update_position spec_set_position_def domIff)
  show "position_set (update_position cid u st) l
      = spec_display (position_map (update_position cid u st) l)"
    using ok by (rule position_set_display)
  show "distinct (map snd (position_set (update_position cid u st) l))"
    using ok by (rule listed_once)
qed

lemma chat_lists_ok_new [simp]: "chat_lists_ok (new_app_state p t)"
  by (simp add: chat_lists_ok_def new_app_state_def position_set_def position_map_def)

theorem update_position_refines_witness:
  "chat_lists_ok (update_position 7 \<lparr>pos_list = ChatListMain, pos_order = 5\<rparr> (new_app_state 0 False))"
  using update_position_refines[OF chat_lists_ok_new] by blast

lemma set_oset_erase_keep: "x \<in> set xs \<Longrightarrow> f x \<noteq> k \<Longrightarrow> x \<in> set (oset_erase f k xs)"
  by (induction xs) auto

lemma stale_kept_by_update:
  assumes "(q, cid) \<in> set (position_set st l)" and "position_map st l cid \<noteq> Some q"
    and "pos_order u \<noteq> q"
  shows "(q, cid) \<in> set (position_set (update_position cid u st) l)
    \<and> position_map (update_position cid u st) l cid \<noteq> Some q"
proof -
  have ins: "x \<in> set (pset_insert y xs)" if "x \<in> set xs" for x y and xs :: "chat_order list"
    by (rule subsetD[OF set_subset_oset_insert that])
  show ?thesis
    using assms by (auto simp: position_simps split: option.splits intro!: ins set_oset_erase_keep)
qed

lemma stale_kept_by_updates:
  assumes "(q, cid) \<in> set (position_set st l)" and "position_map st l cid \<noteq> Some q"
    and "\<forall>u \<in> set us. pos_order u \<noteq> q"
  shows "(q, cid) \<in> set (position_set (fold (update_position cid) us st) l)"
  using assms
proof (induction us arbitrary: st)
  case Nil
  then show ?case by simp
next
  case (Cons u us)
  with stale_kept_by_update[of q cid st l u] show ?case by simp
qed

text \<open>
  A chat that is put into a list where it already has a position \<open>q \<noteq> 0\<close>, as
  \<^verbatim>\<open>process_update_chat_added_to_list\<close> and \<^verbatim>\<open>process_update_new_chat\<close> do without looking, is from
  then on shown twice: the set keeps the stale pair \<open>(q, cid)\<close> beside the new one, and no later
  sequence of position updates of the chat to other orders removes it.
\<close>

theorem relisted_chat_stays_twice:
  assumes ok: "chat_lists_ok st"
    and listed: "position_map st (chat_list_id li) cid = Some q" "q \<noteq> 0"
    and later: "\<forall>u \<in> set us. pos_order u \<noteq> q"
  shows "{(q, cid), (0, cid)} \<subseteq> set (position_set (list_chat cid li st) (chat_list_id li))
    \<and> (q, cid) \<in> set (position_set (fold (update_position cid) us (list_chat cid li st))
                     (chat_list_id li))"
proof -
  have q: "(q, cid) \<in> set (position_set st (chat_list_id li))"
    using chat_lists_okD(2)[OF ok] listed(1) by simp
  have "set (position_set (list_chat cid li st) (chat_list_id li))
      = insert (0, cid) (set (position_set st (chat_list_id li)))"
    using std_set.iter_ins[OF chat_lists_okD(1)[OF ok, of "chat_list_id li"], of "(0, cid)"]
    by (auto simp: position_set_list_chat)
  with q listed(2) stale_kept_by_updates[OF _ _ later, of cid "list_chat cid li st"]
  show ?thesis by (simp add: position_map_list_chat)
qed

theorem relisted_chat_stays_twice_witness:
  "(5, 7) \<in> set (position_set (fold (update_position 7)
       [\<lparr>pos_list = ChatListMain, pos_order = 9\<rparr>]
       (list_chat 7 ChatListMain (update_position 7 \<lparr>pos_list = ChatListMain, pos_order = 5\<rparr>
         (list_chat 7 ChatListMain (new_app_state 0 False)))))
     (chat_list_id ChatListMain))"
proof -
  let ?st = "update_position 7 \<lparr>pos_list = ChatListMain, pos_order = 5\<rparr>
         (list_chat 7 ChatListMain (new_app_state 0 False))"
  have ok: "chat_lists_ok ?st"
    by (intro chat_lists_ok_update_position chat_lists_ok_list_chat chat_lists_ok_new)
      (simp add: new_app_state_def position_map_def)
  have q: "position_map ?st (chat_list_id ChatListMain) 7 = Some 5"
    by (simp add: position_simps)
  show ?thesis
    by (rule relisted_chat_stays_twice[OF ok q, THEN conjunct2]) simp_all
qed

lemma fold_oset_insert_superset: "set xs \<subseteq> set (fold (oset_insert f) ms xs)"
proof (induction ms arbitrary: xs)
  case Nil
  then show ?case by simp
next
  case (Cons m ms)
  then show ?case using set_subset_oset_insert[of xs f m] by fastforce
qed




text \<open>
  Messages of one chat that were sent in the same second displace each other: when a stored
  message has the date of a received one, the received message is dropped, whatever its identifier
  and content, because the comparator of the message set looks at the date alone.
\<close>

theorem same_second_message_dropped:
  assumes "messages_ok (app_state s)" and "n_total \<noteq> 0"
    and "m' \<in> set (messages_of (app_state s) (msg_chat_id m))" and "msg_date m' = msg_date m"
  shows "\<exists>s'. process_get_chat_history n_total [Some m] s = Inr s'
    \<and> messages_of (app_state s') (msg_chat_id m) = messages_of (app_state s) (msg_chat_id m)"
proof -
  have "oset msg_date (messages_of (app_state s) (msg_chat_id m))"
    using assms(1) by (simp add: messages_ok_def)
  moreover have "msg_date m \<in> msg_date ` set (messages_of (app_state s) (msg_chat_id m))"
    using assms(3,4) by (metis imageI)
  ultimately have "oset_insert msg_date m (messages_of (app_state s) (msg_chat_id m))
      = messages_of (app_state s) (msg_chat_id m)"
    by (rule oset_insert_dup)
  then show ?thesis
    using process_get_chat_history_eq[OF assms(2), of m "[]" s]
    by (simp add: messages_of_def)
qed

theorem same_second_message_dropped_witness:
  "\<exists>s'. process_get_chat_history 1
       [Some \<lparr>msg_id = 2, msg_chat_id = 7, msg_date = 100, msg_content = MessageText ''two''\<rparr>]
       \<lparr>app_state = (new_app_state 0 False)\<lparr>st_messages := [7 \<mapsto>
          [\<lparr>msg_id = 1, msg_chat_id = 7, msg_date = 100, msg_content = MessageText ''one''\<rparr>]]\<rparr>,
        events = empty_event_queue\<rparr> = Inr s'
     \<and> messages_of (app_state s') 7
        = [\<lparr>msg_id = 1, msg_chat_id = 7, msg_date = 100, msg_content = MessageText ''one''\<rparr>]"
proof -
  let ?m = "\<lambda>i t. \<lparr>msg_id = i, msg_chat_id = 7, msg_date = 100, msg_content = MessageText t\<rparr>"
  let ?s = "\<lparr>app_state = (new_app_state 0 False)\<lparr>st_messages := [7 \<mapsto> [?m 1 ''one'']]\<rparr>,
        events = empty_event_queue\<rparr>"
  have ok: "messages_ok (app_state ?s)"
    by (simp add: messages_ok_def messages_of_def)
  from same_second_message_dropped[OF ok, of 1 "?m 1 ''one''" "?m 2 ''two''"]
  show ?thesis by (simp add: messages_of_def)
qed

lemma emplace_all_null:
  "None \<in> set ms \<Longrightarrow> fold_r (emplace_message cid) ms st = Inl Null_deref"
  by (induction ms arbitrary: st) (auto simp: emplace_message_def split: option.splits)

lemma no_null_map_Some: "None \<notin> set ms \<Longrightarrow> ms = map Some (map the ms)"
  by (induction ms) auto

lemma history_returns:
  assumes "None \<notin> set (m # ms)" and "n_total \<noteq> 0"
  shows "\<exists>s'. process_get_chat_history n_total (m # ms) s = Inr s'"
  using process_get_chat_history_eq[OF assms(2), of "the m" "map the ms" s]
    no_null_map_Some[OF assms(1)] by simp

text \<open>
  When a history response can crash the client: exactly when its count is not zero and its
  vector of messages is empty (the first element is read) or holds a null message (the comparator
  dereferences it), which \<^verbatim>\<open>td_api.tl\<close> allows.
\<close>

theorem history_faults:
  "process_get_chat_history n_total msgs s = Inl e \<longleftrightarrow>
     n_total \<noteq> 0 \<and> (msgs = [] \<and> e = Out_of_range \<or> None \<in> set msgs \<and> e = Null_deref)"
proof (cases "n_total = 0 \<or> msgs = []")
  case True
  then show ?thesis by (auto simp: process_get_chat_history_def)
next
  case False
  then obtain m ms where msgs: "msgs = m # ms" by (cases msgs) auto
  show ?thesis
  proof (cases "None \<in> set msgs")
    case True
    have "process_get_chat_history n_total msgs s = Inl Null_deref"
      using False msgs emplace_all_null[OF True]
      by (cases m) (simp_all add: process_get_chat_history_def del: fold_r.simps)
    with False True show ?thesis by auto
  next
    case not_null: False
    with history_returns[of m ms n_total s] False msgs
    obtain s' where "process_get_chat_history n_total msgs s = Inr s'" by auto
    with False not_null show ?thesis by simp
  qed
qed

end
