(* ===== verification/Bit_Lists.thy ===== *)
theory Bit_Lists
  imports Prelude
begin

unbundle bit_operations_syntax

text \<open>
  Numbers as lists of bits, the most significant bit first: what the bit buffer of the QR code
  generator and the accumulators of the base32 codec hold.
\<close>

text \<open>The value a reader takes from \<open>bs\<close>, the first bit the most significant one.\<close>

definition bits_val :: "bool list \<Rightarrow> nat" where
  "bits_val bs = horner_sum of_bool 2 (rev bs)"

definition val_bits :: "nat \<Rightarrow> nat \<Rightarrow> bool list" where
  "val_bits n v = map (bit v) (rev [0..<n])"

lemma length_val_bits [simp]: "length (val_bits n v) = n"
  by (simp add: val_bits_def)

lemma bits_val_of_val_bits: "bits_val (val_bits n v) = v mod 2 ^ n"
  by (simp add: bits_val_def val_bits_def rev_map horner_sum_bit_eq_take_bit take_bit_eq_mod)

lemma bits_val_val_bits [simp]: "v < 2 ^ n \<Longrightarrow> bits_val (val_bits n v) = v"
  by (simp add: bits_val_of_val_bits)

lemma bits_val_Nil [simp]: "bits_val [] = 0"
  by (simp add: bits_val_def)

lemma bits_val_snoc: "bits_val (bs @ [b]) = 2 * bits_val bs + of_bool b"
  by (simp add: bits_val_def)

lemma bits_val_lt: "bits_val bs < 2 ^ length bs"
proof (induction bs rule: rev_induct)
  case Nil
  then show ?case by simp
next
  case (snoc b bs)
  then show ?case by (cases b) (simp_all add: bits_val_snoc)
qed

lemma val_bits_bits_val [simp]: "val_bits (length bs) (bits_val bs) = bs"
proof (induction bs rule: rev_induct)
  case Nil
  then show ?case by (simp add: val_bits_def)
next
  case (snoc b bs)
  have "map (bit (2 * bits_val bs + of_bool b)) (rev [0..<Suc (length bs)])
      = map (\<lambda>i. bit (2 * bits_val bs + of_bool b) (Suc i)) (rev [0..<length bs]) @ [b]"
    by (subst upt_conv_Cons) (auto simp: map_Suc_upt[symmetric] rev_map o_def bit_0 simp del: upt_Suc)
  also have "\<dots> = map (bit (bits_val bs)) (rev [0..<length bs]) @ [b]"
    by (cases b) (simp_all add: bit_Suc)
  finally show ?case
    using snoc by (simp add: bits_val_snoc val_bits_def del: upt_Suc)
qed

lemma test_bit_word: "(drop_bit i w AND 1 \<noteq> 0) = bit (w :: 'a::len word) i"
  by (auto simp: bit_iff_odd_drop_bit and_one_eq mod2_eq_if)

end
