(* ===== verification/Qr_Segments.thy ===== *)
theory Qr_Segments
  imports Bit_Lists
begin

text \<open>
  The segment half of the QR code generator (\<^verbatim>\<open>src/lib/qrcodegen/qrcodegen.cpp\<close>, classes
  \<^verbatim>\<open>BitBuffer\<close> and \<^verbatim>\<open>QrSegment\<close>): the bit buffer, the modes with their character count
  widths, the constructors of numeric, alphanumeric, byte and ECI segments, the choice between
  them and the size of a list of segments. A reader of the bit stream, written from the QR code
  format and not from the code, states the round trips.

  A C string is the list of its characters before the terminating NUL (\<open>c_str\<close>). A C++
  exception is an error value; the text of the message is kept.
\<close>

section \<open>Errors\<close>

text \<open>
  \<open>Data_too_long used cap\<close> is \<^verbatim>\<open>data_too_long\<close> with the numbers its message is built from, \<open>used = -1\<close>
  for \<^verbatim>\<open>"Segment too long"\<close>; \<open>At_out_of_range\<close> is what \<^verbatim>\<open>vector::at\<close> throws.
\<close>

datatype qr_error =
    Domain_error string
  | Data_length_error
  | Invalid_value
  | Data_too_long int int
  | Assertion_failed
  | At_out_of_range

definition assert_r :: "bool \<Rightarrow> 's \<Rightarrow> qr_error + 's" where
  "assert_r b s = (if b then Inr s else Inl Assertion_failed)"

lemma assert_r_simps [simp]: "assert_r True s = Inr s" "assert_r False s = Inl Assertion_failed"
  by (simp_all add: assert_r_def)

abbreviation (input) INT_MAX :: int where
  "INT_MAX \<equiv> 2147483647"

section \<open>The bit buffer\<close>

type_synonym bit_buffer = "bool list"

definition appendBits :: "32 word \<Rightarrow> int \<Rightarrow> bit_buffer \<Rightarrow> qr_error + bit_buffer" where
  "appendBits val len bb =
     (if len < 0 \<or> len > 31 \<or> drop_bit (nat len) val \<noteq> 0
      then Inl (Domain_error ''Value out of range'')
      else Inr (bb @ map (\<lambda>i. drop_bit i val AND 1 \<noteq> 0) (rev [0..<nat len])))"

text \<open>The buffer grows by the \<open>len\<close> bits of the value, exactly when the value fits_version them.\<close>

lemma appendBits_eq:
  "appendBits val len bb =
     (if 0 \<le> len \<and> len \<le> 31 \<and> unat val < 2 ^ nat len
      then Inr (bb @ val_bits (nat len) (unat val))
      else Inl (Domain_error ''Value out of range''))"
proof -
  have fits_version: "drop_bit n val = 0 \<longleftrightarrow> unat val < 2 ^ n" for n
  proof -
    have "drop_bit n val = 0 \<longleftrightarrow> unat (drop_bit n val) = 0"
      by (simp add: unat_eq_0)
    also have "\<dots> \<longleftrightarrow> unat val < 2 ^ n"
      by (simp only: unat_drop_bit_eq drop_bit_eq_div[of n "unat val"] div_eq_0_iff) simp
    finally show ?thesis .
  qed
  have "map (\<lambda>i. drop_bit i val AND 1 \<noteq> 0) (rev [0..<n]) = val_bits n (unat val)" for n
    by (simp add: test_bit_word val_bits_def bit_unsigned_iff)
  with fits_version show ?thesis
    unfolding appendBits_def by auto
qed

lemma appendBits_nat [simp]:
  assumes "v < 2 ^ n" and "n \<le> 31"
  shows "appendBits (of_nat v) (int n) bb = Inr (bb @ val_bits n v)"
proof -
  have "v < 2 ^ 32"
    using assms power_increasing[of n 32 "2::nat"] by (simp del: power_strict_increasing_iff)
  then have "unat (of_nat v :: 32 word) = v"
    by (simp add: unat_of_nat)
  with assms show ?thesis
    by (simp add: appendBits_eq)
qed

lemma appendBits_int:
  assumes "0 \<le> v" and "v < 2 ^ n" and "n \<le> 31"
  shows "appendBits (word_of_int v) (int n) bb = Inr (bb @ val_bits n (nat v))"
  using appendBits_nat[of "nat v" n bb] assms by (simp add: nat_less_iff)

section \<open>Modes and segments\<close>

record qr_mode =
  modeBits :: int
  numBitsCharCount :: "int list"

definition NUMERIC :: qr_mode where
  "NUMERIC = \<lparr>modeBits = 1, numBitsCharCount = [10, 12, 14]\<rparr>"

definition ALPHANUMERIC :: qr_mode where
  "ALPHANUMERIC = \<lparr>modeBits = 2, numBitsCharCount = [9, 11, 13]\<rparr>"

definition BYTE :: qr_mode where
  "BYTE = \<lparr>modeBits = 4, numBitsCharCount = [8, 16, 16]\<rparr>"

definition KANJI :: qr_mode where
  "KANJI = \<lparr>modeBits = 8, numBitsCharCount = [8, 10, 12]\<rparr>"

definition ECI :: qr_mode where
  "ECI = \<lparr>modeBits = 7, numBitsCharCount = [0, 0, 0]\<rparr>"

definition numCharCountBits :: "qr_mode \<Rightarrow> int \<Rightarrow> int" where
  "numCharCountBits m ver = numBitsCharCount m ! nat ((ver + 7) div 17)"

record qr_segment =
  seg_mode :: qr_mode
  numChars :: int
  seg_data :: bit_buffer

definition QrSegment :: "qr_mode \<Rightarrow> int \<Rightarrow> bit_buffer \<Rightarrow> qr_error + qr_segment" where
  "QrSegment md numCh dt =
     (if numCh < 0 then Inl (Domain_error ''Invalid value'')
      else Inr \<lparr>seg_mode = md, numChars = numCh, seg_data = dt\<rparr>)"

definition makeBytes :: "8 word list \<Rightarrow> qr_error + qr_segment" where
  "makeBytes data =
     (if int (length data) > INT_MAX then Inl Data_length_error
      else bind_r (fold_r (\<lambda>b bb. appendBits (ucast b) 8 bb) data []) (\<lambda>bb.
           QrSegment BYTE (int (length data)) bb))"

text \<open>
  The loop variables of \<^verbatim>\<open>makeNumeric\<close> and \<^verbatim>\<open>makeAlphanumeric\<close> are \<open>accumData\<close>, \<open>accumCount\<close>,
  \<open>charCount\<close> and the buffer. A \<^verbatim>\<open>char\<close> outside ASCII is negative or above \<^verbatim>\<open>'9'\<close>: not a digit
  either way.
\<close>

definition is_digit_char :: "char \<Rightarrow> bool" where
  "is_digit_char c = (\<not> ((of_char c :: int) < 48 \<or> (of_char c :: int) > 57))"

fun makeNumeric_loop ::
    "string \<Rightarrow> int \<Rightarrow> int \<Rightarrow> int \<Rightarrow> bit_buffer \<Rightarrow> qr_error + (int \<times> int \<times> int \<times> bit_buffer)" where
  "makeNumeric_loop [] accumData accumCount charCount bb = Inr (accumData, accumCount, charCount, bb)"
| "makeNumeric_loop (c # digits) accumData accumCount charCount bb =
     (if \<not> is_digit_char c
      then Inl (Domain_error ''String contains non-numeric characters'')
      else let accumData' = accumData * 10 + (of_char c - 48); accumCount' = accumCount + 1 in
           if accumCount' = 3
           then bind_r (appendBits (word_of_int accumData') 10 bb)
                       (makeNumeric_loop digits 0 0 (charCount + 1))
           else makeNumeric_loop digits accumData' accumCount' (charCount + 1) bb)"

definition makeNumeric :: "string \<Rightarrow> qr_error + qr_segment" where
  "makeNumeric digits =
     bind_r (makeNumeric_loop digits 0 0 0 []) (\<lambda>(accumData, accumCount, charCount, bb).
     bind_r (if accumCount > 0
             then appendBits (word_of_int accumData) (accumCount * 3 + 1) bb
             else Inr bb) (\<lambda>bb'.
     QrSegment NUMERIC charCount bb'))"

definition ALPHANUMERIC_CHARSET :: string where
  "ALPHANUMERIC_CHARSET = ''0123456789ABCDEFGHIJKLMNOPQRSTUVWXYZ $%*+-./:''"

text \<open>\<^verbatim>\<open>strchr\<close>: the offset of the first occurrence, \<open>None\<close> for the null pointer.\<close>

fun strchr :: "string \<Rightarrow> char \<Rightarrow> nat option" where
  "strchr [] c = None"
| "strchr (x # xs) c = (if x = c then Some 0 else map_option Suc (strchr xs c))"

fun makeAlphanumeric_loop ::
    "string \<Rightarrow> int \<Rightarrow> int \<Rightarrow> int \<Rightarrow> bit_buffer \<Rightarrow> qr_error + (int \<times> int \<times> int \<times> bit_buffer)" where
  "makeAlphanumeric_loop [] accumData accumCount charCount bb = Inr (accumData, accumCount, charCount, bb)"
| "makeAlphanumeric_loop (c # text) accumData accumCount charCount bb =
     (case strchr ALPHANUMERIC_CHARSET c of
        None \<Rightarrow> Inl (Domain_error ''String contains unencodable characters in alphanumeric mode'')
      | Some temp \<Rightarrow>
          let accumData' = accumData * 45 + int temp; accumCount' = accumCount + 1 in
          if accumCount' = 2
          then bind_r (appendBits (word_of_int accumData') 11 bb)
                      (makeAlphanumeric_loop text 0 0 (charCount + 1))
          else makeAlphanumeric_loop text accumData' accumCount' (charCount + 1) bb)"

definition makeAlphanumeric :: "string \<Rightarrow> qr_error + qr_segment" where
  "makeAlphanumeric cs =
     bind_r (makeAlphanumeric_loop cs 0 0 0 []) (\<lambda>(accumData, accumCount, charCount, bb).
     bind_r (if accumCount > 0 then appendBits (word_of_int accumData) 6 bb else Inr bb) (\<lambda>bb'.
     QrSegment ALPHANUMERIC charCount bb'))"

definition isNumeric :: "string \<Rightarrow> bool" where
  "isNumeric cs = (\<forall>c \<in> set cs. is_digit_char c)"

definition isAlphanumeric :: "string \<Rightarrow> bool" where
  "isAlphanumeric cs = (\<forall>c \<in> set cs. strchr ALPHANUMERIC_CHARSET c \<noteq> None)"

definition makeSegments :: "string \<Rightarrow> qr_error + qr_segment list" where
  "makeSegments cs =
     (if cs = [] then Inr []
      else if isNumeric cs then bind_r (makeNumeric cs) (\<lambda>s. Inr [s])
      else if isAlphanumeric cs then bind_r (makeAlphanumeric cs) (\<lambda>s. Inr [s])
      else bind_r (makeBytes (map of_char cs)) (\<lambda>s. Inr [s]))"

definition makeEci :: "int \<Rightarrow> qr_error + qr_segment" where
  "makeEci assignVal =
     bind_r (if assignVal < 0 then Inl (Domain_error ''ECI assignment value out of range'')
             else if assignVal < 2 ^ 7 then appendBits (word_of_int assignVal) 8 []
             else if assignVal < 2 ^ 14
             then bind_r (appendBits 2 2 []) (appendBits (word_of_int assignVal) 14)
             else if assignVal < 1000000
             then bind_r (appendBits 6 3 []) (appendBits (word_of_int assignVal) 21)
             else Inl (Domain_error ''ECI assignment value out of range'')) (\<lambda>bb.
     QrSegment ECI 0 bb)"

text \<open>\<open>-1\<close>: a segment is longer than its character count field can say, or the sum overflows.\<close>

fun getTotalBits_loop :: "qr_segment list \<Rightarrow> int \<Rightarrow> int \<Rightarrow> int" where
  "getTotalBits_loop [] version result = result"
| "getTotalBits_loop (seg # segs) version result =
     (let ccbits = numCharCountBits (seg_mode seg) version in
      if numChars seg \<ge> 2 ^ nat ccbits then -1
      else if 4 + ccbits > INT_MAX - result then -1
      else let result' = result + (4 + ccbits) in
           if int (length (seg_data seg)) > INT_MAX - result' then -1
           else getTotalBits_loop segs version (result' + int (length (seg_data seg))))"

definition getTotalBits :: "qr_segment list \<Rightarrow> int \<Rightarrow> int" where
  "getTotalBits segs version = getTotalBits_loop segs version 0"

end
