(* ===== verification/Qr_Galois.thy ===== *)
theory Qr_Galois
  imports Qr_Segments
begin

text \<open>
  The Reed-Solomon half of the QR code generator: \<^verbatim>\<open>reedSolomonMultiply\<close>,
  \<^verbatim>\<open>reedSolomonComputeDivisor\<close> and \<^verbatim>\<open>reedSolomonComputeRemainder\<close> of
  \<^verbatim>\<open>src/lib/qrcodegen/qrcodegen.cpp\<close>. The multiplication is shown to be a commutative,
  associative product that distributes over exclusive or, and the remainder to make every
  block a codeword: the polynomial of the block vanishes at the powers of the generator \<open>2\<close>.
\<close>

section \<open>The routines\<close>

text \<open>
  The accumulator \<^verbatim>\<open>z\<close> is an \<^verbatim>\<open>int\<close>; the closing \<^verbatim>\<open>assert(z >> 8 == 0)\<close> is the lemma
  \<open>rs_mul_loop_range\<close>.
\<close>

definition rs_mul_step :: "8 word \<Rightarrow> 8 word \<Rightarrow> int \<Rightarrow> nat \<Rightarrow> int" where
  "rs_mul_step x y z i =
     (let z' = push_bit 1 z XOR (drop_bit 7 z * 0x11D) in
      z' XOR uint (drop_bit i y AND 1) * uint x)"

definition rs_mul_loop :: "8 word \<Rightarrow> 8 word \<Rightarrow> int" where
  "rs_mul_loop x y = foldl (rs_mul_step x y) 0 (rev [0..<8])"

definition reedSolomonMultiply :: "8 word \<Rightarrow> 8 word \<Rightarrow> 8 word" where
  "reedSolomonMultiply x y = word_of_int (rs_mul_loop x y)"

text \<open>The product of the array by \<open>(x - root)\<close>, in place and from the front.\<close>

definition rs_divisor_cell :: "8 word \<Rightarrow> 8 word list \<Rightarrow> nat \<Rightarrow> 8 word list" where
  "rs_divisor_cell root result j =
     (let result' = result[j := reedSolomonMultiply (result ! j) root] in
      if j + 1 < length result' then result'[j := result' ! j XOR result' ! (j + 1)] else result')"

definition rs_divisor_step :: "(8 word list \<times> 8 word) \<Rightarrow> (8 word list \<times> 8 word)" where
  "rs_divisor_step = (\<lambda>(result, root).
     (foldl (rs_divisor_cell root) result [0..<length result], reedSolomonMultiply root 2))"

definition reedSolomonComputeDivisor :: "int \<Rightarrow> qr_error + 8 word list" where
  "reedSolomonComputeDivisor degree =
     (if degree < 1 \<or> degree > 255 then Inl (Domain_error ''Degree out of range'')
      else let result = (replicate (nat degree) 0)[nat degree - 1 := 1] in
           Inr (fst ((rs_divisor_step ^^ nat degree) (result, 1))))"

definition rs_remainder_step :: "8 word list \<Rightarrow> 8 word list \<Rightarrow> 8 word \<Rightarrow> 8 word list" where
  "rs_remainder_step divisor result b =
     (let factor = b XOR result ! 0; result' = drop 1 result @ [0] in
      foldl (\<lambda>r i. r[i := r ! i XOR reedSolomonMultiply (divisor ! i) factor])
            result' [0..<length result'])"

definition reedSolomonComputeRemainder :: "8 word list \<Rightarrow> 8 word list \<Rightarrow> 8 word list" where
  "reedSolomonComputeRemainder data divisor =
     foldl (rs_remainder_step divisor) (replicate (length divisor) 0) data"

section \<open>The product on words\<close>

text \<open>Multiplication by the element \<open>x\<close> of the field: shift, reduce by \<open>0x11D\<close>.\<close>

definition xtime :: "8 word \<Rightarrow> 8 word" where
  "xtime w = push_bit 1 w XOR (if bit w 7 then 0x1D else 0)"

definition horner_step :: "8 word \<Rightarrow> 8 word \<Rightarrow> 8 word \<Rightarrow> nat \<Rightarrow> 8 word" where
  "horner_step x y z i = xtime z XOR (if bit y i then x else 0)"

definition gf_mul :: "8 word \<Rightarrow> 8 word \<Rightarrow> 8 word" where
  "gf_mul x y = foldl (horner_step x y) 0 [7, 6, 5, 4, 3, 2, 1, 0]"

lemma byte_all: "list_all P [0..<256] \<Longrightarrow> P (unat (w :: 8 word))"
  using unsigned_less[of w, where ?'a = nat] by (simp add: list_all_iff del: upt_Suc)

lemma xtime_int: "uint (xtime z) = push_bit 1 (uint z) XOR (drop_bit 7 (uint z) * 0x11D)"
proof -
  have "list_all (\<lambda>n. uint (xtime (word_of_nat n)) =
      push_bit 1 (int n) XOR (drop_bit 7 (int n) * 0x11D)) [0..<256]"
    by code_simp
  from byte_all[OF this, of z] show ?thesis
    by simp
qed

lemma uint_xor_word: "uint (a XOR b :: 'a::len word) = uint a XOR uint b"
  by (simp add: unsigned_xor_eq)

lemma rs_mul_step_uint: "rs_mul_step x y (uint z) i = uint (horner_step x y z i)"
proof -
  have "uint (drop_bit i y AND 1) * uint x = uint (if bit y i then x else 0)"
    by (auto simp: bit_iff_odd_drop_bit and_one_eq mod2_eq_if)
  then show ?thesis
    by (simp only: rs_mul_step_def horner_step_def Let_def uint_xor_word xtime_int)
qed

lemma foldl_rs_mul_step: "foldl (rs_mul_step x y) (uint z) is = uint (foldl (horner_step x y) z is)"
  by (induction "is" arbitrary: z) (simp_all add: rs_mul_step_uint)

lemma rs_mul_loop_eq: "rs_mul_loop x y = uint (gf_mul x y)"
proof -
  have "rev [0..<8] = [7, 6, 5, 4, 3, 2, 1, 0 :: nat]"
    by code_simp
  then show ?thesis
    using foldl_rs_mul_step[of x y 0 "[7, 6, 5, 4, 3, 2, 1, 0]"]
    by (simp only: rs_mul_loop_def gf_mul_def unsigned_0)
qed

lemma rs_mul_loop_range: "0 \<le> rs_mul_loop x y" "rs_mul_loop x y < 256"
  "drop_bit 8 (rs_mul_loop x y) = 0"
  using unsigned_less[of "gf_mul x y", where ?'a = int]
  by (simp_all add: rs_mul_loop_eq drop_bit_eq_div)

lemma reedSolomonMultiply_eq: "reedSolomonMultiply x y = gf_mul x y"
  by (simp add: reedSolomonMultiply_def rs_mul_loop_eq)

section \<open>The laws of the product\<close>

lemma push_bit_xor_word: "push_bit n (a XOR b :: 8 word) = push_bit n a XOR push_bit n b"
  by (rule bit_word_eqI) (auto simp: bit_push_bit_iff bit_xor_iff)

lemma xtime_xor: "xtime (a XOR b) = xtime a XOR xtime b"
  by (auto simp: xtime_def push_bit_xor_word bit_xor_iff xor.assoc xor.left_commute xor.commute)

lemma xtime_0 [simp]: "xtime 0 = 0"
  by (simp add: xtime_def)

lemma foldl_horner_left:
  "foldl (horner_step (a XOR b) y) (z XOR z') is
   = foldl (horner_step a y) z is XOR foldl (horner_step b y) z' is"
proof (induction "is" arbitrary: z z')
  case (Cons i "is")
  have "horner_step (a XOR b) y (z XOR z') i = horner_step a y z i XOR horner_step b y z' i"
    by (simp add: horner_step_def xtime_xor xor.assoc xor.left_commute xor.commute)
  with Cons show ?case by simp
qed simp

lemma foldl_horner_right:
  "foldl (horner_step x (a XOR b)) (z XOR z') is
   = foldl (horner_step x a) z is XOR foldl (horner_step x b) z' is"
proof (induction "is" arbitrary: z z')
  case (Cons i "is")
  have "horner_step x (a XOR b) (z XOR z') i = horner_step x a z i XOR horner_step x b z' i"
    by (auto simp: horner_step_def xtime_xor bit_xor_iff xor.assoc xor.left_commute xor.commute)
  with Cons show ?case by simp
qed simp

lemma gf_mul_xor_left: "gf_mul (a XOR b) y = gf_mul a y XOR gf_mul b y"
  using foldl_horner_left[of a b y 0 0 "[7, 6, 5, 4, 3, 2, 1, 0]"] by (simp only: gf_mul_def xor_self_eq)

lemma gf_mul_xor_right: "gf_mul x (a XOR b) = gf_mul x a XOR gf_mul x b"
  using foldl_horner_right[of x a b 0 0 "[7, 6, 5, 4, 3, 2, 1, 0]"] by (simp only: gf_mul_def xor_self_eq)

lemma gf_mul_0_left [simp]: "gf_mul 0 y = 0"
  using gf_mul_xor_left[of 0 0 y] by simp

lemma gf_mul_0_right [simp]: "gf_mul x 0 = 0"
  using gf_mul_xor_right[of x 0 0] by simp

text \<open>A map on bytes that respects exclusive or is determined by the eight single bits.\<close>

definition xor_linear :: "(8 word \<Rightarrow> 8 word) \<Rightarrow> bool" where
  "xor_linear f \<longleftrightarrow> (\<forall>a b. f (a XOR b) = f a XOR f b)"

definition byte_bit :: "8 word \<Rightarrow> nat \<Rightarrow> 8 word" where
  "byte_bit w i = (if bit w i then 2 ^ i else 0)"

lemma byte_as_bits: "w = foldr (\<lambda>i z. byte_bit w i XOR z) [0..<8] (0 :: 8 word)"
proof -
  have "list_all (\<lambda>n. (word_of_nat n :: 8 word)
      = foldr (\<lambda>i z. byte_bit (word_of_nat n) i XOR z) [0..<8] 0) [0..<256]"
    by code_simp
  from byte_all[OF this, of w] show ?thesis
    by (simp del: upt_Suc)
qed

lemma xor_linear_foldr:
  "xor_linear f \<Longrightarrow> f (foldr (\<lambda>i z. g i XOR z) is 0) = foldr (\<lambda>i z. f (g i) XOR z) is 0"
proof (induction "is")
  case Nil
  then have "f (0 XOR 0) = f 0 XOR f 0" by (simp only: xor_linear_def)
  then show ?case by simp
qed (simp add: xor_linear_def)

text \<open>The single bits, and the evaluation of products of them.\<close>

abbreviation basis_bytes :: "8 word list" where
  "basis_bytes \<equiv> [1, 2, 4, 8, 16, 32, 64, 128]"

lemma basis_bytes: "i < 8 \<Longrightarrow> (2 :: 8 word) ^ i \<in> set basis_bytes"
proof -
  have "list_all (\<lambda>i. (2 :: 8 word) ^ i \<in> set basis_bytes) [0..<8]"
    by (simp add: upt_rec)
  then show "i < 8 \<Longrightarrow> (2 :: 8 word) ^ i \<in> set basis_bytes"
    by (simp add: list_all_iff del: upt_Suc list.set)
qed

lemmas gf_eval = gf_mul_def horner_step_def xtime_def

lemma xor_linear_eqI:
  assumes "xor_linear f" "xor_linear g" and basis: "\<And>i. i < 8 \<Longrightarrow> f (2 ^ i) = g (2 ^ i)"
  shows "f w = g w"
proof -
  have z: "f 0 = g 0"
    using assms(1,2) xor_linear_foldr[of f "\<lambda>_. 0" "[]"] xor_linear_foldr[of g "\<lambda>_. 0" "[]"] by simp
  have "f (byte_bit w i) = g (byte_bit w i)" if "i < 8" for i
    using basis[OF that] z by (simp add: byte_bit_def)
  then have "foldr (\<lambda>i z. f (byte_bit w i) XOR z) [0..<8] 0 = foldr (\<lambda>i z. g (byte_bit w i) XOR z) [0..<8] 0"
    by (intro foldr_cong) auto
  with xor_linear_foldr[OF assms(1), of "byte_bit w" "[0..<8]"]
    xor_linear_foldr[OF assms(2), of "byte_bit w" "[0..<8]"] byte_as_bits[of w]
  show ?thesis by simp
qed

lemma xor_linear_intros [simp, intro]:
  "xor_linear (gf_mul x)" "xor_linear (\<lambda>x. gf_mul x y)" "xor_linear xtime"
  "xor_linear (\<lambda>w. w)"
  "xor_linear (\<lambda>w. xtime (gf_mul x w))" "xor_linear (\<lambda>w. gf_mul x (xtime w))"
  "xor_linear (\<lambda>w. xtime (gf_mul w y))" "xor_linear (\<lambda>w. gf_mul w (xtime y))"
  by (simp_all add: xor_linear_def gf_mul_xor_left gf_mul_xor_right xtime_xor)

lemma gf_mul_commute: "gf_mul x y = gf_mul y x"
proof -
  have "list_all (\<lambda>a. list_all (\<lambda>b. gf_mul a b = gf_mul b a) basis_bytes) basis_bytes"
    by (simp add: gf_eval)
  then have basis: "gf_mul (2 ^ i) (2 ^ j) = gf_mul (2 ^ j) (2 ^ i)" if "i < 8" "j < 8" for i j
    using basis_bytes[OF that(1)] basis_bytes[OF that(2)] by (simp only: list_all_iff)
  have basis': "gf_mul (2 ^ i) w = gf_mul w (2 ^ i)" if "i < 8" for i w
    by (rule xor_linear_eqI[of "gf_mul (2 ^ i)" "\<lambda>w. gf_mul w (2 ^ i)"])
       (simp_all add: basis that)
  show ?thesis
    by (rule xor_linear_eqI[of "\<lambda>x. gf_mul x y" "gf_mul y"]) (simp_all add: basis')
qed

lemma gf_mul_xtime: "gf_mul x (xtime y) = xtime (gf_mul x y)"
proof -
  have "list_all (\<lambda>a. list_all (\<lambda>b. gf_mul a (xtime b) = xtime (gf_mul a b)) basis_bytes) basis_bytes"
    by (simp add: gf_eval)
  then have basis: "gf_mul (2 ^ i) (xtime (2 ^ j)) = xtime (gf_mul (2 ^ i) (2 ^ j))"
    if "i < 8" "j < 8" for i j
    using basis_bytes[OF that(1)] basis_bytes[OF that(2)] by (simp only: list_all_iff)
  have basis': "gf_mul (2 ^ i) (xtime w) = xtime (gf_mul (2 ^ i) w)" if "i < 8" for i w
    by (rule xor_linear_eqI[of "\<lambda>w. gf_mul (2 ^ i) (xtime w)" "\<lambda>w. xtime (gf_mul (2 ^ i) w)"])
       (simp_all add: basis that)
  show ?thesis
    by (rule xor_linear_eqI[of "\<lambda>x. gf_mul x (xtime y)" "\<lambda>x. xtime (gf_mul x y)"]) (simp_all add: basis')
qed

lemma gf_mul_foldl_horner:
  "gf_mul x (foldl (horner_step y z) w is) = foldl (horner_step (gf_mul x y) z) (gf_mul x w) is"
proof (induction "is" arbitrary: w)
  case (Cons i "is")
  have "gf_mul x (horner_step y z w i) = horner_step (gf_mul x y) z (gf_mul x w) i"
    by (simp add: horner_step_def gf_mul_xor_right gf_mul_xtime)
  with Cons show ?case by simp
qed simp

lemma gf_mul_assoc: "gf_mul (gf_mul x y) z = gf_mul x (gf_mul y z)"
  using gf_mul_foldl_horner[of x y z 0 "[7, 6, 5, 4, 3, 2, 1, 0]"]
  by (simp only: gf_mul_0_right flip: gf_mul_def)

lemma gf_mul_1 [simp]: "gf_mul 1 y = y"
proof -
  have "list_all (\<lambda>a. gf_mul 1 a = a) basis_bytes"
    by (simp add: gf_eval)
  then have basis': "gf_mul 1 (2 ^ i) = 2 ^ i" if "i < 8" for i
    using basis_bytes[OF that] by (simp only: list_all_iff)
  show ?thesis
    by (rule xor_linear_eqI[of "gf_mul 1" "\<lambda>w. w"]) (simp_all add: basis')
qed

lemma gf_mul_left_commute: "gf_mul x (gf_mul y z) = gf_mul y (gf_mul x z)"
  by (metis gf_mul_assoc gf_mul_commute)

lemmas gf_mul_ac = gf_mul_assoc gf_mul_commute gf_mul_left_commute
lemmas xor_ac = xor.assoc xor.commute xor.left_commute

section \<open>Polynomials\<close>

text \<open>The value at \<open>x\<close> of the polynomial whose coefficients are \<open>cs\<close>, the highest first.\<close>

definition poly_eval :: "8 word list \<Rightarrow> 8 word \<Rightarrow> 8 word" where
  "poly_eval cs x = foldl (\<lambda>acc c. gf_mul x acc XOR c) 0 cs"

definition gf_pow :: "8 word \<Rightarrow> nat \<Rightarrow> 8 word" where
  "gf_pow x n = (gf_mul x ^^ n) 1"

lemma poly_eval_Nil [simp]: "poly_eval [] x = 0"
  by (simp add: poly_eval_def)

lemma poly_eval_snoc [simp]: "poly_eval (cs @ [c]) x = gf_mul x (poly_eval cs x) XOR c"
  by (simp add: poly_eval_def)

lemma gf_pow_Suc: "gf_pow x (Suc n) = gf_mul x (gf_pow x n)"
  and gf_pow_0 [simp]: "gf_pow x 0 = 1"
  by (simp_all add: gf_pow_def)

lemma poly_eval_append:
  "poly_eval (as @ bs) x = gf_mul (gf_pow x (length bs)) (poly_eval as x) XOR poly_eval bs x"
proof (induction bs rule: rev_induct)
  case Nil
  then show ?case by simp
next
  case (snoc b bs)
  then show ?case
    using poly_eval_snoc[of "as @ bs" b x]
    by (simp add: gf_pow_Suc gf_mul_xor_right gf_mul_assoc xor.assoc)
qed

lemma poly_eval_Cons:
  "poly_eval (a # as) x = gf_mul (gf_pow x (length as)) a XOR poly_eval as x"
  using poly_eval_append[of "[a]" as x] by (simp add: poly_eval_def)

lemma poly_eval_replicate_0 [simp]: "poly_eval (replicate n 0) x = 0"
  by (induction n) (simp_all add: poly_eval_Cons)

lemma poly_eval_map_mul: "poly_eval (map (gf_mul k) as) x = gf_mul k (poly_eval as x)"
proof (induction as)
  case (Cons a as)
  then show ?case
    by (simp add: poly_eval_Cons gf_mul_xor_right gf_mul_left_commute)
qed simp

lemma poly_eval_map2_xor:
  "length as = length bs \<Longrightarrow>
   poly_eval (map2 (XOR) as bs) x = poly_eval as x XOR poly_eval bs x"
  by (induction as bs rule: list_induct2) (simp_all add: poly_eval_Cons gf_mul_xor_right xor_ac)

section \<open>The generator polynomial\<close>

text \<open>One pass of the inner loop leaves \<open>root * a\<^sub>j + a\<^sub>j\<^sub>+\<^sub>1\<close> in every cell.\<close>

lemma rs_divisor_pass:
  assumes "k \<le> length a"
  shows "foldl (rs_divisor_cell root) a [0..<k] =
    map2 (XOR) (map (gf_mul root) (take k a)) (take k (drop 1 a @ [0])) @ drop k a"
  using assms
proof (induction k)
  case 0
  then show ?case by simp
next
  case (Suc k)
  let ?done = "map2 (XOR) (map (gf_mul root) (take k a)) (take k (drop 1 a @ [0]))"
  have len: "length ?done = k" using Suc.prems by simp
  have split: "drop k a = a ! k # drop (Suc k) a"
    using Suc.prems by (simp add: Cons_nth_drop_Suc)
  have upd: "(?done @ drop k a)[k := v] = ?done @ v # drop (Suc k) a" for v
    using len split by (simp add: list_update_append)
  have nxt: "(?done @ v # drop (Suc k) a) ! Suc k = a ! Suc k" if "Suc k < length a" for v
    using len that by (simp add: nth_append)
  have at: "(?done @ drop k a) ! k = a ! k" "(?done @ v # drop (Suc k) a) ! k = v" for v
    using len split by (simp_all add: nth_append)
  have "rs_divisor_cell root (?done @ drop k a) k =
      ?done @ (gf_mul root (a ! k) XOR (drop 1 a @ [0]) ! k) # drop (Suc k) a"
    using Suc.prems len
    by (auto simp: rs_divisor_cell_def Let_def reedSolomonMultiply_eq at upd nxt nth_append
          gf_mul_commute[of _ root] list_update_append) (simp_all add: split)
  moreover have "take (Suc k) a = take k a @ [a ! k]"
    by (rule take_Suc_conv_app_nth) (use Suc.prems in auto)
  moreover have "take (Suc k) (drop 1 a @ [0]) = take k (drop 1 a @ [0]) @ [(drop 1 a @ [0]) ! k]"
    by (rule take_Suc_conv_app_nth) (use Suc.prems in auto)
  ultimately show ?case
    using Suc by (simp add: zip_append del: drop_append)
qed

lemma rs_divisor_pass_full:
  "foldl (rs_divisor_cell root) a [0..<length a] =
   map2 (XOR) (map (gf_mul root) a) (drop 1 a @ [0])"
  using rs_divisor_pass[of "length a" a root] by (cases a) simp_all

lemma length_rs_divisor_pass [simp]:
  "length (foldl (rs_divisor_cell root) a [0..<length a]) = length a"
  by (simp only: rs_divisor_pass_full) (cases a; simp)

text \<open>It multiplies the polynomial by \<open>x - root\<close>, up to the coefficient it drops at the front.\<close>

lemma poly_eval_shift:
  "a \<noteq> [] \<Longrightarrow> poly_eval (drop 1 a @ [0]) x =
   gf_mul x (poly_eval a x) XOR gf_mul (gf_pow x (length a)) (hd a)"
  by (cases a) (simp_all add: poly_eval_Cons gf_mul_xor_right gf_pow_Suc gf_mul_assoc xor_ac)

lemma poly_eval_divisor_pass:
  assumes "a \<noteq> []"
  shows "poly_eval (foldl (rs_divisor_cell root) a [0..<length a]) x =
    gf_mul (x XOR root) (poly_eval a x) XOR gf_mul (gf_pow x (length a)) (hd a)"
proof -
  have "length (map (gf_mul root) a) = length (drop 1 a @ [0])"
    using assms by (cases a) simp_all
  then show ?thesis
    using poly_eval_shift[OF assms, of x]
    by (simp add: rs_divisor_pass_full poly_eval_map2_xor poly_eval_map_mul gf_mul_xor_left xor_ac
             del: drop_append)
qed

text \<open>
  After \<open>k\<close> passes the array holds \<open>\<Prod>\<^sub>i\<^sub><\<^sub>k (x - 2\<^sup>i)\<close>, the leading one at index \<open>degree - 1 - k\<close> and
  dropped by the last pass.
\<close>

definition rs_roots_product :: "nat \<Rightarrow> 8 word \<Rightarrow> 8 word" where
  "rs_roots_product k x = foldr (\<lambda>i z. gf_mul (x XOR gf_pow 2 i) z) [0..<k] 1"

lemma rs_roots_product_Suc:
  "rs_roots_product (Suc k) x = gf_mul (x XOR gf_pow 2 k) (rs_roots_product k x)"
proof -
  have "foldr (\<lambda>i z. gf_mul (x XOR gf_pow 2 i) z) is (gf_mul y 1) =
      gf_mul y (foldr (\<lambda>i z. gf_mul (x XOR gf_pow 2 i) z) is 1)" for y "is"
    by (induction "is") (simp_all add: gf_mul_left_commute)
  then show ?thesis
    by (simp add: rs_roots_product_def)
qed

lemma rs_roots_product_zero: "i < k \<Longrightarrow> rs_roots_product k (gf_pow 2 i) = 0"
  by (induction k) (auto simp: rs_roots_product_Suc less_Suc_eq)

lemma rs_divisor_steps:
  assumes "d \<ge> 1" and "k \<le> d"
  defines "st \<equiv> (rs_divisor_step ^^ k) ((replicate d 0)[d - 1 := 1], 1)"
  shows "length (fst st) = d \<and> snd st = gf_pow 2 k \<and>
    (if k < d then (\<exists>r. fst st = replicate (d - 1 - k) 0 @ 1 # r)
                   \<and> (\<forall>x. poly_eval (fst st) x = rs_roots_product k x)
     else \<forall>x. poly_eval (1 # fst st) x = rs_roots_product k x)"
  using assms(2) unfolding st_def
proof (induction k)
  case 0
  have "(replicate d 0)[d - 1 := 1] = replicate (d - 1) 0 @ [1 :: 8 word]"
    using \<open>d \<ge> 1\<close> by (cases d) (simp_all add: replicate_append_same[symmetric] list_update_append)
  then show ?case
    using \<open>d \<ge> 1\<close> by (simp add: rs_roots_product_def)
next
  case (Suc k)
  define a where "a = fst ((rs_divisor_step ^^ k) ((replicate d 0)[d - 1 := 1], 1))"
  define root where "root = snd ((rs_divisor_step ^^ k) ((replicate d 0)[d - 1 := 1], 1))"
  from Suc have len: "length a = d" and root: "root = gf_pow 2 k"
    and ev: "poly_eval a x = rs_roots_product k x" for x
    by (auto simp: a_def root_def)
  have lnew: "length (foldl (rs_divisor_cell (gf_pow 2 k)) a [0..<d]) = d"
    using length_rs_divisor_pass[of "gf_pow 2 k" a] len by simp
  from Suc obtain r where r: "a = replicate (d - 1 - k) 0 @ 1 # r"
    by (auto simp: a_def)
  then have ne: "a \<noteq> []" by simp
  let ?new = "foldl (rs_divisor_cell root) a [0..<length a]"
  have st: "(rs_divisor_step ^^ Suc k) ((replicate d 0)[d - 1 := 1], 1) =
      (?new, gf_mul 2 root)"
    by (simp add: rs_divisor_step_def a_def root_def case_prod_unfold reedSolomonMultiply_eq
        gf_mul_commute[of _ 2])
  have ev': "poly_eval ?new x = gf_mul (x XOR gf_pow 2 k) (rs_roots_product k x) XOR
      gf_mul (gf_pow x d) (hd a)" for x
    using poly_eval_divisor_pass[OF ne, of root x] by (simp add: ev root len)
  show ?case
  proof (cases "Suc k < d")
    case True
    then have hd: "hd a = 0"
      by (cases "d - 1 - k") (simp_all add: r)
    obtain m where m: "d - 1 - k = Suc m" "d - 1 - Suc k = m"
      using True by (metis Suc_diff_Suc Suc_lessD diff_Suc_eq_diff_pred zero_less_diff
          diff_Suc_1 less_diff_conv add.commute plus_1_eq_Suc)
    have "\<exists>r'. ?new = replicate m 0 @ 1 # r'"
    proof -
      have "take (Suc m) ?new = replicate m 0 @ [1]"
      proof (rule nth_equalityI)
        have "Suc m \<le> length a" using r m by simp
        then show "length (take (Suc m) ?new) = length (replicate m (0 :: 8 word) @ [1])"
          by simp
        fix i
        assume "i < length (take (Suc m) ?new)"
        then have i: "i \<le> m" and "i < d" using len by auto
        have "a ! i = 0" and "a ! Suc i = (if i = m then 1 else 0)" and "Suc i < d"
          using i r m len by (auto simp: nth_append nth_Cons')
        then show "take (Suc m) ?new ! i = (replicate m 0 @ [1]) ! i"
          using i \<open>i < d\<close> len
          by (auto simp: rs_divisor_pass_full nth_append simp del: drop_append)
      qed
      then show ?thesis
        by (metis append.assoc append_Cons append_Nil append_take_drop_id)
    qed
    then show ?thesis
      using True len m hd ev' lnew unfolding st
      by (simp add: gf_pow_Suc root rs_roots_product_Suc)
  next
    case False
    then have k: "Suc k = d" using Suc.prems by simp
    then have hd: "hd a = 1" by (simp add: r)
    have "poly_eval (1 # ?new) x = rs_roots_product (Suc k) x" for x
      using len hd lnew ev'[of x]
      by (simp add: poly_eval_Cons root rs_roots_product_Suc gf_mul_commute[of _ 1] xor_ac)
    then show ?thesis
      using False len k[symmetric] lnew unfolding st by (simp add: gf_pow_Suc root)
  qed
qed

lemma reedSolomonComputeDivisor_ok:
  assumes "1 \<le> degree" "degree \<le> 255"
  obtains D where "reedSolomonComputeDivisor degree = Inr D" "length D = nat degree"
    "\<And>x. poly_eval (1 # D) x = rs_roots_product (nat degree) x"
  using assms rs_divisor_steps[of "nat degree" "nat degree"]
  by (auto simp: reedSolomonComputeDivisor_def Let_def)

section \<open>The remainder\<close>

lemma foldl_update_all:
  assumes "k \<le> length r"
  shows "foldl (\<lambda>r i. r[i := f (r ! i) i]) r [0..<k] = map2 f (take k r) [0..<k] @ drop k r"
  using assms
proof (induction k)
  case (Suc k)
  have "drop k r = r ! k # drop (Suc k) r"
    using Suc.prems by (simp add: Cons_nth_drop_Suc)
  moreover have "take (Suc k) r = take k r @ [r ! k]"
    using Suc.prems by (simp add: take_Suc_conv_app_nth)
  ultimately show ?case
    using Suc by (simp add: nth_append list_update_append zip_append)
qed simp

lemma rs_remainder_step_eq:
  assumes "length r = length D" and "r \<noteq> []"
  shows "rs_remainder_step D r b =
    map2 (XOR) (drop 1 r @ [0]) (map (gf_mul (b XOR hd r)) D)"
proof -
  have len: "length (drop 1 r @ [0]) = length D"
    using assms by (cases r) simp_all
  have "map2 (\<lambda>x i. x XOR reedSolomonMultiply (D ! i) f) as [0..<length as] =
      map2 (XOR) as (map (gf_mul f) D)" if "length as = length D" for f as
    using that by (intro nth_equalityI) (auto simp: reedSolomonMultiply_eq gf_mul_commute[of _ f])
  with len assms show ?thesis
    by (simp add: rs_remainder_step_def Let_def foldl_update_all[of _ _ "\<lambda>x i. x XOR reedSolomonMultiply (D ! i) _"]
        hd_conv_nth del: upt_Suc drop_append)
qed

lemma length_rs_remainder_step [simp]:
  "length r = length D \<Longrightarrow> r \<noteq> [] \<Longrightarrow> length (rs_remainder_step D r b) = length D"
proof -
  assume "length r = length D" and "r \<noteq> []"
  moreover have "length (foldl (\<lambda>r i. r[i := f r i]) r is) = length r" for f :: "8 word list \<Rightarrow> nat \<Rightarrow> 8 word" and r "is"
    by (induction "is" arbitrary: r) simp_all
  ultimately show ?thesis
    by (cases r) (auto simp: rs_remainder_step_def Let_def rs_remainder_step_eq)
qed

lemma xor_zero_iff: "a XOR b = 0 \<longleftrightarrow> b = (a :: 8 word)"
  by (metis xor.assoc xor.right_neutral xor_self_eq xor.left_neutral)

text \<open>At a root of the divisor the remainder agrees with the data shifted past it.\<close>

lemma poly_eval_remainder:
  assumes "D \<noteq> []" and root: "poly_eval (1 # D) x = 0"
  shows "length (reedSolomonComputeRemainder data D) = length D \<and>
    poly_eval (reedSolomonComputeRemainder data D) x =
    gf_mul (gf_pow x (length D)) (poly_eval data x)"
proof (induction data rule: rev_induct)
  case Nil
  then show ?case by (simp add: reedSolomonComputeRemainder_def)
next
  case (snoc b data)
  define r where "r = reedSolomonComputeRemainder data D"
  have len: "length r = length D" and ne: "r \<noteq> []"
    and ev: "poly_eval r x = gf_mul (gf_pow x (length D)) (poly_eval data x)"
    using snoc assms(1) by (auto simp: r_def)
  have D: "poly_eval D x = gf_pow x (length D)"
    using root by (simp add: poly_eval_Cons gf_mul_commute[of _ 1] xor_zero_iff)
  have "reedSolomonComputeRemainder (data @ [b]) D = rs_remainder_step D r b"
    by (simp add: reedSolomonComputeRemainder_def r_def)
  moreover have "poly_eval (rs_remainder_step D r b) x =
      gf_mul (gf_pow x (length D)) (gf_mul x (poly_eval data x) XOR b)"
  proof -
    have "length (drop 1 r @ [0]) = length (map (gf_mul (b XOR hd r)) D)"
      using len ne by (cases r) simp_all
    then have "poly_eval (rs_remainder_step D r b) x =
        poly_eval (drop 1 r @ [0]) x XOR gf_mul (b XOR hd r) (poly_eval D x)"
      unfolding rs_remainder_step_eq[OF len ne]
      by (subst poly_eval_map2_xor) (simp_all only: poly_eval_map_mul)
    then show ?thesis
      by (simp only: poly_eval_shift[OF ne] D ev len gf_mul_xor_left gf_mul_xor_right gf_mul_ac)
         (simp add: gf_mul_ac xor_ac)
  qed
  ultimately show ?case using len ne by simp
qed

lemma rs_codeword:
  assumes "1 \<le> degree" "degree \<le> 255" and "reedSolomonComputeDivisor degree = Inr D"
    and "i < nat degree"
  shows "poly_eval (data @ reedSolomonComputeRemainder data D) (gf_pow 2 i) = 0"
    and "length (reedSolomonComputeRemainder data D) = nat degree"
proof -
  obtain D' where D': "reedSolomonComputeDivisor degree = Inr D'" "length D' = nat degree"
    "\<And>x. poly_eval (1 # D') x = rs_roots_product (nat degree) x"
    using reedSolomonComputeDivisor_ok[OF assms(1,2)] by blast
  with assms(3) have D: "length D = nat degree" "poly_eval (1 # D) (gf_pow 2 i) = 0"
    using rs_roots_product_zero[OF assms(4)] by auto
  with assms(1) have "D \<noteq> []" by auto
  from poly_eval_remainder[OF this D(2), of data] D(1)
  show "length (reedSolomonComputeRemainder data D) = nat degree"
    "poly_eval (data @ reedSolomonComputeRemainder data D) (gf_pow 2 i) = 0"
    by (simp_all add: poly_eval_append)
qed

end
