(* ===== verification/Qr_Code.thy ===== *)
theory Qr_Code
  imports Qr_Galois
begin

text \<open>
  The symbol half of the QR code generator (\<^verbatim>\<open>src/lib/qrcodegen/qrcodegen.cpp\<close>, class
  \<^verbatim>\<open>QrCode\<close>): the constructor and the routines it calls, the choice of version and
  error correction level in \<^verbatim>\<open>encodeSegments\<close>, and \<^verbatim>\<open>display\<close>, with which the login
  dialogue prints the code.

  Every \<^verbatim>\<open>vector::at\<close>, \<^verbatim>\<open>throw\<close> and \<^verbatim>\<open>assert\<close> is a branch of the result. An index of type
  \<^verbatim>\<open>int\<close> is converted to \<^verbatim>\<open>size_t\<close> before it is used (\<open>to_size\<close>).
\<close>

section \<open>The symbol\<close>

datatype ecc = LOW | MEDIUM | QUARTILE | HIGH

fun ecc_index :: "ecc \<Rightarrow> nat" where
  "ecc_index LOW = 0"
| "ecc_index MEDIUM = 1"
| "ecc_index QUARTILE = 2"
| "ecc_index HIGH = 3"

fun getFormatBits :: "ecc \<Rightarrow> int" where
  "getFormatBits LOW = 1"
| "getFormatBits MEDIUM = 0"
| "getFormatBits QUARTILE = 3"
| "getFormatBits HIGH = 2"

record qr_code =
  qr_version :: int
  qr_size :: int
  errorCorrectionLevel :: ecc
  qr_mask :: int
  modules :: "bool list list"
  isFunction :: "bool list list"

abbreviation (input) MIN_VERSION :: int where "MIN_VERSION \<equiv> 1"
abbreviation (input) MAX_VERSION :: int where "MAX_VERSION \<equiv> 40"

section \<open>Tables\<close>

definition ECC_CODEWORDS_PER_BLOCK :: "int list list" where
  "ECC_CODEWORDS_PER_BLOCK =
    [[-1, 7, 10, 15, 20, 26, 18, 20, 24, 30, 18, 20, 24, 26,
      30, 22, 24, 28, 30, 28, 28, 28, 28, 30, 30, 26, 28, 30,
      30, 30, 30, 30, 30, 30, 30, 30, 30, 30, 30, 30, 30],
     [-1, 10, 16, 26, 18, 24, 16, 18, 22, 22, 26, 30, 22, 22,
      24, 24, 28, 28, 26, 26, 26, 26, 28, 28, 28, 28, 28, 28,
      28, 28, 28, 28, 28, 28, 28, 28, 28, 28, 28, 28, 28],
     [-1, 13, 22, 18, 26, 18, 24, 18, 22, 20, 24, 28, 26, 24,
      20, 30, 24, 28, 28, 26, 30, 28, 30, 30, 30, 30, 28, 30,
      30, 30, 30, 30, 30, 30, 30, 30, 30, 30, 30, 30, 30],
     [-1, 17, 28, 22, 16, 22, 28, 26, 26, 24, 28, 24, 28, 22,
      24, 24, 30, 28, 28, 26, 28, 30, 24, 30, 30, 30, 30, 30,
      30, 30, 30, 30, 30, 30, 30, 30, 30, 30, 30, 30, 30]]"

definition NUM_ERROR_CORRECTION_BLOCKS :: "int list list" where
  "NUM_ERROR_CORRECTION_BLOCKS =
    [[-1, 1, 1, 1, 1, 1, 2, 2, 2, 2, 4, 4, 4, 4,
      4, 6, 6, 6, 6, 7, 8, 8, 9, 9, 10, 12, 12, 12,
      13, 14, 15, 16, 17, 18, 19, 19, 20, 21, 22, 24, 25],
     [-1, 1, 1, 1, 2, 2, 4, 4, 4, 5, 5, 5, 8, 9,
      9, 10, 10, 11, 13, 14, 16, 17, 17, 18, 20, 21, 23, 25,
      26, 28, 29, 31, 33, 35, 37, 38, 40, 43, 45, 47, 49],
     [-1, 1, 1, 2, 2, 4, 4, 6, 6, 8, 8, 8, 10, 12,
      16, 12, 17, 16, 18, 21, 20, 23, 23, 25, 27, 29, 34, 34,
      35, 38, 40, 43, 45, 48, 51, 53, 56, 59, 62, 65, 68],
     [-1, 1, 1, 2, 4, 4, 4, 5, 6, 8, 8, 11, 11, 16,
      16, 18, 16, 19, 21, 25, 25, 25, 34, 30, 32, 35, 37, 40,
      42, 45, 48, 51, 54, 57, 60, 63, 66, 70, 74, 77, 81]]"

abbreviation (input) PENALTY_N1 :: int where "PENALTY_N1 \<equiv> 3"
abbreviation (input) PENALTY_N2 :: int where "PENALTY_N2 \<equiv> 3"
abbreviation (input) PENALTY_N3 :: int where "PENALTY_N3 \<equiv> 40"
abbreviation (input) PENALTY_N4 :: int where "PENALTY_N4 \<equiv> 10"

section \<open>Capacities\<close>

definition getNumRawDataModules :: "int \<Rightarrow> qr_error + int" where
  "getNumRawDataModules ver =
     (if ver < MIN_VERSION \<or> ver > MAX_VERSION
      then Inl (Domain_error ''Version number out of range'')
      else let result = (16 * ver + 128) * ver + 64;
               result' = (if ver \<ge> 2
                 then let numAlign = ver div 7 + 2;
                          r = result - ((25 * numAlign - 10) * numAlign - 55) in
                      if ver \<ge> 7 then r - 36 else r
                 else result) in
           assert_r (208 \<le> result' \<and> result' \<le> 29648) result')"

definition ecc_codewords :: "ecc \<Rightarrow> int \<Rightarrow> int" where
  "ecc_codewords ecl ver = ECC_CODEWORDS_PER_BLOCK ! ecc_index ecl ! nat ver"

definition ecc_blocks :: "ecc \<Rightarrow> int \<Rightarrow> int" where
  "ecc_blocks ecl ver = NUM_ERROR_CORRECTION_BLOCKS ! ecc_index ecl ! nat ver"

definition getNumDataCodewords :: "int \<Rightarrow> ecc \<Rightarrow> qr_error + int" where
  "getNumDataCodewords ver ecl =
     bind_r (getNumRawDataModules ver) (\<lambda>raw.
       Inr (raw div 8 - ecc_codewords ecl ver * ecc_blocks ecl ver))"

section \<open>Reading and writing modules\<close>

definition to_size :: "int \<Rightarrow> nat" where
  "to_size x = nat (x mod 2 ^ 64)"

definition at_r :: "'a list \<Rightarrow> nat \<Rightarrow> qr_error + 'a" where
  "at_r xs i = (if i < length xs then Inr (xs ! i) else Inl At_out_of_range)"

definition grid_at :: "bool list list \<Rightarrow> nat \<Rightarrow> nat \<Rightarrow> qr_error + bool" where
  "grid_at g y x = bind_r (at_r g y) (\<lambda>row. at_r row x)"

definition grid_set :: "bool list list \<Rightarrow> nat \<Rightarrow> nat \<Rightarrow> bool \<Rightarrow> qr_error + bool list list" where
  "grid_set g y x b =
     bind_r (at_r g y) (\<lambda>row. bind_r (at_r row x) (\<lambda>_. Inr (g[y := row[x := b]])))"

definition get_module :: "int \<Rightarrow> int \<Rightarrow> qr_code \<Rightarrow> qr_error + bool" where
  "get_module x y q = grid_at (modules q) (to_size y) (to_size x)"

definition getModule :: "qr_code \<Rightarrow> int \<Rightarrow> int \<Rightarrow> qr_error + bool" where
  "getModule q x y =
     (if 0 \<le> x \<and> x < qr_size q \<and> 0 \<le> y \<and> y < qr_size q then get_module x y q else Inr False)"

definition setFunctionModule :: "int \<Rightarrow> int \<Rightarrow> bool \<Rightarrow> qr_code \<Rightarrow> qr_error + qr_code" where
  "setFunctionModule x y isDark q =
     bind_r (grid_set (modules q) (to_size y) (to_size x) isDark) (\<lambda>ms.
     bind_r (grid_set (isFunction q) (to_size y) (to_size x) True) (\<lambda>fs.
     Inr (q\<lparr>modules := ms, isFunction := fs\<rparr>)))"

definition getBit :: "int \<Rightarrow> nat \<Rightarrow> bool" where
  "getBit x i = (drop_bit i x AND 1 \<noteq> 0)"

section \<open>Function patterns\<close>

definition drawTimingPatterns :: "qr_code \<Rightarrow> qr_error + qr_code" where
  "drawTimingPatterns q =
     fold_r (\<lambda>i q. bind_r (setFunctionModule 6 i (i mod 2 = 0) q)
                          (setFunctionModule i 6 (i mod 2 = 0)))
            [0..qr_size q - 1] q"

definition drawFinderPattern :: "int \<Rightarrow> int \<Rightarrow> qr_code \<Rightarrow> qr_error + qr_code" where
  "drawFinderPattern x y =
     fold_r (\<lambda>dy. fold_r (\<lambda>dx q.
       let dist = max \<bar>dx\<bar> \<bar>dy\<bar>; xx = x + dx; yy = y + dy in
       if 0 \<le> xx \<and> xx < qr_size q \<and> 0 \<le> yy \<and> yy < qr_size q
       then setFunctionModule xx yy (dist \<noteq> 2 \<and> dist \<noteq> 4) q else Inr q) [-4..4]) [-4..4]"

definition drawAlignmentPattern :: "int \<Rightarrow> int \<Rightarrow> qr_code \<Rightarrow> qr_error + qr_code" where
  "drawAlignmentPattern x y =
     fold_r (\<lambda>dy. fold_r (\<lambda>dx.
       setFunctionModule (x + dx) (y + dy) (max \<bar>dx\<bar> \<bar>dy\<bar> \<noteq> 1)) [-2..2]) [-2..2]"

text \<open>Positions are prepended from the bottom up, then the first one, 6.\<close>

definition getAlignmentPatternPositions :: "qr_code \<Rightarrow> int list" where
  "getAlignmentPatternPositions q =
     (if qr_version q = 1 then []
      else let numAlign = qr_version q div 7 + 2;
               step = (qr_version q * 8 + numAlign * 3 + 5) div (numAlign * 4 - 4) * 2 in
           6 # foldl (\<lambda>result i. (qr_size q - 7 - int i * step) # result) [] [0..<nat (numAlign - 1)])"

definition drawAlignmentPatterns :: "qr_code \<Rightarrow> qr_error + qr_code" where
  "drawAlignmentPatterns q =
     (let alignPatPos = getAlignmentPatternPositions q; numAlign = length alignPatPos in
      fold_r (\<lambda>i. fold_r (\<lambda>j q.
        if \<not> ((i = 0 \<and> j = 0) \<or> (i = 0 \<and> j = numAlign - 1) \<or> (i = numAlign - 1 \<and> j = 0))
        then bind_r (at_r alignPatPos i) (\<lambda>px. bind_r (at_r alignPatPos j) (\<lambda>py.
             drawAlignmentPattern px py q))
        else Inr q) [0..<numAlign]) [0..<numAlign] q)"

definition formatBits :: "ecc \<Rightarrow> int \<Rightarrow> int" where
  "formatBits ecl msk =
     (let data = push_bit 3 (getFormatBits ecl) OR msk;
          rem = ((\<lambda>rem. push_bit 1 rem XOR (drop_bit 9 rem * 0x537)) ^^ 10) data in
      (push_bit 10 data OR rem) XOR 0x5412)"

definition drawFormatBits :: "int \<Rightarrow> qr_code \<Rightarrow> qr_error + qr_code" where
  "drawFormatBits msk q =
     (let bits = formatBits (errorCorrectionLevel q) msk; sz = qr_size q in
      bind_r (assert_r (drop_bit 15 bits = 0) q) (\<lambda>q.
      bind_r (fold_r (\<lambda>i. setFunctionModule 8 (int i) (getBit bits i)) [0..<6] q) (\<lambda>q.
      bind_r (setFunctionModule 8 7 (getBit bits 6) q) (\<lambda>q.
      bind_r (setFunctionModule 8 8 (getBit bits 7) q) (\<lambda>q.
      bind_r (setFunctionModule 7 8 (getBit bits 8) q) (\<lambda>q.
      bind_r (fold_r (\<lambda>i. setFunctionModule (14 - int i) 8 (getBit bits i)) [9..<15] q) (\<lambda>q.
      bind_r (fold_r (\<lambda>i. setFunctionModule (sz - 1 - int i) 8 (getBit bits i)) [0..<8] q) (\<lambda>q.
      bind_r (fold_r (\<lambda>i. setFunctionModule 8 (sz - 15 + int i) (getBit bits i)) [8..<15] q) (\<lambda>q.
      setFunctionModule 8 (sz - 8) True q)))))))))"

definition versionBits :: "int \<Rightarrow> int" where
  "versionBits ver =
     (let rem = ((\<lambda>rem. push_bit 1 rem XOR (drop_bit 11 rem * 0x1F25)) ^^ 12) ver in
      push_bit 12 ver OR rem)"

definition drawVersion :: "qr_code \<Rightarrow> qr_error + qr_code" where
  "drawVersion q =
     (if qr_version q < 7 then Inr q
      else let bits = versionBits (qr_version q) in
           bind_r (assert_r (drop_bit 18 bits = 0) q)
             (fold_r (\<lambda>i q. let bit = getBit bits i; a = qr_size q - 11 + int (i mod 3); b = int (i div 3) in
                bind_r (setFunctionModule a b bit q) (setFunctionModule b a bit)) [0..<18]))"

definition drawFunctionPatterns :: "qr_code \<Rightarrow> qr_error + qr_code" where
  "drawFunctionPatterns q =
     bind_r (drawTimingPatterns q) (\<lambda>q.
     bind_r (drawFinderPattern 3 3 q) (\<lambda>q.
     bind_r (drawFinderPattern (qr_size q - 4) 3 q) (\<lambda>q.
     bind_r (drawFinderPattern 3 (qr_size q - 4) q) (\<lambda>q.
     bind_r (drawAlignmentPatterns q) (\<lambda>q.
     bind_r (drawFormatBits 0 q) drawVersion)))))"

section \<open>Codewords\<close>

text \<open>
  \<open>split_blocks\<close> is the loop that cuts the data into blocks and appends the remainder of each;
  its state is the blocks so far and the offset \<^verbatim>\<open>k\<close>.
\<close>

definition split_blocks ::
    "8 word list \<Rightarrow> 8 word list \<Rightarrow> int \<Rightarrow> int \<Rightarrow> int \<Rightarrow> int \<Rightarrow> 8 word list list" where
  "split_blocks data rsDiv numBlocks numShortBlocks shortBlockLen blockEccLen =
     fst (foldl (\<lambda>(blocks, k) i.
        let dat = take (nat (shortBlockLen - blockEccLen + (if i < numShortBlocks then 0 else 1)))
                       (drop k data);
            ecc = reedSolomonComputeRemainder dat rsDiv in
        (blocks @ [(if i < numShortBlocks then dat @ [0] else dat) @ ecc], k + length dat))
      ([], 0) [0..numBlocks - 1])"

definition interleave :: "8 word list list \<Rightarrow> int \<Rightarrow> int \<Rightarrow> qr_error + 8 word list" where
  "interleave blocks padAt numShortBlocks =
     bind_r (at_r blocks 0) (\<lambda>b0.
     fold_r (\<lambda>i. fold_r (\<lambda>j result.
        if int i \<noteq> padAt \<or> int j \<ge> numShortBlocks
        then bind_r (at_r blocks j) (\<lambda>b. bind_r (at_r b i) (\<lambda>c. Inr (result @ [c])))
        else Inr result) [0..<length blocks]) [0..<length b0] [])"

definition addEccAndInterleave :: "8 word list \<Rightarrow> qr_code \<Rightarrow> qr_error + 8 word list" where
  "addEccAndInterleave data q =
     (let ver = qr_version q; ecl = errorCorrectionLevel q in
      bind_r (getNumDataCodewords ver ecl) (\<lambda>n.
      if int (length data) \<noteq> n then Inl Invalid_value
      else bind_r (getNumRawDataModules ver) (\<lambda>raw.
        let numBlocks = ecc_blocks ecl ver; blockEccLen = ecc_codewords ecl ver;
            rawCodewords = raw div 8;
            numShortBlocks = numBlocks - rawCodewords mod numBlocks;
            shortBlockLen = rawCodewords div numBlocks in
        bind_r (reedSolomonComputeDivisor blockEccLen) (\<lambda>rsDiv.
        let blocks = split_blocks data rsDiv numBlocks numShortBlocks shortBlockLen blockEccLen in
        bind_r (interleave blocks (shortBlockLen - blockEccLen) numShortBlocks) (\<lambda>result.
        assert_r (int (length result) = rawCodewords) result)))))"

text \<open>The right columns of the column pairs: from the right edge, two at a time, over column 6.\<close>

function rights :: "int \<Rightarrow> int list" where
  "rights right = (if right \<ge> 1
     then let r = (if right = 6 then 5 else right) in r # rights (r - 2) else [])"
  by pat_completeness auto
termination by (relation "measure nat") auto

declare rights.simps [simp del]

text \<open>The modules in the order of the zigzag scan, as \<open>(x, y)\<close>.\<close>

definition scan_cell :: "int \<Rightarrow> int \<Rightarrow> int \<Rightarrow> int \<Rightarrow> int \<times> int" where
  "scan_cell sz right vert j =
     (let upward = ((right + 1) AND 2 = 0) in
      (right - j, if upward then sz - 1 - vert else vert))"

definition draw_codeword_cell ::
    "8 word list \<Rightarrow> int \<times> int \<Rightarrow> nat \<times> qr_code \<Rightarrow> qr_error + (nat \<times> qr_code)" where
  "draw_codeword_cell data = (\<lambda>(x, y) (i, q).
     bind_r (grid_at (isFunction q) (to_size y) (to_size x)) (\<lambda>f.
     if \<not> f \<and> i < length data * 8
     then bind_r (at_r data (drop_bit 3 i)) (\<lambda>b.
          bind_r (grid_set (modules q) (to_size y) (to_size x) (getBit (uint b) (7 - (i AND 7)))) (\<lambda>ms.
          Inr (i + 1, q\<lparr>modules := ms\<rparr>)))
     else Inr (i, q)))"

definition drawCodewords :: "8 word list \<Rightarrow> qr_code \<Rightarrow> qr_error + qr_code" where
  "drawCodewords data q =
     bind_r (getNumRawDataModules (qr_version q)) (\<lambda>raw.
     if int (length data) \<noteq> raw div 8 then Inl Invalid_value
     else bind_r (fold_r (\<lambda>right. fold_r (\<lambda>vert. fold_r (\<lambda>j.
              draw_codeword_cell data (scan_cell (qr_size q) right vert j))
            [0, 1]) [0..qr_size q - 1]) (rights (qr_size q - 1)) (0, q)) (\<lambda>(i, q).
          assert_r (i = length data * 8) q))"

section \<open>Masks\<close>

definition mask_invert :: "int \<Rightarrow> nat \<Rightarrow> nat \<Rightarrow> bool" where
  "mask_invert msk x y =
     (if msk = 0 then (x + y) mod 2 = 0
      else if msk = 1 then y mod 2 = 0
      else if msk = 2 then x mod 3 = 0
      else if msk = 3 then (x + y) mod 3 = 0
      else if msk = 4 then (x div 3 + y div 2) mod 2 = 0
      else if msk = 5 then x * y mod 2 + x * y mod 3 = 0
      else if msk = 6 then (x * y mod 2 + x * y mod 3) mod 2 = 0
      else ((x + y) mod 2 + x * y mod 3) mod 2 = 0)"

definition mask_cell :: "int \<Rightarrow> nat \<Rightarrow> nat \<Rightarrow> qr_code \<Rightarrow> qr_error + qr_code" where
  "mask_cell msk y x q =
     bind_r (grid_at (modules q) y x) (\<lambda>m.
     bind_r (grid_at (isFunction q) y x) (\<lambda>f.
     bind_r (grid_set (modules q) y x (m \<noteq> (mask_invert msk x y \<and> \<not> f))) (\<lambda>ms.
     Inr (q\<lparr>modules := ms\<rparr>))))"

definition applyMask :: "int \<Rightarrow> qr_code \<Rightarrow> qr_error + qr_code" where
  "applyMask msk q =
     (if msk < 0 \<or> msk > 7 then Inl (Domain_error ''Mask value out of range'')
      else fold_r (\<lambda>y. fold_r (mask_cell msk y) [0..<to_size (qr_size q)]) [0..<to_size (qr_size q)] q)"

section \<open>Penalty\<close>

definition finderPenaltyAddHistory :: "int \<Rightarrow> int \<Rightarrow> int list \<Rightarrow> int list" where
  "finderPenaltyAddHistory sz currentRunLength runHistory =
     (let len = (if runHistory ! 0 = 0 then currentRunLength + sz else currentRunLength) in
      len # butlast runHistory)"

definition finderPenaltyCountPatterns :: "int \<Rightarrow> int list \<Rightarrow> qr_error + int" where
  "finderPenaltyCountPatterns sz runHistory =
     (let n = runHistory ! 1;
          core = n > 0 \<and> runHistory ! 2 = n \<and> runHistory ! 3 = n * 3 \<and>
                 runHistory ! 4 = n \<and> runHistory ! 5 = n in
      assert_r (n \<le> sz * 3)
        ((if core \<and> runHistory ! 0 \<ge> n * 4 \<and> runHistory ! 6 \<ge> n then 1 else 0) +
         (if core \<and> runHistory ! 6 \<ge> n * 4 \<and> runHistory ! 0 \<ge> n then 1 else 0)))"

definition finderPenaltyTerminateAndCount :: "int \<Rightarrow> bool \<Rightarrow> int \<Rightarrow> int list \<Rightarrow> qr_error + int" where
  "finderPenaltyTerminateAndCount sz currentRunColor currentRunLength runHistory =
     (let (len, hist) = (if currentRunColor
                         then (0, finderPenaltyAddHistory sz currentRunLength runHistory)
                         else (currentRunLength, runHistory)) in
      finderPenaltyCountPatterns sz (finderPenaltyAddHistory sz (len + sz) hist))"

text \<open>The variables of the scan of one line: \<^verbatim>\<open>result\<close>, \<^verbatim>\<open>runColor\<close>, \<^verbatim>\<open>runX\<close>, \<^verbatim>\<open>runHistory\<close>.\<close>

type_synonym run_state = "int \<times> bool \<times> int \<times> int list"

definition penalty_run_step :: "int \<Rightarrow> bool \<Rightarrow> run_state \<Rightarrow> qr_error + run_state" where
  "penalty_run_step sz color = (\<lambda>(result, runColor, run, hist).
     if color = runColor
     then let run' = run + 1 in
          Inr (if run' = 5 then result + PENALTY_N1 else if run' > 5 then result + 1 else result,
               runColor, run', hist)
     else let hist' = finderPenaltyAddHistory sz run hist in
          bind_r (if \<not> runColor
                  then bind_r (finderPenaltyCountPatterns sz hist') (\<lambda>c. Inr (result + c * PENALTY_N3))
                  else Inr result) (\<lambda>result'.
          Inr (result', color, 1, hist')))"

definition penalty_line :: "int \<Rightarrow> (int \<Rightarrow> qr_error + bool) \<Rightarrow> int \<Rightarrow> qr_error + int" where
  "penalty_line sz line result =
     bind_r (fold_r (\<lambda>i s. bind_r (line i) (\<lambda>c. penalty_run_step sz c s)) [0..sz - 1]
               (result, False, 0, replicate 7 0)) (\<lambda>(result', runColor, run, hist).
     bind_r (finderPenaltyTerminateAndCount sz runColor run hist) (\<lambda>c.
     Inr (result' + c * PENALTY_N3)))"

definition penalty_block :: "qr_code \<Rightarrow> int \<Rightarrow> int \<Rightarrow> int \<Rightarrow> qr_error + int" where
  "penalty_block q y x result =
     bind_r (get_module x y q) (\<lambda>color.
     bind_r (get_module (x + 1) y q) (\<lambda>c1.
     if color \<noteq> c1 then Inr result
     else bind_r (get_module x (y + 1) q) (\<lambda>c2.
       if color \<noteq> c2 then Inr result
       else bind_r (get_module (x + 1) (y + 1) q) (\<lambda>c3.
         Inr (if color = c3 then result + PENALTY_N2 else result)))))"

definition penalty_balance :: "qr_code \<Rightarrow> int" where
  "penalty_balance q =
     (let dark = int (length (filter (\<lambda>c. c) (concat (modules q)))); total = qr_size q * qr_size q in
      (\<bar>dark * 20 - total * 10\<bar> + total - 1) div total - 1)"

definition getPenaltyScore :: "qr_code \<Rightarrow> qr_error + int" where
  "getPenaltyScore q =
     (let sz = qr_size q in
      bind_r (fold_r (\<lambda>y. penalty_line sz (\<lambda>x. get_module x y q)) [0..sz - 1] 0) (\<lambda>result.
      bind_r (fold_r (\<lambda>x. penalty_line sz (\<lambda>y. get_module x y q)) [0..sz - 1] result) (\<lambda>result.
      bind_r (fold_r (\<lambda>y. fold_r (penalty_block q y) [0..sz - 2]) [0..sz - 2] result) (\<lambda>result.
      let k = penalty_balance q in
      bind_r (assert_r (0 \<le> k \<and> k \<le> 9) (result + k * PENALTY_N4)) (\<lambda>result.
      assert_r (0 \<le> result \<and> result \<le> 2568888) result)))))"

section \<open>The constructor\<close>

definition chooseMask :: "qr_code \<Rightarrow> qr_error + (int \<times> qr_code)" where
  "chooseMask q =
     bind_r (fold_r (\<lambda>i (msk, minPenalty, q).
        bind_r (applyMask i q) (\<lambda>q.
        bind_r (drawFormatBits i q) (\<lambda>q.
        bind_r (getPenaltyScore q) (\<lambda>penalty.
        bind_r (applyMask i q) (\<lambda>q'.
        Inr (if penalty < minPenalty then (i, penalty, q') else (msk, minPenalty, q')))))))
      [0..7] (-1, 2 ^ 63 - 1, q)) (\<lambda>(msk, minPenalty, q). Inr (msk, q))"

definition QrCode :: "int \<Rightarrow> ecc \<Rightarrow> 8 word list \<Rightarrow> int \<Rightarrow> qr_error + qr_code" where
  "QrCode ver ecl dataCodewords msk =
     (if ver < MIN_VERSION \<or> ver > MAX_VERSION then Inl (Domain_error ''Version value out of range'')
      else if msk < -1 \<or> msk > 7 then Inl (Domain_error ''Mask value out of range'')
      else let sz = ver * 4 + 17;
               light = replicate (to_size sz) (replicate (to_size sz) False);
               q0 = \<lparr>qr_version = ver, qr_size = sz, errorCorrectionLevel = ecl, qr_mask = 0,
                     modules = light, isFunction = light\<rparr> in
        bind_r (drawFunctionPatterns q0) (\<lambda>q.
        bind_r (addEccAndInterleave dataCodewords q) (\<lambda>allCodewords.
        bind_r (drawCodewords allCodewords q) (\<lambda>q.
        bind_r (if msk = -1 then chooseMask q else Inr (msk, q)) (\<lambda>(msk, q).
        bind_r (assert_r (0 \<le> msk \<and> msk \<le> 7) (q\<lparr>qr_mask := msk\<rparr>)) (\<lambda>q.
        bind_r (applyMask msk q) (\<lambda>q.
        bind_r (drawFormatBits msk q) (\<lambda>q.
        Inr (q\<lparr>isFunction := []\<rparr>)))))))))"

section \<open>Encoding text\<close>

text \<open>The loop over the versions; it ends at \<open>maxVersion\<close>.\<close>

function choose_version :: "qr_segment list \<Rightarrow> ecc \<Rightarrow> int \<Rightarrow> int \<Rightarrow> qr_error + (int \<times> int)" where
  "choose_version segs ecl version maxVersion =
     bind_r (getNumDataCodewords version ecl) (\<lambda>n.
       let dataCapacityBits = n * 8; dataUsedBits = getTotalBits segs version in
       if dataUsedBits \<noteq> -1 \<and> dataUsedBits \<le> dataCapacityBits then Inr (version, dataUsedBits)
       else if version \<ge> maxVersion then Inl (Data_too_long dataUsedBits dataCapacityBits)
       else choose_version segs ecl (version + 1) maxVersion)"
  by pat_completeness auto
termination by (relation "measure (\<lambda>(_, _, v, m). nat (m - v))") auto

declare choose_version.simps [simp del]

definition boost_ecl :: "bool \<Rightarrow> int \<Rightarrow> int \<Rightarrow> ecc \<Rightarrow> qr_error + ecc" where
  "boost_ecl boostEcl version dataUsedBits ecl =
     fold_r (\<lambda>newEcl ecl.
       if boostEcl
       then bind_r (getNumDataCodewords version newEcl) (\<lambda>n.
            Inr (if dataUsedBits \<le> n * 8 then newEcl else ecl))
       else Inr ecl) [MEDIUM, QUARTILE, HIGH] ecl"

definition append_segments :: "qr_segment list \<Rightarrow> int \<Rightarrow> qr_error + bit_buffer" where
  "append_segments segs version =
     fold_r (\<lambda>seg bb.
       bind_r (appendBits (word_of_int (modeBits (seg_mode seg))) 4 bb) (\<lambda>bb.
       bind_r (appendBits (word_of_int (numChars seg)) (numCharCountBits (seg_mode seg) version) bb) (\<lambda>bb.
       Inr (bb @ seg_data seg)))) segs []"

function pad_bytes :: "nat \<Rightarrow> 8 word \<Rightarrow> bit_buffer \<Rightarrow> qr_error + bit_buffer" where
  "pad_bytes dataCapacityBits padByte bb =
     (if length bb < dataCapacityBits
      then (case appendBits (ucast padByte) 8 bb of
              Inl e \<Rightarrow> Inl e
            | Inr bb' \<Rightarrow> pad_bytes dataCapacityBits (padByte XOR (0xEC XOR 0x11)) bb')
      else Inr bb)"
  by pat_completeness auto
termination
  by (relation "measure (\<lambda>(c, _, bb). c - length bb)") (auto simp: appendBits_def split: if_splits)

declare pad_bytes.simps [simp del]

definition pack_bits :: "bit_buffer \<Rightarrow> qr_error + 8 word list" where
  "pack_bits bb =
     fold_r (\<lambda>i dataCodewords.
       bind_r (at_r dataCodewords (drop_bit 3 i)) (\<lambda>w.
       bind_r (at_r bb i) (\<lambda>b.
       Inr (dataCodewords[drop_bit 3 i := w OR push_bit (7 - (i AND 7)) (of_bool b)])))) [0..<length bb]
     (replicate (length bb div 8) 0)"

definition encodeSegments ::
    "qr_segment list \<Rightarrow> ecc \<Rightarrow> int \<Rightarrow> int \<Rightarrow> int \<Rightarrow> bool \<Rightarrow> qr_error + qr_code" where
  "encodeSegments segs ecl minVersion maxVersion msk boostEcl =
     (if \<not> (MIN_VERSION \<le> minVersion \<and> minVersion \<le> maxVersion \<and> maxVersion \<le> MAX_VERSION)
         \<or> msk < -1 \<or> msk > 7
      then Inl Invalid_value
      else bind_r (choose_version segs ecl minVersion maxVersion) (\<lambda>(version, dataUsedBits).
        bind_r (assert_r (dataUsedBits \<noteq> -1) ()) (\<lambda>_.
        bind_r (boost_ecl boostEcl version dataUsedBits ecl) (\<lambda>ecl.
        bind_r (append_segments segs version) (\<lambda>bb.
        bind_r (assert_r (int (length bb) = dataUsedBits) bb) (\<lambda>bb.
        bind_r (getNumDataCodewords version ecl) (\<lambda>n.
        let dataCapacityBits = to_size n * 8 in
        bind_r (assert_r (length bb \<le> dataCapacityBits) bb) (\<lambda>bb.
        bind_r (appendBits 0 (min 4 (int (dataCapacityBits - length bb))) bb) (\<lambda>bb.
        bind_r (appendBits 0 ((8 - int (length bb mod 8)) mod 8) bb) (\<lambda>bb.
        bind_r (assert_r (length bb mod 8 = 0) bb) (\<lambda>bb.
        bind_r (pad_bytes dataCapacityBits 0xEC bb) (\<lambda>bb.
        bind_r (pack_bits bb) (\<lambda>dataCodewords.
        QrCode version ecl dataCodewords msk)))))))))))))"

definition encodeText :: "string \<Rightarrow> ecc \<Rightarrow> qr_error + qr_code" where
  "encodeText cs ecl =
     bind_r (makeSegments (c_str cs)) (\<lambda>segs. encodeSegments segs ecl 1 40 (-1) True)"

definition encodeBinary :: "8 word list \<Rightarrow> ecc \<Rightarrow> qr_error + qr_code" where
  "encodeBinary data ecl =
     bind_r (makeBytes data) (\<lambda>seg. encodeSegments [seg] ecl 1 40 (-1) True)"

section \<open>Printing\<close>

text \<open>
  The four strings of \<^verbatim>\<open>char_map\<close>: full block, upper half block, lower half block, space. The
  index is two bits, the upper module's and the lower one's; a dark module is left blank.
\<close>

datatype glyph = Full_block | Upper_half | Lower_half | Blank | Newline

definition char_map :: "glyph list" where
  "char_map = [Full_block, Upper_half, Lower_half, Blank]"

definition display_glyph :: "qr_code \<Rightarrow> int \<Rightarrow> int \<Rightarrow> qr_error + glyph" where
  "display_glyph qr i j =
     bind_r (getModule qr j i) (\<lambda>upper.
     bind_r (if i + 1 < qr_size qr + 2 then getModule qr j (i + 1) else Inr True) (\<lambda>lower.
     Inr (char_map ! (2 * of_bool upper + of_bool lower))))"

definition display :: "qr_code \<Rightarrow> qr_error + glyph list" where
  "display qr =
     bind_r (fold_r (\<lambda>k os.
        let i = -2 + 2 * int k in
        bind_r (fold_r (\<lambda>j os. bind_r (display_glyph qr i j) (\<lambda>g. Inr (os @ [g])))
                  [-2..qr_size qr + 1] (os @ [Blank, Blank])) (\<lambda>os.
        Inr (os @ [Blank, Blank, Newline]))) [0..<nat ((qr_size qr + 5) div 2)] [Newline]) (\<lambda>os.
     Inr (os @ [Newline]))"

end
