(* ===== verification/Qr_Draw.thy ===== *)
theory Qr_Draw
  imports Qr_Code
begin

text \<open>
  Drawing never leaves the grid: every routine of \<open>Qr_Code\<close> that writes modules returns, keeps
  the shape of the two grids, marks exactly the modules it writes as function modules and leaves
  all other modules alone. \<open>qdraws q C q'\<close> says this of a run from \<open>q\<close> to \<open>q'\<close> that writes the
  modules of \<open>C\<close>.
\<close>

section \<open>The grid\<close>

definition square :: "nat \<Rightarrow> 'a list list \<Rightarrow> bool" where
  "square n g \<longleftrightarrow> length g = n \<and> (\<forall>row \<in> set g. length row = n)"

definition wf_qr :: "qr_code \<Rightarrow> bool" where
  "wf_qr q \<longleftrightarrow> 1 \<le> qr_version q \<and> qr_version q \<le> 40 \<and> qr_size q = qr_version q * 4 + 17 \<and>
     square (nat (qr_size q)) (modules q) \<and> square (nat (qr_size q)) (isFunction q)"

definition cells :: "int \<Rightarrow> (int \<times> int) set" where
  "cells n = {0..<n} \<times> {0..<n}"

definition mod_at :: "qr_code \<Rightarrow> int \<times> int \<Rightarrow> bool" where
  "mod_at q p = modules q ! nat (snd p) ! nat (fst p)"

definition fun_at :: "qr_code \<Rightarrow> int \<times> int \<Rightarrow> bool" where
  "fun_at q p = isFunction q ! nat (snd p) ! nat (fst p)"

definition marks :: "qr_code \<Rightarrow> (int \<times> int) set" where
  "marks q = {p \<in> cells (qr_size q). fun_at q p}"

definition hdr :: "qr_code \<Rightarrow> int \<times> int \<times> ecc \<times> int" where
  "hdr q = (qr_version q, qr_size q, errorCorrectionLevel q, qr_mask q)"

lemma hdr_eq [simp]:
  "hdr q = (v, n, e, m) \<longleftrightarrow> qr_version q = v \<and> qr_size q = n \<and> errorCorrectionLevel q = e \<and> qr_mask q = m"
  by (auto simp: hdr_def)

lemma cells_iff [simp]: "(x, y) \<in> cells n \<longleftrightarrow> 0 \<le> x \<and> x < n \<and> 0 \<le> y \<and> y < n"
  by (auto simp: cells_def)

lemma finite_cells [simp]: "finite (cells n)"
  by (simp add: cells_def)

lemma card_cells: "0 \<le> n \<Longrightarrow> int (card (cells n)) = n * n"
  by (simp add: cells_def card_cartesian_product)

lemma wf_size: "wf_qr q \<Longrightarrow> 21 \<le> qr_size q \<and> qr_size q \<le> 177"
  by (auto simp: wf_qr_def)

lemma wf_square:
  "wf_qr q \<Longrightarrow> square (nat (qr_size q)) (modules q)"
  "wf_qr q \<Longrightarrow> square (nat (qr_size q)) (isFunction q)"
  unfolding wf_qr_def by blast+

lemma wf_qr_upd:
  assumes "wf_qr q" and "square (nat (qr_size q)) ms" and "square (nat (qr_size q)) fs"
  shows "wf_qr (q\<lparr>modules := ms, isFunction := fs\<rparr>)"
  using assms by (auto simp: wf_qr_def)

lemma to_size_small: "0 \<le> x \<Longrightarrow> x \<le> 1000 \<Longrightarrow> to_size x = nat x"
  by (simp add: to_size_def)

lemma square_nth: "square n g \<Longrightarrow> y < n \<Longrightarrow> length (g ! y) = n"
  by (simp add: square_def)

lemma grid_at_ok: "square n g \<Longrightarrow> y < n \<Longrightarrow> x < n \<Longrightarrow> grid_at g y x = Inr (g ! y ! x)"
  by (simp add: grid_at_def at_r_def square_def)

lemma grid_set_ok:
  "square n g \<Longrightarrow> y < n \<Longrightarrow> x < n \<Longrightarrow> grid_set g y x b = Inr (g[y := (g ! y)[x := b]])"
  by (simp add: grid_set_def at_r_def square_def)

lemma square_upd: "square n g \<Longrightarrow> y < n \<Longrightarrow> square n (g[y := (g ! y)[x := b]])"
  unfolding square_def by (auto dest!: set_update_subset_insert[THEN subsetD])

lemma nth_upd2:
  "square n g \<Longrightarrow> y < n \<Longrightarrow> x < n \<Longrightarrow> y' < n \<Longrightarrow> x' < n \<Longrightarrow>
   g[y := (g ! y)[x := b]] ! y' ! x' = (if y' = y \<and> x' = x then b else g ! y' ! x')"
  by (auto simp: square_def nth_list_update)

lemma get_module_ok:
  assumes "wf_qr q" and "(x, y) \<in> cells (qr_size q)"
  shows "get_module x y q = Inr (mod_at q (x, y))"
proof -
  have "to_size x = nat x" "to_size y = nat y" "nat x < nat (qr_size q)" "nat y < nat (qr_size q)"
    using assms wf_size[of q] by (auto simp: to_size_small)
  with wf_square(1)[OF assms(1)] show ?thesis
    by (simp add: get_module_def mod_at_def grid_at_ok)
qed

lemma getModule_ok:
  "wf_qr q \<Longrightarrow> getModule q x y = Inr ((x, y) \<in> cells (qr_size q) \<and> mod_at q (x, y))"
  by (auto simp: getModule_def get_module_ok)

section \<open>Runs that draw\<close>

definition qdraws :: "qr_code \<Rightarrow> (int \<times> int) set \<Rightarrow> qr_code \<Rightarrow> bool" where
  "qdraws q C q' \<longleftrightarrow> wf_qr q' \<and> hdr q' = hdr q \<and> marks q' = marks q \<union> C \<and>
     (\<forall>p \<in> cells (qr_size q) - C. mod_at q' p = mod_at q p)"

definition ok_draw :: "(qr_code \<Rightarrow> qr_error + qr_code) \<Rightarrow> (int \<times> int) set \<Rightarrow> qr_code \<Rightarrow> bool" where
  "ok_draw f C q \<longleftrightarrow> (\<exists>q'. f q = Inr q' \<and> qdraws q C q')"

lemma qdraws_refl: "wf_qr q \<Longrightarrow> qdraws q {} q"
  by (simp add: qdraws_def)

lemma qdraws_trans: "qdraws q C q' \<Longrightarrow> qdraws q' D q'' \<Longrightarrow> qdraws q (C \<union> D) q''"
  by (auto simp: qdraws_def hdr_def)

lemma qdraws_wf: "qdraws q C q' \<Longrightarrow> wf_qr q'"
  and draws_hdr: "qdraws q C q' \<Longrightarrow> hdr q' = hdr q"
  by (simp_all add: qdraws_def)

lemma ok_draw_set:
  assumes "wf_qr q" and p: "(x, y) \<in> cells (qr_size q)"
  shows "ok_draw (setFunctionModule x y b) {(x, y)} q"
proof -
  let ?n = "nat (qr_size q)"
  have i: "to_size x = nat x" "to_size y = nat y" "nat x < ?n" "nat y < ?n"
    using assms wf_size[of q] by (auto simp: to_size_small)
  have sq: "square ?n (modules q)" "square ?n (isFunction q)"
    using wf_square[OF assms(1)] by simp_all
  define q' where "q' = q\<lparr>modules := (modules q)[nat y := (modules q ! nat y)[nat x := b]],
    isFunction := (isFunction q)[nat y := (isFunction q ! nat y)[nat x := True]]\<rparr>"
  have run: "setFunctionModule x y b q = Inr q'"
    using i sq by (simp add: setFunctionModule_def grid_set_ok q'_def)
  have eq: "nat x' < ?n" "nat y' < ?n" "(nat y' = nat y \<and> nat x' = nat x) \<longleftrightarrow> (x', y') = (x, y)"
    if "(x', y') \<in> cells (qr_size q)" for x' y'
    using that p by auto
  have "mod_at q' (x', y') = (if (x', y') = (x, y) then b else mod_at q (x', y'))"
    "fun_at q' (x', y') = ((x', y') = (x, y) \<or> fun_at q (x', y'))"
    if "(x', y') \<in> cells (qr_size q)" for x' y'
    using eq[OF that] i sq
    by (auto simp: mod_at_def fun_at_def q'_def nth_upd2)
  moreover have "wf_qr q'" "hdr q' = hdr q"
    using assms(1) i sq unfolding q'_def by (auto intro!: wf_qr_upd square_upd simp: hdr_def)
  ultimately have "qdraws q {(x, y)} q'"
    using p unfolding qdraws_def marks_def hdr_def by auto
  with run show ?thesis by (auto simp: ok_draw_def)
qed

lemma ok_draw_bind:
  assumes "ok_draw f C q" and "\<And>q'. wf_qr q' \<Longrightarrow> hdr q' = hdr q \<Longrightarrow> ok_draw g D q'"
  shows "ok_draw (\<lambda>q. bind_r (f q) g) (C \<union> D) q"
proof -
  from assms(1) obtain q' where q': "f q = Inr q'" "qdraws q C q'" by (auto simp: ok_draw_def)
  from assms(2)[OF qdraws_wf[OF q'(2)] draws_hdr[OF q'(2)]]
  obtain q'' where "g q' = Inr q''" "qdraws q' D q''" by (auto simp: ok_draw_def)
  with q' show ?thesis by (auto simp: ok_draw_def intro: qdraws_trans)
qed

lemma ok_draw_fold:
  assumes "\<And>x q'. x \<in> set xs \<Longrightarrow> wf_qr q' \<Longrightarrow> hdr q' = hdr q \<Longrightarrow> ok_draw (f x) (C x) q'"
    and "wf_qr q"
  shows "ok_draw (fold_r f xs) (\<Union>x \<in> set xs. C x) q"
  using assms
proof (induction xs arbitrary: q)
  case Nil
  then show ?case by (simp add: ok_draw_def qdraws_refl)
next
  case (Cons x xs)
  have "ok_draw (\<lambda>q. bind_r (f x q) (fold_r f xs)) (C x \<union> (\<Union>x \<in> set xs. C x)) q"
    by (rule ok_draw_bind) (use Cons in \<open>auto intro!: Cons.IH\<close>)
  then show ?case by (simp add: ok_draw_def)
qed

lemma ok_draw_step:
  assumes "qdraws q C q'" and "wf_qr q' \<Longrightarrow> ok_draw f D q'"
  obtains q'' where "f q' = Inr q''" "qdraws q (C \<union> D) q''"
  using assms(2)[OF qdraws_wf[OF assms(1)]] qdraws_trans[OF assms(1)] by (auto simp: ok_draw_def)

lemma ok_draw_subst: "ok_draw f C q \<Longrightarrow> C = D \<Longrightarrow> f q = g q \<Longrightarrow> ok_draw g D q"
  by (simp add: ok_draw_def)

lemma ok_draw_skip: "wf_qr q \<Longrightarrow> ok_draw Inr {} q"
  by (simp add: ok_draw_def qdraws_refl)

section \<open>The function patterns\<close>

definition timing_cells :: "int \<Rightarrow> (int \<times> int) set" where
  "timing_cells n = (\<Union>i \<in> {0..<n}. {(6, i), (i, 6)})"

definition finder_cells :: "int \<Rightarrow> int \<Rightarrow> int \<Rightarrow> (int \<times> int) set" where
  "finder_cells n x y = {x-4..x+4} \<times> {y-4..y+4} \<inter> cells n"

definition alignment_cells :: "int \<Rightarrow> int \<Rightarrow> (int \<times> int) set" where
  "alignment_cells x y = {x-2..x+2} \<times> {y-2..y+2}"

definition format_cells :: "int \<Rightarrow> (int \<times> int) set" where
  "format_cells n = {8} \<times> {0..5} \<union> {(8, 7), (8, 8), (7, 8)} \<union> {0..5} \<times> {8}
     \<union> {n-8..n-1} \<times> {8} \<union> {8} \<times> {n-8..n-1}"

definition version_cells :: "int \<Rightarrow> int \<Rightarrow> (int \<times> int) set" where
  "version_cells ver n = (if ver < 7 then {}
     else {n-11..n-9} \<times> {0..5} \<union> {0..5} \<times> {n-11..n-9})"

lemma ok_drawTimingPatterns:
  assumes "wf_qr q"
  shows "ok_draw drawTimingPatterns (timing_cells (qr_size q)) q"
proof -
  have "ok_draw (fold_r (\<lambda>i q. bind_r (setFunctionModule 6 i (i mod 2 = 0) q)
      (setFunctionModule i 6 (i mod 2 = 0))) [0..qr_size q - 1])
    (\<Union>i \<in> set [0..qr_size q - 1]. {(6, i)} \<union> {(i, 6)}) q"
  proof (rule ok_draw_fold[OF _ assms])
    fix i q'
    assume "i \<in> set [0..qr_size q - 1]" "wf_qr q'" "hdr q' = hdr q"
    then show "ok_draw (\<lambda>q. bind_r (setFunctionModule 6 i (i mod 2 = 0) q)
        (setFunctionModule i 6 (i mod 2 = 0))) ({(6, i)} \<union> {(i, 6)}) q'"
      using wf_size[OF assms] by (intro ok_draw_bind ok_draw_set) (auto simp: hdr_def)
  qed
  moreover have "(\<Union>i \<in> set [0..qr_size q - 1]. {(6, i)} \<union> {(i, 6)}) = timing_cells (qr_size q)"
    by (auto simp: timing_cells_def)
  ultimately show ?thesis
    by (simp add: ok_draw_def drawTimingPatterns_def)
qed

lemma offsets:
  fixes x y r :: int
  shows "(\<Union>dy \<in> {-r..r}. \<Union>dx \<in> {-r..r}. {(x + dx, y + dy)}) = {x-r..x+r} \<times> {y-r..y+r}"
proof (intro equalityI subsetI)
  fix p
  assume p: "p \<in> {x-r..x+r} \<times> {y-r..y+r}"
  show "p \<in> (\<Union>dy \<in> {-r..r}. \<Union>dx \<in> {-r..r}. {(x + dx, y + dy)})"
    by (rule UN_I[of "snd p - y"], use p in force, rule UN_I[of "fst p - x"]) (use p in force)+
qed auto

lemma ok_drawFinderPattern:
  assumes "wf_qr q"
  shows "ok_draw (drawFinderPattern x y) (finder_cells (qr_size q) x y) q"
proof -
  let ?n = "qr_size q"
  have one: "ok_draw (\<lambda>q. let dist = max \<bar>dx\<bar> \<bar>dy\<bar>; xx = x + dx; yy = y + dy in
       if 0 \<le> xx \<and> xx < qr_size q \<and> 0 \<le> yy \<and> yy < qr_size q
       then setFunctionModule xx yy (dist \<noteq> 2 \<and> dist \<noteq> 4) q else Inr q)
      ({(x + dx, y + dy)} \<inter> cells ?n) q'"
    if "wf_qr q'" "hdr q' = hdr q" for dx dy q'
    using that ok_draw_set[OF that(1), of "x + dx" "y + dy"] ok_draw_skip[OF that(1)]
    by (auto simp: ok_draw_def Let_def hdr_def)
  have "ok_draw (drawFinderPattern x y)
      (\<Union>dy \<in> set [-4..4]. \<Union>dx \<in> set [-4..4]. {(x + dx, y + dy)} \<inter> cells ?n) q"
    unfolding drawFinderPattern_def
    by (intro ok_draw_fold) (auto intro: one assms)
  moreover have "(\<Union>dy \<in> set [-4..4]. \<Union>dx \<in> set [-4..4]. {(x + dx, y + dy)} \<inter> cells ?n)
      = finder_cells ?n x y"
    unfolding finder_cells_def set_upto offsets[symmetric] by blast
  ultimately show ?thesis by simp
qed

lemma ok_drawAlignmentPattern:
  assumes "wf_qr q" and "2 \<le> x" "x + 2 < qr_size q" "2 \<le> y" "y + 2 < qr_size q"
  shows "ok_draw (drawAlignmentPattern x y) (alignment_cells x y) q"
proof -
  have "ok_draw (drawAlignmentPattern x y)
      (\<Union>dy \<in> set [-2..2]. \<Union>dx \<in> set [-2..2]. {(x + dx, y + dy)}) q"
    unfolding drawAlignmentPattern_def
    by (intro ok_draw_fold ok_draw_set) (use assms in \<open>auto simp: hdr_def\<close>)
  then show ?thesis
    unfolding alignment_cells_def set_upto offsets .
qed

text \<open>The format bits fill 15 bits for every level and mask, the version bits 18.\<close>

lemma formatBits_range:
  assumes "0 \<le> msk" "msk \<le> 7"
  shows "drop_bit 15 (formatBits ecl msk) = 0"
proof -
  have "list_all (\<lambda>e. list_all (\<lambda>m. drop_bit 15 (formatBits e m) = 0) [0..7]) [LOW, MEDIUM, QUARTILE, HIGH]"
    by code_simp
  with assms show ?thesis by (cases ecl) (simp_all add: list_all_iff del: upto_rec_numeral)
qed

lemma versionBits_range:
  assumes "1 \<le> ver" "ver \<le> 40"
  shows "drop_bit 18 (versionBits ver) = 0"
proof -
  have "list_all (\<lambda>v. drop_bit 18 (versionBits v) = 0) [1..40]"
    by code_simp
  with assms show ?thesis by (simp add: list_all_iff del: upto_rec_numeral)
qed

text \<open>The modules \<open>drawFormatBits\<close> writes, in the order it writes them.\<close>

definition format_list :: "int \<Rightarrow> (int \<times> int) set" where
  "format_list n = (\<Union>i \<in> set [0..<6]. {(8, int i)}) \<union> ({(8, 7)} \<union> ({(8, 8)} \<union> ({(7, 8)} \<union>
      ((\<Union>i \<in> set [9..<15]. {(14 - int i, 8)}) \<union> ((\<Union>i \<in> set [0..<8]. {(n - 1 - int i, 8)}) \<union>
      ((\<Union>i \<in> set [8..<15]. {(8, n - 15 + int i)}) \<union> {(8, n - 8)}))))))"

lemma format_list_eq: "format_list n = format_cells n"
proof -
  have "{0..<6} = {0, 1, 2, 3, 4, 5::nat}" "{9..<15} = {9, 10, 11, 12, 13, 14::nat}"
    "{0..<8} = {0, 1, 2, 3, 4, 5, 6, 7::nat}" "{8..<15} = {8, 9, 10, 11, 12, 13, 14::nat}"
    "{0..5} = {0, 1, 2, 3, 4, 5::int}"
    by auto
  moreover have "{n - 8..n - 1} = {n - 8, n - 7, n - 6, n - 5, n - 4, n - 3, n - 2, n - 1}"
    by auto
  ultimately show ?thesis
    unfolding format_list_def format_cells_def set_upt by auto
qed

lemma ok_drawFormatBits:
  assumes "wf_qr q" and "0 \<le> msk" "msk \<le> 7"
  shows "ok_draw (drawFormatBits msk) (format_cells (qr_size q)) q"
proof -
  let ?b = "formatBits (errorCorrectionLevel q) msk" and ?n = "qr_size q"
  let ?f = "\<lambda>q. bind_r (fold_r (\<lambda>i. setFunctionModule 8 (int i) (getBit ?b i)) [0..<6] q) (\<lambda>q.
      bind_r (setFunctionModule 8 7 (getBit ?b 6) q) (\<lambda>q.
      bind_r (setFunctionModule 8 8 (getBit ?b 7) q) (\<lambda>q.
      bind_r (setFunctionModule 7 8 (getBit ?b 8) q) (\<lambda>q.
      bind_r (fold_r (\<lambda>i. setFunctionModule (14 - int i) 8 (getBit ?b i)) [9..<15] q) (\<lambda>q.
      bind_r (fold_r (\<lambda>i. setFunctionModule (?n - 1 - int i) 8 (getBit ?b i)) [0..<8] q) (\<lambda>q.
      bind_r (fold_r (\<lambda>i. setFunctionModule 8 (?n - 15 + int i) (getBit ?b i)) [8..<15] q) (\<lambda>q.
      setFunctionModule 8 (?n - 8) True q)))))))"
  have n: "21 \<le> ?n" using wf_size[OF assms(1)] by simp
  have "ok_draw ?f (format_list ?n) q"
    unfolding format_list_def
    by (intro ok_draw_bind ok_draw_fold ok_draw_set) (use assms n in \<open>auto simp: hdr_def\<close>)
  moreover have "drawFormatBits msk q = ?f q"
    using formatBits_range[OF assms(2,3)] by (simp add: drawFormatBits_def Let_def)
  ultimately show ?thesis by (simp add: ok_draw_def format_list_eq)
qed

lemma ok_drawVersion:
  assumes "wf_qr q"
  shows "ok_draw drawVersion (version_cells (qr_version q) (qr_size q)) q"
proof (cases "qr_version q < 7")
  case True
  with ok_draw_skip[OF assms] show ?thesis
    by (simp add: ok_draw_def drawVersion_def version_cells_def)
next
  case False
  let ?n = "qr_size q" and ?b = "versionBits (qr_version q)"
  let ?f = "\<lambda>i q. bind_r (setFunctionModule (qr_size q - 11 + int (i mod 3)) (int (i div 3)) (getBit ?b i) q)
      (setFunctionModule (int (i div 3)) (qr_size q - 11 + int (i mod 3)) (getBit ?b i))"
  let ?C = "\<Union>i \<in> set [0..<18]. {(?n - 11 + int (i mod 3), int (i div 3))} \<union>
      {(int (i div 3), ?n - 11 + int (i mod 3))}"
  have v: "1 \<le> qr_version q" "qr_version q \<le> 40" using assms by (simp_all add: wf_qr_def)
  have n: "21 \<le> ?n" using wf_size[OF assms] by simp
  have "ok_draw (fold_r ?f [0..<18]) ?C q"
  proof (rule ok_draw_fold[OF _ assms])
    fix i q'
    assume i: "i \<in> set [0..<18]" and q': "wf_qr q'" "hdr q' = hdr q"
    have "i div 3 < 6" "i mod 3 < 3"
      using i by auto
    with q' n show "ok_draw (?f i) ({(?n - 11 + int (i mod 3), int (i div 3))} \<union>
        {(int (i div 3), ?n - 11 + int (i mod 3))}) q'"
      unfolding ok_draw_def
      using ok_draw_bind[OF ok_draw_set ok_draw_set,
          of q' "?n - 11 + int (i mod 3)" "int (i div 3)" "int (i div 3)" "?n - 11 + int (i mod 3)"]
      by (auto simp: ok_draw_def hdr_def)
  qed
  moreover have "?C = version_cells (qr_version q) ?n"
  proof -
    have "p \<in> ?C" if "p \<in> {?n-11..?n-9} \<times> {0..5} \<union> {0..5} \<times> {?n-11..?n-9}" for p
    proof -
      have "\<exists>i < 18. int (i div 3) = b \<and> int (i mod 3) = a - (?n - 11)"
        if "a \<in> {?n-11..?n-9}" "b \<in> {0..5}" for a b
        by (rule exI[of _ "3 * nat b + nat (a - (?n - 11))"]) (use that in auto)
      with that show ?thesis by (cases p) fastforce
    qed
    moreover have "int (i div 3) \<in> {0..5}" "?n - 11 + int (i mod 3) \<in> {?n-11..?n-9}" if "i < 18" for i
      using that by auto
    ultimately show ?thesis
      using False unfolding version_cells_def by auto
  qed
  moreover have "drawVersion q = fold_r ?f [0..<18] q"
    using False versionBits_range[OF v] by (simp add: drawVersion_def Let_def)
  ultimately show ?thesis by (simp add: ok_draw_def)
qed

definition align_pos :: "int \<Rightarrow> int list" where
  "align_pos v =
     (if v = 1 then []
      else let numAlign = v div 7 + 2; step = (v * 8 + numAlign * 3 + 5) div (numAlign * 4 - 4) * 2 in
           6 # foldl (\<lambda>result i. (v * 4 + 17 - 7 - int i * step) # result) [] [0..<nat (numAlign - 1)])"

lemma getAlignmentPatternPositions_eq:
  "wf_qr q \<Longrightarrow> getAlignmentPatternPositions q = align_pos (qr_version q)"
  unfolding getAlignmentPatternPositions_def align_pos_def wf_qr_def by simp

lemma align_pos_facts:
  assumes "1 \<le> v" "v \<le> 40"
  shows "\<forall>p \<in> set (align_pos v). 6 \<le> p \<and> p \<le> v * 4 + 10"
    "length (align_pos v) = (if v = 1 then 0 else nat (v div 7 + 2))"
    "v \<ge> 2 \<longrightarrow> align_pos v ! 0 = 6"
proof -
  have "list_all (\<lambda>v. list_all (\<lambda>p. 6 \<le> p \<and> p \<le> v * 4 + 10) (align_pos v) \<and>
     length (align_pos v) = (if v = 1 then 0 else nat (v div 7 + 2)) \<and>
     (v \<ge> 2 \<longrightarrow> align_pos v ! 0 = 6)) [1..40]"
    by code_simp
  with assms show "\<forall>p \<in> set (align_pos v). 6 \<le> p \<and> p \<le> v * 4 + 10"
    "length (align_pos v) = (if v = 1 then 0 else nat (v div 7 + 2))"
    "v \<ge> 2 \<longrightarrow> align_pos v ! 0 = 6"
    by (auto simp: list_all_iff simp del: upto_rec_numeral)
qed

definition align_pair :: "nat \<Rightarrow> nat \<times> nat \<Rightarrow> bool" where
  "align_pair k = (\<lambda>(i, j). i < k \<and> j < k \<and>
     \<not> ((i = 0 \<and> j = 0) \<or> (i = 0 \<and> j = k - 1) \<or> (i = k - 1 \<and> j = 0)))"

definition alignments :: "int \<Rightarrow> (int \<times> int) set" where
  "alignments v = (\<Union>(i, j) \<in> Collect (align_pair (length (align_pos v))).
     alignment_cells (align_pos v ! i) (align_pos v ! j))"

lemma ok_drawAlignmentPatterns:
  assumes "wf_qr q"
  shows "ok_draw drawAlignmentPatterns (alignments (qr_version q)) q"
proof -
  let ?v = "qr_version q" let ?ps = "align_pos ?v" let ?k = "length ?ps"
  let ?body = "\<lambda>i j q. if \<not> ((i = 0 \<and> j = 0) \<or> (i = 0 \<and> j = ?k - 1) \<or> (i = ?k - 1 \<and> j = 0))
        then bind_r (at_r ?ps i) (\<lambda>px. bind_r (at_r ?ps j) (\<lambda>py. drawAlignmentPattern px py q))
        else Inr q"
  let ?C = "\<lambda>i j. if align_pair ?k (i, j) then alignment_cells (?ps ! i) (?ps ! j) else {}"
  have v: "1 \<le> ?v" "?v \<le> 40" "qr_size q = ?v * 4 + 17" using assms by (simp_all add: wf_qr_def)
  have one: "ok_draw (?body i j) (?C i j) q'"
    if "i < ?k" "j < ?k" "wf_qr q'" "hdr q' = hdr q" for i j q'
  proof (cases "align_pair ?k (i, j)")
    case True
    have "6 \<le> ?ps ! i" "?ps ! i \<le> ?v * 4 + 10" "6 \<le> ?ps ! j" "?ps ! j \<le> ?v * 4 + 10"
      using align_pos_facts(1)[OF v(1,2)] that by auto
    with ok_drawAlignmentPattern[OF that(3), of "?ps ! i" "?ps ! j"] that v(3) True
    show ?thesis by (simp add: ok_draw_def at_r_def align_pair_def hdr_def)
  next
    case False
    with that ok_draw_skip[OF that(3)] show ?thesis
      by (auto simp: ok_draw_def align_pair_def)
  qed
  have "ok_draw (fold_r (\<lambda>i. fold_r (?body i) [0..<?k]) [0..<?k])
      (\<Union>i \<in> set [0..<?k]. \<Union>j \<in> set [0..<?k]. ?C i j) q"
    by (intro ok_draw_fold, rule one) (use assms in \<open>simp_all add: hdr_def\<close>)
  moreover have "(\<Union>i \<in> set [0..<?k]. \<Union>j \<in> set [0..<?k]. ?C i j) = alignments ?v"
  proof -
    have "align_pair ?k (i, j) \<Longrightarrow> i < ?k \<and> j < ?k" for i j
      by (simp add: align_pair_def)
    then show ?thesis
      unfolding alignments_def by (fastforce split: if_splits)
  qed
  moreover have "drawAlignmentPatterns q = fold_r (\<lambda>i. fold_r (?body i) [0..<?k]) [0..<?k] q"
    by (simp add: drawAlignmentPatterns_def Let_def getAlignmentPatternPositions_eq[OF assms])
  ultimately show ?thesis by (simp add: ok_draw_def)
qed

text \<open>The modules that carry no data, for a version.\<close>

definition function_cells :: "int \<Rightarrow> (int \<times> int) set" where
  "function_cells v = (let n = v * 4 + 17 in
     timing_cells n \<union> (finder_cells n 3 3 \<union> (finder_cells n (n - 4) 3 \<union> (finder_cells n 3 (n - 4) \<union>
     (alignments v \<union> (format_cells n \<union> version_cells v n))))))"

lemma ok_drawFunctionPatterns:
  assumes "wf_qr q"
  shows "ok_draw drawFunctionPatterns (function_cells (qr_version q)) q"
proof -
  have n: "qr_version q * 4 + 17 = qr_size q" using assms by (simp add: wf_qr_def)
  have h: "wf_qr q'" "qr_size q' = qr_size q" "qr_version q' = qr_version q" if "qdraws q C q'" for C q'
    using that by (simp_all add: qdraws_def hdr_def)
  obtain q1 where 1: "drawTimingPatterns q = Inr q1" "qdraws q (timing_cells (qr_size q)) q1"
    using ok_drawTimingPatterns[OF assms] by (auto simp: ok_draw_def)
  note h1 = h[OF 1(2)]
  obtain q2 where 2: "drawFinderPattern 3 3 q1 = Inr q2"
    "qdraws q (timing_cells (qr_size q) \<union> finder_cells (qr_size q) 3 3) q2"
    using ok_draw_step[OF 1(2) ok_drawFinderPattern] h1(2) by metis
  note h2 = h[OF 2(2)]
  obtain q3 where 3: "drawFinderPattern (qr_size q - 4) 3 q2 = Inr q3"
    "qdraws q (timing_cells (qr_size q) \<union> finder_cells (qr_size q) 3 3
      \<union> finder_cells (qr_size q) (qr_size q - 4) 3) q3"
    using ok_draw_step[OF 2(2) ok_drawFinderPattern] h2(2) by metis
  note h3 = h[OF 3(2)]
  obtain q4 where 4: "drawFinderPattern 3 (qr_size q - 4) q3 = Inr q4"
    "qdraws q (timing_cells (qr_size q) \<union> finder_cells (qr_size q) 3 3
      \<union> finder_cells (qr_size q) (qr_size q - 4) 3 \<union> finder_cells (qr_size q) 3 (qr_size q - 4)) q4"
    using ok_draw_step[OF 3(2) ok_drawFinderPattern] h3(2) by metis
  note h4 = h[OF 4(2)]
  obtain q5 where 5: "drawAlignmentPatterns q4 = Inr q5"
    "qdraws q (timing_cells (qr_size q) \<union> finder_cells (qr_size q) 3 3
      \<union> finder_cells (qr_size q) (qr_size q - 4) 3 \<union> finder_cells (qr_size q) 3 (qr_size q - 4)
      \<union> alignments (qr_version q)) q5"
    using ok_draw_step[OF 4(2) ok_drawAlignmentPatterns] h4(3) by metis
  note h5 = h[OF 5(2)]
  obtain q6 where 6: "drawFormatBits 0 q5 = Inr q6"
    "qdraws q (timing_cells (qr_size q) \<union> finder_cells (qr_size q) 3 3
      \<union> finder_cells (qr_size q) (qr_size q - 4) 3 \<union> finder_cells (qr_size q) 3 (qr_size q - 4)
      \<union> alignments (qr_version q) \<union> format_cells (qr_size q)) q6"
    using ok_draw_step[OF 5(2) ok_drawFormatBits[where msk = 0]] h5(2) by auto
  note h6 = h[OF 6(2)]
  obtain q7 where 7: "drawVersion q6 = Inr q7" "qdraws q (timing_cells (qr_size q) \<union> finder_cells (qr_size q) 3 3
      \<union> finder_cells (qr_size q) (qr_size q - 4) 3 \<union> finder_cells (qr_size q) 3 (qr_size q - 4)
      \<union> alignments (qr_version q) \<union> format_cells (qr_size q) \<union> version_cells (qr_version q) (qr_size q)) q7"
    using ok_draw_step[OF 6(2) ok_drawVersion] h6(2,3) by metis
  have "drawFunctionPatterns q = Inr q7"
    by (simp add: drawFunctionPatterns_def 1 2 3 4 5 6 7 h1 h2 h3)
  with 7(2) show ?thesis
    by (simp add: ok_draw_def function_cells_def Let_def n Un_assoc)
qed

end
