(* ===== verification/Qr_Penalty.thy ===== *)
theory Qr_Penalty
  imports Qr_Draw
begin

text \<open>
  The penalty score is defined on every symbol: none of the assertions of \<open>getPenaltyScore\<close> and
  its helpers fails. The bound on the finder-like patterns of a line rests on the fact that two
  consecutive light runs cannot both close such a pattern.
\<close>

section \<open>One line\<close>

definition core_seen :: "int list \<Rightarrow> bool" where
  "core_seen h \<longleftrightarrow> h ! 1 > 0 \<and> h ! 3 = 3 * h ! 1"

text \<open>
  \<open>run_inv n r0 k s\<close>: after \<open>k\<close> modules of a line of \<open>n\<close>, \<open>A\<close> is the penalty of the runs, \<open>S\<close> the number
  of patterns and \<open>t\<close> the number of light runs that have ended.
\<close>

definition run_inv :: "int \<Rightarrow> int \<Rightarrow> int \<Rightarrow> run_state \<Rightarrow> bool" where
  "run_inv n r0 k = (\<lambda>(result, color, run, h). length h = 7 \<and> (\<forall>x \<in> set h. 0 \<le> x \<and> x \<le> 2 * n) \<and>
     0 \<le> run \<and> run \<le> k \<and>
     (\<exists>A S t. result = r0 + A + 40 * S \<and> 0 \<le> A \<and> A \<le> k - run + (if run \<ge> 5 then run - 2 else 0) \<and>
        0 \<le> S \<and> 0 \<le> t \<and> 2 * t \<le> k + (if color then 1 else 0) \<and>
        S \<le> t + (if core_seen (if color then h else tl h) then 1 else 0)))"

lemma run_invI:
  assumes "length h = 7" "\<forall>x \<in> set h. 0 \<le> x \<and> x \<le> 2 * n" "0 \<le> run" "run \<le> k"
    "result = r0 + A + 40 * S" "0 \<le> A" "A \<le> k - run + (if run \<ge> 5 then run - 2 else 0)"
    "0 \<le> S" "0 \<le> t" "2 * t \<le> k + (if color then 1 else 0)"
    "S \<le> t + (if core_seen (if color then h else tl h) then 1 else 0)"
  shows "run_inv n r0 k (result, color, run, h)"
  using assms unfolding run_inv_def by blast

lemma add_history:
  assumes "length h = 7" "\<forall>x \<in> set h. 0 \<le> x \<and> x \<le> b" "0 \<le> len" "len + n \<le> b" "0 \<le> n"
  defines "h' \<equiv> finderPenaltyAddHistory n len h"
  shows "length h' = 7" "\<forall>x \<in> set h'. 0 \<le> x \<and> x \<le> b" "tl h' = butlast h"
    "h' ! 1 = h ! 0" "h' ! 2 = h ! 1" "h' ! 3 = h ! 2" "h' ! 4 = h ! 3" "h' ! 5 = h ! 4"
  using assms by (auto simp: finderPenaltyAddHistory_def Let_def nth_butlast dest: in_set_butlastD)

lemma count_patterns:
  assumes "h ! 1 \<le> n * 3"
  obtains c where "finderPenaltyCountPatterns n h = Inr c" "0 \<le> c" "c \<le> 2"
    "c > 0 \<longrightarrow> core_seen h \<and> h ! 5 = h ! 1"
proof
  let ?core = "h ! 1 > 0 \<and> h ! 2 = h ! 1 \<and> h ! 3 = h ! 1 * 3 \<and> h ! 4 = h ! 1 \<and> h ! 5 = h ! 1"
  define c :: int where "c = (if ?core \<and> h ! 0 \<ge> h ! 1 * 4 \<and> h ! 6 \<ge> h ! 1 then 1 else 0) +
         (if ?core \<and> h ! 6 \<ge> h ! 1 * 4 \<and> h ! 0 \<ge> h ! 1 then 1 else 0)"
  show "finderPenaltyCountPatterns n h = Inr c"
    unfolding finderPenaltyCountPatterns_def Let_def c_def using assms by (simp only: assert_r_simps)
  show "0 \<le> c" "c \<le> 2" by (simp_all add: c_def)
  have "c > 0 \<longrightarrow> ?core" by (simp add: c_def)
  then show "c > 0 \<longrightarrow> core_seen h \<and> h ! 5 = h ! 1" unfolding core_seen_def by linarith
qed

lemma core_seen_shift:
  assumes "length h = 7"
  shows "core_seen (tl h) \<longleftrightarrow> h ! 2 > 0 \<and> h ! 4 = 3 * h ! 2"
  using assms by (simp add: core_seen_def nth_tl numeral_2_eq_2)

lemma core_seen_butlast:
  assumes "length h = 7"
  shows "core_seen (butlast h) \<longleftrightarrow> core_seen h"
  using assms by (simp add: core_seen_def nth_butlast)

lemma run_step:
  assumes inv: "run_inv n r0 k s" and "0 \<le> k" "k < n"
  shows "\<exists>s'. penalty_run_step n color s = Inr s' \<and> run_inv n r0 (k + 1) s'"
proof -
  obtain result col run h where s: "s = (result, col, run, h)" by (cases s)
  from inv obtain A S t where h: "length h = 7" "\<forall>x \<in> set h. 0 \<le> x \<and> x \<le> 2 * n" and run: "0 \<le> run" "run \<le> k"
    and r: "result = r0 + A + 40 * S" and A: "0 \<le> A" "A \<le> k - run + (if run \<ge> 5 then run - 2 else 0)"
    and St: "0 \<le> S" "0 \<le> t" "2 * t \<le> k + (if col then 1 else 0)"
      "S \<le> t + (if core_seen (if col then h else tl h) then 1 else 0)"
    unfolding run_inv_def s by auto
  show ?thesis
  proof (cases "color = col")
    case True
    define A' where "A' = (if run + 1 = 5 then A + 3 else if run + 1 > 5 then A + 1 else A)"
    have "penalty_run_step n color s = Inr (r0 + A' + 40 * S, col, run + 1, h)"
      using True by (simp add: penalty_run_step_def s r A'_def)
    moreover have "0 \<le> A'" "A' \<le> (k + 1) - (run + 1) + (if run + 1 \<ge> 5 then run + 1 - 2 else 0)"
      using A run by (auto simp: A'_def split: if_splits)
    ultimately show ?thesis
      using h run St by (auto intro!: run_invI[of _ _ _ _ _ _ A' S t])
  next
    case False
    let ?h = "finderPenaltyAddHistory n run h"
    have "run + n \<le> 2 * n" "0 \<le> n" using run assms(2,3) by linarith+
    note hs = add_history[OF h run(1) this]
    have A': "A \<le> k + 1 - 1 + (if (1::int) \<ge> 5 then 1 - 2 else 0)"
      using A run by (auto split: if_splits)
    show ?thesis
    proof (cases col)
      case True
      with False have "penalty_run_step n color s = Inr (result, False, 1, ?h)"
        by (simp add: penalty_run_step_def s)
      moreover have "core_seen (tl ?h) \<longleftrightarrow> core_seen h"
        using h hs(3) by (simp add: core_seen_butlast)
      ultimately show ?thesis
        using hs(1,2) A(1) A' St True r assms(2) by (auto intro!: run_invI[of _ _ _ _ _ _ A S t])
    next
      case col: False
      have "?h ! 1 \<le> n * 3"
        using hs(1,2) nth_mem[of 1 ?h] assms(2,3) by fastforce
      then obtain c where c: "finderPenaltyCountPatterns n ?h = Inr c" "0 \<le> c" "c \<le> 2"
        "c > 0 \<longrightarrow> core_seen ?h \<and> ?h ! 5 = ?h ! 1"
        by (rule count_patterns)
      have "penalty_run_step n color s = Inr (result + c * 40, True, 1, ?h)"
        using False col c(1) by (simp add: penalty_run_step_def s)
      moreover have "S + c \<le> (t + 1) + (if core_seen ?h then 1 else 0)"
      proof (cases "c > 0")
        case True
        with c(4) have "core_seen ?h" "?h ! 5 = ?h ! 1" by auto
        moreover from this have "\<not> core_seen (tl h)"
          unfolding core_seen_shift[OF h(1)] using hs(6,8) by (auto simp: core_seen_def)
        ultimately show ?thesis using St(4) col c(3) by simp
      next
        case False
        with St(4) c(2) show ?thesis by (auto split: if_splits)
      qed
      ultimately show ?thesis
        using hs(1,2) A(1) A' St(1-3) r col c(2) assms(2)
        by (auto intro!: run_invI[of _ _ _ _ _ _ A "S + c" "t + 1"])
    qed
  qed
qed

lemma run_fold:
  assumes "\<And>i. i \<in> set is \<Longrightarrow> line i = Inr (f i)" and "run_inv n r0 k s" "0 \<le> k" "k + int (length is) \<le> n"
  shows "\<exists>s'. fold_r (\<lambda>i s. bind_r (line i) (\<lambda>c. penalty_run_step n c s)) is s = Inr s' \<and>
    run_inv n r0 (k + int (length is)) s'"
  using assms
proof (induction "is" arbitrary: k s)
  case (Cons i "is")
  from run_step[OF Cons.prems(2,3), of "f i"] Cons.prems
  obtain s' where "penalty_run_step n (f i) s = Inr s'" "run_inv n r0 (k + 1) s'" by auto
  with Cons.IH[of "k + 1" s'] Cons.prems show ?case by (simp add: add.assoc)
qed simp

lemma penalty_line_ok:
  assumes "\<And>i. 0 \<le> i \<Longrightarrow> i < n \<Longrightarrow> line i = Inr (f i)" and "0 < n"
  shows "\<exists>r. penalty_line n line r0 = Inr r \<and> r0 \<le> r \<and> r \<le> r0 + n + 20 * (n + 5)"
proof -
  have "run_inv n r0 0 (r0, False, 0, replicate 7 0)"
    using assms(2) by (auto intro!: run_invI[of _ _ _ _ _ _ 0 0 0])
  from run_fold[OF _ this, of "[0..n - 1]" line f] assms
  obtain result col run h where
    f: "fold_r (\<lambda>i s. bind_r (line i) (\<lambda>c. penalty_run_step n c s)) [0..n - 1] (r0, False, 0, replicate 7 0)
        = Inr (result, col, run, h)" and inv: "run_inv n r0 n (result, col, run, h)"
    by force
  from inv obtain A S t where h: "length h = 7" "\<forall>x \<in> set h. 0 \<le> x \<and> x \<le> 2 * n" and run: "0 \<le> run" "run \<le> n"
    and r: "result = r0 + A + 40 * S" and A: "0 \<le> A" "A \<le> n - run + (if run \<ge> 5 then run - 2 else 0)"
    and St: "0 \<le> S" "0 \<le> t" "2 * t \<le> n + (if col then 1 else 0)"
      "S \<le> t + (if core_seen (if col then h else tl h) then 1 else 0)"
    unfolding run_inv_def by auto
  have "\<exists>c. finderPenaltyTerminateAndCount n col run h = Inr c \<and> 0 \<le> c \<and> S + c \<le> t + 2"
  proof (cases col)
    case True
    let ?h = "finderPenaltyAddHistory n run h"
    have h3: "\<forall>x \<in> set h. 0 \<le> x \<and> x \<le> 3 * n" using h(2) assms(2) by auto
    have "run + n \<le> 3 * n" "0 \<le> n" using run assms(2) by linarith+
    note hs = add_history[OF h(1) h3 run(1) this]
    let ?h2 = "finderPenaltyAddHistory n (0 + n) ?h"
    have "0 \<le> 0 + n" "0 + n + n \<le> 3 * n" "0 \<le> n" using assms(2) by linarith+
    note hs2 = add_history[OF hs(1,2) this]
    have le: "?h2 ! 1 \<le> n * 3"
    proof -
      have "?h ! 0 \<in> set ?h" by (intro nth_mem) (simp add: hs(1))
      with hs(2) show ?thesis unfolding hs2(4) by auto
    qed
    obtain c where c: "finderPenaltyCountPatterns n ?h2 = Inr c" "0 \<le> c" "c \<le> 2"
      "c > 0 \<longrightarrow> core_seen ?h2 \<and> ?h2 ! 5 = ?h2 ! 1"
      using count_patterns[OF le] .
    have "c > 0 \<longrightarrow> \<not> core_seen h"
      using c(4) hs(5,7) hs2(6,8) by (auto simp: core_seen_def)
    with c St(4) True show ?thesis
      by (auto simp: finderPenaltyTerminateAndCount_def split: if_splits)
  next
    case False
    let ?h = "finderPenaltyAddHistory n (run + n) h"
    have h3: "\<forall>x \<in> set h. 0 \<le> x \<and> x \<le> 3 * n" using h(2) assms(2) by auto
    have "0 \<le> run + n" "run + n + n \<le> 3 * n" "0 \<le> n" using run assms(2) by linarith+
    note hs = add_history[OF h(1) h3 this]
    have le: "?h ! 1 \<le> n * 3"
    proof -
      have "h ! 0 \<in> set h" by (intro nth_mem) (simp add: h(1))
      with h3 show ?thesis unfolding hs(4) by auto
    qed
    obtain c where c: "finderPenaltyCountPatterns n ?h = Inr c" "0 \<le> c" "c \<le> 2"
      "c > 0 \<longrightarrow> core_seen ?h \<and> ?h ! 5 = ?h ! 1"
      using count_patterns[OF le] .
    have "c > 0 \<longrightarrow> \<not> core_seen (tl h)"
      unfolding core_seen_shift[OF h(1)] using c(4) hs(6,8) by (auto simp: core_seen_def)
    with c St(4) False show ?thesis
      by (auto simp: finderPenaltyTerminateAndCount_def split: if_splits)
  qed
  then obtain c where c: "finderPenaltyTerminateAndCount n col run h = Inr c" "0 \<le> c" "S + c \<le> t + 2" by blast
  have "penalty_line n line r0 = Inr (result + c * 40)"
    using f c(1) by (simp add: penalty_line_def)
  moreover have "40 * (S + c) \<le> 20 * (n + 5)"
    using c(3) St(3) by (auto split: if_splits)
  ultimately show ?thesis
    using r A St(1) c(2) run by (auto split: if_splits)
qed

section \<open>The whole symbol\<close>

lemma fold_r_bound:
  fixes r :: int
  assumes "\<And>x r. x \<in> set xs \<Longrightarrow> \<exists>r'. f x r = Inr r' \<and> r \<le> r' \<and> r' \<le> r + b"
  shows "\<exists>r'. fold_r f xs r = Inr r' \<and> r \<le> r' \<and> r' \<le> r + int (length xs) * b"
  using assms
proof (induction xs arbitrary: r)
  case (Cons x xs)
  from Cons.prems[of x r] obtain r1 where 1: "f x r = Inr r1" "r \<le> r1" "r1 \<le> r + b" by auto
  from Cons.IH[of r1] Cons.prems obtain r2 where "fold_r f xs r1 = Inr r2" "r1 \<le> r2"
    "r2 \<le> r1 + int (length xs) * b" by auto
  with 1 show ?case by (auto simp: algebra_simps)
qed simp

lemma penalty_block_ok:
  assumes "wf_qr q" "(x, y) \<in> cells (qr_size q - 1)"
  shows "\<exists>r'. penalty_block q y x r = Inr r' \<and> r \<le> r' \<and> r' \<le> r + 3"
proof -
  have "get_module a b q = Inr (mod_at q (a, b))" if "a \<in> {x, x + 1}" "b \<in> {y, y + 1}" for a b
    using that assms(2) by (intro get_module_ok[OF assms(1)]) auto
  then show ?thesis by (auto simp: penalty_block_def)
qed

lemma penalty_balance_range:
  assumes "wf_qr q"
  shows "0 \<le> penalty_balance q" "penalty_balance q \<le> 9"
proof -
  let ?n = "qr_size q"
  define total where "total = ?n * ?n"
  define dark where "dark = int (length (filter (\<lambda>c. c) (concat (modules q))))"
  have n: "21 \<le> ?n" "odd ?n" using assms wf_size[OF assms] by (auto simp: wf_qr_def)
  have "square (nat ?n) (modules q)" using wf_square(1)[OF assms] .
  then have "length (concat (modules q)) = nat ?n * nat ?n"
    by (simp add: length_concat square_def sum_list_triv cong: map_cong)
  then have "int (length (concat (modules q))) = total"
    using n by (simp add: total_def)
  moreover have "int (length (filter (\<lambda>c. c) (concat (modules q)))) \<le> int (length (concat (modules q)))"
    by (simp only: of_nat_le_iff length_filter_le)
  ultimately have d: "0 \<le> dark" "dark \<le> total"
    unfolding dark_def by simp_all
  have pos: "0 < total" and odd: "odd total" using n by (simp_all add: total_def)
  have "dark * 20 - total * 10 \<noteq> 0"
    using odd by presburger
  then have lo: "1 \<le> \<bar>dark * 20 - total * 10\<bar>" and hi: "\<bar>dark * 20 - total * 10\<bar> \<le> 10 * total"
    using d by auto
  have "1 * total \<le> \<bar>dark * 20 - total * 10\<bar> + total - 1" using lo by simp
  then have "1 \<le> (\<bar>dark * 20 - total * 10\<bar> + total - 1) div total"
    using pos by (simp add: pos_imp_zdiv_pos_iff int_one_le_iff_zero_less)
  moreover have "(\<bar>dark * 20 - total * 10\<bar> + total - 1) div total \<le> (11 * total - 1) div total"
    using hi pos by (intro zdiv_mono1) simp_all
  moreover have "(11 * total - 1) div total < 11"
  proof -
    have "(11 * total - 1) div total = ((total - 1) + total * 10) div total"
      by (simp add: algebra_simps)
    also have "\<dots> = 10 + (total - 1) div total"
      by (rule div_mult_self2) (use pos in simp)
    also have "(total - 1) div total = 0"
      using pos by (intro div_pos_pos_trivial) simp_all
    finally show ?thesis by simp
  qed
  ultimately show "0 \<le> penalty_balance q" "penalty_balance q \<le> 9"
    by (simp_all add: penalty_balance_def Let_def dark_def total_def)
qed

lemma getPenaltyScore_ok:
  assumes "wf_qr q"
  obtains p where "getPenaltyScore q = Inr p" "0 \<le> p" "p \<le> 2568888"
proof -
  let ?n = "qr_size q"
  have n: "21 \<le> ?n" "?n \<le> 177" using wf_size[OF assms] by simp_all
  define b where "b = ?n + 20 * (?n + 5)"
  have row: "\<exists>r'. penalty_line ?n (\<lambda>x. get_module x y q) r = Inr r' \<and> r \<le> r' \<and> r' \<le> r + b" if "y \<in> set [0..?n - 1]" for y r
    using penalty_line_ok[of ?n "\<lambda>x. get_module x y q" "\<lambda>x. mod_at q (x, y)" r] that n get_module_ok[OF assms]
    by (auto simp: b_def add.assoc)
  have col: "\<exists>r'. penalty_line ?n (\<lambda>y. get_module x y q) r = Inr r' \<and> r \<le> r' \<and> r' \<le> r + b" if "x \<in> set [0..?n - 1]" for x r
    using penalty_line_ok[of ?n "\<lambda>y. get_module x y q" "\<lambda>y. mod_at q (x, y)" r] that n get_module_ok[OF assms]
    by (auto simp: b_def add.assoc)
  have blk: "\<exists>r'. fold_r (penalty_block q y) [0..?n - 2] r = Inr r' \<and> r \<le> r' \<and> r' \<le> r + int (length [0..?n - 2]) * 3"
    if "y \<in> set [0..?n - 2]" for y r
    by (rule fold_r_bound) (use that penalty_block_ok[OF assms] in auto)
  have "\<exists>r1. fold_r (\<lambda>y. penalty_line ?n (\<lambda>x. get_module x y q)) [0..?n - 1] 0 = Inr r1 \<and>
    0 \<le> r1 \<and> r1 \<le> 0 + int (length [0..?n - 1]) * b"
    by (rule fold_r_bound, rule row)
  then obtain r1 where 1: "fold_r (\<lambda>y. penalty_line ?n (\<lambda>x. get_module x y q)) [0..?n - 1] 0 = Inr r1"
    "0 \<le> r1" "r1 \<le> 0 + int (length [0..?n - 1]) * b" by blast
  have "\<exists>r2. fold_r (\<lambda>x. penalty_line ?n (\<lambda>y. get_module x y q)) [0..?n - 1] r1 = Inr r2 \<and>
    r1 \<le> r2 \<and> r2 \<le> r1 + int (length [0..?n - 1]) * b"
    by (rule fold_r_bound, rule col)
  then obtain r2 where 2: "fold_r (\<lambda>x. penalty_line ?n (\<lambda>y. get_module x y q)) [0..?n - 1] r1 = Inr r2"
    "r1 \<le> r2" "r2 \<le> r1 + int (length [0..?n - 1]) * b" by blast
  have "\<exists>r3. fold_r (\<lambda>y. fold_r (penalty_block q y) [0..?n - 2]) [0..?n - 2] r2 = Inr r3 \<and>
    r2 \<le> r3 \<and> r3 \<le> r2 + int (length [0..?n - 2]) * (int (length [0..?n - 2]) * 3)"
    by (rule fold_r_bound, rule blk)
  then obtain r3 where 3: "fold_r (\<lambda>y. fold_r (penalty_block q y) [0..?n - 2]) [0..?n - 2] r2 = Inr r3"
    "r2 \<le> r3" "r3 \<le> r2 + int (length [0..?n - 2]) * (int (length [0..?n - 2]) * 3)" by blast
  have len: "int (length [0..?n - 1]) = ?n" "int (length [0..?n - 2]) = ?n - 1" using n by simp_all
  have "?n * b \<le> 177 * 3817" "(?n - 1) * ((?n - 1) * 3) \<le> 176 * (176 * 3)"
    using n unfolding b_def by (intro mult_mono; simp)+
  with 1(2,3) 2(2,3) 3(2,3) have r3: "0 \<le> r3" "r3 \<le> 2 * (177 * 3817) + 176 * (176 * 3)"
    unfolding len by linarith+
  show thesis
    using penalty_balance_range[OF assms] r3
    by (intro that[of "r3 + penalty_balance q * 10"]) (simp_all add: getPenaltyScore_def Let_def 1 2 3)
qed

end
