(* ===== verification/Qr_Count.thy ===== *)
theory Qr_Count
  imports Qr_Draw
begin

text \<open>
  The modules left for data are enough: for every version the function patterns take at most
  \<open>size\<^sup>2 - getNumRawDataModules\<close> modules, and the zigzag scan of \<open>drawCodewords\<close> visits every
  module outside the vertical timing pattern exactly once.
\<close>

section \<open>The raw capacity\<close>

definition raw_modules :: "int \<Rightarrow> int" where
  "raw_modules v = (16 * v + 128) * v + 64
     - (if v \<ge> 2 then (25 * (v div 7 + 2) - 10) * (v div 7 + 2) - 55 else 0)
     - (if v \<ge> 7 then 36 else 0)"

lemma raw_modules_range:
  assumes "1 \<le> v" "v \<le> 40"
  shows "208 \<le> raw_modules v" "raw_modules v \<le> 29648"
proof -
  have "list_all (\<lambda>v. 208 \<le> raw_modules v \<and> raw_modules v \<le> 29648) [1..40]"
    by code_simp
  with assms show "208 \<le> raw_modules v" "raw_modules v \<le> 29648"
    by (simp_all add: list_all_iff del: upto_rec_numeral)
qed

lemma getNumRawDataModules_eq:
  "1 \<le> v \<Longrightarrow> v \<le> 40 \<Longrightarrow> getNumRawDataModules v = Inr (raw_modules v)"
  using raw_modules_range[of v]
  by (auto simp: getNumRawDataModules_def raw_modules_def Let_def assert_r_def)

section \<open>The size of the function patterns\<close>

lemma card_box: "card ({a..b} \<times> {c..d::int}) = nat (b - a + 1) * nat (d - c + 1)"
  by (simp add: card_cartesian_product add.commute)

definition inner_alignments :: "int list \<Rightarrow> (int \<times> int) set" where
  "inner_alignments ps = (\<Union>(i, j) \<in> {1..<length ps} \<times> {1..<length ps}. alignment_cells (ps ! i) (ps ! j))"

definition left_alignments :: "int list \<Rightarrow> (int \<times> int) set" where
  "left_alignments ps = (\<Union>j \<in> {1..<length ps - 1}. {4, 5, 7, 8} \<times> {ps ! j - 2..ps ! j + 2})"

definition top_alignments :: "int list \<Rightarrow> (int \<times> int) set" where
  "top_alignments ps = (\<Union>i \<in> {1..<length ps - 1}. {ps ! i - 2..ps ! i + 2} \<times> {4, 5, 7, 8})"

lemma card_inner: "card (inner_alignments ps) \<le> 25 * (length ps - 1) * (length ps - 1)"
proof -
  have "card (inner_alignments ps) \<le>
      (\<Sum>(i, j) \<in> {1..<length ps} \<times> {1..<length ps}. card (alignment_cells (ps ! i) (ps ! j)))"
    unfolding inner_alignments_def by (rule order_trans[OF card_UN_le]) (auto simp: case_prod_unfold)
  also have "\<dots> = (\<Sum>_ \<in> {1..<length ps} \<times> {1..<length ps}. 25)"
    by (rule sum.cong) (auto simp: alignment_cells_def card_box)
  finally show ?thesis by (simp add: card_cartesian_product)
qed

lemma card_left: "card (left_alignments ps) \<le> 20 * (length ps - 2)"
proof -
  have "card (left_alignments ps) \<le>
      (\<Sum>j \<in> {1..<length ps - 1}. card ({4, 5, 7, 8::int} \<times> {ps ! j - 2..ps ! j + 2}))"
    unfolding left_alignments_def by (rule card_UN_le) simp
  also have "\<dots> = (\<Sum>_ \<in> {1..<length ps - 1}. 20)"
    by (rule sum.cong) (simp_all add: card_cartesian_product)
  finally show ?thesis by simp
qed

lemma card_top: "card (top_alignments ps) \<le> 20 * (length ps - 2)"
proof -
  have "card (top_alignments ps) \<le>
      (\<Sum>j \<in> {1..<length ps - 1}. card ({ps ! j - 2..ps ! j + 2} \<times> {4, 5, 7, 8::int}))"
    unfolding top_alignments_def by (rule card_UN_le) simp
  also have "\<dots> = (\<Sum>_ \<in> {1..<length ps - 1}. 20)"
    by (rule sum.cong) (simp_all add: card_cartesian_product)
  finally show ?thesis by simp
qed

lemma card_format: "21 \<le> n \<Longrightarrow> card (format_cells n) \<le> 31"
proof -
  have "card ({8} \<times> {0..5::int} \<union> {(8, 7), (8, 8), (7, 8)} \<union> {0..5} \<times> {8::int}
     \<union> {n-8..n-1} \<times> {8} \<union> {8} \<times> {n-8..n-1}) \<le> 6 + 3 + 6 + 8 + 8"
    by (intro order_trans[OF card_Un_le] add_mono) (simp_all add: card_cartesian_product card_insert_if)
  then show ?thesis by (simp add: format_cells_def)
qed

lemma card_version: "card (version_cells v n) \<le> (if v < 7 then 0 else 36)"
proof -
  have "card ({n-11..n-9} \<times> {0..5::int} \<union> {0..5} \<times> {n-11..n-9::int}) \<le> 18 + 18"
    by (intro order_trans[OF card_Un_le] add_mono) (simp_all add: card_cartesian_product)
  then show ?thesis by (simp add: version_cells_def)
qed

lemma card_finder:
  assumes "21 \<le> n"
  shows "finder_cells n 3 3 \<subseteq> {0..7} \<times> {0..7}"
    "finder_cells n (n - 4) 3 \<subseteq> {n-8..n-1} \<times> {0..7}"
    "finder_cells n 3 (n - 4) \<subseteq> {0..7} \<times> {n-8..n-1}"
  using assms by (auto simp: finder_cells_def cells_def)

lemma timing_cover:
  assumes "21 \<le> n"
  shows "timing_cells n \<subseteq> {0..7} \<times> {0..7} \<union> {n-8..n-1} \<times> {0..7} \<union> {0..7} \<times> {n-8..n-1}
    \<union> {6} \<times> {8..n-9} \<union> {8..n-9} \<times> {6}"
  using assms by (auto simp: timing_cells_def)

lemma alignments_cover:
  assumes "1 \<le> v" "v \<le> 40"
  shows "alignments v \<subseteq> timing_cells (v * 4 + 17) \<union> inner_alignments (align_pos v)
    \<union> left_alignments (align_pos v) \<union> top_alignments (align_pos v)"
proof
  fix p
  assume "p \<in> alignments v"
  let ?ps = "align_pos v" let ?k = "length ?ps"
  from \<open>p \<in> alignments v\<close> obtain i j where ij: "align_pair ?k (i, j)"
    and p: "p \<in> alignment_cells (?ps ! i) (?ps ! j)"
    by (auto simp: alignments_def)
  then have k: "i < ?k" "j < ?k" by (auto simp: align_pair_def)
  with align_pos_facts(2)[OF assms] assms have "v \<ge> 2" by (auto split: if_splits)
  with align_pos_facts[OF assms] have first: "?ps ! 0 = 6" and k2: "2 \<le> ?k"
    by auto
  have range: "6 \<le> ?ps ! i" "?ps ! i \<le> v * 4 + 10" "6 \<le> ?ps ! j" "?ps ! j \<le> v * 4 + 10"
    using align_pos_facts(1)[OF assms] k by auto
  obtain x y where xy: "p = (x, y)" "?ps ! i - 2 \<le> x" "x \<le> ?ps ! i + 2" "?ps ! j - 2 \<le> y" "y \<le> ?ps ! j + 2"
    using p by (auto simp: alignment_cells_def)
  consider "i \<noteq> 0" "j \<noteq> 0" | "i = 0" | "j = 0" by blast
  then show "p \<in> timing_cells (v * 4 + 17) \<union> inner_alignments ?ps \<union> left_alignments ?ps \<union> top_alignments ?ps"
  proof cases
    case 1
    with p k have "p \<in> inner_alignments ?ps"
      by (force simp: inner_alignments_def)
    then show ?thesis by blast
  next
    case 2
    with ij have j: "j \<in> {1..<?k - 1}" by (auto simp: align_pair_def)
    show ?thesis
    proof (cases "x = 6")
      case True
      with xy range have "p \<in> timing_cells (v * 4 + 17)" by (auto simp: timing_cells_def)
      then show ?thesis by blast
    next
      case False
      with xy 2 first have "x \<in> {4, 5, 7, 8}" by auto
      with xy j have "p \<in> left_alignments ?ps" by (auto simp: left_alignments_def)
      then show ?thesis by blast
    qed
  next
    case 3
    with ij have i: "i \<in> {1..<?k - 1}" by (auto simp: align_pair_def)
    show ?thesis
    proof (cases "y = 6")
      case True
      with xy range have "p \<in> timing_cells (v * 4 + 17)" by (auto simp: timing_cells_def)
      then show ?thesis by blast
    next
      case False
      with xy 3 first have "y \<in> {4, 5, 7, 8}" by auto
      with xy i have "p \<in> top_alignments ?ps" by (auto simp: top_alignments_def)
      then show ?thesis by blast
    qed
  qed
qed

lemma card_Un_add: "card A \<le> a \<Longrightarrow> card B \<le> b \<Longrightarrow> card (A \<union> B) \<le> a + b"
  using card_Un_le[of A B] by linarith

lemma finite_alignment_parts:
  "finite (inner_alignments ps)" "finite (left_alignments ps)" "finite (top_alignments ps)"
  "finite (version_cells v n)" "finite (format_cells n)"
  by (auto simp: inner_alignments_def left_alignments_def top_alignments_def alignment_cells_def
      version_cells_def format_cells_def)

lemma card_function_cells:
  assumes "1 \<le> v" "v \<le> 40"
  shows "int (card (function_cells v)) \<le> (v * 4 + 17) * (v * 4 + 17) - raw_modules v"
proof -
  let ?n = "v * 4 + 17" let ?ps = "align_pos v" let ?k = "length ?ps"
  let ?U = "{0..7} \<times> {0..7} \<union> ({?n-8..?n-1} \<times> {0..7} \<union> ({0..7} \<times> {?n-8..?n-1} \<union>
    ({6} \<times> {8..?n-9} \<union> ({8..?n-9} \<times> {6} \<union> (inner_alignments ?ps \<union> (left_alignments ?ps \<union>
    (top_alignments ?ps \<union> (format_cells ?n \<union> version_cells v ?n))))))))"
  have n: "21 \<le> ?n" using assms by simp
  have "function_cells v \<subseteq> ?U"
    using card_finder[OF n] timing_cover[OF n] alignments_cover[OF assms]
    unfolding function_cells_def Let_def by blast
  moreover have "finite ?U"
    by (simp add: finite_alignment_parts)
  ultimately have "card (function_cells v) \<le> card ?U"
    by (intro card_mono)
  also have "card ?U \<le> 64 + (64 + (64 + (nat (?n - 16) + (nat (?n - 16) + (25 * (?k - 1) * (?k - 1) +
     (20 * (?k - 2) + (20 * (?k - 2) + (31 + (if v < 7 then 0 else 36)))))))))"
    using n by (intro card_Un_add card_inner card_left card_top card_format card_version)
       (simp_all add: card_box card_cartesian_product)
  finally have le: "int (card (function_cells v)) \<le> int (64 + (64 + (64 + (nat (?n - 16) + (nat (?n - 16)
     + (25 * (?k - 1) * (?k - 1) + (20 * (?k - 2) + (20 * (?k - 2) + (31 + (if v < 7 then 0 else 36))))))))))"
    by (simp only: of_nat_le_iff)
  have k: "?k = (if v = 1 then 0 else nat (v div 7 + 2))"
    using align_pos_facts(2)[OF assms] .
  define m where "m = v div 7"
  show ?thesis
  proof (cases "v = 1")
    case True
    with le k show ?thesis by (simp add: raw_modules_def)
  next
    case False
    have m: "0 \<le> m" "v < 7 \<longleftrightarrow> m = 0" using assms by (auto simp: m_def)
    define k1 k2 where "k1 = ?k - 1" and "k2 = ?k - 2"
    have "int k1 = m + 1" "int k2 = m"
      using k False m by (auto simp: m_def[symmetric] k1_def k2_def)
    then have "int (card (function_cells v)) \<le> 192 + 2 * (?n - 16) + 25 * (m + 1) * (m + 1) + 40 * m
        + 31 + (if v < 7 then 0 else 36)"
      using le[folded k1_def k2_def] n by (simp only: of_nat_add of_nat_mult) (auto split: if_splits)
    moreover have "raw_modules v = (16 * v + 128) * v + 64 - ((25 * (m + 2) - 10) * (m + 2) - 55)
        - (if v < 7 then 0 else 36)"
      using False assms by (simp add: raw_modules_def m_def)
    ultimately show ?thesis
      by (simp add: algebra_simps split: if_splits)
  qed
qed

text \<open>So at least \<open>raw_modules v\<close> modules carry data.\<close>

lemma card_data_cells:
  assumes "1 \<le> v" "v \<le> 40"
  shows "raw_modules v \<le> int (card (cells (v * 4 + 17) - function_cells v))"
proof -
  let ?n = "v * 4 + 17"
  have "int (card (cells ?n)) = ?n * ?n" using assms by (simp add: card_cells)
  moreover have "card (cells ?n) \<le> card (cells ?n - function_cells v) + card (function_cells v)"
  proof -
    have fin: "finite (function_cells v)"
    proof (rule finite_subset)
      show "function_cells v \<subseteq> timing_cells ?n \<union> cells ?n \<union> inner_alignments (align_pos v)
        \<union> left_alignments (align_pos v) \<union> top_alignments (align_pos v) \<union> format_cells ?n \<union> version_cells v ?n"
        using alignments_cover[OF assms]
        unfolding function_cells_def Let_def finder_cells_def by blast
      show "finite (timing_cells ?n \<union> cells ?n \<union> inner_alignments (align_pos v)
        \<union> left_alignments (align_pos v) \<union> top_alignments (align_pos v) \<union> format_cells ?n \<union> version_cells v ?n)"
        by (simp add: finite_alignment_parts) (simp add: timing_cells_def)
    qed
    have "card (cells ?n) \<le> card ((cells ?n - function_cells v) \<union> function_cells v)"
      by (rule card_mono) (use fin in auto)
    also have "\<dots> \<le> card (cells ?n - function_cells v) + card (function_cells v)"
      by (rule card_Un_le)
    finally show ?thesis .
  qed
  ultimately show ?thesis using card_function_cells[OF assms] by linarith
qed

end
