(* ===== verification/Qr_Text.thy ===== *)
theory Qr_Text
  imports Qr_Segments
begin

text \<open>
  What a QR code reader makes of the bits of a segment, written from the format: the mode
  indicator, the character count of the width the version prescribes, then groups of three
  digits in ten bits, pairs of alphanumeric characters in eleven bits or bytes in eight. The
  lemmas show that the constructors of \<open>Qr_Segments\<close> produce exactly the bits this reader
  takes apart.
\<close>

section \<open>The reader\<close>

definition digit_char :: "nat \<Rightarrow> char" where
  "digit_char d = char_of (48 + d)"

fun decode_numeric :: "nat \<Rightarrow> bool list \<Rightarrow> string" where
  "decode_numeric 0 bs = []"
| "decode_numeric (Suc 0) bs = [digit_char (bits_val (take 4 bs))]"
| "decode_numeric (Suc (Suc 0)) bs =
     (let v = bits_val (take 7 bs) in [digit_char (v div 10), digit_char (v mod 10)])"
| "decode_numeric (Suc (Suc (Suc n))) bs =
     (let v = bits_val (take 10 bs) in
      [digit_char (v div 100), digit_char (v div 10 mod 10), digit_char (v mod 10)]
      @ decode_numeric n (drop 10 bs))"

fun decode_alphanumeric :: "nat \<Rightarrow> bool list \<Rightarrow> string" where
  "decode_alphanumeric 0 bs = []"
| "decode_alphanumeric (Suc 0) bs = [ALPHANUMERIC_CHARSET ! bits_val (take 6 bs)]"
| "decode_alphanumeric (Suc (Suc n)) bs =
     (let v = bits_val (take 11 bs) in
      [ALPHANUMERIC_CHARSET ! (v div 45), ALPHANUMERIC_CHARSET ! (v mod 45)]
      @ decode_alphanumeric n (drop 11 bs))"

fun decode_bytes :: "nat \<Rightarrow> bool list \<Rightarrow> string" where
  "decode_bytes 0 bs = []"
| "decode_bytes (Suc n) bs = char_of (bits_val (take 8 bs)) # decode_bytes n (drop 8 bs)"

definition count_width :: "nat \<Rightarrow> int \<Rightarrow> nat" where
  "count_width m ver =
     (let i = (if ver \<le> 9 then 0 else if ver \<le> 26 then 1 else 2) in
      if m = 1 then [10, 12, 14] ! i else if m = 2 then [9, 11, 13] ! i else [8, 16, 16] ! i)"

definition decode_text :: "int \<Rightarrow> bool list \<Rightarrow> string option" where
  "decode_text ver bs =
     (let m = bits_val (take 4 bs); w = count_width m ver;
          n = bits_val (take w (drop 4 bs)); payload = drop (4 + w) bs in
      if m = 0 then Some []
      else if m = 1 then Some (decode_numeric n payload)
      else if m = 2 then Some (decode_alphanumeric n payload)
      else if m = 4 then Some (decode_bytes n payload)
      else None)"

section \<open>The bits of each mode\<close>

definition digit_val :: "char \<Rightarrow> nat" where
  "digit_val c = nat (of_char c - 48)"

fun numeric_bits :: "string \<Rightarrow> bool list" where
  "numeric_bits [] = []"
| "numeric_bits [a] = val_bits 4 (digit_val a)"
| "numeric_bits [a, b] = val_bits 7 (10 * digit_val a + digit_val b)"
| "numeric_bits (a # b # c # r) =
     val_bits 10 (100 * digit_val a + 10 * digit_val b + digit_val c) @ numeric_bits r"

definition alnum_val :: "char \<Rightarrow> nat" where
  "alnum_val c = the (strchr ALPHANUMERIC_CHARSET c)"

fun alphanumeric_bits :: "string \<Rightarrow> bool list" where
  "alphanumeric_bits [] = []"
| "alphanumeric_bits [a] = val_bits 6 (alnum_val a)"
| "alphanumeric_bits (a # b # r) =
     val_bits 11 (45 * alnum_val a + alnum_val b) @ alphanumeric_bits r"

definition byte_bits :: "8 word list \<Rightarrow> bool list" where
  "byte_bits data = concat (map (\<lambda>b. val_bits 8 (unat b)) data)"

lemma digit_val:
  assumes "is_digit_char c"
  shows "digit_val c < 10" "int (digit_val c) = of_char c - 48" "digit_char (digit_val c) = c"
proof -
  from assms have b: "48 \<le> (of_char c :: int)" "(of_char c :: int) \<le> 57"
    by (auto simp: is_digit_char_def)
  then show "digit_val c < 10" "int (digit_val c) = of_char c - 48"
    by (auto simp: digit_val_def)
  have "(of_char c :: int) = int (of_char c)"
    by (simp only: of_nat_of_char)
  then have "48 + digit_val c = of_char c"
    using b unfolding digit_val_def by linarith
  then show "digit_char (digit_val c) = c"
    by (simp add: digit_char_def)
qed

lemma strchr_Some:
  "strchr xs c = Some i \<Longrightarrow> i < length xs \<and> xs ! i = c"
  by (induction xs arbitrary: i) (auto split: if_splits)

lemma alnum_val:
  assumes "strchr ALPHANUMERIC_CHARSET c \<noteq> None"
  shows "strchr ALPHANUMERIC_CHARSET c = Some (alnum_val c)" "alnum_val c < 45"
    "ALPHANUMERIC_CHARSET ! alnum_val c = c"
proof -
  from assms show s: "strchr ALPHANUMERIC_CHARSET c = Some (alnum_val c)"
    by (auto simp: alnum_val_def)
  from strchr_Some[OF s] show "alnum_val c < 45" "ALPHANUMERIC_CHARSET ! alnum_val c = c"
    by (simp_all add: ALPHANUMERIC_CHARSET_def)
qed

text \<open>The loops, from an empty accumulator to the end of the text and through the last group.\<close>

lemma appendBits_word:
  "0 \<le> v \<Longrightarrow> v < 2 ^ n \<Longrightarrow> n \<le> 31 \<Longrightarrow> k = int n \<Longrightarrow>
   appendBits (word_of_int v) k bb = Inr (bb @ val_bits n (nat v))"
  by (simp add: appendBits_int)

lemma makeNumeric_loop_eq:
  "isNumeric cs \<Longrightarrow>
   bind_r (makeNumeric_loop cs 0 0 k bb) (\<lambda>(accumData, accumCount, charCount, bb).
     bind_r (if accumCount > 0
             then appendBits (word_of_int accumData) (accumCount * 3 + 1) bb
             else Inr bb) (\<lambda>bb'. QrSegment NUMERIC charCount bb'))
   = QrSegment NUMERIC (k + int (length cs)) (bb @ numeric_bits cs)"
proof (induction cs arbitrary: k bb rule: numeric_bits.induct)
  case 1
  then show ?case by simp
next
  case (2 a)
  then have a: "is_digit_char a" by (simp add: isNumeric_def)
  have "appendBits (word_of_int (of_char a - 48)) 4 bb = Inr (bb @ val_bits 4 (digit_val a))"
    using digit_val(1,2)[OF a]
    by (subst appendBits_word[of _ 4]) (auto simp flip: digit_val(2)[OF a])
  then show ?case using a by (simp add: Let_def)
next
  case (3 a b)
  then have a: "is_digit_char a" and b: "is_digit_char b" by (simp_all add: isNumeric_def)
  have "appendBits (word_of_int ((of_char a - 48) * 10 + (of_char b - 48))) 7 bb
      = Inr (bb @ val_bits 7 (10 * digit_val a + digit_val b))"
    using digit_val(1)[OF a] digit_val(1)[OF b]
    by (subst appendBits_word[of _ 7])
       (auto simp: nat_add_distrib nat_mult_distrib mult.commute
             simp flip: digit_val(2)[OF a] digit_val(2)[OF b])
  then show ?case using a b by (simp add: Let_def add.commute)
next
  case (4 a b c r)
  then have a: "is_digit_char a" and b: "is_digit_char b" and c: "is_digit_char c"
    and r: "isNumeric r"
    by (simp_all add: isNumeric_def)
  have "appendBits (word_of_int (((of_char a - 48) * 10 + (of_char b - 48)) * 10 + (of_char c - 48))) 10 bb
      = Inr (bb @ val_bits 10 (100 * digit_val a + 10 * digit_val b + digit_val c))"
    using digit_val(1)[OF a] digit_val(1)[OF b] digit_val(1)[OF c]
    by (subst appendBits_word[of _ 10])
       (auto simp: nat_add_distrib nat_mult_distrib algebra_simps
             simp flip: digit_val(2)[OF a] digit_val(2)[OF b] digit_val(2)[OF c])
  then show ?case using a b c 4(1)[OF r] by (simp add: Let_def algebra_simps)
qed

lemma makeNumeric_eq:
  "isNumeric cs \<Longrightarrow> makeNumeric cs =
   Inr \<lparr>seg_mode = NUMERIC, numChars = int (length cs), seg_data = numeric_bits cs\<rparr>"
  using makeNumeric_loop_eq[of cs 0 "[]"] by (simp add: makeNumeric_def QrSegment_def)

lemma makeAlphanumeric_loop_eq:
  "isAlphanumeric cs \<Longrightarrow>
   bind_r (makeAlphanumeric_loop cs 0 0 k bb) (\<lambda>(accumData, accumCount, charCount, bb).
     bind_r (if accumCount > 0 then appendBits (word_of_int accumData) 6 bb else Inr bb)
       (\<lambda>bb'. QrSegment ALPHANUMERIC charCount bb'))
   = QrSegment ALPHANUMERIC (k + int (length cs)) (bb @ alphanumeric_bits cs)"
proof (induction cs arbitrary: k bb rule: alphanumeric_bits.induct)
  case 1
  then show ?case by simp
next
  case (2 a)
  then have a: "strchr ALPHANUMERIC_CHARSET a \<noteq> None" by (simp add: isAlphanumeric_def)
  have "appendBits (word_of_int (int (alnum_val a))) 6 bb = Inr (bb @ val_bits 6 (alnum_val a))"
    using alnum_val(2)[OF a] by (subst appendBits_word[of _ 6]) auto
  then show ?case using alnum_val(1)[OF a] by (simp add: Let_def)
next
  case (3 a b r)
  then have a: "strchr ALPHANUMERIC_CHARSET a \<noteq> None" and b: "strchr ALPHANUMERIC_CHARSET b \<noteq> None"
    and r: "isAlphanumeric r"
    by (simp_all add: isAlphanumeric_def)
  have "appendBits (word_of_int (int (alnum_val a) * 45 + int (alnum_val b))) 11 bb
      = Inr (bb @ val_bits 11 (45 * alnum_val a + alnum_val b))"
    using alnum_val(2)[OF a] alnum_val(2)[OF b]
    by (subst appendBits_word[of _ 11]) (auto simp: nat_add_distrib nat_mult_distrib mult.commute)
  then show ?case
    using alnum_val(1)[OF a] alnum_val(1)[OF b] 3(1)[OF r] by (simp add: Let_def algebra_simps)
qed

lemma makeAlphanumeric_eq:
  "isAlphanumeric cs \<Longrightarrow> makeAlphanumeric cs =
   Inr \<lparr>seg_mode = ALPHANUMERIC, numChars = int (length cs), seg_data = alphanumeric_bits cs\<rparr>"
  using makeAlphanumeric_loop_eq[of cs 0 "[]"] by (simp add: makeAlphanumeric_def QrSegment_def)

lemma appendBits_byte: "appendBits (ucast (b :: 8 word)) 8 bb = Inr (bb @ val_bits 8 (unat b))"
proof -
  have "unat (ucast b :: 32 word) = unat b"
    using unsigned_less[of b, where ?'a = nat] by (simp add: unsigned_ucast_eq take_bit_nat_eq_self)
  then show ?thesis
    using unsigned_less[of b, where ?'a = nat] by (simp add: appendBits_eq)
qed

lemma fold_bytes:
  "fold_r (\<lambda>b bb. appendBits (ucast (b :: 8 word)) 8 bb) data bb = Inr (bb @ byte_bits data)"
  by (induction data arbitrary: bb) (simp_all add: byte_bits_def appendBits_byte)

lemma makeBytes_eq:
  "int (length data) \<le> INT_MAX \<Longrightarrow> makeBytes data =
   Inr \<lparr>seg_mode = BYTE, numChars = int (length data), seg_data = byte_bits data\<rparr>"
  by (simp add: makeBytes_def fold_bytes QrSegment_def)

section \<open>Reading the bits back\<close>

lemma take_val_bits [simp]: "take n (val_bits n v @ bs) = val_bits n v"
  and drop_val_bits [simp]: "drop n (val_bits n v @ bs) = bs"
  by simp_all

lemma three_digits:
  assumes "a < 10" "b < 10" "c < (10::nat)"
  shows "(100 * a + 10 * b + c) div 100 = a" "(100 * a + 10 * b + c) div 10 mod 10 = b"
    "(100 * a + 10 * b + c) mod 10 = c"
proof -
  show "(100 * a + 10 * b + c) div 100 = a"
    by (rule div_nat_eqI) (use assms in auto)
  have d: "(100 * a + 10 * b + c) div 10 = 10 * a + b"
    by (rule div_nat_eqI) (use assms in auto)
  show "(100 * a + 10 * b + c) div 10 mod 10 = b"
    unfolding d using assms by simp
  have e: "100 * a + 10 * b + c = c + 10 * (10 * a + b)"
    by simp
  show "(100 * a + 10 * b + c) mod 10 = c"
    unfolding e using assms by (simp only: mod_mult_self2) simp
qed

lemma decode_numeric_bits:
  "isNumeric cs \<Longrightarrow> decode_numeric (length cs) (numeric_bits cs @ rest) = cs"
proof (induction cs rule: numeric_bits.induct)
  case (4 a b c r)
  then have d: "is_digit_char a" "is_digit_char b" "is_digit_char c" and r: "isNumeric r"
    by (simp_all add: isNumeric_def)
  then have "100 * digit_val a + 10 * digit_val b + digit_val c < 1024"
    using digit_val(1)[of a] digit_val(1)[of b] digit_val(1)[of c] by simp
  then show ?case
    using d digit_val[of a] digit_val[of b] digit_val[of c] 4(1)[OF r] by (simp add: Let_def three_digits)
next
  case (3 a b)
  then show ?case
    using digit_val[of a] digit_val[of b] by (simp add: Let_def isNumeric_def)
next
  case (2 a)
  then show ?case using digit_val[of a] by (simp add: isNumeric_def)
qed simp

lemma decode_alphanumeric_bits:
  "isAlphanumeric cs \<Longrightarrow> decode_alphanumeric (length cs) (alphanumeric_bits cs @ rest) = cs"
proof (induction cs rule: alphanumeric_bits.induct)
  case (3 a b r)
  then have d: "strchr ALPHANUMERIC_CHARSET a \<noteq> None" "strchr ALPHANUMERIC_CHARSET b \<noteq> None"
    and r: "isAlphanumeric r"
    by (simp_all add: isAlphanumeric_def)
  then show ?case
    using alnum_val[of a] alnum_val[of b] 3(1)[OF r] by (simp add: Let_def)
next
  case (2 a)
  then show ?case using alnum_val[of a] by (simp add: isAlphanumeric_def)
qed simp

lemma decode_byte_bits:
  "decode_bytes (length cs) (byte_bits (map of_char cs) @ rest) = cs"
proof (induction cs)
  case (Cons c cs)
  have "(of_char c :: 8 word) = of_nat (of_char c)"
    by (simp only: of_nat_of_char)
  then have "unat (of_char c :: 8 word) = of_char c"
    by (simp add: unat_of_nat)
  moreover have "(of_char c :: nat) < 256" by simp
  ultimately show ?case using Cons by (simp add: byte_bits_def)
qed (simp add: byte_bits_def)

end
