(* ===== verification/Qr_Scan.thy ===== *)
theory Qr_Scan
  imports Qr_Count Qr_Text
begin

text \<open>
  \<open>drawCodewords\<close> writes every bit of the codewords: the scan visits each module outside column 6
  once, column 6 holds the timing pattern, and there are at least as many free modules as bits.
  Reading the free modules in scan order gives the bits back.
\<close>

section \<open>The order of the scan\<close>

definition scan :: "int \<Rightarrow> (int \<times> int) list" where
  "scan n = map (\<lambda>(right, vert, j). scan_cell n right vert j)
     (List.product (rights (n - 1)) (List.product [0..n - 1] [0, 1]))"

lemma fold_r_product:
  "fold_r (\<lambda>a. fold_r (f a) ys) xs = fold_r (\<lambda>(a, b). f a b) (List.product xs ys)"
proof (rule ext)
  fix s
  have "fold_r (\<lambda>(a, b). f a b) (map (Pair x) ys) s = fold_r (f x) ys s" for x s
    by (induction ys arbitrary: s) (auto simp: bind_r_def split: sum.splits)
  then show "fold_r (\<lambda>a. fold_r (f a) ys) xs s = fold_r (\<lambda>(a, b). f a b) (List.product xs ys) s"
    by (induction xs arbitrary: s) (auto simp: fold_r_append bind_r_def split: sum.splits)
qed

lemma fold_r_map: "fold_r f (map g xs) = fold_r (\<lambda>x. f (g x)) xs"
proof (rule ext)
  show "fold_r f (map g xs) s = fold_r (\<lambda>x. f (g x)) xs s" for s
    by (induction xs arbitrary: s) (auto simp: bind_r_def split: sum.splits)
qed

lemma drawCodewords_scan:
  "fold_r (\<lambda>right. fold_r (\<lambda>vert. fold_r (\<lambda>j. draw_codeword_cell data (scan_cell n right vert j)) [0, 1])
     [0..n - 1]) (rights (n - 1)) = fold_r (draw_codeword_cell data) (scan n)"
  unfolding scan_def fold_r_product fold_r_map by (simp add: case_prod_unfold)

lemma rights_even: "rights (2 * int k + 6) = map (\<lambda>i. 2 * int i + 6) (rev [1..<Suc k]) @ [5, 3, 1]"
proof (induction k)
  case 0
  have "rights 1 = [1]" by (simp add: rights.simps[of 1] rights.simps[of "-1"])
  then have "rights 3 = [3, 1]" by (simp add: rights.simps[of 3])
  then show ?case by (simp add: rights.simps[of 6])
next
  case (Suc k)
  have "rights (2 * int (Suc k) + 6) = (2 * int (Suc k) + 6) # rights (2 * int k + 6)"
    by (subst rights.simps) (simp add: algebra_simps)
  with Suc show ?case by simp
qed

lemma set_rights:
  assumes "odd n" "9 \<le> n"
  shows "set (rights (n - 1)) = {r. even r \<and> 8 \<le> r \<and> r \<le> n - 1} \<union> {5, 3, 1}"
    and "distinct (rights (n - 1))"
proof -
  from assms(1) obtain m where m: "n = 2 * m + 1" by (auto elim: oddE)
  define k where "k = nat (m - 3)"
  have n: "n - 1 = 2 * int k + 6" using m assms(2) by (simp add: k_def)
  show "distinct (rights (n - 1))"
    unfolding n rights_even by (auto simp: distinct_map inj_on_def)
  show "set (rights (n - 1)) = {r. even r \<and> 8 \<le> r \<and> r \<le> n - 1} \<union> {5, 3, 1}"
  proof -
    have "(\<lambda>i. 2 * int i + 6) ` {1..<Suc k} = {r. even r \<and> 8 \<le> r \<and> r \<le> 2 * int k + 6}"
    proof (intro equalityI subsetI)
      fix r
      assume "r \<in> {r. even r \<and> 8 \<le> r \<and> r \<le> 2 * int k + 6}"
      then obtain c where "r = 2 * c" "4 \<le> c" "c \<le> int k + 3" by (auto elim!: evenE)
      then show "r \<in> (\<lambda>i. 2 * int i + 6) ` {1..<Suc k}"
        by (intro image_eqI[of _ _ "nat (c - 3)"]) auto
    qed auto
    then show ?thesis
      unfolding n rights_even set_append set_map set_rev set_upt by simp
  qed
qed

lemma scan_cell_inj:
  "scan_cell n r v j = scan_cell n r' v' j' \<Longrightarrow> r - j = r' - j'"
  "scan_cell n r v j = scan_cell n r v' j \<Longrightarrow> v = v'"
  by (cases "(r + 1) AND 2 = 0"; simp add: scan_cell_def)+

lemma scan_column:
  assumes "odd n" "9 \<le> n" and "r \<in> set (rights (n - 1))" "r' \<in> set (rights (n - 1))"
    and "j \<in> {0, 1}" "j' \<in> {0, 1}" and "r - j = r' - j'"
  shows "r = r' \<and> j = j'"
proof -
  have "(even r \<and> 8 \<le> r) \<or> (odd r \<and> r \<le> 5)" "(even r' \<and> 8 \<le> r') \<or> (odd r' \<and> r' \<le> 5)"
    using assms(3,4) unfolding set_rights(1)[OF assms(1,2)] by auto
  moreover have "r = r' \<and> j = j' \<or> r = r' + 1 \<or> r' = r + 1"
    using assms(5-7) by auto
  ultimately show ?thesis by auto
qed

lemma distinct_scan:
  assumes "odd n" "9 \<le> n"
  shows "distinct (scan n)"
proof -
  let ?L = "List.product (rights (n - 1)) (List.product [0..n - 1] [0, 1 :: int])"
  have "distinct ?L"
    using set_rights(2)[OF assms] by (intro distinct_product) simp_all
  moreover have "inj_on (\<lambda>(right, vert, j). scan_cell n right vert j) (set ?L)"
  proof (rule inj_onI)
    fix a b
    assume ab: "a \<in> set ?L" "b \<in> set ?L"
      and eq: "(\<lambda>(right, vert, j). scan_cell n right vert j) a = (\<lambda>(right, vert, j). scan_cell n right vert j) b"
    obtain r v j r' v' j' where t: "a = (r, v, j)" "b = (r', v', j')"
      by (cases a, cases b)
    with ab have "r \<in> set (rights (n - 1))" "r' \<in> set (rights (n - 1))" "j \<in> {0, 1}" "j' \<in> {0, 1}"
      by auto
    moreover from eq t have e: "scan_cell n r v j = scan_cell n r' v' j'" by simp
    then have "r - j = r' - j'" by (rule scan_cell_inj)
    ultimately have "r = r' \<and> j = j'" by (rule scan_column[OF assms])
    with e t show "a = b" using scan_cell_inj(2) by blast
  qed
  ultimately show ?thesis by (simp add: scan_def distinct_map)
qed

lemma set_scan:
  assumes "odd n" "9 \<le> n"
  shows "set (scan n) = {p \<in> cells n. fst p \<noteq> 6}"
proof (intro equalityI subsetI)
  fix p
  assume "p \<in> set (scan n)"
  then obtain z where z: "z \<in> set (List.product (rights (n - 1)) (List.product [0..n - 1] [0, 1]))"
    and "p = (\<lambda>(right, vert, j). scan_cell n right vert j) z"
    unfolding scan_def set_map by blast
  moreover obtain r v j where "z = (r, v, j)" by (cases z)
  ultimately have "r \<in> set (rights (n - 1))" "0 \<le> v" "v \<le> n - 1" "j \<in> {0, 1}"
    and "p = scan_cell n r v j"
    by auto
  with assms(2) show "p \<in> {p \<in> cells n. fst p \<noteq> 6}"
    unfolding set_rights(1)[OF assms]
    by (auto simp: scan_cell_def Let_def cells_def)
next
  fix p
  assume "p \<in> {p \<in> cells n. fst p \<noteq> 6}"
  then obtain x y where p: "p = (x, y)" "0 \<le> x" "x < n" "0 \<le> y" "y < n" "x \<noteq> 6"
    by (auto simp: cells_def)
  define r where "r = (if x \<ge> 7 then (if even x then x else x + 1) else if odd x then x else x + 1)"
  define v where "v = (if (r + 1) AND 2 = 0 then n - 1 - y else y)"
  have "r \<in> set (rights (n - 1))" "r - x \<in> {0, 1}"
    unfolding set_rights(1)[OF assms] using p assms unfolding r_def by (auto; presburger)+
  moreover have "v \<in> set [0..n - 1]" "p = scan_cell n r v (r - x)"
    using p by (auto simp: v_def scan_cell_def Let_def)
  ultimately show "p \<in> set (scan n)"
    unfolding scan_def set_map List.set_product
    by (intro image_eqI[of _ _ "(r, v, r - x)"]) auto
qed

section \<open>Writing the bits\<close>

lemma byte_bits_Cons: "byte_bits (b # data) = val_bits 8 (unat b) @ byte_bits data"
  by (simp add: byte_bits_def)

lemma length_byte_bits [simp]: "length (byte_bits data) = 8 * length data"
  by (induction data) (auto simp: byte_bits_def)

lemma getBit_eq: "getBit x i = bit x i"
  by (simp add: getBit_def bit_iff_odd_drop_bit and_one_eq odd_iff_mod_2_eq_one)

lemma bit_index: "drop_bit 3 i = i div 8" "i AND 7 = i mod (8 :: nat)"
  using take_bit_eq_mask[of 3 i] by (simp_all add: drop_bit_eq_div take_bit_eq_mod mask_eq_exp_minus_1)

lemma codeword_bit:
  assumes "i < 8 * length data"
  shows "getBit (uint (data ! drop_bit 3 i)) (7 - (i AND 7)) = byte_bits data ! i"
proof -
  have b: "getBit (uint w) k = bit (unat w) k" for w :: "8 word" and k
    by (simp add: getBit_eq bit_unsigned_iff)
  have "bit (unat (data ! (i div 8))) (7 - i mod 8) = byte_bits data ! i"
    using assms
  proof (induction data arbitrary: i)
    case (Cons b data)
    show ?case
    proof (cases "i < 8")
      case True
      then show ?thesis by (simp add: byte_bits_Cons nth_append val_bits_def rev_nth del: upt_Suc)
    next
      case False
      then have "i div 8 = Suc ((i - 8) div 8)" "i mod 8 = (i - 8) mod 8"
        by (simp_all add: le_div_geq le_mod_geq)
      with False Cons.IH[of "i - 8"] Cons.prems show ?thesis
        by (simp add: byte_bits_Cons nth_append)
    qed
  qed simp
  with b show ?thesis by (simp add: bit_index)
qed

lemma set_module_ok:
  fixes b :: bool
  assumes "wf_qr q" and p: "(x, y) \<in> cells (qr_size q)"
  defines "q' \<equiv> q\<lparr>modules := (modules q)[nat y := (modules q ! nat y)[nat x := b]]\<rparr>"
  shows "grid_at (isFunction q) (to_size y) (to_size x) = Inr (fun_at q (x, y))"
    and "grid_at (modules q) (to_size y) (to_size x) = Inr (mod_at q (x, y))"
    and "grid_set (modules q) (to_size y) (to_size x) b = Inr (modules q')"
    and "wf_qr q'" and "p' \<in> cells (qr_size q) \<Longrightarrow> mod_at q' p' = (if p' = (x, y) then b else mod_at q p')"
proof -
  let ?n = "nat (qr_size q)"
  have i: "to_size x = nat x" "to_size y = nat y" "nat x < ?n" "nat y < ?n"
    using assms(1) p wf_size[of q] by (auto simp: to_size_small)
  note sq = wf_square[OF assms(1)]
  show "grid_at (isFunction q) (to_size y) (to_size x) = Inr (fun_at q (x, y))"
    "grid_at (modules q) (to_size y) (to_size x) = Inr (mod_at q (x, y))"
    "grid_set (modules q) (to_size y) (to_size x) b = Inr (modules q')"
    using i sq by (simp_all add: grid_at_ok grid_set_ok fun_at_def mod_at_def q'_def)
  have "wf_qr (q\<lparr>modules := modules q', isFunction := isFunction q\<rparr>)"
    using i sq by (intro wf_qr_upd assms(1)) (simp_all add: q'_def square_upd)
  moreover have "q\<lparr>modules := modules q', isFunction := isFunction q\<rparr> = q'"
    by (simp add: q'_def)
  ultimately show "wf_qr q'" by simp
  assume "p' \<in> cells (qr_size q)"
  moreover obtain x' y' where "p' = (x', y')" by (cases p')
  ultimately show "mod_at q' p' = (if p' = (x, y) then b else mod_at q p')"
    using p i sq by (auto simp: mod_at_def q'_def nth_upd2)
qed

definition same_frame :: "qr_code \<Rightarrow> qr_code \<Rightarrow> bool" where
  "same_frame q q' \<longleftrightarrow> wf_qr q' \<and> hdr q' = hdr q \<and> isFunction q' = isFunction q"

lemma same_frame_fun_at: "same_frame q q' \<Longrightarrow> fun_at q' = fun_at q"
  by (simp add: same_frame_def fun_at_def fun_eq_iff)

lemma same_frame_marks: "same_frame q q' \<Longrightarrow> marks q' = marks q"
  by (simp add: same_frame_def marks_def fun_at_def hdr_def)

lemma draw_run:
  assumes "distinct ps" "set ps \<subseteq> cells (qr_size q)" "wf_qr q" "i \<le> 8 * length data"
  defines "free \<equiv> filter (\<lambda>p. \<not> fun_at q p) ps"
  shows "\<exists>q'. fold_r (draw_codeword_cell data) ps (i, q) = Inr (min (8 * length data) (i + length free), q') \<and>
    same_frame q q' \<and>
    map (mod_at q') (take (8 * length data - i) free) = take (length free) (drop i (byte_bits data)) \<and>
    (\<forall>p \<in> cells (qr_size q). p \<notin> set (take (8 * length data - i) free) \<longrightarrow> mod_at q' p = mod_at q p)"
  using assms(1-4) unfolding free_def
proof (induction ps arbitrary: i q)
  case Nil
  then show ?case by (simp add: same_frame_def min_def)
next
  case (Cons p ps)
  obtain x y where p: "p = (x, y)" by (cases p)
  have pc: "(x, y) \<in> cells (qr_size q)" and ps: "set ps \<subseteq> cells (qr_size q)" using Cons.prems p by auto
  note m = set_module_ok[OF \<open>wf_qr q\<close> pc]
  show ?case
  proof (cases "fun_at q p \<or> i = 8 * length data")
    case True
    then have "draw_codeword_cell data p (i, q) = Inr (i, q)"
      using m(1) p by (auto simp: draw_codeword_cell_def)
    with Cons.IH[of q i] Cons.prems ps True show ?thesis
      by auto
  next
    case False
    then have f: "\<not> fun_at q p" and i: "i < 8 * length data" using Cons.prems(4) by auto
    define b where "b = byte_bits data ! i"
    define q1 where "q1 = q\<lparr>modules := (modules q)[nat y := (modules q ! nat y)[nat x := b]]\<rparr>"
    have "drop_bit 3 i < length data" using i by (auto simp: drop_bit_eq_div)
    then have run: "draw_codeword_cell data p (i, q) = Inr (i + 1, q1)"
      using f i p m(1) m(3)[of b] codeword_bit[OF i]
      by (simp add: draw_codeword_cell_def at_r_def b_def q1_def)
    have fr: "same_frame q q1"
      using m(4)[of b] by (simp add: same_frame_def q1_def hdr_def)
    then have sz: "qr_size q1 = qr_size q" and fa: "fun_at q1 = fun_at q"
      by (simp_all add: same_frame_fun_at) (simp add: same_frame_def hdr_def)
    have m1: "mod_at q1 p' = (if p' = p then b else mod_at q p')" if "p' \<in> cells (qr_size q)" for p'
      using m(5)[OF that, of b] p by (simp add: q1_def)
    let ?free = "filter (\<lambda>p. \<not> fun_at q p) ps"
    obtain q' where q': "fold_r (draw_codeword_cell data) ps (i + 1, q1) =
        Inr (min (8 * length data) (i + 1 + length ?free), q')" "same_frame q1 q'"
      "map (mod_at q') (take (8 * length data - (i + 1)) ?free) = take (length ?free) (drop (i + 1) (byte_bits data))"
      "\<forall>p \<in> cells (qr_size q). p \<notin> set (take (8 * length data - (i + 1)) ?free) \<longrightarrow> mod_at q' p = mod_at q1 p"
      using Cons.IH[of q1 "i + 1"] Cons.prems(1) ps i fr sz fa by (auto simp: same_frame_def)
    have notin: "p \<notin> set (take k ?free)" for k
      using Cons.prems(1) by (auto dest: in_set_takeD)
    have "8 * length data - i = Suc (8 * length data - (i + 1))" using i by simp
    then have tk: "take (8 * length data - i) (filter (\<lambda>p. \<not> fun_at q p) (p # ps)) =
        p # take (8 * length data - (i + 1)) ?free"
      using f by simp
    have dr: "drop i (byte_bits data) = b # drop (i + 1) (byte_bits data)"
      using i by (simp add: b_def Cons_nth_drop_Suc)
    have "mod_at q' p = b" using q'(4) notin pc p m1 by auto
    moreover have "same_frame q q'" using fr q'(2) by (simp add: same_frame_def)
    moreover have "\<forall>p' \<in> cells (qr_size q).
        p' \<notin> set (p # take (8 * length data - (i + 1)) ?free) \<longrightarrow> mod_at q' p' = mod_at q p'"
      using q'(4) m1 by auto
    ultimately show ?thesis
      unfolding tk using run q'(1,3) f dr by (intro exI[of _ q']) simp
  qed
qed

section \<open>The codewords in the symbol\<close>

text \<open>What a reader takes from the modules that carry data, in scan order.\<close>

definition data_cells :: "int \<Rightarrow> (int \<times> int) list" where
  "data_cells v = filter (\<lambda>p. p \<notin> function_cells v) (scan (v * 4 + 17))"

lemma data_cells_facts:
  assumes "1 \<le> v" "v \<le> 40"
  shows "distinct (data_cells v)" "set (data_cells v) = cells (v * 4 + 17) - function_cells v"
    "raw_modules v \<le> int (length (data_cells v))"
proof -
  have n: "odd (v * 4 + 17)" "9 \<le> v * 4 + 17" using assms by auto
  show d: "distinct (data_cells v)"
    using distinct_scan[OF n] by (simp add: data_cells_def)
  have "(6, y) \<in> function_cells v" if "0 \<le> y" "y < v * 4 + 17" for y
    using that by (auto simp: function_cells_def Let_def timing_cells_def)
  then show s: "set (data_cells v) = cells (v * 4 + 17) - function_cells v"
    using set_scan[OF n] by (auto simp: data_cells_def)
  have "length (data_cells v) = card (set (data_cells v))"
    using d by (simp add: distinct_card)
  then show "raw_modules v \<le> int (length (data_cells v))"
    using s card_data_cells[OF assms] by simp
qed

lemma drawCodewords_ok:
  assumes "wf_qr q" and "marks q = cells (qr_size q) \<inter> function_cells (qr_version q)"
    and len: "int (length data) = raw_modules (qr_version q) div 8"
  obtains q' where "drawCodewords data q = Inr q'" "same_frame q q'"
    "map (mod_at q') (take (8 * length data) (data_cells (qr_version q))) = byte_bits data"
    "\<forall>p \<in> cells (qr_size q). p \<notin> set (data_cells (qr_version q)) \<longrightarrow> mod_at q' p = mod_at q p"
proof -
  let ?v = "qr_version q" and ?n = "qr_size q"
  have v: "1 \<le> ?v" "?v \<le> 40" "?n = ?v * 4 + 17" using assms(1) by (simp_all add: wf_qr_def)
  have n: "odd ?n" "9 \<le> ?n" using v by auto
  have "fun_at q p \<longleftrightarrow> p \<in> function_cells ?v" if "p \<in> set (scan ?n)" for p
    using assms(2) that set_scan[OF n] by (auto simp: marks_def)
  then have free: "filter (\<lambda>p. \<not> fun_at q p) (scan ?n) = data_cells ?v"
    unfolding data_cells_def v(3) by (intro filter_cong) auto
  have many: "8 * length data \<le> length (data_cells ?v)"
    using data_cells_facts(3)[OF v(1,2)] len by linarith
  have "set (scan ?n) \<subseteq> cells ?n" using set_scan[OF n] by auto
  from draw_run[OF distinct_scan[OF n] this assms(1), of 0 data] free many
  obtain q' where q': "fold_r (draw_codeword_cell data) (scan ?n) (0, q) = Inr (8 * length data, q')"
    "same_frame q q'"
    "map (mod_at q') (take (8 * length data) (data_cells ?v)) = byte_bits data"
    "\<forall>p \<in> cells ?n. p \<notin> set (take (8 * length data) (data_cells ?v)) \<longrightarrow> mod_at q' p = mod_at q p"
    by (auto simp: min_def)
  moreover have "drawCodewords data q = Inr q'"
    using q'(1) len v(1,2) unfolding drawCodewords_def drawCodewords_scan
    by (simp add: getNumRawDataModules_eq mult.commute)
  ultimately show thesis
    using that by (auto dest: in_set_takeD)
qed

end
