(* ===== verification/Qr_Blocks.thy ===== *)
theory Qr_Blocks
  imports Qr_Scan
begin

text \<open>
  \<open>addEccAndInterleave\<close> cuts the data into blocks of the sizes the tables prescribe, appends to
  each block the remainder that makes it a Reed-Solomon codeword and writes the blocks column by
  column; a reader that undoes the interleaving gets the data back.
\<close>

section \<open>The tables\<close>

text \<open>\<open>block_params v ecl\<close>: blocks, codewords of correction per block, short blocks, data codewords of a short block.\<close>

definition num_blocks :: "int \<Rightarrow> ecc \<Rightarrow> nat" where
  "num_blocks v ecl = nat (ecc_blocks ecl v)"

definition ecc_len :: "int \<Rightarrow> ecc \<Rightarrow> nat" where
  "ecc_len v ecl = nat (ecc_codewords ecl v)"

definition short_blocks :: "int \<Rightarrow> ecc \<Rightarrow> nat" where
  "short_blocks v ecl = nat (ecc_blocks ecl v - raw_modules v div 8 mod ecc_blocks ecl v)"

definition short_data :: "int \<Rightarrow> ecc \<Rightarrow> nat" where
  "short_data v ecl = nat (raw_modules v div 8 div ecc_blocks ecl v - ecc_codewords ecl v)"

definition data_codewords :: "int \<Rightarrow> ecc \<Rightarrow> nat" where
  "data_codewords v ecl = num_blocks v ecl * short_data v ecl + (num_blocks v ecl - short_blocks v ecl)"

definition raw_codewords :: "int \<Rightarrow> nat" where
  "raw_codewords v = nat (raw_modules v div 8)"

definition all_ecc :: "ecc list" where
  "all_ecc = [LOW, MEDIUM, QUARTILE, HIGH]"

lemma in_all_ecc [simp]: "ecl \<in> set all_ecc"
  by (cases ecl) (simp_all add: all_ecc_def)

lemma tables:
  assumes "1 \<le> v" "v \<le> 40"
  shows "1 \<le> ecc_blocks ecl v" "7 \<le> ecc_codewords ecl v" "ecc_codewords ecl v \<le> 30"
    "ecc_codewords ecl v < raw_modules v div 8 div ecc_blocks ecl v"
    "9 \<le> raw_modules v div 8 - ecc_codewords ecl v * ecc_blocks ecl v"
proof -
  have "list_all (\<lambda>e. list_all (\<lambda>v. 1 \<le> ecc_blocks e v \<and> 7 \<le> ecc_codewords e v \<and> ecc_codewords e v \<le> 30 \<and>
     ecc_codewords e v < raw_modules v div 8 div ecc_blocks e v \<and>
     9 \<le> raw_modules v div 8 - ecc_codewords e v * ecc_blocks e v) [1..40]) all_ecc"
    by code_simp
  then have "list_all (\<lambda>v. 1 \<le> ecc_blocks ecl v \<and> 7 \<le> ecc_codewords ecl v \<and> ecc_codewords ecl v \<le> 30 \<and>
     ecc_codewords ecl v < raw_modules v div 8 div ecc_blocks ecl v \<and>
     9 \<le> raw_modules v div 8 - ecc_codewords ecl v * ecc_blocks ecl v) [1..40]"
    using in_all_ecc[of ecl] by (auto simp: list_all_iff)
  with assms show "1 \<le> ecc_blocks ecl v" "7 \<le> ecc_codewords ecl v" "ecc_codewords ecl v \<le> 30"
    "ecc_codewords ecl v < raw_modules v div 8 div ecc_blocks ecl v"
    "9 \<le> raw_modules v div 8 - ecc_codewords ecl v * ecc_blocks ecl v"
    by (simp_all add: list_all_iff del: upto_rec_numeral)
qed

lemma block_sizes:
  assumes "1 \<le> v" "v \<le> 40"
  shows "num_blocks v ecl \<ge> 1" "short_blocks v ecl \<le> num_blocks v ecl" "1 \<le> short_blocks v ecl"
    "raw_codewords v = num_blocks v ecl * (short_data v ecl + ecc_len v ecl)
       + (num_blocks v ecl - short_blocks v ecl)"
    "int (data_codewords v ecl) = raw_modules v div 8 - ecc_codewords ecl v * ecc_blocks ecl v"
    "int (num_blocks v ecl) = ecc_blocks ecl v" "int (ecc_len v ecl) = ecc_codewords ecl v"
    "int (short_blocks v ecl) = ecc_blocks ecl v - raw_modules v div 8 mod ecc_blocks ecl v"
    "int (short_data v ecl) = raw_modules v div 8 div ecc_blocks ecl v - ecc_codewords ecl v"
    "int (raw_codewords v) = raw_modules v div 8"
proof -
  let ?b = "ecc_blocks ecl v" and ?r = "raw_modules v div 8"
  note t = tables[OF assms, of ecl]
  have m: "0 \<le> ?r mod ?b" "?r mod ?b < ?b" using t(1) by simp_all
  show nb: "int (num_blocks v ecl) = ?b" and el: "int (ecc_len v ecl) = ecc_codewords ecl v"
    and sb: "int (short_blocks v ecl) = ?b - ?r mod ?b"
    and sd: "int (short_data v ecl) = ?r div ?b - ecc_codewords ecl v"
    using t m by (simp_all add: num_blocks_def ecc_len_def short_blocks_def short_data_def)
  show rc: "int (raw_codewords v) = ?r"
    using raw_modules_range[OF assms] by (simp add: raw_codewords_def)
  show "num_blocks v ecl \<ge> 1" "short_blocks v ecl \<le> num_blocks v ecl" "1 \<le> short_blocks v ecl"
    using nb sb t(1) m by linarith+
  then have d: "int (num_blocks v ecl - short_blocks v ecl) = ?r mod ?b"
    using nb sb by linarith
  have r: "?r = ?b * (?r div ?b) + ?r mod ?b" by simp
  have "int (raw_codewords v) = int (num_blocks v ecl * (short_data v ecl + ecc_len v ecl)
       + (num_blocks v ecl - short_blocks v ecl))"
    unfolding rc of_nat_add of_nat_mult d nb sd el using r by simp
  then show "raw_codewords v = num_blocks v ecl * (short_data v ecl + ecc_len v ecl)
       + (num_blocks v ecl - short_blocks v ecl)"
    by (simp only: of_nat_eq_iff)
  show "int (data_codewords v ecl) = ?r - ecc_codewords ecl v * ?b"
    unfolding data_codewords_def of_nat_add of_nat_mult d nb sd using r by (simp add: algebra_simps)
qed

lemma getNumDataCodewords_eq:
  "1 \<le> v \<Longrightarrow> v \<le> 40 \<Longrightarrow> getNumDataCodewords v ecl = Inr (int (data_codewords v ecl))"
  by (simp add: getNumDataCodewords_def getNumRawDataModules_eq block_sizes(5))

section \<open>Splitting\<close>

fun chunk :: "nat list \<Rightarrow> 'a list \<Rightarrow> 'a list list" where
  "chunk [] xs = []"
| "chunk (l # ls) xs = take l xs # chunk ls (drop l xs)"

lemma length_chunk [simp]: "length (chunk ls xs) = length ls"
  by (induction ls arbitrary: xs) simp_all

lemma concat_chunk: "sum_list ls = length xs \<Longrightarrow> concat (chunk ls xs) = xs"
  by (induction ls arbitrary: xs) simp_all

lemma map_length_chunk: "sum_list ls \<le> length xs \<Longrightarrow> map length (chunk ls xs) = ls"
  by (induction ls arbitrary: xs) simp_all

lemma foldl_split:
  assumes "sum_list (map (\<lambda>i. nat (len i)) is) \<le> length data - k" and "k \<le> length data"
  shows "foldl (\<lambda>(blocks, k) i. let dat = take (nat (len i)) (drop k data) in (blocks @ [g i dat], k + length dat))
     (bs, k) is = (bs @ map2 g is (chunk (map (\<lambda>i. nat (len i)) is) (drop k data)),
       k + sum_list (map (\<lambda>i. nat (len i)) is))"
  using assms
proof (induction "is" arbitrary: bs k)
  case (Cons i "is")
  then show ?case by (simp add: Let_def add.assoc[symmetric] add.commute)
qed simp

definition block_lens :: "int \<Rightarrow> ecc \<Rightarrow> nat list" where
  "block_lens v ecl = map (\<lambda>i. short_data v ecl + (if i < short_blocks v ecl then 0 else 1)) [0..<num_blocks v ecl]"

lemma length_block_lens [simp]: "length (block_lens v ecl) = num_blocks v ecl"
  by (simp add: block_lens_def)

lemma sum_block_lens:
  assumes "1 \<le> v" "v \<le> 40"
  shows "sum_list (block_lens v ecl) = data_codewords v ecl"
proof -
  have "sum_list (map (\<lambda>i. a + (if i < s then 0 else 1)) [0..<n]) = n * a + (n - s)" for a s n :: nat
    by (induction n) (auto simp: Suc_diff_le)
  then show ?thesis by (simp add: block_lens_def data_codewords_def)
qed

lemma upto_int: "[0..int n - 1] = map int [0..<n]"
proof (induction n)
  case (Suc n)
  have "[0..int (Suc n) - 1] = [0..int n - 1] @ [int n]"
    by (subst upto_rec2) simp_all
  with Suc show ?case by simp
qed simp

definition block :: "nat \<Rightarrow> 8 word list \<Rightarrow> nat \<Rightarrow> 8 word list \<Rightarrow> 8 word list" where
  "block s D j dat = (if j < s then dat @ [0] else dat) @ reedSolomonComputeRemainder dat D"

definition parts :: "int \<Rightarrow> ecc \<Rightarrow> 8 word list \<Rightarrow> 8 word list list" where
  "parts v ecl data = chunk (block_lens v ecl) data"

lemma parts_facts:
  assumes "1 \<le> v" "v \<le> 40" "length data = data_codewords v ecl"
  shows "concat (parts v ecl data) = data" "length (parts v ecl data) = num_blocks v ecl"
    "j < num_blocks v ecl \<Longrightarrow>
     length (parts v ecl data ! j) = short_data v ecl + (if j < short_blocks v ecl then 0 else 1)"
proof -
  show "concat (parts v ecl data) = data"
    unfolding parts_def using assms by (intro concat_chunk) (simp add: sum_block_lens)
  show l: "length (parts v ecl data) = num_blocks v ecl"
    by (simp add: parts_def)
  have "map length (parts v ecl data) = block_lens v ecl"
    unfolding parts_def using assms by (intro map_length_chunk) (simp add: sum_block_lens)
  moreover assume "j < num_blocks v ecl"
  ultimately show "length (parts v ecl data ! j) = short_data v ecl + (if j < short_blocks v ecl then 0 else 1)"
    using l by (metis (no_types, lifting) nth_map block_lens_def length_upt minus_nat.diff_0 nth_upt add_0)
qed

lemma split_blocks_eq:
  assumes "1 \<le> v" "v \<le> 40" "length data = data_codewords v ecl"
  shows "split_blocks data D (int (num_blocks v ecl)) (int (short_blocks v ecl))
       (int (short_data v ecl + ecc_len v ecl)) (int (ecc_len v ecl))
     = map2 (block (short_blocks v ecl) D) [0..<num_blocks v ecl] (parts v ecl data)"
proof -
  let ?s = "short_blocks v ecl" and ?n = "num_blocks v ecl"
  let ?len = "\<lambda>i. int (short_data v ecl) + (if i < int ?s then 0 else 1)"
  let ?g = "\<lambda>i dat. (if i < int ?s then dat @ [0] else dat) @ reedSolomonComputeRemainder dat D"
  have lens: "map (\<lambda>i. nat (?len i)) [0..int ?n - 1] = block_lens v ecl"
    by (auto simp: upto_int block_lens_def o_def nat_add_distrib)
  have "foldl (\<lambda>(blocks, k) i. let dat = take (nat (?len i)) (drop k data) in (blocks @ [?g i dat], k + length dat))
     ([], 0) [0..int ?n - 1] = (map2 ?g [0..int ?n - 1] (chunk (map (\<lambda>i. nat (?len i)) [0..int ?n - 1]) data),
      sum_list (map (\<lambda>i. nat (?len i)) [0..int ?n - 1]))"
    by (subst foldl_split) (simp_all add: lens sum_block_lens assms)
  then have "split_blocks data D (int ?n) (int ?s) (int (short_data v ecl + ecc_len v ecl)) (int (ecc_len v ecl))
      = map2 ?g [0..int ?n - 1] (parts v ecl data)"
    by (simp add: split_blocks_def parts_def lens Let_def)
  also have "\<dots> = map2 (block ?s D) [0..<?n] (parts v ecl data)"
    by (simp add: upto_int block_def[abs_def] zip_map1 case_prod_unfold)
  finally show ?thesis .
qed

section \<open>Interleaving\<close>

lemma fold_r_snoc:
  assumes "\<And>x r. x \<in> set xs \<Longrightarrow> f x r = Inr (r @ g x)"
  shows "fold_r f xs r = Inr (r @ concat (map g xs))"
  using assms by (induction xs arbitrary: r) simp_all

definition column :: "8 word list list \<Rightarrow> nat \<Rightarrow> nat \<Rightarrow> nat \<Rightarrow> 8 word list" where
  "column bs s nS i = concat (map (\<lambda>j. if i \<noteq> s \<or> nS \<le> j then [bs ! j ! i] else []) [0..<length bs])"

lemma interleave_eq:
  assumes "bs \<noteq> []" and "\<And>b. b \<in> set bs \<Longrightarrow> length b = L"
  shows "interleave bs (int s) (int nS) = Inr (concat (map (column bs s nS) [0..<L]))"
proof -
  let ?cell = "\<lambda>i j result. if int i \<noteq> int s \<or> int nS \<le> int j
        then bind_r (at_r bs j) (\<lambda>b. bind_r (at_r b i) (\<lambda>c. Inr (result @ [c]))) else Inr result"
  have "fold_r (?cell i) [0..<length bs] r = Inr (r @ column bs s nS i)" if "i < L" for i r
    unfolding column_def
    by (rule fold_r_snoc) (use that assms(2) in \<open>auto simp: at_r_def\<close>)
  then have "fold_r (\<lambda>i. fold_r (?cell i) [0..<length bs]) [0..<L] [] = Inr ([] @ concat (map (column bs s nS) [0..<L]))"
    by (intro fold_r_snoc) auto
  moreover have "length (bs ! 0) = L" using assms by (cases bs) auto
  ultimately show ?thesis
    using assms(1) by (simp add: interleave_def at_r_def)
qed

text \<open>The columns of the data parts, then the columns of the remainders.\<close>

definition interleaved :: "nat \<Rightarrow> nat \<Rightarrow> nat \<Rightarrow> 8 word list list \<Rightarrow> 8 word list list \<Rightarrow> 8 word list" where
  "interleaved s nS e dats eccs =
     concat (map (\<lambda>i. map (\<lambda>d. d ! i) dats) [0..<s]) @ map (\<lambda>d. d ! s) (drop nS dats)
     @ concat (map (\<lambda>i. map (\<lambda>c. c ! i) eccs) [0..<e])"

lemma column_blocks:
  assumes len: "\<And>j. j < length dats \<Longrightarrow> length (dats ! j) = s + (if j < nS then 0 else 1)"
    and ecc: "\<And>d. d \<in> set dats \<Longrightarrow> length (reedSolomonComputeRemainder d D) = e"
    and nS: "nS \<le> length dats"
  defines "bs \<equiv> map2 (block nS D) [0..<length dats] dats"
  shows "\<And>b. b \<in> set bs \<Longrightarrow> length b = s + 1 + e"
    and "concat (map (column bs s nS) [0..<s + 1 + e]) =
      interleaved s nS e dats (map (\<lambda>d. reedSolomonComputeRemainder d D) dats)"
proof -
  let ?rem = "\<lambda>d. reedSolomonComputeRemainder d D"
  have lb: "length bs = length dats" by (simp add: bs_def)
  have at: "bs ! j = block nS D j (dats ! j)" if "j < length dats" for j
    using that by (simp add: bs_def)
  show "length b = s + 1 + e" if "b \<in> set bs" for b
  proof -
    from that obtain j where "j < length dats" "b = bs ! j" by (metis in_set_conv_nth lb)
    with at len[of j] ecc[of "dats ! j"] show ?thesis by (auto simp: block_def)
  qed
  have c1: "column bs s nS i = map (\<lambda>d. d ! i) dats" if "i < s" for i
  proof -
    have "column bs s nS i = map (\<lambda>j. bs ! j ! i) [0..<length dats]"
      using that by (simp add: column_def lb)
    also have "\<dots> = map (\<lambda>j. dats ! j ! i) [0..<length dats]"
      using that len at by (intro map_cong) (auto simp: block_def nth_append)
    also have "\<dots> = map (\<lambda>d. d ! i) dats"
      by (intro nth_equalityI) auto
    finally show ?thesis .
  qed
  have c2: "column bs s nS s = map (\<lambda>d. d ! s) (drop nS dats)"
  proof -
    have "column bs s nS s = concat (map (\<lambda>j. if nS \<le> j then [bs ! j ! s] else []) ([0..<nS] @ [nS..<length dats]))"
    proof -
      have "[0..<length dats] = [0..<nS] @ [nS..<length dats]"
        using nS upt_add_eq_append[of 0 nS "length dats - nS"] by simp
      then show ?thesis by (simp add: column_def lb)
    qed
    also have "\<dots> = map (\<lambda>j. bs ! j ! s) [nS..<length dats]"
    proof -
      have "concat (map (\<lambda>j. if nS \<le> j then [bs ! j ! s] else []) [0..<nS]) = []" by simp
      moreover have "concat (map (\<lambda>j. if nS \<le> j then [bs ! j ! s] else []) [nS..<length dats])
          = concat (map (\<lambda>j. [bs ! j ! s]) [nS..<length dats])"
        by (intro arg_cong[of _ _ concat] map_cong) auto
      ultimately show ?thesis by simp
    qed
    also have "\<dots> = map (\<lambda>j. dats ! j ! s) [nS..<length dats]"
      using len at by (intro map_cong) (auto simp: block_def nth_append)
    also have "\<dots> = map (\<lambda>d. d ! s) (drop nS dats)"
      by (intro nth_equalityI) auto
    finally show ?thesis .
  qed
  have c3: "column bs s nS (s + 1 + i) = map (\<lambda>c. c ! i) (map ?rem dats)" if "i < e" for i
  proof -
    have "column bs s nS (s + 1 + i) = map (\<lambda>j. bs ! j ! (s + 1 + i)) [0..<length dats]"
      by (simp add: column_def lb)
    also have "\<dots> = map (\<lambda>j. ?rem (dats ! j) ! i) [0..<length dats]"
      using len at by (intro map_cong) (auto simp: block_def nth_append)
    also have "\<dots> = map (\<lambda>c. c ! i) (map ?rem dats)"
      by (intro nth_equalityI) auto
    finally show ?thesis .
  qed
  have "[0..<s + 1 + e] = [0..<s] @ [s] @ map (\<lambda>i. s + 1 + i) [0..<e]"
  proof -
    have "[0..<s + 1 + e] = [0..<s + 1] @ [s + 1..<s + 1 + e]" by (rule upt_add_eq_append) simp
    moreover have "[s + 1..<s + 1 + e] = map (\<lambda>i. s + 1 + i) [0..<e]"
      by (intro nth_equalityI) (auto simp del: upt_Suc)
    ultimately show ?thesis by simp
  qed
  then have "map (column bs s nS) [0..<s + 1 + e] = map (column bs s nS) [0..<s] @ [column bs s nS s]
      @ map (\<lambda>i. column bs s nS (s + 1 + i)) [0..<e]"
    by (simp del: upt_Suc add: o_def)
  moreover have "map (column bs s nS) [0..<s] = map (\<lambda>i. map (\<lambda>d. d ! i) dats) [0..<s]"
    by (intro map_cong refl) (auto intro: c1)
  moreover have "map (\<lambda>i. column bs s nS (s + 1 + i)) [0..<e] = map (\<lambda>i. map (\<lambda>c. c ! i) (map ?rem dats)) [0..<e]"
    by (intro map_cong refl) (rule c3, simp)
  ultimately show "concat (map (column bs s nS) [0..<s + 1 + e]) = interleaved s nS e dats (map ?rem dats)"
    by (simp only: interleaved_def c2 concat_append concat.simps append_Nil2)
qed

lemma length_concat_rows: "length (concat (map (\<lambda>i. map (\<lambda>d. f d i) ds) [0..<n])) = n * length ds"
  by (induction n) simp_all

lemma nth_concat_rows:
  "i < n \<Longrightarrow> j < length ds \<Longrightarrow>
   (concat (map (\<lambda>i. map (\<lambda>d. f d i) ds) [0..<n]) @ ys) ! (i * length ds + j) = f (ds ! j) i"
proof (induction n arbitrary: ys)
  case (Suc n)
  show ?case
  proof (cases "i = n")
    case True
    with Suc.prems show ?thesis
      by (simp add: nth_append length_concat_rows)
  next
    case False
    with Suc.prems Suc.IH[of "map (\<lambda>d. f d n) ds @ ys"] show ?thesis by simp
  qed
qed simp

text \<open>The reader puts every part together from its places in the sequence.\<close>

definition deinterleave :: "int \<Rightarrow> ecc \<Rightarrow> 8 word list \<Rightarrow> 8 word list" where
  "deinterleave v ecl cw =
     (let n = num_blocks v ecl; s = short_data v ecl; nS = short_blocks v ecl in
      concat (map (\<lambda>j. map (\<lambda>i. cw ! (i * n + j)) [0..<s] @
                       (if j < nS then [] else [cw ! (s * n + (j - nS))])) [0..<n]))"

lemma deinterleave_interleaved:
  assumes "1 \<le> v" "v \<le> 40" "length data = data_codewords v ecl"
  shows "deinterleave v ecl (interleaved (short_data v ecl) (short_blocks v ecl) e (parts v ecl data) eccs) = data"
proof -
  let ?n = "num_blocks v ecl" and ?s = "short_data v ecl" and ?nS = "short_blocks v ecl"
  let ?ds = "parts v ecl data"
  let ?cw = "interleaved ?s ?nS e ?ds eccs"
  note pf = parts_facts[OF assms]
  have a: "?cw ! (i * ?n + j) = ?ds ! j ! i" if "i < ?s" "j < ?n" for i j
    using nth_concat_rows[of i ?s j ?ds "\<lambda>d i. d ! i"] that pf(2)
    by (simp add: interleaved_def)
  have b: "?cw ! (?s * ?n + (j - ?nS)) = ?ds ! j ! ?s" if "?nS \<le> j" "j < ?n" for j
  proof -
    let ?rows = "concat (map (\<lambda>i. map (\<lambda>d. d ! i) ?ds) [0..<?s])"
    have "?s * ?n = length ?rows"
      using pf(2) by (simp only: length_concat_rows)
    then have "?cw ! (?s * ?n + (j - ?nS)) = (map (\<lambda>d. d ! ?s) (drop ?nS ?ds)
        @ concat (map (\<lambda>i. map (\<lambda>c. c ! i) eccs) [0..<e])) ! (j - ?nS)"
      unfolding interleaved_def by (simp only: nth_append_length_plus)
    with that pf(2) show ?thesis
      by (simp add: nth_append less_diff_conv)
  qed
  have "map (\<lambda>i. ?cw ! (i * ?n + j)) [0..<?s] @ (if j < ?nS then [] else [?cw ! (?s * ?n + (j - ?nS))]) = ?ds ! j"
    if "j < ?n" for j
  proof (rule nth_equalityI)
    show "length (map (\<lambda>i. ?cw ! (i * ?n + j)) [0..<?s] @ (if j < ?nS then [] else [?cw ! (?s * ?n + (j - ?nS))]))
        = length (?ds ! j)"
      using pf(3)[OF that] by simp
    fix i
    assume "i < length (map (\<lambda>i. ?cw ! (i * ?n + j)) [0..<?s] @ (if j < ?nS then [] else [?cw ! (?s * ?n + (j - ?nS))]))"
    then show "(map (\<lambda>i. ?cw ! (i * ?n + j)) [0..<?s] @ (if j < ?nS then [] else [?cw ! (?s * ?n + (j - ?nS))])) ! i
        = ?ds ! j ! i"
      using a[of i j] b[of j] that by (cases "i < ?s") (auto simp: nth_append less_Suc_eq split: if_splits)
  qed
  then have "deinterleave v ecl ?cw = concat (map (\<lambda>j. ?ds ! j) [0..<?n])"
    unfolding deinterleave_def Let_def by (intro arg_cong[of _ _ concat] map_cong) auto
  also have "map (\<lambda>j. ?ds ! j) [0..<?n] = ?ds"
    using pf(2) by (metis map_nth)
  finally show ?thesis using pf(1) by simp
qed

section \<open>The codewords of a symbol\<close>

text \<open>
  \<open>D\<close> is the generator polynomial of the level's correction length; every block followed by its
  remainder vanishes at its roots.
\<close>

lemma addEccAndInterleave_ok:
  fixes q :: qr_code
  defines "v \<equiv> qr_version q" and "ecl \<equiv> errorCorrectionLevel q"
  assumes v: "1 \<le> v" "v \<le> 40" and len: "length data = data_codewords v ecl"
  obtains cw D where "addEccAndInterleave data q = Inr cw" "length cw = raw_codewords v"
    "reedSolomonComputeDivisor (ecc_codewords ecl v) = Inr D"
    "cw = interleaved (short_data v ecl) (short_blocks v ecl) (ecc_len v ecl) (parts v ecl data)
            (map (\<lambda>d. reedSolomonComputeRemainder d D) (parts v ecl data))"
    "deinterleave v ecl cw = data"
proof -
  let ?n = "num_blocks v ecl" and ?s = "short_data v ecl" and ?nS = "short_blocks v ecl" and ?e = "ecc_len v ecl"
  note t = tables[OF v, of ecl] and b = block_sizes(1-9)[OF v, of ecl] block_sizes(10)[OF v]
  obtain D where D: "reedSolomonComputeDivisor (ecc_codewords ecl v) = Inr D" "length D = nat (ecc_codewords ecl v)"
  proof (rule reedSolomonComputeDivisor_ok[of "ecc_codewords ecl v"])
    show "1 \<le> ecc_codewords ecl v" "ecc_codewords ecl v \<le> 255" using t by linarith+
  qed
  let ?ds = "parts v ecl data"
  note pf = parts_facts[OF v len]
  have le: "length (reedSolomonComputeRemainder d D) = ?e" for d
    using rs_codeword(2)[OF _ _ D(1), of 0 d] t by (simp add: ecc_len_def)
  let ?bs = "map2 (block ?nS D) [0..<length ?ds] ?ds"
  let ?cw = "interleaved ?s ?nS ?e ?ds (map (\<lambda>d. reedSolomonComputeRemainder d D) ?ds)"
  have cb: "\<And>b. b \<in> set ?bs \<Longrightarrow> length b = ?s + 1 + ?e"
    "concat (map (column ?bs ?s ?nS) [0..<?s + 1 + ?e]) = ?cw"
    using column_blocks[of ?ds ?s ?nS D ?e] pf(2,3) le b(2) by simp_all
  have ne: "?bs \<noteq> []" using pf(2) b(1) by (cases ?ds) auto
  have il: "interleave ?bs (int ?s) (int ?nS) = Inr ?cw"
    using interleave_eq[OF ne cb(1)] cb(2) by simp
  have lc: "length ?cw = raw_codewords v"
    using pf(2) b(2,4) unfolding interleaved_def
    by (simp add: length_concat_rows length_concat_rows[where f = "\<lambda>c i. c ! i" and n = ?e] algebra_simps)
  have e: "ecc_blocks ecl v = int ?n" "ecc_codewords ecl v = int ?e"
    using b(6,7) by simp_all
  have sd: "raw_modules v div 8 div int ?n = int ?s + int ?e" "int ?n - raw_modules v div 8 mod int ?n = int ?nS"
    using b(8,9) unfolding e by simp_all
  have "addEccAndInterleave data q = Inr ?cw"
    unfolding addEccAndInterleave_def Let_def v_def[symmetric] ecl_def[symmetric]
    using split_blocks_eq[OF v len, of D] pf(2) il lc b(10) D(1)[unfolded e]
    by (simp add: getNumDataCodewords_eq[OF v] getNumRawDataModules_eq[OF v] len e sd)
  with that[of ?cw D] D(1) lc deinterleave_interleaved[OF v len] show thesis
    by blast
qed

end
