(* ===== verification/Qr_Mask.thy ===== *)
theory Qr_Mask
  imports Qr_Penalty Qr_Blocks
begin

text \<open>
  Masking: applying a mask inverts exactly the data modules the mask selects, applying it twice
  restores the symbol, and the automatic choice ends with the first mask of least penalty and a
  symbol that differs from the one it started from in the format bits only.
\<close>

section \<open>Equality of symbols\<close>

lemma square_ext:
  assumes "square n g" "square n g'" "\<And>x y. x < n \<Longrightarrow> y < n \<Longrightarrow> g ! y ! x = g' ! y ! x"
  shows "g = g'"
proof (rule nth_equalityI)
  show "length g = length g'" using assms by (simp add: square_def)
  fix y
  assume "y < length g"
  then show "g ! y = g' ! y"
    using assms by (intro nth_equalityI) (auto simp: square_def)
qed

lemma modules_ext:
  assumes "wf_qr q" "wf_qr q'" "qr_size q' = qr_size q" "\<And>p. p \<in> cells (qr_size q) \<Longrightarrow> mod_at q' p = mod_at q p"
  shows "modules q' = modules q"
proof (rule square_ext)
  show "square (nat (qr_size q)) (modules q')" "square (nat (qr_size q)) (modules q)"
    using wf_square(1)[OF assms(1)] wf_square(1)[OF assms(2)] assms(3) by simp_all
  fix x y
  assume "x < nat (qr_size q)" "y < nat (qr_size q)"
  then show "modules q' ! y ! x = modules q ! y ! x"
    using assms(4)[of "(int x, int y)"] by (simp add: mod_at_def zless_nat_eq_int_zless)
qed

lemma isFunction_ext:
  assumes "wf_qr q" "wf_qr q'" "qr_size q' = qr_size q" "marks q' = marks q"
  shows "isFunction q' = isFunction q"
proof (rule square_ext)
  show "square (nat (qr_size q)) (isFunction q')" "square (nat (qr_size q)) (isFunction q)"
    using wf_square(2)[OF assms(1)] wf_square(2)[OF assms(2)] assms(3) by simp_all
  fix x y
  assume "x < nat (qr_size q)" "y < nat (qr_size q)"
  moreover from this have "(int x, int y) \<in> marks q' \<longleftrightarrow> (int x, int y) \<in> marks q" using assms(4) by simp
  ultimately show "isFunction q' ! y ! x = isFunction q ! y ! x"
    using assms(3) by (simp add: marks_def fun_at_def zless_nat_eq_int_zless)
qed

text \<open>\<open>agree C q q'\<close>: the two symbols differ at most in the modules of \<open>C\<close>.\<close>

definition agree :: "(int \<times> int) set \<Rightarrow> qr_code \<Rightarrow> qr_code \<Rightarrow> bool" where
  "agree C q q' \<longleftrightarrow> wf_qr q \<and> same_frame q q' \<and> (\<forall>p \<in> cells (qr_size q) - C. mod_at q' p = mod_at q p)"

lemma agree_refl: "wf_qr q \<Longrightarrow> agree C q q"
  by (simp add: agree_def same_frame_def)

lemma agree_wf: "agree C q q' \<Longrightarrow> wf_qr q \<and> wf_qr q' \<and> qr_size q' = qr_size q \<and> hdr q' = hdr q"
  unfolding agree_def same_frame_def by (simp add: hdr_def)

lemma agree_fun_at: "agree C q q' \<Longrightarrow> fun_at q' = fun_at q"
  unfolding agree_def by (blast intro: same_frame_fun_at)

lemma agree_trans:
  assumes "agree C q q'" "agree C q' q''"
  shows "agree C q q''"
proof -
  have "qr_size q' = qr_size q" using agree_wf[OF assms(1)] by simp
  moreover have "same_frame q q''"
    using assms unfolding agree_def same_frame_def by simp
  ultimately show ?thesis
    using assms unfolding agree_def by simp
qed

lemma agree_sym:
  assumes "agree C q q'"
  shows "agree C q' q"
proof -
  have "qr_size q' = qr_size q" "wf_qr q'" using agree_wf[OF assms] by simp_all
  moreover have "same_frame q' q"
    using assms unfolding agree_def same_frame_def by simp
  ultimately show ?thesis
    using assms unfolding agree_def by simp
qed

lemma agree_eq: "agree {} q q' \<Longrightarrow> q' = q"
proof -
  assume a: "agree {} q q'"
  have "modules q' = modules q"
    using a agree_wf[OF a] by (intro modules_ext) (auto simp: agree_def)
  with a show "q' = q"
    by (auto simp: agree_def same_frame_def hdr_def intro!: qr_code.equality)
qed

lemma same_frame_trans: "same_frame q q' \<Longrightarrow> same_frame q' q'' \<Longrightarrow> same_frame q q''"
  by (simp add: same_frame_def)

section \<open>Applying a mask\<close>

definition inverted :: "int \<Rightarrow> int \<times> int \<Rightarrow> bool" where
  "inverted msk p = mask_invert msk (nat (fst p)) (nat (snd p))"

lemma mask_cell_ok:
  assumes "wf_qr q" "int x < qr_size q" "int y < qr_size q"
  defines "p \<equiv> (int x, int y)"
  shows "\<exists>q'. mask_cell msk y x q = Inr q' \<and> same_frame q q' \<and>
    mod_at q' p = (mod_at q p \<noteq> (inverted msk p \<and> \<not> fun_at q p)) \<and>
    (\<forall>p' \<in> cells (qr_size q) - {p}. mod_at q' p' = mod_at q p')"
proof -
  have pc: "(int x, int y) \<in> cells (qr_size q)" using assms by simp
  have ts: "to_size (int x) = x" "to_size (int y) = y"
    using assms wf_size[OF assms(1)] by (auto simp: to_size_small)
  let ?b = "mod_at q p \<noteq> (inverted msk p \<and> \<not> fun_at q p)"
  let ?q = "q\<lparr>modules := (modules q)[nat (int y) := (modules q ! nat (int y))[nat (int x) := ?b]]\<rparr>"
  note m = set_module_ok[OF assms(1) pc, unfolded ts, folded p_def]
  have "mask_cell msk y x q = Inr ?q"
    using m(1,2) m(3)[of ?b] by (simp add: mask_cell_def inverted_def p_def)
  moreover have "same_frame q ?q"
    using m(4)[of ?b] by (simp add: same_frame_def hdr_def)
  ultimately show ?thesis
    using m(5)[of _ ?b] pc by (intro exI[of _ ?q]) (auto simp: p_def)
qed

lemma mask_fold:
  assumes "distinct ps" "\<forall>(y, x) \<in> set ps. int y < qr_size q \<and> int x < qr_size q" "wf_qr q"
  shows "\<exists>q'. fold_r (\<lambda>(y, x). mask_cell msk y x) ps q = Inr q' \<and> same_frame q q' \<and>
    (\<forall>x y. (y, x) \<in> set ps \<longrightarrow> mod_at q' (int x, int y) =
       (mod_at q (int x, int y) \<noteq> (inverted msk (int x, int y) \<and> \<not> fun_at q (int x, int y)))) \<and>
    (\<forall>x y. int x < qr_size q \<longrightarrow> int y < qr_size q \<longrightarrow> (y, x) \<notin> set ps \<longrightarrow>
       mod_at q' (int x, int y) = mod_at q (int x, int y))"
  using assms
proof (induction ps arbitrary: q)
  case Nil
  then show ?case by (simp add: same_frame_def)
next
  case (Cons p ps)
  obtain y x where p: "p = (y, x)" by (cases p)
  from Cons.prems p have xy: "int x < qr_size q" "int y < qr_size q" by auto
  from mask_cell_ok[OF Cons.prems(3) xy, of msk]
  obtain q1 where 1: "mask_cell msk y x q = Inr q1" "same_frame q q1"
    "mod_at q1 (int x, int y) = (mod_at q (int x, int y) \<noteq> (inverted msk (int x, int y) \<and> \<not> fun_at q (int x, int y)))"
    "\<forall>p' \<in> cells (qr_size q) - {(int x, int y)}. mod_at q1 p' = mod_at q p'" by auto
  have sz: "qr_size q1 = qr_size q" "wf_qr q1" using 1(2) by (simp_all add: same_frame_def hdr_def)
  have fa: "fun_at q1 = fun_at q" using 1(2) by (rule same_frame_fun_at)
  from Cons.IH[of q1] Cons.prems sz obtain q' where 2: "fold_r (\<lambda>(y, x). mask_cell msk y x) ps q1 = Inr q'"
    "same_frame q1 q'"
    "\<And>x y. (y, x) \<in> set ps \<Longrightarrow> mod_at q' (int x, int y) =
       (mod_at q1 (int x, int y) \<noteq> (inverted msk (int x, int y) \<and> \<not> fun_at q (int x, int y)))"
    "\<And>x y. int x < qr_size q \<Longrightarrow> int y < qr_size q \<Longrightarrow> (y, x) \<notin> set ps \<Longrightarrow>
       mod_at q' (int x, int y) = mod_at q1 (int x, int y)"
    unfolding fa by auto
  have keep: "mod_at q1 (int x', int y') = mod_at q (int x', int y')"
    if "int x' < qr_size q" "int y' < qr_size q" "(y', x') \<noteq> p" for x' y'
    using 1(4) that p by auto
  have notin: "(y, x) \<notin> set ps" using Cons.prems(1) p by simp
  show ?case
  proof (intro exI conjI allI impI)
    show "fold_r (\<lambda>(y, x). mask_cell msk y x) (p # ps) q = Inr q'" using p 1(1) 2(1) by simp
    show "same_frame q q'" using 1(2) 2(2) by (rule same_frame_trans)
  next
    fix x' y'
    assume in_ps: "(y', x') \<in> set (p # ps)"
    show "mod_at q' (int x', int y') =
       (mod_at q (int x', int y') \<noteq> (inverted msk (int x', int y') \<and> \<not> fun_at q (int x', int y')))"
    proof (cases "(y', x') = p")
      case True
      with p 2(4)[OF xy notin] 1(3) show ?thesis by simp
    next
      case False
      with in_ps Cons.prems(2) have "(y', x') \<in> set ps" "int x' < qr_size q" "int y' < qr_size q" by auto
      with 2(3) keep False show ?thesis by simp
    qed
  next
    fix x' y'
    assume "int x' < qr_size q" "int y' < qr_size q" "(y', x') \<notin> set (p # ps)"
    with 2(4) keep show "mod_at q' (int x', int y') = mod_at q (int x', int y')" by simp
  qed
qed

lemma applyMask_ok:
  assumes "wf_qr q" "0 \<le> msk" "msk \<le> 7"
  obtains q' where "applyMask msk q = Inr q'" "same_frame q q'"
    "\<forall>p \<in> cells (qr_size q). mod_at q' p = (mod_at q p \<noteq> (inverted msk p \<and> \<not> fun_at q p))"
proof -
  let ?N = "to_size (qr_size q)"
  have N: "int ?N = qr_size q" using wf_size[OF assms(1)] by (simp add: to_size_small)
  let ?L = "List.product [0..<?N] [0..<?N]"
  have "distinct ?L" by (simp add: distinct_product)
  moreover have "\<forall>(y, x) \<in> set ?L. int y < qr_size q \<and> int x < qr_size q" using N by auto
  ultimately obtain q' where q': "fold_r (\<lambda>(y, x). mask_cell msk y x) ?L q = Inr q'" "same_frame q q'"
    "\<And>x y. (y, x) \<in> set ?L \<Longrightarrow> mod_at q' (int x, int y) =
       (mod_at q (int x, int y) \<noteq> (inverted msk (int x, int y) \<and> \<not> fun_at q (int x, int y)))"
    using mask_fold[OF _ _ assms(1), of ?L msk] by blast
  have "applyMask msk q = Inr q'"
    using assms(2,3) q'(1) fold_r_product[of "mask_cell msk"] by (simp add: applyMask_def)
  moreover have "mod_at q' p = (mod_at q p \<noteq> (inverted msk p \<and> \<not> fun_at q p))" if "p \<in> cells (qr_size q)" for p
  proof -
    obtain x y where p: "p = (x, y)" by (cases p)
    with that N have "(nat y, nat x) \<in> set ?L" by auto
    from q'(3)[OF this] that p show ?thesis by simp
  qed
  ultimately show thesis using that q'(2) by blast
qed

lemma applyMask_involution:
  assumes "wf_qr q" "0 \<le> msk" "msk \<le> 7" "applyMask msk q = Inr q'"
  shows "applyMask msk q' = Inr q"
proof -
  obtain q1 where 1: "applyMask msk q = Inr q1" "same_frame q q1"
    "\<forall>p \<in> cells (qr_size q). mod_at q1 p = (mod_at q p \<noteq> (inverted msk p \<and> \<not> fun_at q p))"
    using applyMask_ok[OF assms(1-3)] .
  with assms(4) have q1: "q1 = q'" by simp
  have wf: "wf_qr q'" and sz: "qr_size q' = qr_size q" and fa: "fun_at q' = fun_at q"
    using 1(2) same_frame_fun_at[OF 1(2)] by (simp_all add: q1 same_frame_def hdr_def)
  obtain q2 where 2: "applyMask msk q' = Inr q2" "same_frame q' q2"
    "\<forall>p \<in> cells (qr_size q'). mod_at q2 p = (mod_at q' p \<noteq> (inverted msk p \<and> \<not> fun_at q' p))"
    using applyMask_ok[OF wf assms(2,3)] .
  have "agree {} q q2"
    using assms(1) same_frame_trans[OF 1(2) 2(2)[folded q1]] 1(3) 2(3)
    unfolding agree_def q1 sz fa by auto
  from agree_eq[OF this] 2(1) show ?thesis by simp
qed

lemma applyMask_agree:
  assumes "agree C q1 q2" "0 \<le> msk" "msk \<le> 7"
  obtains q1' q2' where "applyMask msk q1 = Inr q1'" "applyMask msk q2 = Inr q2'" "agree C q1' q2'"
    "same_frame q1 q1'"
proof -
  note a = agree_wf[OF assms(1)] and fa = agree_fun_at[OF assms(1)]
  obtain q1' where 1: "applyMask msk q1 = Inr q1'" "same_frame q1 q1'"
    "\<forall>p \<in> cells (qr_size q1). mod_at q1' p = (mod_at q1 p \<noteq> (inverted msk p \<and> \<not> fun_at q1 p))"
    using applyMask_ok[of q1 msk] a assms(2,3) by blast
  obtain q2' where 2: "applyMask msk q2 = Inr q2'" "same_frame q2 q2'"
    "\<forall>p \<in> cells (qr_size q2). mod_at q2' p = (mod_at q2 p \<noteq> (inverted msk p \<and> \<not> fun_at q2 p))"
    using applyMask_ok[of q2 msk] a assms(2,3) by blast
  have "agree C q1' q2'"
  proof -
    have sz: "qr_size q1' = qr_size q1" "qr_size q2 = qr_size q1"
      using a 1(2) by (simp_all add: same_frame_def hdr_def)
    have "same_frame q1' q2'" "wf_qr q1'"
      using assms(1) 1(2) 2(2) unfolding agree_def same_frame_def by simp_all
    moreover have "mod_at q2' p = mod_at q1' p" if "p \<in> cells (qr_size q1) - C" for p
      using that 1(3) 2(3) assms(1) unfolding sz fa agree_def by auto
    ultimately show ?thesis
      unfolding agree_def sz by blast
  qed
  with 1 2 that show thesis by blast
qed

end
