(* ===== verification/Qr_Symbol.thy ===== *)
theory Qr_Symbol
  imports Qr_Mask
begin

text \<open>
  The constructor \<open>QrCode\<close> and the automatic choice of the mask: the constructor returns for every
  version and level on data of the right length, the mask it chooses has the least penalty, and the
  data are read back from the modules of the finished symbol.
\<close>

section \<open>The format bits overwrite all they differ in\<close>

definition sync :: "int \<times> int \<times> ecc \<times> int \<Rightarrow> (qr_code \<Rightarrow> qr_error + qr_code) \<Rightarrow> (int \<times> int) set \<Rightarrow> bool" where
  "sync h f D \<longleftrightarrow> (\<forall>q1 q2 C. agree C q1 q2 \<and> hdr q1 = h \<longrightarrow>
     (\<exists>q1' q2'. f q1 = Inr q1' \<and> f q2 = Inr q2' \<and> agree (C - D) q1' q2' \<and> hdr q1' = h))"

lemma syncD:
  assumes "sync h f D" "agree C q1 q2" "hdr q1 = h"
  obtains q1' q2' where "f q1 = Inr q1'" "f q2 = Inr q2'" "agree (C - D) q1' q2'" "hdr q1' = h"
  using assms unfolding sync_def by blast

lemma sync_cong:
  assumes "sync h f D" "\<And>q. hdr q = h \<Longrightarrow> g q = f q"
  shows "sync h g D"
  unfolding sync_def
proof (intro allI impI, elim conjE)
  fix q1 q2 C
  assume a: "agree C q1 q2" and h: "hdr q1 = h"
  have "hdr q2 = h" using agree_wf[OF a] h by simp
  with assms(2) h have "g q1 = f q1" "g q2 = f q2" by simp_all
  with syncD[OF assms(1) a h] show "\<exists>q1' q2'. g q1 = Inr q1' \<and> g q2 = Inr q2' \<and> agree (C - D) q1' q2' \<and> hdr q1' = h"
    by metis
qed

lemma sync_set:
  assumes "h = (v, n, e, m)" "(x, y) \<in> cells n"
  shows "sync h (setFunctionModule x y b) {(x, y)}"
  unfolding sync_def
proof (intro allI impI, elim conjE)
  fix q1 q2 C
  assume a: "agree C q1 q2" and h: "hdr q1 = h"
  note w = agree_wf[OF a]
  have sz: "qr_size q1 = n" "qr_size q2 = n" using h assms(1) w by auto
  have run: "\<exists>q'. setFunctionModule x y b q = Inr q' \<and> qdraws q {(x, y)} q' \<and> mod_at q' (x, y) = b \<and>
      isFunction q' = (isFunction q)[nat y := (isFunction q ! nat y)[nat x := True]]"
    if q: "wf_qr q" "qr_size q = n" for q
  proof -
    obtain q' where q': "setFunctionModule x y b q = Inr q'" "qdraws q {(x, y)} q'"
      using ok_draw_set[OF q(1), of x y b] q(2) assms(2) by (auto simp: ok_draw_def)
    let ?n = "nat (qr_size q)"
    have i: "to_size x = nat x" "to_size y = nat y" "nat x < ?n" "nat y < ?n"
      using assms(2) q wf_size[of q] by (auto simp: to_size_small)
    note sq = wf_square[OF q(1)]
    have "q' = q\<lparr>modules := (modules q)[nat y := (modules q ! nat y)[nat x := b]],
      isFunction := (isFunction q)[nat y := (isFunction q ! nat y)[nat x := True]]\<rparr>"
      using q'(1) i sq by (simp add: setFunctionModule_def grid_set_ok)
    then show ?thesis
      using q' i sq by (simp add: mod_at_def nth_upd2)
  qed
  obtain q1' where 1: "setFunctionModule x y b q1 = Inr q1'" "qdraws q1 {(x, y)} q1'" "mod_at q1' (x, y) = b"
    "isFunction q1' = (isFunction q1)[nat y := (isFunction q1 ! nat y)[nat x := True]]"
    using run[of q1] w sz by auto
  obtain q2' where 2: "setFunctionModule x y b q2 = Inr q2'" "qdraws q2 {(x, y)} q2'" "mod_at q2' (x, y) = b"
    "isFunction q2' = (isFunction q2)[nat y := (isFunction q2 ! nat y)[nat x := True]]"
    using run[of q2] w sz by auto
  have "isFunction q2 = isFunction q1" using a by (simp add: agree_def same_frame_def)
  then have "same_frame q1' q2'" "wf_qr q1'" and sz': "qr_size q1' = n"
    using 1(2,4) 2(2,4) w sz by (simp_all add: qdraws_def same_frame_def hdr_def)
  moreover have "mod_at q2' p = mod_at q1' p" if "p \<in> cells n - (C - {(x, y)})" for p
    using that 1(2,3) 2(2,3) a sz by (cases "p = (x, y)") (auto simp: qdraws_def agree_def)
  moreover have "hdr q1' = h" using 1(2) h by (simp add: qdraws_def)
  ultimately show "\<exists>q1' q2'. setFunctionModule x y b q1 = Inr q1' \<and> setFunctionModule x y b q2 = Inr q2' \<and>
      agree (C - {(x, y)}) q1' q2' \<and> hdr q1' = h"
    using 1(1) 2(1) unfolding agree_def by blast
qed

lemma sync_bind:
  assumes "sync h f C" "sync h g D"
  shows "sync h (\<lambda>q. bind_r (f q) g) (C \<union> D)"
  unfolding sync_def
proof (intro allI impI, elim conjE)
  fix q1 q2 E
  assume a: "agree E q1 q2" and h: "hdr q1 = h"
  obtain p1 p2 where 1: "f q1 = Inr p1" "f q2 = Inr p2" "agree (E - C) p1 p2" "hdr p1 = h"
    using syncD[OF assms(1) a h] .
  obtain r1 r2 where 2: "g p1 = Inr r1" "g p2 = Inr r2" "agree (E - C - D) r1 r2" "hdr r1 = h"
    using syncD[OF assms(2) 1(3,4)] .
  have "E - C - D = E - (C \<union> D)" by blast
  with 1 2 show "\<exists>q1' q2'. bind_r (f q1) g = Inr q1' \<and> bind_r (f q2) g = Inr q2' \<and> agree (E - (C \<union> D)) q1' q2' \<and> hdr q1' = h"
    by auto
qed

lemma sync_fold:
  "(\<And>x. x \<in> set xs \<Longrightarrow> sync h (f x) (C x)) \<Longrightarrow> sync h (fold_r f xs) (\<Union>x \<in> set xs. C x)"
proof (induction xs)
  case Nil
  then show ?case by (simp add: sync_def)
next
  case (Cons x xs)
  have "sync h (\<lambda>q. bind_r (f x q) (fold_r f xs)) (C x \<union> (\<Union>x \<in> set xs. C x))"
    by (intro sync_bind) (use Cons in auto)
  then show ?case by (simp add: sync_def)
qed

lemma sync_drawFormatBits:
  assumes "h = (v, n, e, m)" "21 \<le> n" "0 \<le> msk" "msk \<le> 7"
  shows "sync h (drawFormatBits msk) (format_cells n)"
proof -
  let ?b = "formatBits e msk"
  let ?f = "\<lambda>q. bind_r (fold_r (\<lambda>i. setFunctionModule 8 (int i) (getBit ?b i)) [0..<6] q) (\<lambda>q.
      bind_r (setFunctionModule 8 7 (getBit ?b 6) q) (\<lambda>q.
      bind_r (setFunctionModule 8 8 (getBit ?b 7) q) (\<lambda>q.
      bind_r (setFunctionModule 7 8 (getBit ?b 8) q) (\<lambda>q.
      bind_r (fold_r (\<lambda>i. setFunctionModule (14 - int i) 8 (getBit ?b i)) [9..<15] q) (\<lambda>q.
      bind_r (fold_r (\<lambda>i. setFunctionModule (n - 1 - int i) 8 (getBit ?b i)) [0..<8] q) (\<lambda>q.
      bind_r (fold_r (\<lambda>i. setFunctionModule 8 (n - 15 + int i) (getBit ?b i)) [8..<15] q) (\<lambda>q.
      setFunctionModule 8 (n - 8) True q)))))))"
  have "sync h ?f (format_list n)"
    unfolding format_list_def
    by (intro sync_bind sync_fold sync_set[OF assms(1)]) (use assms(2) in auto)
  moreover have "drawFormatBits msk q = ?f q" if "hdr q = h" for q
    using that assms(1) formatBits_range[OF assms(3,4)] by (simp add: drawFormatBits_def Let_def)
  ultimately show ?thesis
    unfolding format_list_eq by (rule sync_cong)
qed

section \<open>The choice of the mask\<close>

text \<open>The symbol with mask \<open>msk\<close> and its format bits, and its penalty.\<close>

definition masked :: "int \<Rightarrow> qr_code \<Rightarrow> qr_error + qr_code" where
  "masked msk q = bind_r (applyMask msk q) (drawFormatBits msk)"

definition penalty_of :: "int \<Rightarrow> qr_code \<Rightarrow> int" where
  "penalty_of msk q = projr (bind_r (masked msk q) getPenaltyScore)"

definition mask_round :: "int \<Rightarrow> int \<times> int \<times> qr_code \<Rightarrow> qr_error + (int \<times> int \<times> qr_code)" where
  "mask_round i = (\<lambda>(msk, minPenalty, q).
        bind_r (applyMask i q) (\<lambda>q.
        bind_r (drawFormatBits i q) (\<lambda>q.
        bind_r (getPenaltyScore q) (\<lambda>penalty.
        bind_r (applyMask i q) (\<lambda>q'.
        Inr (if penalty < minPenalty then (i, penalty, q') else (msk, minPenalty, q')))))))"

lemma chooseMask_rounds:
  "chooseMask q = bind_r (fold_r mask_round [0..7] (-1, 2 ^ 63 - 1, q)) (\<lambda>(msk, minPenalty, q). Inr (msk, q))"
  by (simp add: chooseMask_def mask_round_def[abs_def])

lemma masked_ok:
  assumes a: "agree (format_cells (qr_size q0)) q0 q" and fmt: "format_cells (qr_size q0) \<subseteq> marks q0"
    and i: "0 \<le> i" "i \<le> 7"
  obtains q1 q2 where "applyMask i q = Inr q1" "drawFormatBits i q1 = Inr q2" "masked i q0 = Inr q2"
    "wf_qr q2" "same_frame q0 q2"
    "\<forall>p \<in> cells (qr_size q0) - format_cells (qr_size q0).
       mod_at q2 p = (mod_at q0 p \<noteq> (inverted i p \<and> \<not> fun_at q0 p))"
proof -
  let ?n = "qr_size q0" let ?F = "format_cells ?n"
  note w = agree_wf[OF a]
  obtain p1 q1 where 1: "applyMask i q0 = Inr p1" "applyMask i q = Inr q1" "agree ?F p1 q1" "same_frame q0 p1"
    using applyMask_agree[OF a i] .
  have inv: "\<forall>p \<in> cells ?n. mod_at p1 p = (mod_at q0 p \<noteq> (inverted i p \<and> \<not> fun_at q0 p))"
    using applyMask_ok[of q0 i] w i 1(1) by (metis Inr_inject)
  have n: "21 \<le> ?n" using wf_size[of q0] w by simp
  have h: "hdr p1 = (qr_version q0, ?n, errorCorrectionLevel q0, qr_mask q0)"
    using 1(4) by (simp add: same_frame_def hdr_def)
  obtain p2 q2 where 2: "drawFormatBits i p1 = Inr p2" "drawFormatBits i q1 = Inr q2" "agree (?F - ?F) p2 q2"
    using syncD[OF sync_drawFormatBits[OF refl n i] 1(3) h] by blast
  have eq: "q2 = p2" using 2(3) agree_eq by simp
  have p1: "wf_qr p1" "qr_size p1 = ?n" "marks p1 = marks q0"
    using 1(4) same_frame_marks[OF 1(4)] by (simp_all add: same_frame_def hdr_def)
  obtain r where "drawFormatBits i p1 = Inr r" "qdraws p1 (format_cells ?n) r"
    using ok_drawFormatBits[OF p1(1) i] p1(2) by (auto simp: ok_draw_def)
  then have d: "qdraws p1 ?F p2" using 2(1) by simp
  have "marks p2 = marks p1" using d fmt p1(3) by (auto simp: qdraws_def)
  then have "isFunction p2 = isFunction p1"
    using d p1 by (intro isFunction_ext) (auto simp: qdraws_def hdr_def)
  then have "same_frame p1 p2" using d by (simp add: qdraws_def same_frame_def)
  with 1(4) have fr: "same_frame q0 p2" by (rule same_frame_trans)
  show thesis
  proof (rule that[of q1 q2])
    show "masked i q0 = Inr q2" using 1(1) 2(1) eq by (simp add: masked_def)
    show "wf_qr q2" "same_frame q0 q2" using fr eq by (simp_all add: same_frame_def)
    show "\<forall>p \<in> cells ?n - ?F. mod_at q2 p = (mod_at q0 p \<noteq> (inverted i p \<and> \<not> fun_at q0 p))"
      using d p1(2) inv eq by (simp add: qdraws_def)
  qed (use 1 2 in auto)
qed

lemma mask_round_ok:
  assumes wf: "wf_qr q0" and a: "agree (format_cells (qr_size q0)) q0 q"
    and fmt: "format_cells (qr_size q0) \<subseteq> marks q0" and i: "0 \<le> i" "i \<le> 7"
  shows "0 \<le> penalty_of i q0 \<and> penalty_of i q0 \<le> 2568888 \<and>
    (\<exists>q'. mask_round i (m, b, q) =
       Inr (if penalty_of i q0 < b then (i, penalty_of i q0, q') else (m, b, q')) \<and>
     agree (format_cells (qr_size q0)) q0 q')"
proof -
  let ?F = "format_cells (qr_size q0)"
  obtain q1 q2 where 1: "applyMask i q = Inr q1" "drawFormatBits i q1 = Inr q2" "masked i q0 = Inr q2"
    "wf_qr q2" "same_frame q0 q2"
    and m2: "\<forall>p \<in> cells (qr_size q0) - ?F. mod_at q2 p = (mod_at q0 p \<noteq> (inverted i p \<and> \<not> fun_at q0 p))"
    using masked_ok[OF a fmt i] .
  obtain p where p: "getPenaltyScore q2 = Inr p" "0 \<le> p" "p \<le> 2568888"
    using getPenaltyScore_ok[OF 1(4)] .
  have po: "penalty_of i q0 = p" using 1(3) p(1) by (simp add: penalty_of_def)
  obtain q3 where 3: "applyMask i q2 = Inr q3" "same_frame q2 q3"
    "\<forall>p \<in> cells (qr_size q2). mod_at q3 p = (mod_at q2 p \<noteq> (inverted i p \<and> \<not> fun_at q2 p))"
    using applyMask_ok[OF 1(4) i] .
  have sz: "qr_size q2 = qr_size q0" using 1(5) by (simp add: same_frame_def hdr_def)
  have "agree ?F q0 q3"
    using wf same_frame_trans[OF 1(5) 3(2)] 3(3) m2 same_frame_fun_at[OF 1(5)] sz
    unfolding agree_def by auto
  then show ?thesis
    using po p 1 3 by (auto simp: mask_round_def)
qed

text \<open>After the masks below \<open>k\<close>: the first one of least penalty is held.\<close>

lemma mask_rounds:
  assumes wf: "wf_qr q0" and fmt: "format_cells (qr_size q0) \<subseteq> marks q0" and "k \<le> 8"
  shows "\<exists>m b q. fold_r mask_round (map int [0..<k]) (-1, 2 ^ 63 - 1, q0) = Inr (m, b, q) \<and>
    agree (format_cells (qr_size q0)) q0 q \<and>
    (if k = 0 then b = 2 ^ 63 - 1 else 0 \<le> m \<and> m < int k \<and> b = penalty_of m q0 \<and>
       (\<forall>i. 0 \<le> i \<and> i < int k \<longrightarrow> penalty_of m q0 \<le> penalty_of i q0) \<and>
       (\<forall>i. 0 \<le> i \<and> i < m \<longrightarrow> penalty_of m q0 < penalty_of i q0))"
  using \<open>k \<le> 8\<close>
proof (induction k)
  case 0
  then show ?case using agree_refl[OF wf] by simp
next
  case (Suc k)
  then obtain m b q where IH: "fold_r mask_round (map int [0..<k]) (-1, 2 ^ 63 - 1, q0) = Inr (m, b, q)"
    "agree (format_cells (qr_size q0)) q0 q"
    "if k = 0 then b = 2 ^ 63 - 1 else 0 \<le> m \<and> m < int k \<and> b = penalty_of m q0 \<and>
       (\<forall>i. 0 \<le> i \<and> i < int k \<longrightarrow> penalty_of m q0 \<le> penalty_of i q0) \<and>
       (\<forall>i. 0 \<le> i \<and> i < m \<longrightarrow> penalty_of m q0 < penalty_of i q0)"
    by auto
  have k: "0 \<le> int k" "int k \<le> 7" using Suc.prems by auto
  from mask_round_ok[OF wf IH(2) fmt k, of m b]
  obtain q' where r: "0 \<le> penalty_of (int k) q0" "penalty_of (int k) q0 \<le> 2568888"
    "mask_round (int k) (m, b, q) = Inr (if penalty_of (int k) q0 < b then (int k, penalty_of (int k) q0, q') else (m, b, q'))"
    "agree (format_cells (qr_size q0)) q0 q'" by blast
  have run: "fold_r mask_round (map int [0..<Suc k]) (-1, 2 ^ 63 - 1, q0) =
      Inr (if penalty_of (int k) q0 < b then (int k, penalty_of (int k) q0, q') else (m, b, q'))"
    using IH(1) r(3) by (simp add: fold_r_append)
  have last: "i < int (Suc k) \<longleftrightarrow> i < int k \<or> i = int k" for i by auto
  show ?case
  proof (cases "penalty_of (int k) q0 < b")
    case True
    then show ?thesis
      using run r(4) IH(3) unfolding last
      by (intro exI[of _ "int k"] exI[of _ "penalty_of (int k) q0"] exI[of _ q'])
         (auto split: if_splits intro: less_imp_le less_le_trans)
  next
    case False
    have "k \<noteq> 0"
    proof
      assume "k = 0"
      with IH(3) have "b = 2 ^ 63 - 1" by simp
      with r(2) False show False by simp
    qed
    with False show ?thesis
      using run r(4) IH(3) unfolding last
      by (intro exI[of _ m] exI[of _ b] exI[of _ q']) auto
  qed
qed

lemma chooseMask_ok:
  assumes "wf_qr q" "format_cells (qr_size q) \<subseteq> marks q"
  obtains m q' where "chooseMask q = Inr (m, q')" "0 \<le> m" "m \<le> 7" "agree (format_cells (qr_size q)) q q'"
    "\<And>i. 0 \<le> i \<Longrightarrow> i \<le> 7 \<Longrightarrow> penalty_of m q \<le> penalty_of i q"
    "\<And>i. 0 \<le> i \<Longrightarrow> i < m \<Longrightarrow> penalty_of m q < penalty_of i q"
proof -
  have l: "[0..7] = map int [0..<8]" using upto_int[of 8] by simp
  from mask_rounds[OF assms, of 8] obtain m b q' where
    "fold_r mask_round [0..7] (-1, 2 ^ 63 - 1, q) = Inr (m, b, q')" "agree (format_cells (qr_size q)) q q'"
    "0 \<le> m" "m < 8" "\<forall>i. 0 \<le> i \<and> i < 8 \<longrightarrow> penalty_of m q \<le> penalty_of i q"
    "\<forall>i. 0 \<le> i \<and> i < m \<longrightarrow> penalty_of m q < penalty_of i q"
    unfolding l by auto
  then show thesis
    by (intro that[of m q']) (auto simp: chooseMask_rounds)
qed

end
