(* ===== verification/Qr_Read.thy ===== *)
theory Qr_Read
  imports Qr_Symbol
begin

text \<open>
  Reading a finished symbol: the mask is undone on the modules that carry data, the bits are taken
  in scan order, grouped into codewords and put back in the order of the blocks. The constructor
  \<open>QrCode\<close> returns on every well-sized input, and this reader gets the data back.
\<close>

section \<open>The reader\<close>

fun bytes_of :: "bool list \<Rightarrow> 8 word list" where
  "bytes_of bs = (if length bs < 8 then [] else of_nat (bits_val (take 8 bs)) # bytes_of (drop 8 bs))"

declare bytes_of.simps [simp del]

definition read_bits :: "qr_code \<Rightarrow> bool list" where
  "read_bits q = map (\<lambda>p. mod_at q p \<noteq> inverted (qr_mask q) p) (data_cells (qr_version q))"

definition read_data :: "qr_code \<Rightarrow> 8 word list" where
  "read_data q = deinterleave (qr_version q) (errorCorrectionLevel q)
     (bytes_of (take (8 * raw_codewords (qr_version q)) (read_bits q)))"

lemma bytes_of_byte_bits: "bytes_of (byte_bits data) = data"
proof (induction data)
  case Nil
  then show ?case by (simp add: bytes_of.simps byte_bits_def)
next
  case (Cons b data)
  have "unat b < 2 ^ 8" using unsigned_less[of b, where ?'a = nat] by simp
  with Cons show ?case
    by (subst bytes_of.simps) (simp add: byte_bits_Cons)
qed

section \<open>The constructor\<close>

lemma format_in_function: "1 \<le> v \<Longrightarrow> format_cells (v * 4 + 17) \<subseteq> function_cells v"
  by (auto simp: function_cells_def Let_def)

lemma format_in_grid: "21 \<le> n \<Longrightarrow> format_cells n \<subseteq> cells n"
  by (auto simp: format_cells_def)

lemma set_mask_frame:
  fixes m :: int
  assumes "wf_qr q"
  defines "q' \<equiv> q\<lparr>qr_mask := m\<rparr>"
  shows "wf_qr q'" "qr_size q' = qr_size q" "qr_version q' = qr_version q" "qr_mask q' = m"
    "errorCorrectionLevel q' = errorCorrectionLevel q" "fun_at q' = fun_at q" "mod_at q' = mod_at q"
  using assms(1) unfolding q'_def by (auto simp: wf_qr_def fun_at_def[abs_def] mod_at_def[abs_def])

lemma QrCode_ok:
  assumes v: "1 \<le> v" "v \<le> 40" and len: "length data = data_codewords v ecl" and msk: "-1 \<le> msk" "msk \<le> 7"
  obtains q where "QrCode v ecl data msk = Inr q" "qr_version q = v" "qr_size q = v * 4 + 17"
    "errorCorrectionLevel q = ecl" "0 \<le> qr_mask q" "qr_mask q \<le> 7" "msk \<noteq> -1 \<longrightarrow> qr_mask q = msk"
    "square (nat (qr_size q)) (modules q)" "isFunction q = []" "read_data q = data"
proof -
  let ?n = "v * 4 + 17"
  define light where "light = replicate (to_size ?n) (replicate (to_size ?n) False)"
  define q0 where "q0 = \<lparr>qr_version = v, qr_size = ?n, errorCorrectionLevel = ecl, qr_mask = 0,
                     modules = light, isFunction = light\<rparr>"
  have ts: "to_size ?n = nat ?n" using v by (intro to_size_small) simp_all
  have sq: "square (nat ?n) light" by (simp add: light_def square_def ts)
  have wf0: "wf_qr q0" unfolding wf_qr_def q0_def using v sq by simp
  have marks0: "marks q0 = {}"
    by (auto simp: marks_def fun_at_def q0_def light_def ts cells_def)
  obtain q1 where 1: "drawFunctionPatterns q0 = Inr q1" "qdraws q0 (function_cells v) q1"
    using ok_drawFunctionPatterns[OF wf0] by (auto simp: ok_draw_def q0_def)
  have q1: "wf_qr q1" "qr_version q1 = v" "qr_size q1 = ?n" "errorCorrectionLevel q1 = ecl"
    using 1(2) by (simp_all add: qdraws_def hdr_def q0_def)
  have marks1: "marks q1 = cells ?n \<inter> function_cells v"
    using 1(2) marks0 q1(3) by (auto simp: qdraws_def marks_def)
  obtain cw D where cw: "addEccAndInterleave data q1 = Inr cw" "length cw = raw_codewords v"
    "deinterleave v ecl cw = data"
    using addEccAndInterleave_ok[of q1 data] v len q1 by metis
  have cwlen: "int (length cw) = raw_modules v div 8"
    using cw(2) block_sizes(10)[OF v] by simp
  obtain q2 where 2: "drawCodewords cw q1 = Inr q2" "same_frame q1 q2"
    "map (mod_at q2) (take (8 * length cw) (data_cells v)) = byte_bits cw"
    using drawCodewords_ok[OF q1(1), of cw] marks1 cwlen unfolding q1(2,3) by metis
  have q2: "wf_qr q2" "qr_version q2 = v" "qr_size q2 = ?n" "errorCorrectionLevel q2 = ecl"
    using 2(2) q1 by (simp_all add: same_frame_def hdr_def)
  have marks2: "marks q2 = cells ?n \<inter> function_cells v"
    using same_frame_marks[OF 2(2)] marks1 by simp
  have fmt: "format_cells ?n \<subseteq> marks q2"
    using marks2 format_in_grid[of ?n] format_in_function[OF v(1)] v by auto
  obtain m q3 where 3: "(if msk = -1 then chooseMask q2 else Inr (msk, q2)) = Inr (m, q3)"
    "0 \<le> m" "m \<le> 7" "msk \<noteq> -1 \<longrightarrow> m = msk" "agree (format_cells ?n) q2 q3"
  proof (cases "msk = -1")
    case True
    from chooseMask_ok[OF q2(1)] fmt q2(3) obtain m q' where
      "chooseMask q2 = Inr (m, q')" "0 \<le> m" "m \<le> 7" "agree (format_cells ?n) q2 q'" by metis
    with True that show thesis by simp
  next
    case False
    with msk that[of msk q2] agree_refl[OF q2(1)] show thesis by simp
  qed
  note a3 = agree_wf[OF 3(5)] and f3 = agree_fun_at[OF 3(5)]
  have w3: "wf_qr q3" using a3 by simp
  define q4 where "q4 = q3\<lparr>qr_mask := m\<rparr>"
  note q4 = set_mask_frame[OF w3, of m, folded q4_def]
  obtain q5 where 5: "applyMask m q4 = Inr q5" "same_frame q4 q5"
    "\<forall>p \<in> cells (qr_size q4). mod_at q5 p = (mod_at q4 p \<noteq> (inverted m p \<and> \<not> fun_at q4 p))"
    using applyMask_ok[OF q4(1) 3(2,3)] .
  have q5: "wf_qr q5" "qr_size q5 = ?n"
    using 5(2) q4 a3 q2(3) by (simp_all add: same_frame_def hdr_def)
  obtain q6 where 6: "drawFormatBits m q5 = Inr q6" "qdraws q5 (format_cells ?n) q6"
    using ok_drawFormatBits[OF q5(1) 3(2,3)] q5(2) by (auto simp: ok_draw_def)
  have hdr6: "qr_version q6 = v" "qr_size q6 = ?n" "errorCorrectionLevel q6 = ecl" "qr_mask q6 = m"
    using 5(2) 6(2) q4 a3 q2 by (simp_all add: qdraws_def same_frame_def hdr_def)
  define q where "q = q6\<lparr>isFunction := []\<rparr>"
  have run: "QrCode v ecl data msk = Inr q"
    using v msk 1(1) cw(1) 2(1) 3(1,2,3) 5(1) 6(1)
    unfolding QrCode_def Let_def q_def q4_def q0_def light_def by simp
  have bit: "(mod_at q p \<noteq> inverted (qr_mask q) p) = mod_at q2 p" if "p \<in> set (data_cells v)" for p
  proof -
    from that have p: "p \<in> cells ?n" "p \<notin> function_cells v"
      unfolding data_cells_facts(2)[OF v] by auto
    then have nf: "p \<notin> format_cells ?n" "\<not> fun_at q4 p"
      using format_in_function[OF v(1)] marks2 q2(3) unfolding q4(6) f3 by (auto simp: marks_def)
    have "mod_at q p = mod_at q5 p"
      using 6(2) p(1) nf(1) q5(2) by (simp add: qdraws_def q_def mod_at_def)
    also have "\<dots> = (mod_at q4 p \<noteq> inverted m p)"
      using 5(3) p(1) nf(2) q4(2) a3 q2(3) by simp
    also have "mod_at q4 p = mod_at q2 p"
      using 3(5) p(1) nf(1) q2(3) unfolding q4(7) by (simp add: agree_def)
    finally show ?thesis using hdr6(4) by (auto simp: q_def)
  qed
  have "take (8 * raw_codewords v) (read_bits q) = map (mod_at q2) (take (8 * raw_codewords v) (data_cells v))"
    using bit hdr6 unfolding read_bits_def take_map by (auto simp: q_def dest: in_set_takeD)
  then have "read_data q = data"
    using 2(3) cw(2,3) hdr6 by (simp add: read_data_def q_def bytes_of_byte_bits)
  moreover have "square (nat (qr_size q)) (modules q)"
    using wf_square(1)[of q6] 6(2) by (simp add: q_def qdraws_def)
  ultimately show thesis
    using that[OF run] hdr6 3(2-4) by (simp add: q_def)
qed

end
