(* ===== verification/Qr_Encode.thy ===== *)
theory Qr_Encode
  imports Qr_Read
begin

text \<open>
  \<open>encodeSegments\<close> and \<open>encodeText\<close>: the version is the least that holds the data, the level is
  never lowered, the bit string is padded to the exact capacity, and the whole of \<open>encodeText\<close>
  either reports that the text is too long or builds a symbol from which a reader gets the text.
\<close>

section \<open>Segments\<close>

definition wf_seg :: "qr_segment \<Rightarrow> bool" where
  "wf_seg s \<longleftrightarrow> seg_mode s \<in> {NUMERIC, ALPHANUMERIC, BYTE, KANJI, ECI} \<and> 0 \<le> numChars s"

definition seg_bits :: "int \<Rightarrow> qr_segment \<Rightarrow> bool list" where
  "seg_bits ver s = val_bits 4 (nat (modeBits (seg_mode s))) @
     val_bits (nat (numCharCountBits (seg_mode s) ver)) (nat (numChars s)) @ seg_data s"

lemma length_seg_bits:
  "length (seg_bits ver s) = 4 + nat (numCharCountBits (seg_mode s) ver) + length (seg_data s)"
  by (simp add: seg_bits_def)

lemmas modes = NUMERIC_def ALPHANUMERIC_def BYTE_def KANJI_def ECI_def

lemma version_group:
  assumes "1 \<le> ver" "ver \<le> 40"
  shows "nat ((ver + 7) div 17) = (if ver \<le> 9 then 0 else if ver \<le> 26 then 1 else 2)"
proof -
  consider "ver \<le> 9" | "9 < ver" "ver \<le> 26" | "26 < ver" by linarith
  then show ?thesis
  proof cases
    case 1
    then have "(ver + 7) div 17 = 0" using assms by (intro div_pos_pos_trivial) auto
    with 1 show ?thesis by simp
  next
    case 2
    then have "(ver + 7) div 17 = 1" using assms by (intro int_div_pos_eq[of _ _ 1 "ver - 10"]) auto
    with 2 show ?thesis by simp
  next
    case 3
    then have "(ver + 7) div 17 = 2" using assms by (intro int_div_pos_eq[of _ _ 2 "ver - 27"]) auto
    with 3 show ?thesis by simp
  qed
qed

lemma wf_seg_fields:
  assumes "wf_seg s" "1 \<le> ver" "ver \<le> 40"
  shows "0 \<le> modeBits (seg_mode s)" "modeBits (seg_mode s) < 16"
    "0 \<le> numCharCountBits (seg_mode s) ver" "numCharCountBits (seg_mode s) ver \<le> 16" "0 \<le> numChars s"
  using assms version_group[OF assms(2,3)]
  by (auto simp: wf_seg_def numCharCountBits_def modes)

lemma getTotalBits_loop_eq:
  assumes "\<And>s. s \<in> set segs \<Longrightarrow> wf_seg s" "1 \<le> ver" "ver \<le> 40" "0 \<le> r"
    and "getTotalBits_loop segs ver r \<noteq> -1"
  shows "getTotalBits_loop segs ver r = r + int (length (concat (map (seg_bits ver) segs))) \<and>
    (\<forall>s \<in> set segs. numChars s < 2 ^ nat (numCharCountBits (seg_mode s) ver))"
  using assms
proof (induction segs arbitrary: r)
  case (Cons s segs)
  note f = wf_seg_fields[of s ver]
  have fs: "0 \<le> numCharCountBits (seg_mode s) ver" using f Cons.prems by simp
  let ?r = "r + (4 + numCharCountBits (seg_mode s) ver) + int (length (seg_data s))"
  from Cons.prems(5) have fit: "numChars s < 2 ^ nat (numCharCountBits (seg_mode s) ver)"
    and eq: "getTotalBits_loop (s # segs) ver r = getTotalBits_loop segs ver ?r"
    by (auto simp: Let_def split: if_splits)
  have "getTotalBits_loop segs ver ?r = ?r + int (length (concat (map (seg_bits ver) segs))) \<and>
    (\<forall>s \<in> set segs. numChars s < 2 ^ nat (numCharCountBits (seg_mode s) ver))"
    by (rule Cons.IH) (use Cons.prems eq fs in auto)
  with fit fs show ?case unfolding eq by (simp add: length_seg_bits)
qed simp

lemma getTotalBits_eq:
  assumes "\<And>s. s \<in> set segs \<Longrightarrow> wf_seg s" "1 \<le> ver" "ver \<le> 40" "getTotalBits segs ver \<noteq> -1"
  shows "getTotalBits segs ver = int (length (concat (map (seg_bits ver) segs)))"
    "\<forall>s \<in> set segs. numChars s < 2 ^ nat (numCharCountBits (seg_mode s) ver)"
  using getTotalBits_loop_eq[where r = 0, OF assms(1-3)] assms(4) by (simp_all add: getTotalBits_def)

lemma append_segments_eq:
  assumes "\<And>s. s \<in> set segs \<Longrightarrow> wf_seg s" "1 \<le> ver" "ver \<le> 40" "getTotalBits segs ver \<noteq> -1"
  shows "append_segments segs ver = Inr (concat (map (seg_bits ver) segs))"
proof -
  let ?app = "\<lambda>seg bb. bind_r (appendBits (word_of_int (modeBits (seg_mode seg))) 4 bb) (\<lambda>bb.
       bind_r (appendBits (word_of_int (numChars seg)) (numCharCountBits (seg_mode seg) ver) bb) (\<lambda>bb.
       Inr (bb @ seg_data seg)))"
  have "?app s bb = Inr (bb @ seg_bits ver s)" if "s \<in> set segs" for s bb
  proof -
    note f = wf_seg_fields[OF assms(1)[OF that] assms(2,3)]
    have n: "numChars s < 2 ^ nat (numCharCountBits (seg_mode s) ver)"
      using getTotalBits_eq(2)[OF assms] that by auto
    have "appendBits (word_of_int (modeBits (seg_mode s))) 4 bb = Inr (bb @ val_bits 4 (nat (modeBits (seg_mode s))))"
      by (rule appendBits_word) (use f in auto)
    moreover have "appendBits (word_of_int (numChars s)) (numCharCountBits (seg_mode s) ver) bb' =
        Inr (bb' @ val_bits (nat (numCharCountBits (seg_mode s) ver)) (nat (numChars s)))" for bb'
      by (rule appendBits_word) (use f n in auto)
    ultimately show ?thesis by (simp add: seg_bits_def)
  qed
  from fold_r_snoc[of segs ?app "seg_bits ver" "[]", OF this] show ?thesis
    by (simp add: append_segments_def)
qed

section \<open>Version and level\<close>

definition fits_version :: "qr_segment list \<Rightarrow> ecc \<Rightarrow> int \<Rightarrow> bool" where
  "fits_version segs ecl v \<longleftrightarrow> getTotalBits segs v \<noteq> -1 \<and> getTotalBits segs v \<le> int (data_codewords v ecl) * 8"

lemma choose_version_ok:
  assumes "1 \<le> v" "v \<le> maxv" "maxv \<le> 40"
  shows "choose_version segs ecl v maxv =
    (case find (fits_version segs ecl) [v..maxv] of
       Some w \<Rightarrow> Inr (w, getTotalBits segs w)
     | None \<Rightarrow> Inl (Data_too_long (getTotalBits segs maxv) (int (data_codewords maxv ecl) * 8)))"
  using assms
proof (induction segs ecl v maxv rule: choose_version.induct)
  case (1 segs ecl v maxv)
  have cap: "getNumDataCodewords v ecl = Inr (int (data_codewords v ecl))"
    using "1.prems" by (simp add: getNumDataCodewords_eq)
  show ?case
  proof (cases "fits_version segs ecl v")
    case True
    then show ?thesis
      using "1.prems" cap by (subst choose_version.simps) (simp add: fits_version_def upto_rec1)
  next
    case False
    show ?thesis
    proof (cases "v = maxv")
      case True
      with False cap show ?thesis
        by (subst choose_version.simps) (simp add: fits_version_def Let_def)
    next
      case ne: False
      have "choose_version segs ecl v maxv = choose_version segs ecl (v + 1) maxv"
        using False ne "1.prems" cap by (subst choose_version.simps) (auto simp: fits_version_def)
      moreover have "[v..maxv] = v # [v + 1..maxv]" using "1.prems" by (simp add: upto_rec1)
      ultimately show ?thesis
        using "1.IH"[OF refl refl] False ne "1.prems" cap by (auto simp: fits_version_def)
    qed
  qed
qed

lemma all_ecc_iff: "(\<forall>e. P e) \<longleftrightarrow> P LOW \<and> P MEDIUM \<and> P QUARTILE \<and> P HIGH"
  by (metis ecc.exhaust)

lemma boost_ecl_ok:
  assumes v: "1 \<le> v" "v \<le> 40" and "used \<le> int (data_codewords v ecl) * 8"
  obtains ecl' where "boost_ecl b v used ecl = Inr ecl'" "used \<le> int (data_codewords v ecl') * 8"
    "ecc_index ecl \<le> ecc_index ecl'" "\<not> b \<longrightarrow> ecl' = ecl"
    "b \<longrightarrow> (\<forall>e. ecc_index ecl' < ecc_index e \<longrightarrow> used > int (data_codewords v e) * 8)"
proof (cases b)
  case False
  with assms(3) show thesis by (intro that[of ecl]) (simp_all add: boost_ecl_def)
next
  case True
  let ?c = "\<lambda>e. int (data_codewords v e) * 8"
  have mono: "?c HIGH \<le> ?c QUARTILE" "?c QUARTILE \<le> ?c MEDIUM" "?c MEDIUM \<le> ?c LOW"
  proof -
    have "list_all (\<lambda>v. data_codewords v HIGH \<le> data_codewords v QUARTILE \<and>
        data_codewords v QUARTILE \<le> data_codewords v MEDIUM \<and> data_codewords v MEDIUM \<le> data_codewords v LOW) [1..40]"
      by code_simp
    with v show "?c HIGH \<le> ?c QUARTILE" "?c QUARTILE \<le> ?c MEDIUM" "?c MEDIUM \<le> ?c LOW"
      by (simp_all add: list_all_iff del: upto_rec_numeral)
  qed
  let ?e1 = "if used \<le> ?c MEDIUM then MEDIUM else ecl"
  let ?e2 = "if used \<le> ?c QUARTILE then QUARTILE else ?e1"
  let ?e3 = "if used \<le> ?c HIGH then HIGH else ?e2"
  have run: "boost_ecl b v used ecl = Inr ?e3"
    using True v by (simp add: boost_ecl_def getNumDataCodewords_eq)
  show thesis
    by (rule that[OF run]; cases ecl) (use mono assms(3) True in \<open>auto simp: all_ecc_iff split: if_splits\<close>)
qed

section \<open>Padding and packing\<close>

lemma appendBits_zero:
  "n \<le> 31 \<Longrightarrow> appendBits 0 (int n) bb = Inr (bb @ replicate n False)"
proof -
  have "bit (0 :: nat) = (\<lambda>_. False)" by (simp add: fun_eq_iff)
  then have "val_bits n 0 = replicate n False"
    unfolding val_bits_def by (simp only: map_replicate_const length_rev length_upt diff_zero)
  moreover assume "n \<le> 31"
  ultimately show ?thesis using appendBits_nat[of 0 n bb] by simp
qed

lemma pad_bytes_ok:
  assumes "8 dvd length bb" "8 dvd cap" "length bb \<le> cap"
  shows "\<exists>r. pad_bytes cap b bb = Inr (bb @ r) \<and> length (bb @ r) = cap"
  using assms
proof (induction cap b bb rule: pad_bytes.induct)
  case (1 cap b bb)
  show ?case
  proof (cases "length bb < cap")
    case True
    have ap: "appendBits (ucast b) 8 bb = Inr (bb @ val_bits 8 (unat b))" by (rule appendBits_byte)
    have "length bb + 8 \<le> cap" using True "1.prems" by (auto elim!: dvdE)
    with "1.IH"[OF True ap] "1.prems" obtain r where
      "pad_bytes cap (b XOR (0xEC XOR 0x11)) (bb @ val_bits 8 (unat b)) = Inr ((bb @ val_bits 8 (unat b)) @ r)"
      "length ((bb @ val_bits 8 (unat b)) @ r) = cap" by auto
    with True ap show ?thesis by (subst pad_bytes.simps) auto
  next
    case False
    with "1.prems" show ?thesis by (subst pad_bytes.simps) auto
  qed
qed

text \<open>Packing bit by bit makes the bytes whose bits, most significant first, are the buffer.\<close>

lemma byte_bits_nth:
  "i < 8 * length data \<Longrightarrow> byte_bits data ! i = bit (data ! (i div 8)) (7 - i mod 8)"
  using codeword_bit[of i data] by (simp add: getBit_eq bit_unsigned_iff bit_index)

lemma bit_set_byte:
  "j < 8 \<Longrightarrow> m < 8 \<Longrightarrow> bit (w OR push_bit m (of_bool b) :: 8 word) j = (bit w j \<or> (j = m \<and> b))"
  by (auto simp: bit_or_iff bit_push_bit_iff bit_0 bit_1_iff)

lemma pack_run:
  assumes "length bb = 8 * n" "k \<le> length bb"
  shows "\<exists>dc. fold_r (\<lambda>i dataCodewords.
       bind_r (at_r dataCodewords (drop_bit 3 i)) (\<lambda>w.
       bind_r (at_r bb i) (\<lambda>b.
       Inr (dataCodewords[drop_bit 3 i := w OR push_bit (7 - (i AND 7)) (of_bool b)])))) [0..<k]
     (replicate n 0) = Inr dc \<and> length dc = n \<and>
     (\<forall>i < 8 * n. byte_bits dc ! i = (i < k \<and> bb ! i))"
  using assms(2)
proof (induction k)
  case 0
  then show ?case using assms(1) by (auto simp: byte_bits_nth less_mult_imp_div_less mult.commute)
next
  case (Suc k)
  then obtain dc where dc: "fold_r (\<lambda>i dataCodewords.
       bind_r (at_r dataCodewords (drop_bit 3 i)) (\<lambda>w.
       bind_r (at_r bb i) (\<lambda>b.
       Inr (dataCodewords[drop_bit 3 i := w OR push_bit (7 - (i AND 7)) (of_bool b)])))) [0..<k]
     (replicate n 0) = Inr dc" "length dc = n" "\<forall>i < 8 * n. byte_bits dc ! i = (i < k \<and> bb ! i)" by auto
  have k: "k div 8 < n" using Suc.prems assms(1) by (simp add: less_mult_imp_div_less mult.commute)
  let ?dc = "dc[k div 8 := dc ! (k div 8) OR push_bit (7 - k mod 8) (of_bool (bb ! k))]"
  have "byte_bits ?dc ! i = (i < Suc k \<and> bb ! i)" if i: "i < 8 * n" for i
  proof (cases "i div 8 = k div 8")
    case True
    have "byte_bits ?dc ! i = (byte_bits dc ! i \<or> (i mod 8 = k mod 8 \<and> bb ! k))"
      using i k dc(2) True by (auto simp: byte_bits_nth bit_set_byte)
    moreover have "i mod 8 = k mod 8 \<longleftrightarrow> i = k" using True by (metis div_mult_mod_eq)
    ultimately show ?thesis using dc(3) i by (auto simp: less_Suc_eq)
  next
    case False
    then have "byte_bits ?dc ! i = byte_bits dc ! i" using i dc(2) by (simp add: byte_bits_nth)
    then show ?thesis using dc(3) i False by (auto simp: less_Suc_eq)
  qed
  with dc k Suc.prems show ?case
    by (simp add: fold_r_append at_r_def bit_index)
qed

lemma pack_bits_ok:
  assumes "8 dvd length bb"
  obtains dc where "pack_bits bb = Inr dc" "byte_bits dc = bb" "8 * length dc = length bb"
proof -
  obtain n where n: "length bb = 8 * n" using assms by (auto elim: dvdE)
  obtain dc where "fold_r (\<lambda>i dataCodewords.
       bind_r (at_r dataCodewords (drop_bit 3 i)) (\<lambda>w.
       bind_r (at_r bb i) (\<lambda>b.
       Inr (dataCodewords[drop_bit 3 i := w OR push_bit (7 - (i AND 7)) (of_bool b)])))) [0..<length bb]
     (replicate n 0) = Inr dc" and dc: "length dc = n" "\<forall>i < 8 * n. byte_bits dc ! i = (i < length bb \<and> bb ! i)"
    using pack_run[OF n, of "length bb"] by auto
  then have "pack_bits bb = Inr dc" using n by (simp add: pack_bits_def)
  moreover have "byte_bits dc = bb"
    using dc n by (intro nth_equalityI) auto
  ultimately show thesis using that dc(1) n by simp
qed

lemma align8: "n + (8 - n mod 8) mod 8 = 8 * ((n + 7) div (8 :: nat))"
proof -
  define q r where "q = n div 8" and "r = n mod 8"
  have n: "n = 8 * q + r" and r: "r < 8" by (simp_all add: q_def r_def)
  show ?thesis
  proof (cases "r = 0")
    case True
    then show ?thesis by (simp add: n)
  next
    case False
    have "(n + 7) div 8 = q + 1" by (rule div_nat_eqI) (use False r n in auto)
    moreover have "(8 - n mod 8) mod 8 = 8 - r" using False r by (simp add: r_def)
    ultimately show ?thesis using n r by simp
  qed
qed

section \<open>Encoding segments\<close>

text \<open>
  The data bits of the finished symbol: the segments, then the terminator of up to four zeros, then
  padding to the capacity.
\<close>

lemma encodeSegments_ok:
  assumes segs: "\<And>s. s \<in> set segs \<Longrightarrow> wf_seg s"
    and range: "1 \<le> minv" "minv \<le> maxv" "maxv \<le> 40" "-1 \<le> msk" "msk \<le> 7"
    and found: "find (fits_version segs ecl) [minv..maxv] = Some v"
  obtains q r where "encodeSegments segs ecl minv maxv msk boost = Inr q" "qr_version q = v"
    "ecc_index ecl \<le> ecc_index (errorCorrectionLevel q)"
    "square (nat (qr_size q)) (modules q)" "qr_size q = v * 4 + 17"
    "byte_bits (read_data q) = concat (map (seg_bits v) segs) @
       replicate (min 4 (8 * data_codewords v (errorCorrectionLevel q) - length (concat (map (seg_bits v) segs)))) False @ r"
    "length (read_data q) = data_codewords v (errorCorrectionLevel q)"
proof -
  let ?bits = "concat (map (seg_bits v) segs)"
  from found have v: "v \<in> set [minv..maxv]" "fits_version segs ecl v"
    by (auto simp: find_Some_iff dest: nth_mem)
  then have v40: "1 \<le> v" "v \<le> 40" using range by auto
  have fit: "getTotalBits segs v \<noteq> -1" "getTotalBits segs v \<le> int (data_codewords v ecl) * 8"
    using v(2) by (auto simp: fits_version_def)
  note tb = getTotalBits_eq(1)[OF segs v40 fit(1)]
  have cv: "choose_version segs ecl minv maxv = Inr (v, int (length ?bits))"
    using choose_version_ok[OF range(1-3), of segs ecl] found tb by simp
  obtain ecl' where bo: "boost_ecl boost v (int (length ?bits)) ecl = Inr ecl'"
    "int (length ?bits) \<le> int (data_codewords v ecl') * 8" "ecc_index ecl \<le> ecc_index ecl'"
    using boost_ecl_ok[OF v40, of "int (length ?bits)" ecl boost] fit(2) tb by metis
  define cap where "cap = 8 * data_codewords v ecl'"
  have le: "length ?bits \<le> cap" using bo(2) by (simp add: cap_def)
  define t where "t = min 4 (cap - length ?bits)"
  let ?b1 = "?bits @ replicate t False"
  define z where "z = (8 - length ?b1 mod 8) mod 8"
  let ?b2 = "?b1 @ replicate z False"
  have b1: "length ?b1 \<le> cap" using le by (simp add: t_def)
  have lb2: "length ?b2 = 8 * ((length ?b1 + 7) div 8)"
    unfolding z_def length_append[of ?b1] length_replicate by (rule align8)
  then have z: "8 dvd length ?b2" by (metis dvd_triv_left)
  have b2: "length ?b2 \<le> cap"
  proof -
    obtain c where "cap = 8 * c" by (simp add: cap_def)
    moreover have "8 * ((length ?b1 + 7) div 8) \<le> 8 * ((8 * c + 7) div 8)"
      using b1 calculation by (intro mult_le_mono2 div_le_mono) simp
    moreover have "(8 * c + 7) div 8 = c" by simp
    ultimately show ?thesis unfolding lb2 by (simp only:)
  qed
  have a1: "appendBits 0 (min 4 (int (cap - length ?bits))) ?bits = Inr ?b1"
    using appendBits_zero[of t ?bits] by (simp add: t_def of_nat_min)
  have a2: "appendBits 0 ((8 - int (length ?b1 mod 8)) mod 8) ?b1 = Inr ?b2"
  proof -
    have "(8 - int (length ?b1 mod 8)) mod 8 = int z"
      unfolding z_def by (simp add: zmod_int of_nat_diff)
    moreover have "z \<le> 31" by (simp add: z_def)
    ultimately show ?thesis using appendBits_zero[of z ?b1] by simp
  qed
  obtain p where p: "pad_bytes cap 0xEC ?b2 = Inr (?b2 @ p)" "length (?b2 @ p) = cap"
    using pad_bytes_ok[OF z _ b2, of "0xEC"] by (auto simp: cap_def)
  obtain dc where dc: "pack_bits (?b2 @ p) = Inr dc" "byte_bits dc = ?b2 @ p" "8 * length dc = cap"
    using pack_bits_ok[of "?b2 @ p"] p(2) by (auto simp: cap_def)
  have dlen: "length dc = data_codewords v ecl'" using dc(3) by (simp add: cap_def)
  obtain q where q: "QrCode v ecl' dc msk = Inr q" "qr_version q = v" "qr_size q = v * 4 + 17"
    "errorCorrectionLevel q = ecl'" "square (nat (qr_size q)) (modules q)" "read_data q = dc"
    using QrCode_ok[OF v40 dlen range(4,5)] by metis
  have ts: "to_size (int (data_codewords v ecl')) * 8 = cap"
  proof -
    have "data_codewords v ecl' \<le> 5000"
      using block_sizes(5)[OF v40, of ecl'] raw_modules_range[OF v40] tables(1,2)[OF v40, of ecl']
        mult_nonneg_nonneg[of "ecc_codewords ecl' v" "ecc_blocks ecl' v"] by linarith
    then show ?thesis by (simp add: cap_def to_size_def)
  qed
  have "encodeSegments segs ecl minv maxv msk boost = Inr q"
  proof -
    have arg: "(1 \<le> minv \<and> minv \<le> maxv \<and> maxv \<le> 40) \<and> \<not> msk < -1 \<and> \<not> msk > 7"
      using range by simp
    have z0: "length ?b2 mod 8 = 0" using z by (simp only: dvd_eq_mod_eq_0)
    show ?thesis
      unfolding encodeSegments_def Let_def
      by (simp only: arg cv bo(1) append_segments_eq[OF segs v40 fit(1)] getNumDataCodewords_eq[OF v40, of ecl']
          ts le a1 a2 z0 p(1) dc(1) q(1) bind_r_simps assert_r_simps prod.case if_False if_True simp_thms)
         simp?
  qed
  then show thesis
    using q dc dlen bo(3) by (intro that[of q "replicate z False @ p"]) (simp_all add: t_def cap_def)
qed

end
