(* ===== verification/Qr_Link.thy ===== *)
theory Qr_Link
  imports Qr_Encode
begin

text \<open>
  \<open>encodeText\<close> from the characters to the symbol and back, and \<open>display\<close>, which prints two rows of
  modules per line of the terminal.
\<close>

section \<open>Text\<close>

definition read_text :: "qr_code \<Rightarrow> string option" where
  "read_text q = decode_text (qr_version q) (byte_bits (read_data q))"

lemma decode_seg_bits:
  assumes ver: "1 \<le> ver" "ver \<le> 40" and wf: "wf_seg s" and mode: "seg_mode s \<in> {NUMERIC, ALPHANUMERIC, BYTE}"
    and n: "numChars s < 2 ^ nat (numCharCountBits (seg_mode s) ver)"
  shows "decode_text ver (seg_bits ver s @ rest) =
    Some (if seg_mode s = NUMERIC then decode_numeric (nat (numChars s)) (seg_data s @ rest)
          else if seg_mode s = ALPHANUMERIC then decode_alphanumeric (nat (numChars s)) (seg_data s @ rest)
          else decode_bytes (nat (numChars s)) (seg_data s @ rest))"
proof -
  define w where "w = nat (numCharCountBits (seg_mode s) ver)"
  note f = wf_seg_fields[OF wf ver]
  have m: "nat (modeBits (seg_mode s)) < 2 ^ 4" using f(1,2) by simp
  have w: "count_width (nat (modeBits (seg_mode s))) ver = w"
    using mode version_group[OF ver] by (auto simp: w_def count_width_def numCharCountBits_def modes)
  have nw: "nat (numChars s) < 2 ^ w" using n f(5) by (simp add: w_def nat_less_iff)
  have bits: "seg_bits ver s @ rest = val_bits 4 (nat (modeBits (seg_mode s))) @ val_bits w (nat (numChars s)) @ seg_data s @ rest"
    by (simp add: seg_bits_def w_def)
  have t: "bits_val (take 4 (seg_bits ver s @ rest)) = nat (modeBits (seg_mode s))"
    "bits_val (take w (drop 4 (seg_bits ver s @ rest))) = nat (numChars s)"
    "drop (4 + w) (seg_bits ver s @ rest) = seg_data s @ rest"
    unfolding bits using m nw by simp_all
  show ?thesis
    unfolding decode_text_def Let_def t(1) w t(2,3)
    using mode by (auto simp: modes)
qed

lemma makeSegments_ok:
  assumes "int (length cs) \<le> INT_MAX"
  obtains segs where "makeSegments cs = Inr segs" "\<And>s. s \<in> set segs \<Longrightarrow> wf_seg s"
    "cs = [] \<longrightarrow> segs = []"
    "cs \<noteq> [] \<longrightarrow> (\<exists>s. segs = [s] \<and> seg_mode s \<in> {NUMERIC, ALPHANUMERIC, BYTE} \<and>
       (\<forall>rest. (if seg_mode s = NUMERIC then decode_numeric (nat (numChars s)) (seg_data s @ rest)
          else if seg_mode s = ALPHANUMERIC then decode_alphanumeric (nat (numChars s)) (seg_data s @ rest)
          else decode_bytes (nat (numChars s)) (seg_data s @ rest)) = cs))"
proof (cases "cs = []")
  case True
  then show thesis by (intro that[of "[]"]) (simp_all add: makeSegments_def)
next
  case False
  consider "isNumeric cs" | "\<not> isNumeric cs" "isAlphanumeric cs" | "\<not> isNumeric cs" "\<not> isAlphanumeric cs"
    by blast
  then show thesis
  proof cases
    case 1
    then show thesis
      using False makeNumeric_eq[OF 1] decode_numeric_bits[OF 1]
      by (intro that[of "[\<lparr>seg_mode = NUMERIC, numChars = int (length cs), seg_data = numeric_bits cs\<rparr>]"])
         (simp_all add: makeSegments_def wf_seg_def)
  next
    case 2
    then show thesis
      using False makeAlphanumeric_eq[OF 2(2)] decode_alphanumeric_bits[OF 2(2)]
      by (intro that[of "[\<lparr>seg_mode = ALPHANUMERIC, numChars = int (length cs), seg_data = alphanumeric_bits cs\<rparr>]"])
         (simp_all add: makeSegments_def wf_seg_def modes)
  next
    case 3
    then show thesis
      using False makeBytes_eq[of "map of_char cs"] assms decode_byte_bits[of cs]
      by (intro that[of "[\<lparr>seg_mode = BYTE, numChars = int (length cs), seg_data = byte_bits (map of_char cs)\<rparr>]"])
         (simp_all add: makeSegments_def wf_seg_def modes)
  qed
qed

lemma encodeText_ok:
  assumes len: "int (length (c_str cs)) \<le> INT_MAX" and segs: "makeSegments (c_str cs) = Inr segs"
  shows "case find (fits_version segs ecl) [1..40] of
      None \<Rightarrow> encodeText cs ecl = Inl (Data_too_long (getTotalBits segs 40) (int (data_codewords 40 ecl) * 8))
    | Some v \<Rightarrow> (\<exists>q. encodeText cs ecl = Inr q \<and> qr_version q = v \<and> qr_size q = v * 4 + 17 \<and>
        ecc_index ecl \<le> ecc_index (errorCorrectionLevel q) \<and> square (nat (qr_size q)) (modules q) \<and>
        read_text q = Some (c_str cs))"
proof -
  from makeSegments_ok[OF len] segs
  have wf: "\<And>s. s \<in> set segs \<Longrightarrow> wf_seg s" and emp: "c_str cs = [] \<longrightarrow> segs = []"
    and one: "c_str cs \<noteq> [] \<longrightarrow> (\<exists>s. segs = [s] \<and> seg_mode s \<in> {NUMERIC, ALPHANUMERIC, BYTE} \<and>
       (\<forall>rest. (if seg_mode s = NUMERIC then decode_numeric (nat (numChars s)) (seg_data s @ rest)
          else if seg_mode s = ALPHANUMERIC then decode_alphanumeric (nat (numChars s)) (seg_data s @ rest)
          else decode_bytes (nat (numChars s)) (seg_data s @ rest)) = c_str cs))"
    by (metis Inr_inject)+
  show ?thesis
  proof (cases "find (fits_version segs ecl) [1..40]")
    case None
    then have "choose_version segs ecl 1 40 = Inl (Data_too_long (getTotalBits segs 40) (int (data_codewords 40 ecl) * 8))"
      using choose_version_ok[of 1 40 segs ecl] by simp
    with None segs show ?thesis by (simp add: encodeText_def encodeSegments_def)
  next
    case (Some v)
    then have v: "v \<in> set [1..40]" "fits_version segs ecl v" by (auto simp: find_Some_iff dest: nth_mem)
    then have v40: "1 \<le> v" "v \<le> 40" by auto
    have fit: "getTotalBits segs v \<noteq> -1" using v(2) by (simp add: fits_version_def)
    obtain q r where q: "encodeSegments segs ecl 1 40 (-1) True = Inr q" "qr_version q = v"
      "ecc_index ecl \<le> ecc_index (errorCorrectionLevel q)" "square (nat (qr_size q)) (modules q)"
      "qr_size q = v * 4 + 17"
      "byte_bits (read_data q) = concat (map (seg_bits v) segs) @
         replicate (min 4 (8 * data_codewords v (errorCorrectionLevel q) - length (concat (map (seg_bits v) segs)))) False @ r"
    proof (rule encodeSegments_ok[of segs 1 40 "-1" ecl v True])
      show "find (fits_version segs ecl) [1..40] = Some v" by (rule Some)
    qed (use wf in simp_all)
    have "read_text q = Some (c_str cs)"
    proof (cases "c_str cs = []")
      case True
      have "9 \<le> data_codewords v (errorCorrectionLevel q)"
        using tables(5)[OF v40] block_sizes(5)[OF v40] by (metis of_nat_le_iff of_nat_numeral)
      then have "byte_bits (read_data q) = [False, False, False, False] @ r"
        using q(6) True emp by (simp add: numeral_eq_Suc)
      then have "bits_val (take 4 (byte_bits (read_data q))) = 0"
        by (simp add: bits_val_def)
      then show ?thesis using True by (simp add: read_text_def decode_text_def)
    next
      case False
      with one obtain s where s: "segs = [s]" "seg_mode s \<in> {NUMERIC, ALPHANUMERIC, BYTE}"
        "\<And>rest. (if seg_mode s = NUMERIC then decode_numeric (nat (numChars s)) (seg_data s @ rest)
          else if seg_mode s = ALPHANUMERIC then decode_alphanumeric (nat (numChars s)) (seg_data s @ rest)
          else decode_bytes (nat (numChars s)) (seg_data s @ rest)) = c_str cs" by blast
      have "wf_seg s" using wf s(1) by simp
      moreover have "numChars s < 2 ^ nat (numCharCountBits (seg_mode s) v)"
        using getTotalBits_eq(2)[OF wf v40 fit] s(1) by simp
      ultimately show ?thesis
        using decode_seg_bits[OF v40 _ s(2)] q(2,6) s(1,3) by (simp add: read_text_def)
    qed
    with q Some segs show ?thesis by (simp add: encodeText_def)
  qed
qed

section \<open>Printing\<close>

definition dark :: "qr_code \<Rightarrow> int \<Rightarrow> int \<Rightarrow> bool" where
  "dark q x y \<longleftrightarrow> (x, y) \<in> cells (qr_size q) \<and> mod_at q (x, y)"

lemma getModule_square:
  assumes "square (nat (qr_size q)) (modules q)" "qr_size q \<le> 177"
  shows "getModule q x y = Inr (dark q x y)"
proof (cases "(x, y) \<in> cells (qr_size q)")
  case True
  then have "to_size x = nat x" "to_size y = nat y" "nat x < nat (qr_size q)" "nat y < nat (qr_size q)"
    using assms(2) by (auto simp: to_size_small)
  with True assms(1) show ?thesis
    by (simp add: getModule_def get_module_def grid_at_ok dark_def mod_at_def)
next
  case False
  then show ?thesis by (auto simp: getModule_def dark_def)
qed

definition glyph_of :: "bool \<Rightarrow> bool \<Rightarrow> glyph" where
  "glyph_of upper lower = (if upper then if lower then Blank else Lower_half else if lower then Upper_half else Full_block)"

definition display_row :: "qr_code \<Rightarrow> nat \<Rightarrow> glyph list" where
  "display_row q k = (let y = -2 + 2 * int k in
     [Blank, Blank] @ map (\<lambda>x. glyph_of (dark q x y) (y + 1 < qr_size q + 2 \<longrightarrow> dark q x (y + 1))) [-2..qr_size q + 1]
     @ [Blank, Blank, Newline])"

lemma display_eq:
  assumes "square (nat (qr_size q)) (modules q)" "qr_size q \<le> 177"
  shows "display q = Inr ([Newline] @ concat (map (display_row q) [0..<nat ((qr_size q + 5) div 2)]) @ [Newline])"
proof -
  have g: "display_glyph q y x = Inr (glyph_of (dark q x y) (y + 1 < qr_size q + 2 \<longrightarrow> dark q x (y + 1)))" for x y
    using getModule_square[OF assms]
    by (auto simp: display_glyph_def char_map_def glyph_of_def numeral_2_eq_2 numeral_3_eq_3)
  have row: "fold_r (\<lambda>j os. bind_r (display_glyph q y j) (\<lambda>g. Inr (os @ [g]))) xs os =
      Inr (os @ map (\<lambda>x. glyph_of (dark q x y) (y + 1 < qr_size q + 2 \<longrightarrow> dark q x (y + 1))) xs)" for y xs os
    by (induction xs arbitrary: os) (simp_all add: g)
  have "fold_r (\<lambda>k os. let i = -2 + 2 * int k in
        bind_r (fold_r (\<lambda>j os. bind_r (display_glyph q i j) (\<lambda>g. Inr (os @ [g]))) [-2..qr_size q + 1] (os @ [Blank, Blank])) (\<lambda>os.
        Inr (os @ [Blank, Blank, Newline]))) ks os = Inr (os @ concat (map (display_row q) ks))" for ks os
    by (rule fold_r_snoc) (simp add: row display_row_def Let_def)
  then show ?thesis by (simp add: display_def)
qed

section \<open>Which texts are shown\<close>

text \<open>A text fits at a level when some version can hold its segments.\<close>

definition text_fits :: "string \<Rightarrow> ecc \<Rightarrow> bool" where
  "text_fits cs ecl \<longleftrightarrow>
     (case makeSegments (c_str cs) of
        Inl _ \<Rightarrow> False | Inr segs \<Rightarrow> (\<exists>v \<in> set [1..40]. fits_version segs ecl v))"

lemma makeSegments_wf:
  assumes "makeSegments cs = Inr segs" "s \<in> set segs"
  shows "wf_seg s"
proof -
  consider "cs = []" | "cs \<noteq> []" "isNumeric cs" | "cs \<noteq> []" "\<not> isNumeric cs" "isAlphanumeric cs"
    | "cs \<noteq> []" "\<not> isNumeric cs" "\<not> isAlphanumeric cs" by blast
  then show ?thesis
  proof cases
    case 4
    then have "int (length cs) \<le> INT_MAX" using assms(1) by (auto simp: makeSegments_def makeBytes_def split: if_splits)
    with 4 assms makeBytes_eq[of "map of_char cs"] show ?thesis by (auto simp: makeSegments_def wf_seg_def)
  qed (use assms in \<open>auto simp: makeSegments_def wf_seg_def makeNumeric_eq makeAlphanumeric_eq\<close>)
qed

lemma find_in_set: "find P xs \<noteq> None \<longleftrightarrow> (\<exists>x \<in> set xs. P x)"
  by (auto simp: find_None_iff)

lemma encodeText_display:
  assumes "text_fits cs ecl"
  obtains q out where "encodeText cs ecl = Inr q" "display q = Inr out"
proof -
  obtain segs where segs: "makeSegments (c_str cs) = Inr segs" "find (fits_version segs ecl) [1..40] \<noteq> None"
    using assms by (cases "makeSegments (c_str cs)") (simp_all add: text_fits_def find_in_set del: not_None_eq)
  then obtain v where v: "find (fits_version segs ecl) [1..40] = Some v" by blast
  then have v40: "1 \<le> v" "v \<le> 40" by (auto simp: find_Some_iff dest: nth_mem)
  obtain q where q: "encodeSegments segs ecl 1 40 (-1) True = Inr q" "square (nat (qr_size q)) (modules q)"
    "qr_size q = v * 4 + 17"
    by (rule encodeSegments_ok[of segs 1 40 "-1" ecl v True]) (use v makeSegments_wf[OF segs(1)] in simp_all)
  have "encodeText cs ecl = Inr q" using segs(1) q(1) by (simp add: encodeText_def)
  with display_eq[OF q(2)] q(3) v40 that show thesis by simp
qed

lemma encodeText_throws:
  assumes "\<not> text_fits cs ecl"
  shows "\<exists>e. encodeText cs ecl = Inl e"
proof (cases "makeSegments (c_str cs)")
  case (Inl e)
  then show ?thesis by (simp add: encodeText_def)
next
  case (Inr segs)
  then have "find (fits_version segs ecl) [1..40] = None"
    using assms by (auto simp: text_fits_def find_None_iff)
  then show ?thesis
    using Inr choose_version_ok[of 1 40 segs ecl] by (simp add: encodeText_def encodeSegments_def)
qed

lemma length_segment_bits:
  "length (numeric_bits cs) \<le> 8 * length cs" "length (alphanumeric_bits cs) \<le> 8 * length cs"
  "length (byte_bits data) = 8 * length data"
proof -
  show "length (numeric_bits cs) \<le> 8 * length cs" by (induction cs rule: numeric_bits.induct) simp_all
  show "length (alphanumeric_bits cs) \<le> 8 * length cs" by (induction cs rule: alphanumeric_bits.induct) simp_all
  show "length (byte_bits data) = 8 * length data" by (induction data) (simp_all add: byte_bits_def)
qed

text \<open>Version 40 holds 1663 characters of any kind at the level of the login dialogue.\<close>

lemma short_text_fits:
  assumes "length (c_str cs) \<le> 1663"
  shows "text_fits cs QUARTILE"
proof -
  let ?t = "c_str cs"
  have cap: "int (data_codewords 40 QUARTILE) = 1666" by code_simp
  have bits: "length (numeric_bits ?t) \<le> 13304" "length (alphanumeric_bits ?t) \<le> 13304"
    "length (byte_bits (map of_char ?t)) \<le> 13304"
    using assms length_segment_bits(1,2)[of ?t] length_segment_bits(3)[of "map of_char ?t"] by simp_all
  have "fits_version segs QUARTILE 40" if "makeSegments ?t = Inr segs" for segs
    using that assms bits cap
    by (auto simp: makeSegments_def makeNumeric_eq makeAlphanumeric_eq makeBytes_eq fits_version_def
        getTotalBits_def numCharCountBits_def modes Let_def split: if_splits)
  moreover obtain segs where "makeSegments ?t = Inr segs"
    by (rule makeSegments_ok[of ?t]) (use assms in simp)
  ultimately show ?thesis by (auto simp: text_fits_def intro: bexI[of _ 40])
qed

end
