(* ===== verification/Tg_Client.thy ===== *)
theory Tg_Client
  imports Chat_Updates Qr_Link
begin

text \<open>
  \<^verbatim>\<open>TgClient\<close> (\<^verbatim>\<open>src/tg.h\<close>, \<^verbatim>\<open>src/tg.cc\<close>): requests and their handlers, dispatch of responses and
  updates, the authorization dialogue and the two receive loops. The update handlers that write
  the application state are in \<open>Chat_Updates\<close>. TDLib itself is outside: its responses are the
  input of the loops, the requests sent to it are recorded in order. Logging is not modelled.
\<close>

section \<open>State\<close>

text \<open>
  The two closures that are ever registered: the one \<^verbatim>\<open>auth_query_handler\<close> returns, with the
  captured counter, and the one \<^verbatim>\<open>get_chat_history\<close> passes.
\<close>

datatype handler = AuthHandler u64 | ChatHistoryHandler

record tg_client =
  client_id :: int
  auth_state :: "authorization_state option"
  is_auth :: bool
  need_restart :: bool
  current_query_id :: u64
  auth_query_id :: u64
  handlers :: "u64 \<rightharpoonup> handler"

text \<open>The command-line globals of \<^verbatim>\<open>src/global.cc\<close>.\<close>

record options =
  use_test_dc :: bool
  logout_next :: bool
  debug_attach :: bool

text \<open>
  What surrounds the client: the whitespace-separated words still to be read from \<^verbatim>\<open>std::cin\<close>, what
  was written to \<^verbatim>\<open>std::cout\<close>, the environment variables, the requests sent so far (client, request
  identifier, request), the identifier TDLib gives to the next instance, and the memory contents an
  uninitialised \<^verbatim>\<open>tl_app_state_struct\<close> finds.
\<close>

datatype out_item = Text string | Printed_code "glyph list"

record environment =
  cin :: "string list"
  cout :: "out_item list"
  getenv :: "string \<rightharpoonup> string"
  sent :: "(int \<times> u64 \<times> td_function) list"
  next_client_id :: int
  garbage_pane :: int
  garbage_terminating :: bool

record world =
  tgcl :: tg_client
  shared :: shared_state
  opts :: options
  sys :: environment

definition upd_tgcl :: "(tg_client \<Rightarrow> tg_client) \<Rightarrow> world \<Rightarrow> world" where
  "upd_tgcl f w = w\<lparr>tgcl := f (tgcl w)\<rparr>"

definition print_out :: "out_item \<Rightarrow> world \<Rightarrow> world" where
  "print_out t w = w\<lparr>sys := (sys w)\<lparr>cout := cout (sys w) @ [t]\<rparr>\<rparr>"

definition clear_logout_next :: "world \<Rightarrow> world" where
  "clear_logout_next w = w\<lparr>opts := (opts w)\<lparr>logout_next := False\<rparr>\<rparr>"

text \<open>\<^verbatim>\<open>std::cin >> s\<close> into a fresh string; at the end of the input the string stays empty.\<close>

definition read_word :: "world \<Rightarrow> string \<times> world" where
  "read_word w =
     (case cin (sys w) of
        [] \<Rightarrow> ('''', w)
      | t # ts \<Rightarrow> (t, w\<lparr>sys := (sys w)\<lparr>cin := ts\<rparr>\<rparr>))"

section \<open>Requests\<close>

text \<open>
  The counter has 64 bits, the returned identifier is its low 32 bits as a signed number, and the
  handler table and \<^verbatim>\<open>ClientManager::send\<close> take it back to 64 bits with its sign.
\<close>

definition next_query_id :: "tg_client \<Rightarrow> i32 \<times> tg_client" where
  "next_query_id c =
     (let n = current_query_id c + 1 in (ucast n, c\<lparr>current_query_id := n\<rparr>))"

definition request_id_of :: "i32 \<Rightarrow> u64" where
  "request_id_of q = scast q"

definition send_query :: "td_function \<Rightarrow> handler option \<Rightarrow> world \<Rightarrow> world" where
  "send_query f h w =
     (let (query_id, c) = next_query_id (tgcl w);
          c' = (case h of None \<Rightarrow> c
                | Some hd' \<Rightarrow> c\<lparr>handlers := map_emplace (handlers c) (request_id_of query_id) hd'\<rparr>)
      in w\<lparr>tgcl := c',
           sys := (sys w)\<lparr>sent := sent (sys w) @ [(client_id c', request_id_of query_id, f)]\<rparr>\<rparr>)"

definition auth_query_handler :: "world \<Rightarrow> handler" where
  "auth_query_handler w = AuthHandler (auth_query_id (tgcl w))"

text \<open>
  The member initialisers and the constructor: the instance, the first request, then the new
  application state.
\<close>

definition new_tg_client :: "world \<Rightarrow> world" where
  "new_tg_client w =
     (let c = \<lparr>client_id = next_client_id (sys w), auth_state = None, is_auth = False,
               need_restart = False, current_query_id = 0, auth_query_id = 0,
               handlers = Map.empty\<rparr>;
          w1 = w\<lparr>tgcl := c, sys := (sys w)\<lparr>next_client_id := next_client_id (sys w) + 1\<rparr>\<rparr>;
          w2 = send_query (GetOption ''version'') None w1
      in w2\<lparr>shared := (shared w2)\<lparr>app_state :=
              new_app_state (garbage_pane (sys w2)) (garbage_terminating (sys w2))\<rparr>\<rparr>)"

definition init_data :: "int \<Rightarrow> world \<Rightarrow> world" where
  "init_data chat_list_size = send_query (LoadChats ChatListMain chat_list_size) None"

text \<open>
  \<^verbatim>\<open>get_chat_history\<close> also computes the identifier of the earliest stored message and an offset,
  which the request then does not use.
\<close>

definition get_chat_history :: "int53 \<Rightarrow> world \<Rightarrow> world" where
  "get_chat_history cid = send_query (GetChatHistory cid 0 0 100 False) (Some ChatHistoryHandler)"

section \<open>The authorization dialogue\<close>

text \<open>\<^verbatim>\<open>std::stoi\<close>: leading white space, an optional sign, digits; the rest is ignored.\<close>

definition is_space :: "char \<Rightarrow> bool" where
  "is_space c \<longleftrightarrow> c = CHR '' '' \<or> (9 \<le> (of_char c :: nat) \<and> (of_char c :: nat) \<le> 13)"

definition is_digit :: "char \<Rightarrow> bool" where
  "is_digit c \<longleftrightarrow> 48 \<le> (of_char c :: nat) \<and> (of_char c :: nat) \<le> 57"

definition digits_value :: "string \<Rightarrow> int" where
  "digits_value = foldl (\<lambda>n c. 10 * n + (of_char c - 48)) 0"

definition stoi :: "string \<Rightarrow> int result" where
  "stoi s =
     (let s1 = dropWhile is_space s;
          (neg, s2) = (case s1 of
              [] \<Rightarrow> (False, [])
            | c # cs \<Rightarrow> if c = CHR ''-'' then (True, cs)
                        else if c = CHR ''+'' then (False, cs) else (False, s1));
          ds = takeWhile is_digit s2;
          v = (if neg then - digits_value ds else digits_value ds)
      in if ds = [] then Inl Invalid_argument
         else if v < - (2 ^ 31) \<or> v \<ge> 2 ^ 31 then Inl Stoi_out_of_range
         else Inr v)"

text \<open>
  \<^verbatim>\<open>getenv\<close> of an unset variable is a null pointer, from which \<^verbatim>\<open>std::string\<close> must not be built.
\<close>

definition getenv_string :: "string \<Rightarrow> world \<Rightarrow> string result" where
  "getenv_string x w = (case getenv (sys w) x of None \<Rightarrow> Inl Null_deref | Some v \<Rightarrow> Inr v)"

definition ask_and_send ::
    "string \<Rightarrow> (string \<Rightarrow> td_function) \<Rightarrow> world \<Rightarrow> world" where
  "ask_and_send prompt mk w =
     (let w1 = print_out (Text prompt) (clear_logout_next w);
          (answer, w2) = read_word w1
      in send_query (mk answer) (Some (auth_query_handler w2)) w2)"

definition on_wait_tdlib_parameters :: "world \<Rightarrow> world result" where
  "on_wait_tdlib_parameters w =
     bind_r (getenv_string ''TG_API_ID'' w) (\<lambda>id_text.
     bind_r (stoi id_text) (\<lambda>api_id.
     bind_r (getenv_string ''TG_API_HASH'' w) (\<lambda>api_hash.
       Inr (send_query
         (SetTdlibParameters
            \<lparr>par_use_test_dc = use_test_dc (opts w), par_database_directory = ''tmp/db'',
             par_use_message_database = True, par_use_secret_chats = True,
             par_api_id = api_id, par_api_hash = api_hash,
             par_system_language_code = ''en'', par_device_model = ''Desktop'',
             par_application_version = ''1.0''\<rparr>)
         (Some (auth_query_handler w)) w))))"

definition on_wait_phone_number :: "world \<Rightarrow> world" where
  "on_wait_phone_number w =
     (let w1 = print_out (Text ''phone number pls (put 0 for QR): '') (clear_logout_next w);
          (phone_no, w2) = read_word w1;
          w3 = print_out (Text (''got the phone number '' @ [CHR 0x27] @ phone_no @ [CHR 0x27])) w2
      in if phone_no \<noteq> ''0''
         then send_query (SetAuthenticationPhoneNumber phone_no) (Some (auth_query_handler w3)) w3
         else send_query RequestQrCodeAuthentication (Some (auth_query_handler w3)) w3)"

definition on_ready :: "world \<Rightarrow> world" where
  "on_ready w =
     (if logout_next (opts w)
      then send_query LogOut None (clear_logout_next w)
      else upd_tgcl (\<lambda>c. c\<lparr>is_auth := True\<rparr>) w)"

definition on_wait_registration :: "world \<Rightarrow> world" where
  "on_wait_registration w =
     (let w1 = print_out (Text ''First name pls: '') (clear_logout_next w);
          (first_name, w2) = read_word w1;
          w3 = print_out (Text ''Last name pls:'') w2;
          (last_name, w4) = read_word w3
      in send_query (RegisterUser first_name last_name False) (Some (auth_query_handler w4)) w4)"

text \<open>Nothing catches what the QR code generator throws.\<close>

definition qr_result :: "qr_error + 'a \<Rightarrow> 'a result" where
  "qr_result m = (case m of Inl _ \<Rightarrow> Inl Qr_exception | Inr x \<Rightarrow> Inr x)"

definition on_wait_other_device :: "string \<Rightarrow> world \<Rightarrow> world result" where
  "on_wait_other_device link w =
     (let w1 = print_out (Text ''Scan QR with an active Telegram session '') (clear_logout_next w)
      in bind_r (qr_result (encodeText link QUARTILE)) (\<lambda>qr.
         bind_r (qr_result (display qr)) (\<lambda>out.
           Inr (print_out (Text (''login link: '' @ link)) (print_out (Printed_code out) w1)))))"

text \<open>
  The dispatch on the authorization state. \<^verbatim>\<open>authorizationStateWaitPassword\<close> falls to the last
  overload, which does nothing.
\<close>

definition process_auth :: "world \<Rightarrow> world result" where
  "process_auth w0 =
     (let w = upd_tgcl (\<lambda>c. c\<lparr>auth_query_id := auth_query_id c + 1\<rparr>) w0
      in case auth_state (tgcl w) of
           None \<Rightarrow> Inl Null_deref
         | Some st \<Rightarrow>
             (case st of
                WaitTdlibParameters \<Rightarrow> on_wait_tdlib_parameters w
              | WaitPhoneNumber \<Rightarrow> Inr (on_wait_phone_number w)
              | WaitCode \<Rightarrow> Inr (ask_and_send ''code pls: '' CheckAuthenticationCode w)
              | Ready \<Rightarrow> Inr (on_ready w)
              | WaitEmailAddress \<Rightarrow> Inr (ask_and_send ''Email pls: '' SetAuthenticationEmailAddress w)
              | WaitEmailCode \<Rightarrow> Inr (ask_and_send ''code pls: '' CheckAuthenticationEmailCode w)
              | WaitRegistration \<Rightarrow> Inr (on_wait_registration w)
              | WaitOtherDeviceConfirmation link \<Rightarrow> on_wait_other_device link w
              | LoggingOut \<Rightarrow> Inr (upd_tgcl (\<lambda>c. c\<lparr>is_auth := False\<rparr>) w)
              | Closing \<Rightarrow> Inr w
              | Closed \<Rightarrow> Inr (upd_tgcl (\<lambda>c. c\<lparr>is_auth := False, need_restart := True\<rparr>) w)
              | WaitPassword \<Rightarrow> Inr w))"

section \<open>Dispatch\<close>

definition upd_shared :: "(shared_state \<Rightarrow> shared_state) \<Rightarrow> world \<Rightarrow> world" where
  "upd_shared f w = w\<lparr>shared := f (shared w)\<rparr>"

definition upd_shared_r :: "(shared_state \<Rightarrow> shared_state result) \<Rightarrow> world \<Rightarrow> world result" where
  "upd_shared_r f w = bind_r (f (shared w)) (\<lambda>s. Inr (w\<lparr>shared := s\<rparr>))"

fun process_update :: "td_object \<Rightarrow> world \<Rightarrow> world result" where
  "process_update (Update (UpdateAuthorizationState st)) w =
     process_auth (upd_tgcl (\<lambda>c. c\<lparr>auth_state := Some st\<rparr>) w)"
| "process_update (Update (UpdateUser u)) w = Inr (upd_shared (process_update_user u) w)"
| "process_update (Update (UpdateUserFullInfo i f)) w =
     Inr (upd_shared (process_update_user_full_info i f) w)"
| "process_update (Update (UpdateNewChat ch)) w = Inr (upd_shared (process_update_new_chat ch) w)"
| "process_update (Update (UpdateBasicGroup g)) w =
     Inr (upd_shared (process_update_basicgroup g) w)"
| "process_update (Update (UpdateBasicGroupFullInfo i f)) w =
     Inr (upd_shared (process_update_basicgroup_full_info i f) w)"
| "process_update (Update (UpdateSupergroup g)) w =
     Inr (upd_shared (process_update_supergroup g) w)"
| "process_update (Update (UpdateSupergroupFullInfo i f)) w =
     Inr (upd_shared (process_update_supergroup_full_info i f) w)"
| "process_update (Update (UpdateChatAddedToList c l)) w =
     Inr (upd_shared (process_update_chat_added_to_list c l) w)"
| "process_update (Update (UpdateChatPosition c p)) w =
     Inr (upd_shared (process_update_chat_position c p) w)"
| "process_update (Update (UpdateChatLastMessage c m ps)) w =
     upd_shared_r (process_update_chat_last_message c m ps) w"
| "process_update _ w = Inr w"

text \<open>Running a registered closure.\<close>

definition run_handler :: "handler \<Rightarrow> td_object \<Rightarrow> world \<Rightarrow> world result" where
  "run_handler h ob w =
     (case h of
        AuthHandler captured \<Rightarrow>
          if captured = auth_query_id (tgcl w)
          then (if is_error ob then process_auth w else Inr w)
          else Inr w
      | ChatHistoryHandler \<Rightarrow>
          (case ob of
             Messages total_count ms \<Rightarrow> upd_shared_r (process_get_chat_history total_count ms) w
           | _ \<Rightarrow> Inr w))"

definition process_response :: "response \<Rightarrow> world \<Rightarrow> world result" where
  "process_response r w =
     (case resp_object r of
        None \<Rightarrow> Inr w
      | Some ob \<Rightarrow>
          if is_update_option ob then Inr w
          else if resp_request_id r = 0 then process_update ob w
          else case handlers (tgcl w) (resp_request_id r) of
                 None \<Rightarrow> Inr w
               | Some h \<Rightarrow>
                   bind_r (run_handler h ob w) (\<lambda>w'.
                     Inr (upd_tgcl (\<lambda>c. c\<lparr>handlers := (handlers c)(resp_request_id r := None)\<rparr>) w')))"

section \<open>The receive loops\<close>

text \<open>
  \<^verbatim>\<open>init_auth\<close> on the responses that arrive while it runs: \<open>None\<close> when it is still waiting after the
  last of them, otherwise the world at its return and the responses it did not take. A restart
  replaces the client by a new one.
\<close>

definition restart :: "world \<Rightarrow> world" where
  "restart w = print_out (Text ''restarted successfully'') (new_tg_client w)"

lemma need_restart_send_query [simp]:
  "need_restart (tgcl (send_query f h w)) = need_restart (tgcl w)"
  by (simp add: send_query_def next_query_id_def Let_def split: option.splits)

lemma need_restart_restart [simp]: "need_restart (tgcl (restart w)) = False"
  by (simp add: restart_def print_out_def new_tg_client_def Let_def)

function init_auth :: "response list \<Rightarrow> world \<Rightarrow> (world \<times> response list) option result" where
  "init_auth rs w =
     (if need_restart (tgcl w) then init_auth rs (restart w)
      else if \<not> is_auth (tgcl w) then
        (case rs of
           [] \<Rightarrow> Inr None
         | r # rs' \<Rightarrow> (case process_response r w of
                         Inl e \<Rightarrow> Inl e
                       | Inr w' \<Rightarrow> init_auth rs' w'))
      else Inr (Some (w, rs)))"
  by pat_completeness auto
termination
  by (relation "measures [\<lambda>(rs, w). length rs, \<lambda>(rs, w). if need_restart (tgcl w) then 1 else 0]")
    auto

declare init_auth.simps [simp del]

text \<open>
  \<^verbatim>\<open>set_response_handlers\<close>, the body of the Telegram thread: the same on the responses that arrive,
  \<open>Inr (w, True)\<close> when the thread has returned, \<open>Inr (w, False)\<close> when it still waits. The flag can
  be set by the other thread between two iterations; \<open>Chatcurse\<close> interleaves the two.
\<close>

fun set_response_handlers :: "response list \<Rightarrow> world \<Rightarrow> (world \<times> bool) result" where
  "set_response_handlers rs w =
     (if terminating (app_state (shared w)) then Inr (w, True)
      else case rs of
             [] \<Rightarrow> Inr (w, False)
           | r # rs' \<Rightarrow> bind_r (process_response r w) (set_response_handlers rs'))"

section \<open>Request identifiers\<close>

lemma sint_ucast_small:
  assumes "unat (n :: u64) < 2 ^ 31"
  shows "sint (ucast n :: i32) = uint n"
proof -
  have u: "uint n < 2 ^ 31"
    using assms by (metis of_nat_less_iff of_nat_numeral of_nat_power uint_nat)
  have "sint (ucast n :: i32) = signed_take_bit 31 (uint n)"
    by transfer (simp add: signed_take_bit_take_bit)
  also have "\<dots> = uint n"
    by (rule signed_take_bit_int_eq_self, rule order_trans[OF _ uint_ge_0]) (use u in simp_all)
  finally show ?thesis .
qed

lemma request_id_small:
  assumes "unat n < 2 ^ 31"
  shows "request_id_of (ucast n) = n"
  using sint_ucast_small[OF assms] unfolding request_id_of_def by (metis scast_eq word_of_int_uint)

lemma scast_eq_0_iff: "(scast (q :: i32) :: u64) = 0 \<longleftrightarrow> q = 0"
proof
  assume "(scast q :: u64) = 0"
  then have "sint (scast q :: u64) = 0" by simp
  moreover have "sint (scast q :: u64) = sint q"
    by transfer (simp add: signed_take_bit_take_bit signed_take_bit_signed_take_bit min_def)
  ultimately show "q = 0" using signed_eq_0_iff by metis
qed simp

lemma request_id_zero_iff: "request_id_of (ucast n) = 0 \<longleftrightarrow> 2 ^ 32 dvd uint n"
proof -
  have "(ucast n :: i32) = 0 \<longleftrightarrow> 2 ^ 32 dvd uint n"
    by transfer (simp add: take_bit_eq_mod mod_eq_0_iff_dvd)
  then show ?thesis by (simp add: request_id_of_def scast_eq_0_iff)
qed

lemma unat_succ_small: "unat (c :: u64) + 1 < 2 ^ 31 \<Longrightarrow> unat (c + 1) = unat c + 1"
  by (simp add: unat_word_ariths)

text \<open>Requests can still be numbered: the counter is \<open>n\<close> requests away from the signed limit.\<close>

definition ids_left :: "nat \<Rightarrow> world \<Rightarrow> bool" where
  "ids_left n w \<longleftrightarrow> unat (current_query_id (tgcl w)) + n < 2 ^ 31"

lemma send_query_eq:
  assumes "ids_left 1 w"
  shows "send_query f h w =
    w\<lparr>tgcl := (tgcl w)\<lparr>current_query_id := current_query_id (tgcl w) + 1,
                       handlers := (case h of None \<Rightarrow> handlers (tgcl w)
                         | Some hd' \<Rightarrow> map_emplace (handlers (tgcl w)) (current_query_id (tgcl w) + 1) hd')\<rparr>,
      sys := (sys w)\<lparr>sent := sent (sys w) @ [(client_id (tgcl w), current_query_id (tgcl w) + 1, f)]\<rparr>\<rparr>"
proof -
  have "request_id_of (ucast (current_query_id (tgcl w) + 1)) = current_query_id (tgcl w) + 1"
    using assms by (intro request_id_small) (simp add: ids_left_def unat_succ_small)
  then show ?thesis
    by (simp add: send_query_def next_query_id_def Let_def split: option.splits)
qed

section \<open>Invariants\<close>

text \<open>Every registered handler waits under the identifier of a request that was made.\<close>

definition handlers_inv :: "world \<Rightarrow> bool" where
  "handlers_inv w \<longleftrightarrow>
     (\<forall>k \<in> dom (handlers (tgcl w)). 1 \<le> unat k \<and> unat k \<le> unat (current_query_id (tgcl w)))"

text \<open>An authorization handler is only registered once there is an authorization state.\<close>

definition auth_inv :: "world \<Rightarrow> bool" where
  "auth_inv w \<longleftrightarrow>
     (\<forall>k n. handlers (tgcl w) k = Some (AuthHandler n) \<longrightarrow> auth_state (tgcl w) \<noteq> None)"

definition tg_inv :: "world \<Rightarrow> bool" where
  "tg_inv w \<longleftrightarrow> handlers_inv w \<and> auth_inv w \<and> app_inv (app_state (shared w))
     \<and> eq_inv (events (shared w))"

subsection \<open>Frames\<close>

lemma send_query_frame [simp, frame_simps]:
  "shared (send_query f h w) = shared w"
  "opts (send_query f h w) = opts w"
  "auth_state (tgcl (send_query f h w)) = auth_state (tgcl w)"
  "is_auth (tgcl (send_query f h w)) = is_auth (tgcl w)"
  "auth_query_id (tgcl (send_query f h w)) = auth_query_id (tgcl w)"
  "client_id (tgcl (send_query f h w)) = client_id (tgcl w)"
  "current_query_id (tgcl (send_query f h w)) = current_query_id (tgcl w) + 1"
  "getenv (sys (send_query f h w)) = getenv (sys w)"
  "cin (sys (send_query f h w)) = cin (sys w)"
  "cout (sys (send_query f h w)) = cout (sys w)"
  "next_client_id (sys (send_query f h w)) = next_client_id (sys w)"
  by (simp_all add: send_query_def next_query_id_def Let_def split: option.splits)

lemma world_frame [simp, frame_simps]:
  "tgcl (print_out t w) = tgcl w"
  "shared (print_out t w) = shared w"
  "opts (print_out t w) = opts w"
  "getenv (sys (print_out t w)) = getenv (sys w)"
  "cin (sys (print_out t w)) = cin (sys w)"
  "sent (sys (print_out t w)) = sent (sys w)"
  "tgcl (clear_logout_next w) = tgcl w"
  "shared (clear_logout_next w) = shared w"
  "sys (clear_logout_next w) = sys w"
  "logout_next (opts (clear_logout_next w)) = False"
  "use_test_dc (opts (clear_logout_next w)) = use_test_dc (opts w)"
  "tgcl (snd (read_word w)) = tgcl w"
  "shared (snd (read_word w)) = shared w"
  "opts (snd (read_word w)) = opts w"
  "getenv (sys (snd (read_word w))) = getenv (sys w)"
  "sent (sys (snd (read_word w))) = sent (sys w)"
  "tgcl (upd_tgcl g w) = g (tgcl w)"
  "shared (upd_tgcl g w) = shared w"
  "opts (upd_tgcl g w) = opts w"
  "sys (upd_tgcl g w) = sys w"
  "tgcl (upd_shared k w) = tgcl w"
  "shared (upd_shared k w) = k (shared w)"
  "opts (upd_shared k w) = opts w"
  "sys (upd_shared k w) = sys w"
  by (simp_all add: print_out_def clear_logout_next_def read_word_def upd_tgcl_def upd_shared_def
      split: list.splits)

subsection \<open>One request keeps the invariant\<close>

lemma tg_inv_frame:
  assumes "tgcl w' = tgcl w" and "shared w' = shared w"
  shows "tg_inv w' = tg_inv w"
  using assms by (simp add: tg_inv_def handlers_inv_def auth_inv_def)

lemma fresh_request:
  assumes "handlers_inv w" and "ids_left 1 w"
  shows "handlers (tgcl w) (current_query_id (tgcl w) + 1) = None"
proof (rule ccontr)
  assume "\<not> ?thesis"
  then have "current_query_id (tgcl w) + 1 \<in> dom (handlers (tgcl w))" by auto
  with assms(1) have "unat (current_query_id (tgcl w) + 1) \<le> unat (current_query_id (tgcl w))"
    unfolding handlers_inv_def by blast
  with assms(2) show False by (simp add: ids_left_def unat_succ_small)
qed

lemma handlers_send_query:
  assumes "handlers_inv w" and "ids_left 1 w"
  shows "handlers (tgcl (send_query f h w)) =
    (case h of None \<Rightarrow> handlers (tgcl w)
     | Some hd' \<Rightarrow> (handlers (tgcl w))(current_query_id (tgcl w) + 1 \<mapsto> hd'))"
  using assms fresh_request[OF assms] by (simp add: send_query_eq split: option.splits)

lemma handlers_inv_send_query [inv_intros]:
  assumes inv: "handlers_inv w" and ids: "ids_left 1 w"
  shows "handlers_inv (send_query f h w)"
  unfolding handlers_inv_def
proof
  fix k
  assume "k \<in> dom (handlers (tgcl (send_query f h w)))"
  then have "k \<in> dom (handlers (tgcl w)) \<or> k = current_query_id (tgcl w) + 1"
    by (auto simp: handlers_send_query[OF inv ids] split: option.splits if_splits)
  then show "1 \<le> unat k \<and> unat k \<le> unat (current_query_id (tgcl (send_query f h w)))"
  proof
    assume "k \<in> dom (handlers (tgcl w))"
    with inv have "1 \<le> unat k" "unat k \<le> unat (current_query_id (tgcl w))"
      unfolding handlers_inv_def by blast+
    with ids show ?thesis by (simp add: ids_left_def unat_succ_small)
  next
    assume "k = current_query_id (tgcl w) + 1"
    with ids show ?thesis by (simp add: ids_left_def unat_succ_small)
  qed
qed

lemma tg_inv_send_query [inv_intros]:
  assumes inv: "tg_inv w" and ids: "ids_left 1 w"
    and auth: "\<And>n. h = Some (AuthHandler n) \<Longrightarrow> auth_state (tgcl w) \<noteq> None"
  shows "tg_inv (send_query f h w)"
proof -
  have "auth_inv (send_query f h w)"
    using inv auth handlers_send_query[OF _ ids, of f h]
    by (auto simp: tg_inv_def auth_inv_def split: option.splits if_splits)
  with inv ids show ?thesis
    by (simp add: tg_inv_def handlers_inv_send_query)
qed

lemma tg_inv_upd_flags [simp]:
  "tg_inv (upd_tgcl (\<lambda>c. c\<lparr>is_auth := b\<rparr>) w) = tg_inv w"
  "tg_inv (upd_tgcl (\<lambda>c. c\<lparr>is_auth := b, need_restart := r\<rparr>) w) = tg_inv w"
  "tg_inv (upd_tgcl (\<lambda>c. c\<lparr>auth_query_id := f c\<rparr>) w) = tg_inv w"
  by (simp_all add: tg_inv_def handlers_inv_def auth_inv_def)

lemma tg_inv_drop_handler [simp]:
  "tg_inv w \<Longrightarrow> tg_inv (upd_tgcl (\<lambda>c. c\<lparr>handlers := (handlers c)(k := None)\<rparr>) w)"
  by (auto simp: tg_inv_def handlers_inv_def auth_inv_def)

lemma tg_inv_set_auth_state [simp]:
  "tg_inv w \<Longrightarrow> tg_inv (upd_tgcl (\<lambda>c. c\<lparr>auth_state := Some st\<rparr>) w)"
  by (auto simp: tg_inv_def handlers_inv_def auth_inv_def)

subsection \<open>The authorization dialogue keeps the invariant\<close>

definition env_ok :: "world \<Rightarrow> bool" where
  "env_ok w \<longleftrightarrow>
     (\<exists>t i h. getenv (sys w) ''TG_API_ID'' = Some t \<and> stoi t = Inr i
        \<and> getenv (sys w) ''TG_API_HASH'' = Some h)"

text \<open>What one step of the dialogue may do to the rest of the world.\<close>

definition dialogue_step :: "world \<Rightarrow> world \<Rightarrow> bool" where
  "dialogue_step w w' \<longleftrightarrow> tg_inv w' \<and> shared w' = shared w
     \<and> getenv (sys w') = getenv (sys w)
     \<and> current_query_id (tgcl w') \<in> {current_query_id (tgcl w), current_query_id (tgcl w) + 1}"

lemma dialogue_send:
  assumes "tg_inv w" and "ids_left 1 w" and "auth_state (tgcl w) \<noteq> None"
    and "tgcl w' = tgcl w" and "shared w' = shared w" and "getenv (sys w') = getenv (sys w)"
  shows "dialogue_step w (send_query f h w')"
proof -
  have "tg_inv w'" using assms tg_inv_frame[of w' w] by simp
  with assms have "tg_inv (send_query f h w')"
    by (intro tg_inv_send_query) (simp_all add: ids_left_def)
  with assms show ?thesis by (simp add: dialogue_step_def)
qed

lemma dialogue_stay:
  assumes "tg_inv w'" and "shared w' = shared w" and "getenv (sys w') = getenv (sys w)"
    and "current_query_id (tgcl w') = current_query_id (tgcl w)"
  shows "dialogue_step w w'"
  using assms by (simp add: dialogue_step_def)

lemma on_wait_other_device_frame:
  assumes "on_wait_other_device l w = Inr w'"
  shows "tgcl w' = tgcl w" "shared w' = shared w" "getenv (sys w') = getenv (sys w)"
  using assms by (auto simp: on_wait_other_device_def Let_def bind_r_eq_Inr)

text \<open>The login link is shown when some version of the code can hold it, and otherwise the generator throws.\<close>

lemma on_wait_other_device_outcome:
  "if text_fits l QUARTILE then \<exists>w'. on_wait_other_device l w = Inr w'
   else on_wait_other_device l w = Inl Qr_exception"
proof (cases "text_fits l QUARTILE")
  case True
  then obtain q out where "encodeText l QUARTILE = Inr q" "display q = Inr out" by (rule encodeText_display)
  with True show ?thesis by (simp add: on_wait_other_device_def qr_result_def Let_def)
next
  case False
  then obtain e where "encodeText l QUARTILE = Inl e" using encodeText_throws by blast
  with False show ?thesis by (simp add: on_wait_other_device_def qr_result_def Let_def)
qed

text \<open>The faults of the dialogue: a missing or unreadable credential, and a link that no code can hold.\<close>

definition auth_fault :: "authorization_state \<Rightarrow> world \<Rightarrow> fault option" where
  "auth_fault st w =
     (case st of
        WaitTdlibParameters \<Rightarrow>
          (case getenv (sys w) ''TG_API_ID'' of
             None \<Rightarrow> Some Null_deref
           | Some t \<Rightarrow> (case stoi t of
                         Inl e \<Rightarrow> Some e
                       | Inr _ \<Rightarrow> if getenv (sys w) ''TG_API_HASH'' = None then Some Null_deref else None))
      | WaitOtherDeviceConfirmation link \<Rightarrow> if text_fits link QUARTILE then None else Some Qr_exception
      | _ \<Rightarrow> None)"

lemma auth_fault_cong: "getenv (sys w') = getenv (sys w) \<Longrightarrow> auth_fault st w' = auth_fault st w"
  by (simp only: auth_fault_def)

lemma env_ok_parameters: "env_ok w \<Longrightarrow> auth_fault WaitTdlibParameters w = None"
  by (auto simp: env_ok_def auth_fault_def)

lemma process_auth_faults:
  assumes "auth_state (tgcl w0) = Some st" "auth_fault st w0 = Some e"
  shows "process_auth w0 = Inl e"
  using assms on_wait_other_device_outcome
  by (auto simp: process_auth_def auth_fault_def on_wait_tdlib_parameters_def getenv_string_def Let_def
      split: authorization_state.splits option.splits sum.splits if_splits)

lemma process_auth_step:
  assumes inv: "tg_inv w0" and ids: "ids_left 1 w0" and env: "auth_fault st w0 = None"
    and st: "auth_state (tgcl w0) = Some st"
  shows "\<exists>w'. process_auth w0 = Inr w' \<and> dialogue_step w0 w'"
proof -
  let ?w = "upd_tgcl (\<lambda>c. c\<lparr>auth_query_id := auth_query_id c + 1\<rparr>) w0"
  have w: "tg_inv ?w" "ids_left 1 ?w" "auth_state (tgcl ?w) \<noteq> None"
    using assms by (simp_all add: ids_left_def)
  have via: "dialogue_step w0 w'" if "dialogue_step ?w w'" for w'
    using that by (simp add: dialogue_step_def)
  note send = via[OF dialogue_send[OF w]]
  note stay = via[OF dialogue_stay]
  show ?thesis
  proof (cases st)
    case WaitTdlibParameters
    with st env show ?thesis
      by (auto simp: process_auth_def on_wait_tdlib_parameters_def getenv_string_def auth_fault_def
          Let_def intro!: send split: option.splits sum.splits if_splits)
  next
    case (WaitOtherDeviceConfirmation link)
    then obtain w' where w': "on_wait_other_device link ?w = Inr w'"
      using env on_wait_other_device_outcome[of link ?w] by (auto simp: auth_fault_def split: if_splits)
    note f = on_wait_other_device_frame[OF w']
    have "tg_inv w'" using tg_inv_frame[OF f(1,2)] w(1) by simp
    then have "dialogue_step w0 w'" by (rule stay) (simp_all add: f)
    with WaitOtherDeviceConfirmation st w' show ?thesis by (simp add: process_auth_def)
  qed (use st w in \<open>auto simp: process_auth_def on_wait_phone_number_def ask_and_send_def
        on_wait_registration_def on_ready_def Let_def case_prod_beta intro!: send stay\<close>)
qed

subsection \<open>Responses\<close>

text \<open>
  What \<^verbatim>\<open>td_api.tl\<close> says of chat lists: a chat is announced once and before its identifier is used, and
  it is added to lists it is not in.
\<close>

fun announcements_ok :: "td_object \<Rightarrow> world \<Rightarrow> bool" where
  "announcements_ok (Update (UpdateNewChat ch)) w = announces_new (app_state (shared w)) (chat_id ch)"
| "announcements_ok (Update (UpdateChatAddedToList c l)) w = adds_unlisted (app_state (shared w)) c l"
| "announcements_ok _ w = True"

definition response_ok :: "response \<Rightarrow> world \<Rightarrow> bool" where
  "response_ok r w =
     (case resp_object r of
        None \<Rightarrow> True
      | Some ob \<Rightarrow> resp_request_id r = 0 \<longrightarrow> announcements_ok ob w)"

text \<open>
  The responses that fault, and how: besides those of the dialogue, a last message for an unknown
  chat, and a history answer that counts messages but holds none, or holds a null message.
\<close>

fun update_fault :: "td_object \<Rightarrow> world \<Rightarrow> fault option" where
  "update_fault (Update (UpdateAuthorizationState st)) w = auth_fault st w"
| "update_fault (Update (UpdateChatLastMessage c m ps)) w =
     (if id_to_chat (app_state (shared w)) c = None then Some Null_deref else None)"
| "update_fault _ w = None"

fun history_fault :: "td_object \<Rightarrow> fault option" where
  "history_fault (Messages n ms) =
     (if n = 0 then None else if ms = [] then Some Out_of_range
      else if None \<in> set ms then Some Null_deref else None)"
| "history_fault _ = None"

definition handler_fault :: "handler \<Rightarrow> td_object \<Rightarrow> world \<Rightarrow> fault option" where
  "handler_fault h ob w =
     (case h of
        AuthHandler n \<Rightarrow> if n = auth_query_id (tgcl w) \<and> is_error ob
                        then auth_fault (the (auth_state (tgcl w))) w else None
      | ChatHistoryHandler \<Rightarrow> history_fault ob)"

definition response_fault :: "response \<Rightarrow> world \<Rightarrow> fault option" where
  "response_fault r w =
     (case resp_object r of
        None \<Rightarrow> None
      | Some ob \<Rightarrow>
          if is_update_option ob then None
          else if resp_request_id r = 0 then update_fault ob w
          else case handlers (tgcl w) (resp_request_id r) of
                 None \<Rightarrow> None | Some h \<Rightarrow> handler_fault h ob w)"

definition step_ok :: "world \<Rightarrow> world \<Rightarrow> bool" where
  "step_ok w w' \<longleftrightarrow> tg_inv w' \<and> getenv (sys w') = getenv (sys w)
     \<and> current_query_id (tgcl w') \<in> {current_query_id (tgcl w), current_query_id (tgcl w) + 1}"

lemma step_ok_refl [simp]: "tg_inv w \<Longrightarrow> step_ok w w"
  by (simp add: step_ok_def)

lemma dialogue_step_ok: "dialogue_step w w' \<Longrightarrow> step_ok w w'"
  by (simp add: dialogue_step_def step_ok_def)

lemma step_ok_upd_shared:
  assumes "tg_inv w" and "app_inv (app_state (f (shared w)))" and "eq_inv (events (f (shared w)))"
  shows "step_ok w (upd_shared f w)"
  using assms by (simp add: step_ok_def tg_inv_def handlers_inv_def auth_inv_def)

lemma step_ok_upd_shared_r:
  assumes "tg_inv w" and "f (shared w) = Inr s" and "app_inv (app_state s)" and "eq_inv (events s)"
  shows "\<exists>w'. upd_shared_r f w = Inr w' \<and> step_ok w w'"
  using assms by (simp add: upd_shared_r_def step_ok_def tg_inv_def handlers_inv_def auth_inv_def)

text \<open>The handlers that only store an object.\<close>

lemmas store_handlers =
  process_update_user_def process_update_user_full_info_def process_update_basicgroup_def
  process_update_basicgroup_full_info_def process_update_supergroup_def
  process_update_supergroup_full_info_def

lemma app_inv_store [simp]:
  "app_inv (st\<lparr>id_to_user := a\<rparr>) = app_inv st"
  "app_inv (st\<lparr>id_to_user_full_info := b\<rparr>) = app_inv st"
  "app_inv (st\<lparr>id_to_basicgroup := c\<rparr>) = app_inv st"
  "app_inv (st\<lparr>id_to_basicgroup_full_info := d\<rparr>) = app_inv st"
  "app_inv (st\<lparr>id_to_supergroup := e\<rparr>) = app_inv st"
  "app_inv (st\<lparr>id_to_supergroup_full_info := f\<rparr>) = app_inv st"
  by (simp_all add: app_inv_def chat_lists_ok_def chats_known_def messages_ok_def
      position_set_def position_map_def messages_of_def)

lemma handler_events [simp]:
  "events (process_update_new_chat ch s) = push event_chatlist (events s)"
  "events (process_update_chat_added_to_list c l s) = push event_chatlist (events s)"
  "events (process_update_chat_position c p s) = push event_chatlist (events s)"
  by (simp_all add: process_update_new_chat_def process_update_chat_added_to_list_def
      process_update_chat_position_def Let_def)

lemma last_message_returns:
  assumes "id_to_chat (app_state s) c \<noteq> None"
  shows "\<exists>s'. process_update_chat_last_message c m ps s = Inr s'
    \<and> events s' = push event_chatlist (events s)"
  using assms by (auto simp: process_update_chat_last_message_def Let_def)

lemma process_update_faults:
  "update_fault ob w = Some e \<Longrightarrow> process_update ob w = Inl e"
  using process_auth_faults[of "upd_tgcl (\<lambda>c. c\<lparr>auth_state := Some st\<rparr>) w" st e for st]
    auth_fault_cong[of "upd_tgcl (\<lambda>c. c\<lparr>auth_state := Some st\<rparr>) w" w st for st]
  by (cases "(ob, w)" rule: update_fault.cases)
    (auto simp: upd_shared_r_def process_update_chat_last_message_def Let_def split: if_splits)

lemma process_update_step:
  assumes inv: "tg_inv w" and ids: "ids_left 1 w" and fault: "update_fault ob w = None"
  shows "\<exists>w'. process_update ob w = Inr w' \<and> getenv (sys w') = getenv (sys w)
    \<and> (announcements_ok ob w \<longrightarrow> step_ok w w')"
proof -
  have app: "app_inv (app_state (shared w))" and eq: "eq_inv (events (shared w))"
    using inv by (simp_all add: tg_inv_def)
  note upd = step_ok_upd_shared[OF inv]
  show ?thesis
  proof (cases ob)
    case (Update u)
    show ?thesis
    proof (cases u)
      case (UpdateAuthorizationState st)
      let ?w = "upd_tgcl (\<lambda>c. c\<lparr>auth_state := Some st\<rparr>) w"
      have "auth_fault st ?w = None"
        using fault Update UpdateAuthorizationState auth_fault_cong[of ?w w st] by simp
      from process_auth_step[of ?w st, OF _ _ this] inv ids
      obtain w' where "process_auth ?w = Inr w'" "dialogue_step ?w w'"
        by (auto simp: ids_left_def)
      with Update UpdateAuthorizationState show ?thesis
        by (auto simp: dialogue_step_def step_ok_def)
    next
      case (UpdateNewChat ch)
      with Update app_inv_new_chat[OF app] eq show ?thesis
        by (simp add: upd)
    next
      case (UpdateChatAddedToList c l)
      with Update app_inv_added_to_list[OF app] eq show ?thesis
        by (simp add: upd)
    next
      case (UpdateChatPosition c p)
      with Update app_inv_chat_position[OF app] eq show ?thesis
        by (simp add: upd)
    next
      case (UpdateChatLastMessage c m ps)
      with Update fault last_message_returns[of "shared w" c m ps] obtain s' where
        s': "process_update_chat_last_message c m ps (shared w) = Inr s'"
          "events s' = push event_chatlist (events (shared w))" by (auto split: if_splits)
      from step_ok_upd_shared_r[where f = "process_update_chat_last_message c m ps", OF inv s'(1)]
        app_inv_last_message[OF app s'(1)] s'(2) eq Update UpdateChatLastMessage
      show ?thesis by (auto simp: step_ok_def)
    qed (use Update app eq inv in \<open>simp_all add: upd store_handlers\<close>)
  qed (use inv in simp_all)
qed

lemma history_step:
  assumes inv: "tg_inv w" and ok: "history_fault (Messages n ms) = None"
  shows "\<exists>w'. upd_shared_r (process_get_chat_history n ms) w = Inr w' \<and> step_ok w w'"
proof -
  have "\<exists>s'. process_get_chat_history n ms (shared w) = Inr s'"
  proof (cases "n = 0")
    case True
    then show ?thesis by (simp add: process_get_chat_history_def)
  next
    case False
    with ok obtain x xs where "ms = x # xs" "None \<notin> set (x # xs)" by (cases ms) (auto split: if_splits)
    with history_returns[OF _ False] show ?thesis by blast
  qed
  then obtain s' where s': "process_get_chat_history n ms (shared w) = Inr s'" by blast
  moreover have "eq_inv (events s')"
    using s' inv by (auto simp: process_get_chat_history_def tg_inv_def bind_r_eq_Inr
        split: if_splits list.splits option.splits)
  moreover have "app_inv (app_state s')"
    using app_inv_get_chat_history[OF _ s'] inv by (simp add: tg_inv_def)
  ultimately show ?thesis
    by (intro step_ok_upd_shared_r[OF inv])
qed

lemma run_handler_faults:
  assumes "tg_inv w" "handlers (tgcl w) k = Some h" "handler_fault h ob w = Some e"
  shows "run_handler h ob w = Inl e"
proof (cases h)
  case (AuthHandler n)
  then obtain st where "auth_state (tgcl w) = Some st"
    using assms(1,2) by (fastforce simp: tg_inv_def auth_inv_def)
  with AuthHandler assms(3) process_auth_faults[of w st e] show ?thesis
    by (auto simp: run_handler_def handler_fault_def split: if_splits)
next
  case ChatHistoryHandler
  then have f: "history_fault ob = Some e" using assms(3) by (simp add: handler_fault_def)
  then obtain n ms where ob: "ob = Messages n ms" by (cases ob) simp_all
  with f have "process_get_chat_history n ms (shared w) = Inl e"
    unfolding history_faults by (auto split: if_splits)
  with ChatHistoryHandler ob show ?thesis by (simp add: run_handler_def upd_shared_r_def)
qed

lemma run_handler_step:
  assumes inv: "tg_inv w" and ids: "ids_left 1 w" and fault: "handler_fault h ob w = None"
    and h: "handlers (tgcl w) k = Some h"
  shows "\<exists>w'. run_handler h ob w = Inr w' \<and> step_ok w w'"
proof (cases h)
  case (AuthHandler n)
  then obtain st where "auth_state (tgcl w) = Some st"
    using inv h by (fastforce simp: tg_inv_def auth_inv_def)
  with AuthHandler fault process_auth_step[OF inv ids] inv show ?thesis
    by (auto simp: run_handler_def handler_fault_def intro: dialogue_step_ok split: if_splits)
next
  case ChatHistoryHandler
  with inv fault history_step[OF inv] show ?thesis
    by (cases ob) (auto simp: run_handler_def handler_fault_def)
qed

lemma process_response_faults:
  assumes "tg_inv w" "response_fault r w = Some e"
  shows "process_response r w = Inl e"
  using assms process_update_faults[of _ w e] run_handler_faults[OF assms(1)]
  by (auto simp: process_response_def response_fault_def split: option.splits if_splits)

lemma process_response_step:
  assumes inv: "tg_inv w" and ids: "ids_left 1 w" and fault: "response_fault r w = None"
  shows "\<exists>w'. process_response r w = Inr w' \<and> getenv (sys w') = getenv (sys w)
    \<and> (response_ok r w \<longrightarrow> step_ok w w')"
proof (cases "resp_object r")
  case None
  with inv show ?thesis by (simp add: process_response_def)
next
  case (Some ob)
  show ?thesis
  proof (cases "is_update_option ob \<or> resp_request_id r = 0")
    case True
    with Some inv fault process_update_step[OF inv ids, of ob] show ?thesis
      by (auto simp: process_response_def response_ok_def response_fault_def)
  next
    case False
    then show ?thesis
    proof (cases "handlers (tgcl w) (resp_request_id r)")
      case None
      with Some False inv show ?thesis by (simp add: process_response_def)
    next
      case (Some h)
      from \<open>resp_object r = Some ob\<close> False fault Some have "handler_fault h ob w = None"
        by (simp add: response_fault_def)
      from run_handler_step[OF inv ids this Some] obtain w' where
        "run_handler h ob w = Inr w'" "step_ok w w'" by blast
      with Some False \<open>resp_object r = Some ob\<close> show ?thesis
        by (auto simp: process_response_def step_ok_def)
    qed
  qed
qed

section \<open>Properties\<close>

text \<open>
  C5: The outcome of one response, whatever TDLib sends. In a state that satisfies the client's
  invariant (the two representations of every chat list agree, listed chats are known, message sets
  are ordered, the event queue is well formed, handlers wait under issued identifiers) and while the
  request counter is below its signed limit, processing the response faults exactly when
  \<open>response_fault\<close> says so: missing or unreadable API credentials, a login link that no QR code can
  hold at the level asked for, a last message for an unknown chat, a history answer that counts
  messages but is empty or holds a null message. In every other case it returns, and the invariant
  holds afterwards provided that a new chat is new and a chat added to a list is not in it yet.
\<close>

theorem process_response_outcome:
  assumes "tg_inv w" and "ids_left 1 w"
  shows "case process_response r w of
      Inl e \<Rightarrow> response_fault r w = Some e
    | Inr w' \<Rightarrow> response_fault r w = None \<and> getenv (sys w') = getenv (sys w)
        \<and> (response_ok r w \<longrightarrow> tg_inv w')"
proof (cases "response_fault r w")
  case (Some e)
  with process_response_faults[OF assms(1)] show ?thesis by simp
next
  case None
  from process_response_step[OF assms this] None show ?thesis by (auto simp: step_ok_def)
qed

definition example_environment :: environment where
  "example_environment =
     \<lparr>cin = [''4915550'', ''12345''], cout = [],
      getenv = [''TG_API_ID'' \<mapsto> ''42'', ''TG_API_HASH'' \<mapsto> ''h''], sent = [],
      next_client_id = 1, garbage_pane = 0, garbage_terminating = False\<rparr>"

text \<open>The state of the process when \<^verbatim>\<open>main\<close> declares the client.\<close>

definition start_world :: "options \<Rightarrow> environment \<Rightarrow> world" where
  "start_world o' e = new_tg_client
     \<lparr>tgcl = \<lparr>client_id = 0, auth_state = None, is_auth = False, need_restart = False,
              current_query_id = 0, auth_query_id = 0, handlers = Map.empty\<rparr>,
      shared = \<lparr>app_state = new_app_state 0 False, events = empty_event_queue\<rparr>,
      opts = o', sys = e\<rparr>"

lemma app_inv_new [simp]: "app_inv (new_app_state p t)"
  by (simp add: app_inv_def chats_known_def messages_ok_def)
    (simp add: new_app_state_def position_map_def messages_of_def)

lemma tg_inv_start [simp]: "tg_inv (start_world o' e)"
  by (simp add: start_world_def new_tg_client_def Let_def tg_inv_def handlers_inv_def auth_inv_def)
    (simp add: send_query_def next_query_id_def Let_def)

lemma env_ok_example: "env_ok (start_world o' example_environment)"
  unfolding env_ok_def
  by (simp add: start_world_def new_tg_client_def Let_def example_environment_def)
    (simp add: stoi_def is_space_def is_digit_def digits_value_def)

lemma ids_left_start: "n < 2 ^ 31 - 1 \<Longrightarrow> ids_left n (start_world o' e)"
  by (simp add: ids_left_def start_world_def new_tg_client_def Let_def)

theorem process_response_outcome_witness:
  "\<exists>w'. process_response
       \<lparr>resp_request_id = 0, resp_object = Some (Update (UpdateAuthorizationState
          (WaitOtherDeviceConfirmation ''tg://login?token=Z'')))\<rparr>
       (start_world \<lparr>use_test_dc = False, logout_next = False, debug_attach = False\<rparr>
          example_environment) = Inr w' \<and> tg_inv w'"
proof -
  have "length (c_str ''tg://login?token=Z'') \<le> 1663" by (simp add: c_str_def)
  from short_text_fits[OF this]
    process_response_outcome[OF tg_inv_start ids_left_start[of 1], of
      "\<lparr>resp_request_id = 0, resp_object = Some (Update (UpdateAuthorizationState
          (WaitOtherDeviceConfirmation ''tg://login?token=Z'')))\<rparr>"
      "\<lparr>use_test_dc = False, logout_next = False, debug_attach = False\<rparr>" example_environment]
  show ?thesis
    by (auto simp: response_fault_def response_ok_def auth_fault_def is_update_option_def split: sum.splits)
qed

text \<open>Every link of at most 1663 bytes is shown: the code goes to the output between the request to scan
  it and the link itself.\<close>

theorem login_link_shown:
  assumes "length (c_str link) \<le> 1663"
  shows "\<exists>q out w'. encodeText link QUARTILE = Inr q \<and> display q = Inr out
    \<and> on_wait_other_device link w = Inr w'
    \<and> cout (sys w') = cout (sys w) @ [Text ''Scan QR with an active Telegram session '', Printed_code out,
                                       Text (''login link: '' @ link)]"
proof -
  obtain q out where "encodeText link QUARTILE = Inr q" "display q = Inr out"
    by (rule encodeText_display[OF short_text_fits[OF assms]])
  then show ?thesis
    by (simp add: on_wait_other_device_def qr_result_def Let_def print_out_def)
qed

theorem login_link_shown_witness:
  "\<exists>w'. on_wait_other_device ''tg://login?token=Z''
      (start_world \<lparr>use_test_dc = False, logout_next = False, debug_attach = False\<rparr> example_environment) = Inr w'"
  using login_link_shown[of "''tg://login?token=Z''"] by (fastforce simp: c_str_def)

text \<open>
  A request made while the counter is below its signed limit goes out under the identifier
  one above the counter, which is not zero and under which no handler waits; the handler given
  with it, and nothing else, is registered under that identifier.
\<close>

theorem send_query_fresh:
  assumes "handlers_inv w" and "ids_left 1 w"
  shows "sent (sys (send_query f (Some h) w)) =
      sent (sys w) @ [(client_id (tgcl w), current_query_id (tgcl w) + 1, f)]
    \<and> current_query_id (tgcl w) + 1 \<noteq> 0
    \<and> handlers (tgcl w) (current_query_id (tgcl w) + 1) = None
    \<and> handlers (tgcl (send_query f (Some h) w)) =
        (handlers (tgcl w))(current_query_id (tgcl w) + 1 \<mapsto> h)
    \<and> handlers_inv (send_query f (Some h) w)"
proof -
  have "unat (current_query_id (tgcl w) + 1) \<noteq> 0"
    using assms(2) by (simp add: ids_left_def unat_succ_small)
  then have "current_query_id (tgcl w) + 1 \<noteq> 0"
    using unat_0 by metis
  moreover have "sent (sys (send_query f (Some h) w)) =
      sent (sys w) @ [(client_id (tgcl w), current_query_id (tgcl w) + 1, f)]"
    using send_query_eq[OF assms(2), of f "Some h"] by simp
  ultimately show ?thesis
    using fresh_request[OF assms] handlers_send_query[OF assms, of f "Some h"]
      handlers_inv_send_query[OF assms] by (intro conjI) simp_all
qed

theorem send_query_fresh_witness:
  "handlers (tgcl (send_query LogOut (Some ChatHistoryHandler)
     (start_world \<lparr>use_test_dc = False, logout_next = False, debug_attach = False\<rparr>
        example_environment))) 2 = Some ChatHistoryHandler"
proof -
  let ?w = "start_world \<lparr>use_test_dc = False, logout_next = False, debug_attach = False\<rparr>
      example_environment"
  have "handlers_inv ?w" using tg_inv_start by (simp add: tg_inv_def)
  moreover have "current_query_id (tgcl ?w) + 1 = 2"
    by (simp add: start_world_def new_tg_client_def Let_def)
  ultimately show ?thesis
    using send_query_fresh[of ?w LogOut ChatHistoryHandler] ids_left_start[of 1] by simp
qed

text \<open>
  The identifier under which a request is sent is zero, which \<^verbatim>\<open>ClientManager::send\<close> forbids,
  exactly when the new counter value is a multiple of 2^32: the 32-bit return type of
  \<^verbatim>\<open>next_query_id\<close> cuts the 64-bit counter.
\<close>

theorem sent_id_zero_iff:
  "fst (snd (last (sent (sys (send_query f h w))))) = 0
     \<longleftrightarrow> 2 ^ 32 dvd uint (current_query_id (tgcl w) + 1)"
proof -
  have "last (sent (sys (send_query f h w))) =
      (client_id (tgcl w), request_id_of (ucast (current_query_id (tgcl w) + 1)), f)"
    by (simp add: send_query_def next_query_id_def Let_def split: option.splits)
  then show ?thesis by (simp add: request_id_zero_iff)
qed

text \<open>
  A response to a registered request runs its handler once: if the response is processed,
  then the handler was run on the object, afterwards no handler waits under the identifier, and
  the same response processed again changes nothing.
\<close>

theorem handler_runs_once:
  assumes "handlers (tgcl w) k = Some h" and "k \<noteq> 0" and "\<not> is_update_option ob"
    and "process_response \<lparr>resp_request_id = k, resp_object = Some ob\<rparr> w = Inr w'"
  shows "(\<exists>w1. run_handler h ob w = Inr w1
           \<and> w' = upd_tgcl (\<lambda>c. c\<lparr>handlers := (handlers c)(k := None)\<rparr>) w1)
    \<and> handlers (tgcl w') k = None
    \<and> process_response \<lparr>resp_request_id = k, resp_object = Some ob\<rparr> w' = Inr w'"
  using assms by (auto simp: process_response_def)

theorem handler_runs_once_witness:
  "\<exists>w'. process_response \<lparr>resp_request_id = 2, resp_object = Some (Error 420 ''FLOOD_WAIT'')\<rparr>
     (send_query (GetChatHistory 7 0 0 100 False) (Some ChatHistoryHandler)
       (start_world \<lparr>use_test_dc = False, logout_next = False, debug_attach = False\<rparr>
         example_environment)) = Inr w' \<and> handlers (tgcl w') 2 = None"
proof -
  let ?w = "send_query (GetChatHistory 7 0 0 100 False) (Some ChatHistoryHandler)
      (start_world \<lparr>use_test_dc = False, logout_next = False, debug_attach = False\<rparr>
         example_environment)"
  let ?r = "\<lparr>resp_request_id = (2::u64), resp_object = Some (Error 420 ''FLOOD_WAIT'')\<rparr>"
  have h: "handlers (tgcl ?w) 2 = Some ChatHistoryHandler"
    by (simp add: send_query_def start_world_def new_tg_client_def Let_def next_query_id_def
        request_id_of_def)
  then obtain w' where w': "process_response ?r ?w = Inr w'"
    by (auto simp: process_response_def is_update_option_def run_handler_def)
  from handler_runs_once[OF h _ _ w'] w' show ?thesis
    by (auto simp: is_update_option_def)
qed

lemma send_query_is_auth: "is_auth (tgcl (send_query f h w)) = is_auth (tgcl w)"
  by simp

lemma process_auth_becomes_ready:
  assumes "process_auth w = Inr w'" and "\<not> is_auth (tgcl w)" and "is_auth (tgcl w')"
  shows "auth_state (tgcl w') = Some Ready \<and> \<not> logout_next (opts w')
    \<and> need_restart (tgcl w') = need_restart (tgcl w)"
  using assms
  by (auto simp: process_auth_def Let_def on_wait_tdlib_parameters_def on_wait_phone_number_def
      ask_and_send_def on_wait_registration_def on_ready_def on_wait_other_device_def
      case_prod_beta bind_r_eq_Inr split: option.splits authorization_state.splits if_splits)

lemma upd_shared_r_frame:
  "upd_shared_r f w = Inr w' \<Longrightarrow> tgcl w' = tgcl w \<and> opts w' = opts w"
  by (auto simp: upd_shared_r_def)

lemma process_update_becomes_ready:
  assumes "process_update ob w = Inr w'" and "\<not> is_auth (tgcl w)" and "is_auth (tgcl w')"
  shows "auth_state (tgcl w') = Some Ready \<and> \<not> logout_next (opts w')
    \<and> need_restart (tgcl w') = need_restart (tgcl w)"
proof (cases "\<exists>st. ob = Update (UpdateAuthorizationState st)")
  case True
  with assms process_auth_becomes_ready show ?thesis by fastforce
next
  case False
  then have "tgcl w' = tgcl w"
    using assms(1) by (cases "(ob, w)" rule: process_update.cases)
      (auto dest: upd_shared_r_frame)
  with assms(2,3) show ?thesis by simp
qed

lemma run_handler_becomes_ready:
  assumes "run_handler h ob w = Inr w'" and "\<not> is_auth (tgcl w)" and "is_auth (tgcl w')"
  shows "auth_state (tgcl w') = Some Ready \<and> \<not> logout_next (opts w')
    \<and> need_restart (tgcl w') = need_restart (tgcl w)"
  using assms process_auth_becomes_ready[of w w']
  by (auto simp: run_handler_def dest: upd_shared_r_frame
      split: handler.splits td_object.splits if_splits)

lemma process_response_becomes_ready:
  assumes "process_response r w = Inr w'" and "\<not> is_auth (tgcl w)" and "is_auth (tgcl w')"
  shows "auth_state (tgcl w') = Some Ready \<and> \<not> logout_next (opts w')
    \<and> need_restart (tgcl w') = need_restart (tgcl w)"
proof (cases "resp_object r")
  case None
  with assms show ?thesis by (simp add: process_response_def)
next
  case (Some ob)
  with assms process_update_becomes_ready[of ob w w'] show ?thesis
    by (auto simp: process_response_def split: if_splits option.splits
        elim!: bind_r_InrE dest!: run_handler_becomes_ready)
qed

lemma is_auth_restart [simp]: "is_auth (tgcl (restart w)) = False"
  by (simp add: restart_def print_out_def new_tg_client_def Let_def)

text \<open>
  \<^verbatim>\<open>init_auth\<close> returns only when the account is ready: if it is entered without authorization
  and returns, then TDLib's last authorization state was \<open>Ready\<close>, no logout is pending and no
  restart is due.
\<close>

theorem init_auth_returns_ready:
  assumes "init_auth rs w = Inr (Some (w', rest))" and "\<not> is_auth (tgcl w)"
  shows "is_auth (tgcl w') \<and> auth_state (tgcl w') = Some Ready \<and> \<not> logout_next (opts w')
    \<and> \<not> need_restart (tgcl w')"
  using assms
proof (induction rs w rule: init_auth.induct)
  case (1 rs w)
  show ?case
  proof (cases "need_restart (tgcl w)")
    case True
    with 1 show ?thesis by (simp add: init_auth.simps[of rs w])
  next
    case False
    with "1.prems" obtain r rs' w1 where r: "rs = r # rs'" "process_response r w = Inr w1"
      and rec: "init_auth rs' w1 = Inr (Some (w', rest))"
      by (auto simp: init_auth.simps[of rs w] split: list.splits sum.splits)
    show ?thesis
    proof (cases "is_auth (tgcl w1)")
      case True
      with process_response_becomes_ready[OF r(2)] "1.prems"(2) False rec show ?thesis
        by (auto simp: init_auth.simps[of rs' w1] split: if_splits)
    next
      case not_auth: False
      from "1.IH"(2)[OF False _ r rec not_auth] "1.prems"(2) show ?thesis by simp
    qed
  qed
qed

end
