(* ===== verification/Process_Input.thy ===== *)
theory Process_Input
  imports Layout Tg_Client
begin

text \<open>
  Keyboard and mouse input (\<^verbatim>\<open>src/process_input.h\<close>, \<^verbatim>\<open>src/process_input.cc\<close>): resizing by dragging
  the borders, the focus, the cursors and scroll offsets of the panes, and choosing a chat. Logging
  is not modelled.
\<close>

section \<open>State\<close>

definition S_NONE :: int where "S_NONE = 0"
definition S_MOUSE_DRAG :: int where "S_MOUSE_DRAG = 1"
definition S_KEY_PREF :: int where "S_KEY_PREF = 2"

lemmas S_defs = S_NONE_def S_MOUSE_DRAG_def S_KEY_PREF_def

text \<open>\<^verbatim>\<open>input_state_str\<close>; \<^verbatim>\<open>mbuf.edge\<close> and \<^verbatim>\<open>mbuf.where\<close> are \<open>mbuf_edge\<close> and \<open>mbuf_where\<close>.\<close>

record input_state_str =
  in_state :: int
  mbuf_edge :: bool
  mbuf_where :: int
  pref_key :: int

definition initial_input_state :: input_state_str where
  "initial_input_state = \<lparr>in_state = S_NONE, mbuf_edge = False, mbuf_where = 0, pref_key = 0\<rparr>"

definition reset :: "input_state_str \<Rightarrow> input_state_str" where
  "reset s = s\<lparr>in_state := S_NONE\<rparr>"

text \<open>
  \<^verbatim>\<open>MEVENT\<close> as far as it is used: the position and whether \<^verbatim>\<open>bstate\<close> has the bits \<^verbatim>\<open>BUTTON1_PRESSED\<close>,
  \<^verbatim>\<open>BUTTON1_RELEASED\<close> and \<^verbatim>\<open>REPORT_MOUSE_POSITION\<close>.
\<close>

record mevent =
  ev_y :: int
  ev_x :: int
  button1_pressed :: bool
  button1_released :: bool
  report_mouse_position :: bool

text \<open>
  The result of \<^verbatim>\<open>getch\<close>: \<^verbatim>\<open>KEY_MOUSE\<close> with the event \<^verbatim>\<open>getmouse\<close> then yields (\<open>None\<close> when it does
  not return \<^verbatim>\<open>OK\<close>), \<^verbatim>\<open>KEY_RESIZE\<close>, \<^verbatim>\<open>ERR\<close> when no input waits, and any other code.
\<close>

datatype key = KEY_MOUSE "mevent option" | KEY_RESIZE | ERR | Code int

abbreviation Key :: "char \<Rightarrow> key" where
  "Key c \<equiv> Code (of_char c)"

definition CTRL_q :: key where "CTRL_q = Code 17"
definition TAB :: key where "TAB = Code 9"

text \<open>Everything the user-interface thread works on; \<open>cont\<close> is the loop variable of \<^verbatim>\<open>main\<close>.\<close>

record machine =
  wd :: world
  scr :: screen
  input_state :: input_state_str
  cont :: bool

definition app :: "machine \<Rightarrow> tl_app_state" where
  "app m = app_state (shared (wd m))"

definition on_app :: "(tl_app_state \<Rightarrow> tl_app_state) \<Rightarrow> machine \<Rightarrow> machine" where
  "on_app f m = m\<lparr>wd := upd_shared (upd_app f) (wd m)\<rparr>"

definition on_scr :: "(screen \<Rightarrow> screen result) \<Rightarrow> machine \<Rightarrow> machine result" where
  "on_scr f m = bind_r (f (scr m)) (\<lambda>s. Inr (m\<lparr>scr := s\<rparr>))"

definition on_input :: "(input_state_str \<Rightarrow> input_state_str) \<Rightarrow> machine \<Rightarrow> machine" where
  "on_input f m = m\<lparr>input_state := f (input_state m)\<rparr>"

definition set_scroll :: "int \<Rightarrow> u64 \<Rightarrow> tl_app_state \<Rightarrow> tl_app_state" where
  "set_scroll pan v st = st\<lparr>scroll_offset := (scroll_offset st)(pan \<mapsto> v)\<rparr>"

definition set_cursor :: "int \<Rightarrow> int \<times> int \<Rightarrow> machine \<Rightarrow> machine" where
  "set_cursor pan p m = m\<lparr>scr := (scr m)\<lparr>cursor_positions := (cursor_positions (scr m))(pan \<mapsto> p)\<rparr>\<rparr>"

section \<open>Mouse\<close>

definition process_B1_pressed :: "screen \<Rightarrow> mevent \<Rightarrow> input_state_str \<Rightarrow> input_state_str" where
  "process_B1_pressed sc ev s =
     (let (edge, at) =
        (if ev_y ev < LINES sc - composer_h sc - 1 then
           (if ev_x ev < side_w sc then (False, ID_SIDE)
            else if ev_x ev > side_w sc then (False, ID_MAIN)
            else (True, ID_E_SIDE_MAIN))
         else if ev_y ev > LINES sc - composer_h sc - 1 then (False, ID_COMP)
         else (True, if ev_x ev = side_w sc then ID_C_SIDE_MAIN_COMP else ID_E_COMP_TOP));
          s' = s\<lparr>mbuf_edge := edge, mbuf_where := at\<rparr>
      in if edge then s'\<lparr>in_state := S_MOUSE_DRAG\<rparr> else reset s')"

text \<open>Hide the cursor, resize, refresh and show the cursor: the same calls in three places.\<close>

definition resize_and_refresh :: "curses_api \<Rightarrow> tl_app_state \<Rightarrow> int \<Rightarrow> int \<Rightarrow> screen \<Rightarrow> screen result" where
  "resize_and_refresh api st w h sc =
     bind_r (resize api st w h (curs_set 0 sc)) (\<lambda>s1.
     bind_r (update_panels s1) (\<lambda>s2.
     bind_r (draw_cursor s2) (\<lambda>s3.
       Inr (curs_set 1 (doupdate s3)))))"

text \<open>The sizes a drag of the border \<open>at\<close> to a position asks for.\<close>

definition dragged_sizes :: "screen \<Rightarrow> int \<Rightarrow> mevent \<Rightarrow> int \<times> int" where
  "dragged_sizes sc at ev =
     (if at AND ID_E_SIDE_MAIN \<noteq> 0 then ev_x ev else side_w sc,
      if at AND ID_E_COMP_TOP \<noteq> 0 then LINES sc - ev_y ev - 1 else composer_h sc)"

definition process_mouse :: "curses_api \<Rightarrow> mevent \<Rightarrow> machine \<Rightarrow> machine result" where
  "process_mouse api ev m =
     (if button1_pressed ev then Inr (on_input (process_B1_pressed (scr m) ev) m)
      else if button1_released ev then Inr (on_input reset m)
      else if report_mouse_position ev then
        (if in_state (input_state m) = S_MOUSE_DRAG
         then (let (w, h) = dragged_sizes (scr m) (mbuf_where (input_state m)) ev
               in on_scr (resize_and_refresh api (app m) w h) m)
         else Inr m)
      else Inr m)"

section \<open>Keys\<close>

definition cycle_panel :: "machine \<Rightarrow> machine result" where
  "cycle_panel m =
     (let p = push_bit 1 (current_pan (scr m));
          p' = (if p > ID_COMP then 1 else p)
      in on_scr (\<lambda>s. bind_r (draw_cursor s) (\<lambda>s1. Inr (doupdate s1)))
           (m\<lparr>scr := (scr m)\<lparr>current_pan := p'\<rparr>\<rparr>))"

text \<open>The first \<^verbatim>\<open>switch\<close> of \<^verbatim>\<open>process_input\<close>.\<close>

definition process_common :: "curses_api \<Rightarrow> key \<Rightarrow> machine \<Rightarrow> machine result" where
  "process_common api c m =
     (case c of
        KEY_MOUSE me \<Rightarrow> (case me of None \<Rightarrow> Inr m | Some ev \<Rightarrow> process_mouse api ev m)
      | KEY_RESIZE \<Rightarrow>
          on_scr (resize_and_refresh api (app m) (side_w (scr m)) (composer_h (scr m))) m
      | ERR \<Rightarrow> Inr m
      | Code _ \<Rightarrow>
          if c = CTRL_q then Inr (on_app (set_terminating True) (m\<lparr>cont := False\<rparr>))
          else if c = TAB then cycle_panel m
          else Inr m)"

text \<open>The end of most branches: place the cursor and bring the pane to the screen.\<close>

definition show_pane :: "machine \<Rightarrow> machine result" where
  "show_pane =
     on_scr (\<lambda>s. bind_r (draw_cursor s) (\<lambda>s1.
       bind_r (on_window (panel_window s1 (current_pan s1))
                 (Wnoutrefresh (panel_window s1 (current_pan s1))) s1) (\<lambda>s2.
         Inr (doupdate s2))))"

abbreviation cur_pos :: "machine \<Rightarrow> int \<times> int" where
  "cur_pos m \<equiv> cursor_of (scr m) (current_pan (scr m))"

definition key_h :: "machine \<Rightarrow> machine result" where
  "key_h m = show_pane (set_cursor (current_pan (scr m)) (fst (cur_pos m), max (snd (cur_pos m) - 1) 0) m)"

definition key_l :: "curses_api \<Rightarrow> machine \<Rightarrow> machine result" where
  "key_l api m =
     bind_r (getmaxx api (panel_window (scr m) (current_pan (scr m))) (scr m)) (\<lambda>maxx.
       show_pane (set_cursor (current_pan (scr m))
         (fst (cur_pos m), min (snd (cur_pos m) + 1) (maxx - 1)) m))"

text \<open>The offset at which the last line of a window of \<open>maxy\<close> lines shows the last of \<open>n\<close> items.\<close>

definition max_offset :: "int \<Rightarrow> nat \<Rightarrow> u64" where
  "max_offset maxy n = max (size_of_int maxy) (of_nat n) - size_of_int maxy"

definition chats_shown :: "machine \<Rightarrow> chat_order list" where
  "chats_shown m = position_set (app m) (current_chatlist (app m))"

definition msgs_shown :: "machine \<Rightarrow> message list" where
  "msgs_shown m = messages_of (app m) (chosen_chat_id (app m))"

definition draw_side_m :: "curses_api \<Rightarrow> machine \<Rightarrow> machine result" where
  "draw_side_m api m = on_scr (draw_side api (app m)) m"

definition draw_main_m :: "curses_api \<Rightarrow> machine \<Rightarrow> machine result" where
  "draw_main_m api m = on_scr (draw_main api (app m)) m"

definition side_j :: "curses_api \<Rightarrow> machine \<Rightarrow> machine result" where
  "side_j api m =
     (let pan = current_pan (scr m); pos = cur_pos m
      in bind_r (getmaxy api (panel_window (scr m) pan) (scr m)) (\<lambda>maxy.
         bind_r
           (if fst pos \<ge> maxy - 1
            then draw_side_m api
                   (on_app (\<lambda>st. set_scroll pan
                      (min (max_offset maxy (length (chats_shown m))) (scroll_of st pan + 1)) st)
                     (set_cursor pan (maxy - 1, snd pos) m))
            else Inr (set_cursor pan (fst pos + 1, snd pos) m))
           show_pane))"

definition side_k :: "curses_api \<Rightarrow> machine \<Rightarrow> machine result" where
  "side_k api m =
     (let pan = current_pan (scr m); pos = cur_pos m
      in bind_r
           (if fst pos \<le> 0
            then draw_side_m api
                   (on_app (\<lambda>st. set_scroll pan (max 1 (scroll_of st pan) - 1) st)
                     (set_cursor pan (0, snd pos) m))
            else Inr (set_cursor pan (fst pos - 1, snd pos) m))
           show_pane)"

definition main_j :: "curses_api \<Rightarrow> machine \<Rightarrow> machine result" where
  "main_j api m =
     (let pan = current_pan (scr m); pos = cur_pos m
      in bind_r (getmaxy api (panel_window (scr m) pan) (scr m)) (\<lambda>maxy.
         bind_r
           (if fst pos \<ge> maxy - 1
            then draw_main_m api
                   (on_app (\<lambda>st. set_scroll pan (max 1 (scroll_of st pan) - 1) st)
                     (set_cursor pan (maxy - 1, snd pos) m))
            else Inr (set_cursor pan (fst pos + 1, snd pos) m))
           show_pane))"

definition main_k :: "curses_api \<Rightarrow> machine \<Rightarrow> machine result" where
  "main_k api m =
     (let pan = current_pan (scr m); pos = cur_pos m
      in bind_r
           (if fst pos \<le> 0
            then bind_r (getmaxy api (panel_window (scr m) pan) (scr m)) (\<lambda>maxy.
                   draw_main_m api
                     (on_app (\<lambda>st. set_scroll pan
                        (min (max_offset maxy (length (msgs_shown m))) (scroll_of st pan + 1)) st)
                       (set_cursor pan (0, snd pos) m)))
            else Inr (set_cursor pan (fst pos - 1, snd pos) m))
           show_pane)"

text \<open>
  \<^verbatim>\<open>G\<close>, \<^verbatim>\<open>g\<close> and \<^verbatim>\<open>o\<close> have the same text in both panes: they use the size of the chat list and redraw
  the chat list, whichever pane has the focus.
\<close>

definition key_G :: "curses_api \<Rightarrow> machine \<Rightarrow> machine result" where
  "key_G api m =
     (let pan = current_pan (scr m); pos = cur_pos m
      in bind_r (getmaxy api (panel_window (scr m) pan) (scr m)) (\<lambda>maxy.
         bind_r (draw_side_m api
                   (on_app (set_scroll pan (max_offset maxy (length (chats_shown m))))
                     (set_cursor pan (maxy - 1, snd pos) m)))
           show_pane))"

definition key_g :: "curses_api \<Rightarrow> machine \<Rightarrow> machine result" where
  "key_g api m =
     (let pan = current_pan (scr m); pos = cur_pos m; s = input_state m
      in if in_state s = S_KEY_PREF then
           bind_r
             (if pref_key s = of_char (CHR ''g'')
              then bind_r (draw_side_m api (set_cursor pan (0, snd pos) (on_app (set_scroll pan 0) m)))
                     show_pane
              else Inr m)
             (\<lambda>m1. Inr (on_input reset m1))
         else Inr (on_input (\<lambda>s. s\<lparr>in_state := S_KEY_PREF, pref_key := of_char (CHR ''g'')\<rparr>) m))"

definition key_o :: "curses_api \<Rightarrow> machine \<Rightarrow> machine result" where
  "key_o api m =
     (let pan = current_pan (scr m);
          i = scroll_of (app m) pan + size_of_int (fst (cur_pos m));
          chats = chats_shown m
      in if i < of_nat (length chats) then
           (let m1 = on_app (\<lambda>st. st\<lparr>chosen_chat_id := snd (chats ! unat i)\<rparr>) m
            in bind_r (draw_side_m api m1) (\<lambda>m2.
                 show_pane (m2\<lparr>wd := get_chat_history (chosen_chat_id (app m2)) (wd m2)\<rparr>)))
         else Inr m)"

text \<open>The second \<^verbatim>\<open>switch\<close>, on the pane that has the focus after the first one.\<close>

definition process_pane :: "curses_api \<Rightarrow> key \<Rightarrow> machine \<Rightarrow> machine result" where
  "process_pane api c m =
     (if current_pan (scr m) = ID_SIDE then
        (if c = Key (CHR ''h'') then key_h m
         else if c = Key (CHR ''j'') then side_j api m
         else if c = Key (CHR ''k'') then side_k api m
         else if c = Key (CHR ''l'') then key_l api m
         else if c = Key (CHR ''G'') then key_G api m
         else if c = Key (CHR ''g'') then key_g api m
         else if c = Key (CHR ''o'') then key_o api m
         else Inr m)
      else if current_pan (scr m) = ID_MAIN then
        (if c = Key (CHR ''h'') then key_h m
         else if c = Key (CHR ''j'') then main_j api m
         else if c = Key (CHR ''k'') then main_k api m
         else if c = Key (CHR ''l'') then key_l api m
         else if c = Key (CHR ''G'') then key_G api m
         else if c = Key (CHR ''g'') then key_g api m
         else if c = Key (CHR ''o'') then key_o api m
         else Inr m)
      else Inr m)"

definition process_input :: "curses_api \<Rightarrow> key \<Rightarrow> machine \<Rightarrow> machine result" where
  "process_input api c m = bind_r (process_common api c m) (process_pane api c)"

end
