(* ===== verification/Layout_Facts.thy ===== *)
theory Layout_Facts
  imports Layout Chat_Updates
begin

text \<open>
  What drawing does: the texts of the lines, the frame of the drawing functions (they only add to
  the recorded calls) and the exact lines \<^verbatim>\<open>draw_side\<close> and \<^verbatim>\<open>draw_main\<close> write.
\<close>

section \<open>The intended windows\<close>

text \<open>
  The picture the layout is to give: the side pane on the left, one border column, the message
  window, below them one border line and the composer. Panel, lines, columns, first line, first column.
\<close>

definition layout_specs :: "screen \<Rightarrow> (int \<times> int \<times> int \<times> int \<times> int) list" where
  "layout_specs scr =
     [(ID_SIDE, LINES scr - (composer_h scr + 1), side_w scr, 0, 0),
      (ID_MAIN, LINES scr - (composer_h scr + 1), COLS scr - (side_w scr + 1), 0, side_w scr + 1),
      (ID_COMP, composer_h scr, COLS scr, LINES scr - composer_h scr, 0),
      (ID_E_SIDE_MAIN, LINES scr - (composer_h scr + 1), 1, 0, side_w scr),
      (ID_C_SIDE_MAIN_COMP, 1, COLS scr, LINES scr - (composer_h scr + 1), 0)]"

lemma windows_as_intended:
  "init_windows scr = layout_specs scr" "resize_windows scr = layout_specs scr"
  by (simp_all add: init_windows_def resize_windows_def layout_specs_def)

section \<open>Texts of lines\<close>

text \<open>A text padded with spaces or cut to a width.\<close>

definition fit :: "nat \<Rightarrow> string \<Rightarrow> string" where
  "fit w t = take w t @ replicate (w - length t) CHR '' ''"

lemma length_fit [simp]: "length (fit w t) = w"
  by (simp add: fit_def)

lemma fit_alt: "fit w t = take w (t @ replicate (w - length t) CHR '' '')"
  by (simp add: fit_def)

lemma unat_size_of_int: "0 \<le> i \<Longrightarrow> i < 2 ^ 31 \<Longrightarrow> unat (size_of_int i) = nat i"
  by (simp add: size_of_int_def unat_eq_nat_uint uint_word_of_int take_bit_int_eq_self)

lemma size_of_int_sub:
  assumes "0 \<le> i" "i < 2 ^ 31" "n \<le> nat i"
  shows "unat (size_of_int i - of_nat n) = nat i - n"
proof -
  have n: "unat (of_nat n :: u64) = n"
    using assms by (simp add: unat_of_nat take_bit_nat_eq_self)
  have "of_nat n \<le> size_of_int i"
    using assms n by (simp add: word_le_nat_alt unat_size_of_int)
  then show ?thesis
    using assms n by (simp add: unat_sub unat_size_of_int)
qed

lemma side_text_eq:
  assumes "0 \<le> maxx" "maxx < 2 ^ 31"
  shows "side_text maxx title =
    Inr (c_str (if title = [] then take (nat maxx) ''deleted account'' else fit (nat maxx) title))"
proof (cases "title \<noteq> [] \<and> length title < nat maxx")
  case True
  have pad: "pad_string title (size_of_int maxx - of_nat (length title))
      = Inr (title @ replicate (nat maxx - length title) CHR '' '')"
    using True assms by (simp add: pad_string_def string_max_size_def size_of_int_sub)
  with True assms show ?thesis
    by (simp add: side_text_def unat_size_of_int fit_def)
next
  case False
  with assms show ?thesis
    by (auto simp: side_text_def unat_size_of_int fit_def)
qed

lemma blank_line_eq:
  assumes "0 \<le> width" "width < 2 ^ 31"
  shows "blank_line width = Inr (fit (nat width) [])"
  using assms by (simp add: blank_line_def pad_string_def string_max_size_def unat_size_of_int fit_def)

lemma main_text_eq:
  assumes "0 \<le> width" "width < 2 ^ 31" and "\<And>t. content = MessageText t \<Longrightarrow> length t < 2 ^ 31"
  shows "main_text width content = Inr (case content of
      MessageText t \<Rightarrow> c_str (fit (nat width) t)
    | MessageOther _ \<Rightarrow> ''<empty>'' @ replicate (nat width - 7) CHR '' '')"
proof (cases content)
  case (MessageText t)
  with assms have "int (length t) < 2 ^ 31" by simp
  then have u: "unat (size_of_int (max 0 (width - int (length t)))) = nat width - length t"
    using assms(1,2) by (subst unat_size_of_int) auto
  have m: "nat width + length t \<le> string_max_size" "nat width \<le> string_max_size"
    using MessageText assms by (auto simp: string_max_size_def)
  then have "length t + (nat width - length t) \<le> string_max_size" by simp
  with MessageText u m assms(1,2) show ?thesis
    by (simp add: main_text_def pad_string_def unat_size_of_int fit_def)
next
  case (MessageOther b)
  have "unat (size_of_int (max 0 (width - 7))) = nat width - 7"
    using assms(1,2) by (subst unat_size_of_int) auto
  moreover have "7 + (nat width - 7) \<le> string_max_size"
    using assms(1,2) by (auto simp: string_max_size_def)
  ultimately show ?thesis
    using MessageOther by (simp add: main_text_def pad_string_def)
qed

section \<open>Drawing only records calls\<close>

definition draws :: "screen \<Rightarrow> screen \<Rightarrow> bool" where
  "draws scr scr' \<longleftrightarrow> (\<exists>cs. scr' = scr\<lparr>calls := calls scr @ cs\<rparr>)"

lemma draws_refl [simp, intro]: "draws scr scr"
  unfolding draws_def by (rule exI[of _ "[]"]) simp

lemma draws_trans [trans]: "draws a b \<Longrightarrow> draws b c \<Longrightarrow> draws a c"
  unfolding draws_def by (metis append.assoc screen.select_convs(10) screen.surjective
      screen.update_convs(10))

lemma draws_record [simp, intro]: "draws scr (record_call c scr)"
  unfolding draws_def record_call_def by blast

lemma draws_frame:
  assumes "draws a b"
  shows "LINES b = LINES a" "COLS b = COLS a" "windows b = windows a"
    "next_window b = next_window a" "panels b = panels a" "side_w b = side_w a"
    "composer_h b = composer_h a" "current_pan b = current_pan a"
    "cursor_positions b = cursor_positions a"
  using assms by (auto simp: draws_def)

lemma draws_derived:
  assumes "draws a b"
  shows "panel_window b k = panel_window a k" "alive w b = alive w a"
    "getmaxyx api w b = getmaxyx api w a" "cursor_of b k = cursor_of a k"
    "layout_specs b = layout_specs a"
  using draws_frame[OF assms]
  by (simp_all add: panel_window_def alive_def getmaxyx_def cursor_of_def layout_specs_def
      cong: option.case_cong)

lemma on_window_draws: "on_window w c scr = Inr scr' \<Longrightarrow> draws scr scr'"
  by (auto simp: on_window_def split: if_splits)

lemma on_window_alive: "alive w scr \<Longrightarrow> on_window w c scr = Inr (record_call c scr)"
  by (simp add: on_window_def)

lemma alive_record [simp]: "alive w (record_call c scr) = alive w scr"
  by (cases w) (simp_all add: alive_def record_call_def)

lemma alive_calls [simp]: "alive w (scr\<lparr>calls := cs\<rparr>) = alive w scr"
  by (cases w) (simp_all add: alive_def)

lemma calls_record [simp]: "calls (record_call c scr) = calls scr @ [c]"
  by (simp add: record_call_def)

subsection \<open>The lines written\<close>

text \<open>The texts written to the beginning of lines of a window, in order.\<close>

fun lines_written :: "nat option \<Rightarrow> curses_call list \<Rightarrow> (int \<times> string) list" where
  "lines_written win [] = []"
| "lines_written win (Mvwaddstr w y x t # cs) =
     (if w = win \<and> x = 0 then (y, t) # lines_written win cs else lines_written win cs)"
| "lines_written win (_ # cs) = lines_written win cs"

lemma lines_written_append [simp]:
  "lines_written win (cs @ ds) = lines_written win cs @ lines_written win ds"
  by (induction win cs rule: lines_written.induct) auto

text \<open>The text of the chat list for the chat at a position, or a blank line beyond the end.\<close>

definition side_row :: "tl_app_state \<Rightarrow> nat \<Rightarrow> chat_order option \<Rightarrow> string" where
  "side_row st w p =
     (case p of
        None \<Rightarrow> fit w []
      | Some q \<Rightarrow>
          (case id_to_chat st (snd q) of
             None \<Rightarrow> []
           | Some ch \<Rightarrow> c_str (if chat_title ch = [] then take w ''deleted account''
                              else fit w (chat_title ch))))"

definition nth_opt :: "'a list \<Rightarrow> nat \<Rightarrow> 'a option" where
  "nth_opt xs i = (if i < length xs then Some (xs ! i) else None)"

lemma nth_opt_simps [simp]:
  "nth_opt [] i = None" "nth_opt (x # xs) 0 = Some x" "nth_opt (x # xs) (Suc i) = nth_opt xs i"
  by (simp_all add: nth_opt_def)

lemma nth_opt_drop: "nth_opt (drop n xs) i = nth_opt xs (n + i)"
  by (auto simp: nth_opt_def)

lemma map_upt_head: "map f [0..<Suc n] = f 0 # map (\<lambda>j. f (Suc j)) [0..<n]"
  by (simp only: upt_conv_Cons[of 0 "Suc n", OF zero_less_Suc] map_Suc_upt[symmetric] list.map
      map_map comp_def)

lemma draw_side_lines_eq:
  assumes win: "alive win scr" and w: "0 \<le> maxx" "maxx < 2 ^ 31"
    and known: "\<forall>p \<in> set pos. id_to_chat st (snd p) \<noteq> None"
  shows "\<exists>cs. draw_side_lines win maxx st i n pos scr = Inr (scr\<lparr>calls := calls scr @ cs\<rparr>)
    \<and> lines_written win cs
        = map (\<lambda>j. (int (i + j), side_row st (nat maxx) (nth_opt pos j))) [0..<n]"
  using win known
proof (induction n arbitrary: i pos scr)
  case 0
  then show ?case by (intro exI[of _ "[]"]) simp
next
  case (Suc n)
  show ?case
  proof (cases pos)
    case Nil
    let ?scr1 = "record_call (Mvwaddstr win (int i) 0 (fit (nat maxx) [])) scr"
    from Suc.IH[of ?scr1 "[]" "Suc i"] Suc.prems obtain cs where
      "draw_side_lines win maxx st (Suc i) n [] ?scr1 = Inr (?scr1\<lparr>calls := calls ?scr1 @ cs\<rparr>)"
      "lines_written win cs
         = map (\<lambda>j. (int (Suc i + j), side_row st (nat maxx) (nth_opt [] j))) [0..<n]"
      by auto
    with Nil Suc.prems show ?thesis
      by (intro exI[of _ "Mvwaddstr win (int i) 0 (fit (nat maxx) []) # cs"])
        (simp add: blank_line_eq[OF w] on_window_alive record_call_def map_upt_head side_row_def
          del: upt_Suc)
  next
    case (Cons p pos')
    then obtain ch where ch: "id_to_chat st (snd p) = Some ch"
      using Suc.prems(2) by auto
    let ?t = "c_str (if chat_title ch = [] then take (nat maxx) ''deleted account''
        else fit (nat maxx) (chat_title ch))"
    let ?on = "if chosen_chat_id st = chat_id ch then [Attr_on win] else []"
    let ?off = "if chosen_chat_id st = chat_id ch then [Attr_off win] else []"
    let ?cs0 = "?on @ [Mvwaddstr win (int i) 0 ?t] @ ?off"
    let ?scr1 = "scr\<lparr>calls := calls scr @ ?cs0\<rparr>"
    have alive1: "alive win ?scr1"
      using Suc.prems(1) by simp
    have here: "draw_side_lines win maxx st i (Suc n) pos scr
        = draw_side_lines win maxx st (Suc i) n pos' ?scr1"
      using Cons ch Suc.prems(1)
      by (cases "chosen_chat_id st = chat_id ch")
        (simp_all add: side_text_eq[OF w] on_window_alive record_call_def)
    from Suc.IH[OF alive1, of pos' "Suc i"] Suc.prems(2) Cons obtain cs where
      "draw_side_lines win maxx st (Suc i) n pos' ?scr1 = Inr (?scr1\<lparr>calls := calls ?scr1 @ cs\<rparr>)"
      "lines_written win cs
         = map (\<lambda>j. (int (Suc i + j), side_row st (nat maxx) (nth_opt pos' j))) [0..<n]"
      by auto
    moreover have "side_row st (nat maxx) (nth_opt pos 0) = ?t"
      using Cons ch by (simp add: side_row_def)
    moreover have "lines_written win ?cs0 = [(int i, ?t)]"
      by simp
    ultimately have "draw_side_lines win maxx st i (Suc n) pos scr
        = Inr (scr\<lparr>calls := calls scr @ (?cs0 @ cs)\<rparr>)"
      "lines_written win (?cs0 @ cs)
        = map (\<lambda>j. (int (i + j), side_row st (nat maxx) (nth_opt pos j))) [0..<Suc n]"
      unfolding here lines_written_append map_upt_head by (simp_all add: Cons)
    then show ?thesis by blast
  qed
qed

text \<open>The text of the message window for a message, or a blank line beyond the last one.\<close>

definition main_row :: "nat \<Rightarrow> message option \<Rightarrow> string" where
  "main_row w m =
     (case m of
        None \<Rightarrow> fit w []
      | Some x \<Rightarrow> (case msg_content x of
            MessageText t \<Rightarrow> c_str (fit w t)
          | MessageOther _ \<Rightarrow> ''<empty>'' @ replicate (w - 7) CHR '' ''))"

definition texts_ok :: "message list \<Rightarrow> bool" where
  "texts_ok ms \<longleftrightarrow> (\<forall>m \<in> set ms. \<forall>t. msg_content m = MessageText t \<longrightarrow> length t < 2 ^ 31)"

lemma main_text_row:
  assumes "0 \<le> width" "width < 2 ^ 31" "texts_ok ms" "m \<in> set ms"
  shows "main_text width (msg_content m) = Inr (main_row (nat width) (Some m))"
  using assms main_text_eq[OF assms(1,2), of "msg_content m"]
  by (auto simp: main_row_def texts_ok_def split: message_content.splits)

lemma draw_main_lines_eq:
  assumes win: "alive win scr" and w: "0 \<le> width" "width < 2 ^ 31" and texts: "texts_ok it"
  shows "\<exists>cs. draw_main_lines win width n it scr = Inr (scr\<lparr>calls := calls scr @ cs\<rparr>)
    \<and> lines_written win cs = map (\<lambda>j. (int (n - 1 - j), main_row (nat width) (nth_opt it j))) [0..<n]"
  using win texts
proof (induction n arbitrary: it scr)
  case 0
  then show ?case by (intro exI[of _ "[]"]) simp
next
  case (Suc n)
  let ?c = "Mvwaddstr win (int n) 0 (main_row (nat width) (nth_opt it 0))"
  have here: "draw_main_lines win width (Suc n) it scr
      = draw_main_lines win width n (tl it) (record_call ?c scr)"
    using Suc.prems main_text_row[OF w Suc.prems(2)]
    by (cases it) (simp_all add: blank_line_eq[OF w] on_window_alive main_row_def)
  have tl: "nth_opt (tl it) j = nth_opt it (Suc j)" for j
    by (cases it) simp_all
  have "texts_ok (tl it)"
    using Suc.prems(2) by (cases it) (auto simp: texts_ok_def)
  with Suc.IH[of "record_call ?c scr" "tl it"] Suc.prems(1) obtain cs where
    "draw_main_lines win width n (tl it) (record_call ?c scr)
       = Inr (record_call ?c scr\<lparr>calls := calls (record_call ?c scr) @ cs\<rparr>)"
    "lines_written win cs
       = map (\<lambda>j. (int (n - 1 - j), main_row (nat width) (nth_opt (tl it) j))) [0..<n]"
    by auto
  then have "draw_main_lines win width (Suc n) it scr = Inr (scr\<lparr>calls := calls scr @ (?c # cs)\<rparr>)"
    "lines_written win (?c # cs)
       = map (\<lambda>j. (int (Suc n - 1 - j), main_row (nat width) (nth_opt it j))) [0..<Suc n]"
    unfolding here map_upt_head by (simp_all add: tl record_call_def)
  then show ?case by blast
qed

section \<open>The whole drawing functions\<close>

text \<open>A panel shows a live window of plausible size.\<close>

definition shows_window :: "screen \<Rightarrow> int \<Rightarrow> nat \<Rightarrow> rect \<Rightarrow> bool" where
  "shows_window scr k wd r \<longleftrightarrow> panels scr k = Some wd \<and> windows scr wd = Some r
     \<and> 0 \<le> r_rows r \<and> r_rows r < 2 ^ 31 \<and> 0 \<le> r_cols r \<and> r_cols r < 2 ^ 31"

lemma shows_window_getmaxyx:
  "curses_ok api \<Longrightarrow> shows_window scr k wd r \<Longrightarrow>
   getmaxyx api (panel_window scr k) scr = Inr (r_rows r, r_cols r)"
  by (simp add: shows_window_def getmaxyx_def panel_window_def curses_okD)

lemma shows_window_alive: "shows_window scr k wd r \<Longrightarrow> alive (panel_window scr k) scr"
  by (simp add: shows_window_def alive_def panel_window_def)

lemma drop_r_ok: "unat n \<le> length xs \<Longrightarrow> drop_r n xs = Inr (drop (unat n) xs)"
  by (simp add: drop_r_def)

lemma draw_side_eq:
  assumes api: "curses_ok api" and win: "shows_window scr ID_SIDE wd r"
    and scroll: "unat (scroll_of st ID_SIDE) \<le> length (position_set st (current_chatlist st))"
    and inv: "chat_lists_ok st" "chats_known st"
  shows "\<exists>cs. draw_side api st scr = Inr (scr\<lparr>calls := calls scr @ cs\<rparr>)
    \<and> lines_written (Some wd) cs =
        map (\<lambda>j. (int j, side_row st (nat (r_cols r))
               (nth_opt (position_set st (current_chatlist st)) (unat (scroll_of st ID_SIDE) + j))))
            [0..<min (length (position_set st (current_chatlist st))) (nat (r_rows r))]"
proof -
  let ?ps = "position_set st (current_chatlist st)"
  let ?off = "unat (scroll_of st ID_SIDE)"
  have known: "\<forall>p \<in> set (drop ?off ?ps). id_to_chat st (snd p) \<noteq> None"
  proof
    fix p assume "p \<in> set (drop ?off ?ps)"
    moreover obtain q c where p: "p = (q, c)" by (cases p)
    ultimately have "(q, c) \<in> set ?ps" by (auto dest: in_set_dropD)
    then have "position_map st (current_chatlist st) c = Some q"
      using chat_lists_okD(2)[OF inv(1)] by blast
    with inv(2) show "id_to_chat st (snd p) \<noteq> None"
      unfolding chats_known_def p by (auto simp: dom_def)
  qed
  have pw: "panel_window scr ID_SIDE = Some wd"
    using win by (simp add: shows_window_def panel_window_def)
  have size: "unat (size_of_int (r_rows r)) = nat (r_rows r)"
    using win by (simp add: shows_window_def unat_size_of_int)
  from draw_side_lines_eq[OF shows_window_alive[OF win], of "r_cols r" "drop ?off ?ps" st 0
      "min (length ?ps) (nat (r_rows r))"] win known
  obtain cs where
    "draw_side_lines (Some wd) (r_cols r) st 0 (min (length ?ps) (nat (r_rows r))) (drop ?off ?ps) scr
       = Inr (scr\<lparr>calls := calls scr @ cs\<rparr>)"
    "lines_written (Some wd) cs = map (\<lambda>j. (int j, side_row st (nat (r_cols r))
       (nth_opt ?ps (?off + j)))) [0..<min (length ?ps) (nat (r_rows r))]"
    by (auto simp: pw shows_window_def nth_opt_drop)
  with shows_window_getmaxyx[OF api win] drop_r_ok[OF scroll] show ?thesis
    by (intro exI[of _ cs]) (simp add: draw_side_def pw size)
qed

lemma draw_main_eq:
  assumes api: "curses_ok api" and win: "shows_window scr ID_MAIN wd r"
    and chosen: "chosen_chat_id st \<noteq> - 1"
    and scroll: "unat (scroll_of st ID_MAIN) \<le> length (messages_of st (chosen_chat_id st))"
    and texts: "texts_ok (messages_of st (chosen_chat_id st))"
  shows "\<exists>cs. draw_main api st scr = Inr (scr\<lparr>calls := calls scr @ cs\<rparr>)
    \<and> lines_written (Some wd) cs =
        map (\<lambda>j. (r_rows r - 1 - int j, main_row (nat (r_cols r))
               (nth_opt (messages_of st (chosen_chat_id st)) (unat (scroll_of st ID_MAIN) + j))))
            [0..<nat (r_rows r)]"
proof -
  let ?ms = "messages_of st (chosen_chat_id st)"
  let ?off = "unat (scroll_of st ID_MAIN)"
  have pw: "panel_window scr ID_MAIN = Some wd"
    using win by (simp add: shows_window_def panel_window_def)
  have "texts_ok (drop ?off ?ms)"
    using texts by (auto simp: texts_ok_def dest: in_set_dropD)
  with draw_main_lines_eq[OF shows_window_alive[OF win], of "r_cols r" "drop ?off ?ms" "nat (r_rows r)"]
    win obtain cs where cs:
    "draw_main_lines (Some wd) (r_cols r) (nat (r_rows r)) (drop ?off ?ms) scr
       = Inr (scr\<lparr>calls := calls scr @ cs\<rparr>)"
    "lines_written (Some wd) cs = map (\<lambda>j. (int (nat (r_rows r) - 1 - j), main_row (nat (r_cols r))
       (nth_opt ?ms (?off + j)))) [0..<nat (r_rows r)]"
    by (auto simp: pw shows_window_def nth_opt_drop)
  have rows: "int (nat (r_rows r) - 1 - j) = r_rows r - 1 - int j" if "j < nat (r_rows r)" for j
    using that by auto
  have "lines_written (Some wd) cs = map (\<lambda>j. (r_rows r - 1 - int j, main_row (nat (r_cols r))
       (nth_opt ?ms (?off + j)))) [0..<nat (r_rows r)]"
    unfolding cs(2) by (intro map_cong) (simp_all add: rows)
  then show ?thesis
    using shows_window_getmaxyx[OF api win] drop_r_ok[OF scroll] cs(1) chosen win
      shows_window_alive[OF win]
    by (intro exI[of _ "cs @ [Wnoutrefresh (Some wd)]"])
      (simp add: draw_main_def getmaxy_def getmaxx_def pw shows_window_def on_window_alive
        record_call_def)
qed

end
