(* ===== verification/Layout_Inv.thy ===== *)
theory Layout_Inv
  imports Layout_Facts
begin

text \<open>
  The window layout over time: five live windows, one per panel, and no other window; their
  rectangles tile the terminal; a resize to sizes that fit replaces them all, keeps the cursors
  inside and redraws; a resize to a composer of no line uses a deleted window.
\<close>

section \<open>Invariants\<close>

definition spec_rect :: "int \<times> int \<times> int \<times> int \<times> int \<Rightarrow> rect" where
  "spec_rect s = (case s of (k, nl, nc, y, x) \<Rightarrow> \<lparr>r_y = y, r_x = x, r_rows = nl, r_cols = nc\<rparr>)"

definition panel_rect :: "screen \<Rightarrow> int \<Rightarrow> rect option" where
  "panel_rect scr k = (case panels scr k of None \<Rightarrow> None | Some wd \<Rightarrow> windows scr wd)"

definition size_ok :: "rect \<Rightarrow> bool" where
  "size_ok r \<longleftrightarrow> 0 < r_rows r \<and> r_rows r < 2 ^ 31 \<and> 0 < r_cols r \<and> r_cols r < 2 ^ 31"

text \<open>The panels show the five windows from \<open>n\<close> on, and these are all the windows there are.\<close>

definition windows_from :: "nat \<Rightarrow> screen \<Rightarrow> bool" where
  "windows_from n scr \<longleftrightarrow>
     panels scr = map_of (zip panel_ids [n..<n + 5]) \<and> dom (windows scr) = {n..<n + 5}
     \<and> n + 5 \<le> next_window scr \<and> (\<forall>r \<in> ran (windows scr). size_ok r)"

definition windows_inv :: "screen \<Rightarrow> bool" where
  "windows_inv scr \<longleftrightarrow> (\<exists>n. windows_from n scr)"

text \<open>Sizes for which every window has a cell.\<close>

definition fits :: "screen \<Rightarrow> int \<Rightarrow> int \<Rightarrow> bool" where
  "fits scr w h \<longleftrightarrow> 0 < w \<and> w < COLS scr - 1 \<and> COLS scr < 2 ^ 31
     \<and> 0 < h \<and> h < LINES scr - 1 \<and> LINES scr < 2 ^ 31"

definition layout_inv :: "screen \<Rightarrow> bool" where
  "layout_inv scr \<longleftrightarrow> windows_inv scr \<and> fits scr (side_w scr) (composer_h scr)
     \<and> (\<forall>s \<in> set (layout_specs scr). panel_rect scr (fst s) = Some (spec_rect s))"

text \<open>The cursor of each pane is on a cell of its window.\<close>

definition cursor_in :: "screen \<Rightarrow> int \<Rightarrow> bool" where
  "cursor_in scr k \<longleftrightarrow> (case panel_rect scr k of None \<Rightarrow> False
     | Some r \<Rightarrow> 0 \<le> fst (cursor_of scr k) \<and> fst (cursor_of scr k) < r_rows r
               \<and> 0 \<le> snd (cursor_of scr k) \<and> snd (cursor_of scr k) < r_cols r)"

definition pane_ids :: "int list" where
  "pane_ids = [ID_SIDE, ID_MAIN, ID_COMP]"

definition cursors_nonneg :: "screen \<Rightarrow> bool" where
  "cursors_nonneg scr \<longleftrightarrow> (\<forall>k \<in> set pane_ids. 0 \<le> fst (cursor_of scr k) \<and> 0 \<le> snd (cursor_of scr k))"

definition cursors_in :: "screen \<Rightarrow> bool" where
  "cursors_in scr \<longleftrightarrow> (\<forall>k \<in> set pane_ids. cursor_in scr k)"

text \<open>What drawing needs of the application state.\<close>

definition side_drawable :: "tl_app_state \<Rightarrow> bool" where
  "side_drawable st \<longleftrightarrow> chat_lists_ok st \<and> chats_known st
     \<and> unat (scroll_of st ID_SIDE) \<le> length (position_set st (current_chatlist st))"

definition main_drawable :: "tl_app_state \<Rightarrow> bool" where
  "main_drawable st \<longleftrightarrow> chosen_chat_id st \<noteq> - 1 \<longrightarrow>
     unat (scroll_of st ID_MAIN) \<le> length (messages_of st (chosen_chat_id st))
     \<and> texts_ok (messages_of st (chosen_chat_id st))"

section \<open>Windows of the panels\<close>

lemma upt_five: "[n..<n + 5] = [n, n + 1, n + 2, n + 3, n + 4]"
  by (simp add: upt_rec numeral_eq_Suc)

lemma panels_five:
  "map_of (zip panel_ids [n..<n + 5]) =
    [1 \<mapsto> n, 2 \<mapsto> n + 1, 4 \<mapsto> n + 2, 16 \<mapsto> n + 3, 48 \<mapsto> n + 4]"
  by (rule ext) (simp add: upt_five panel_ids_def ID_values)

lemma windows_from_panel:
  assumes "windows_from n scr" "k \<in> set panel_ids"
  obtains wd r where "panels scr k = Some wd" "n \<le> wd" "wd < n + 5" "windows scr wd = Some r"
    "size_ok r"
proof -
  from assms(1) have p: "panels scr = [1 \<mapsto> n, 2 \<mapsto> n + 1, 4 \<mapsto> n + 2, 16 \<mapsto> n + 3, 48 \<mapsto> n + 4]"
    unfolding windows_from_def panels_five by simp
  then obtain wd where wd: "panels scr k = Some wd" "n \<le> wd" "wd < n + 5"
    using assms(2) by (auto simp: panel_ids_def ID_values)
  then have "wd \<in> dom (windows scr)"
    using assms(1) by (simp add: windows_from_def)
  then obtain r where "windows scr wd = Some r" by blast
  moreover from this assms(1) have "size_ok r"
    by (auto simp: windows_from_def ran_def)
  ultimately show thesis using that wd by blast
qed

lemma pane_ids_sub: "k \<in> set pane_ids \<Longrightarrow> k \<in> set panel_ids"
  by (auto simp: pane_ids_def panel_ids_def)

lemma windows_inv_panel:
  assumes "windows_inv scr" "k \<in> set panel_ids"
  obtains wd r where "panels scr k = Some wd" "windows scr wd = Some r" "size_ok r"
    "shows_window scr k wd r" "panel_rect scr k = Some r" "alive (panel_window scr k) scr"
proof -
  obtain n where "windows_from n scr" using assms(1) by (auto simp: windows_inv_def)
  then obtain wd r where "panels scr k = Some wd" "windows scr wd = Some r" "size_ok r"
    using assms(2) windows_from_panel by blast
  then show thesis
    by (intro that[of wd r])
      (simp_all add: shows_window_def panel_rect_def size_ok_def alive_def panel_window_def)
qed

lemma windows_inv_alive:
  "windows_inv scr \<Longrightarrow> k \<in> set panel_ids \<Longrightarrow> alive (panel_window scr k) scr"
  by (elim windows_inv_panel)

lemma windows_inv_maxyx:
  assumes "curses_ok api" "windows_inv scr" "k \<in> set panel_ids"
  obtains r where "panel_rect scr k = Some r" "size_ok r"
    "getmaxyx api (panel_window scr k) scr = Inr (r_rows r, r_cols r)"
    "getmaxy api (panel_window scr k) scr = Inr (r_rows r)"
    "getmaxx api (panel_window scr k) scr = Inr (r_cols r)"
proof -
  obtain wd r where r: "size_ok r" "shows_window scr k wd r" "panel_rect scr k = Some r"
    using assms windows_inv_panel by metis
  note m = shows_window_getmaxyx[OF assms(1) r(2)]
  show thesis
    by (rule that[of r]) (simp_all add: r m getmaxy_def getmaxx_def)
qed

subsection \<open>Frames\<close>

lemma draws_record_after [simp, intro]: "draws a b \<Longrightarrow> draws a (record_call c b)"
  by (rule draws_trans[OF _ draws_record])

lemma panel_rect_cong:
  "panels a = panels b \<Longrightarrow> windows a = windows b \<Longrightarrow> panel_rect a k = panel_rect b k"
  by (simp add: panel_rect_def cong: option.case_cong)

lemma cursor_in_cong:
  "panel_rect a k = panel_rect b k \<Longrightarrow> cursor_of a k = cursor_of b k \<Longrightarrow> cursor_in a k = cursor_in b k"
  by (simp add: cursor_in_def cong: option.case_cong)

lemma windows_inv_cong:
  "panels a = panels b \<Longrightarrow> windows a = windows b \<Longrightarrow> next_window a = next_window b \<Longrightarrow>
   windows_inv a = windows_inv b"
  by (simp add: windows_inv_def windows_from_def)

lemma draws_inv:
  assumes "draws a b"
  shows "windows_inv b = windows_inv a" "panel_rect b k = panel_rect a k"
    "layout_inv b = layout_inv a" "cursors_in b = cursors_in a"
    "cursors_nonneg b = cursors_nonneg a" "fits b = fits a"
proof -
  note f = draws_frame[OF assms] and d = draws_derived[OF assms]
  show w: "windows_inv b = windows_inv a" by (rule windows_inv_cong) (simp_all add: f)
  show p: "panel_rect b k = panel_rect a k" for k by (rule panel_rect_cong) (simp_all add: f)
  show fi: "fits b = fits a" by (intro ext) (simp add: fits_def f)
  show "layout_inv b = layout_inv a" by (simp add: layout_inv_def w p d f fi)
  show "cursors_in b = cursors_in a" by (simp add: cursors_in_def cursor_in_def p d cong: option.case_cong)
  show "cursors_nonneg b = cursors_nonneg a" by (simp add: cursors_nonneg_def d)
qed

section \<open>Drawing does not fault\<close>

lemma draw_border_ok:
  assumes "windows_inv scr"
  shows "\<exists>s. draw_border scr = Inr s \<and> draws scr s"
proof -
  have "alive (panel_window scr ID_E_SIDE_MAIN) scr" "alive (panel_window scr ID_C_SIDE_MAIN_COMP) scr"
    using windows_inv_alive[OF assms] by (simp_all add: panel_ids_def)
  then show ?thesis
    by (simp add: draw_border_def on_window_alive Let_def)
qed

lemma draw_side_ok:
  assumes "curses_ok api" "windows_inv scr" "side_drawable st"
  shows "\<exists>s. draw_side api st scr = Inr s \<and> draws scr s"
proof -
  have "ID_SIDE \<in> set panel_ids" by (simp add: panel_ids_def)
  from windows_inv_panel[OF assms(2) this] obtain wd r where "shows_window scr ID_SIDE wd r" by metis
  from draw_side_eq[OF assms(1) this] assms(3) show ?thesis
    by (auto simp: side_drawable_def draws_def)
qed

lemma draw_main_ok:
  assumes "curses_ok api" "windows_inv scr" "main_drawable st"
  shows "\<exists>s. draw_main api st scr = Inr s \<and> draws scr s"
proof (cases "chosen_chat_id st = - 1")
  case True
  then show ?thesis by (simp add: draw_main_def)
next
  case False
  have "ID_MAIN \<in> set panel_ids" by (simp add: panel_ids_def)
  from windows_inv_panel[OF assms(2) this] obtain wd r where "shows_window scr ID_MAIN wd r" by metis
  from draw_main_eq[OF assms(1) this False] assms(3) False show ?thesis
    by (auto simp: main_drawable_def draws_def)
qed

lemma fill_ok:
  assumes "curses_ok api" "windows_inv scr" "side_drawable st" "main_drawable st"
  shows "\<exists>s. fill api st scr = Inr s \<and> draws scr s"
proof -
  obtain s1 where s1: "draw_main api st scr = Inr s1" "draws scr s1"
    using draw_main_ok assms by blast
  then obtain s2 where "draw_side api st s1 = Inr s2" "draws s1 s2"
    using draw_side_ok[of api s1 st] assms by (auto simp: draws_inv)
  with s1 show ?thesis
    by (auto simp: fill_def draw_composer_def intro: draws_trans)
qed

lemma draw_cursor_ok:
  assumes "windows_inv scr" "current_pan scr \<in> set pane_ids"
  shows "\<exists>s. draw_cursor scr = Inr s \<and> draws scr s"
  using windows_inv_alive[OF assms(1) pane_ids_sub[OF assms(2)]]
  by (simp add: draw_cursor_def on_window_alive Let_def)

lemma update_panels_ok:
  assumes "windows_inv scr"
  shows "\<exists>s. update_panels scr = Inr s \<and> draws scr s"
  using windows_inv_alive[OF assms] by (auto simp: update_panels_def list_all_iff)

lemma doupdate_draws [simp]: "draws scr (doupdate scr)"
  by (simp add: doupdate_def)

lemma curs_set_draws [simp]: "draws scr (curs_set v scr)"
  by (simp add: curs_set_def)

end
