(* ===== verification/Layout_Steps.thy ===== *)
theory Layout_Steps
  imports Layout_Inv
begin

text \<open>
  Creating and replacing the windows: \<^verbatim>\<open>init_layout\<close> and \<^verbatim>\<open>resize\<close> establish the layout invariant,
  for every size that gives each window a cell.
\<close>

section \<open>The loops over the windows\<close>

lemma map_add_zip_Cons:
  assumes "k \<notin> set ks"
  shows "m ++ map_of (zip (k # ks) (v # vs)) = m(k \<mapsto> v) ++ map_of (zip ks vs)"
proof -
  have "k \<notin> dom (map_of (zip ks vs))"
    using assms by (auto simp: dom_map_of_conv_image_fst dest: set_zip_leftD)
  then show ?thesis
    unfolding zip_Cons_Cons map_of.simps fst_conv snd_conv map_add_upd
    by (rule map_add_upd_left[symmetric])
qed

lemma create_windows_eq:
  assumes "\<forall>(k, nl, nc, y, x) \<in> set specs. newwin_size api (LINES scr) (COLS scr) nl nc y x = Some (nl, nc)"
  shows "create_windows api specs scr =
    (zip (map fst specs) (map Some [next_window scr..<next_window scr + length specs]),
     scr\<lparr>windows := windows scr ++
            map_of (zip [next_window scr..<next_window scr + length specs] (map spec_rect specs)),
         next_window := next_window scr + length specs\<rparr>)"
  using assms
proof (induction specs arbitrary: scr)
  case Nil
  then show ?case by simp
next
  case (Cons s specs)
  obtain k nl nc y x where s: "s = (k, nl, nc, y, x)" by (cases s)
  let ?n = "next_window scr"
  let ?scr1 = "scr\<lparr>windows := (windows scr)(?n \<mapsto> spec_rect s), next_window := Suc ?n\<rparr>"
  have new: "newwin api nl nc y x scr = (Some ?n, ?scr1)"
    using Cons.prems by (simp add: s newwin_def spec_rect_def)
  have upt: "[?n..<?n + length (s # specs)] = ?n # [Suc ?n..<Suc ?n + length specs]"
    by (simp add: upt_conv_Cons del: upt_Suc)
  have out: "?n \<notin> set [Suc ?n..<Suc ?n + length specs]"
    by (simp del: upt_Suc)
  have "create_windows api specs ?scr1 =
    (zip (map fst specs) (map Some [next_window ?scr1..<next_window ?scr1 + length specs]),
     ?scr1\<lparr>windows := windows ?scr1 ++
       map_of (zip [next_window ?scr1..<next_window ?scr1 + length specs] (map spec_rect specs)),
       next_window := next_window ?scr1 + length specs\<rparr>)"
    by (rule Cons.IH) (use Cons.prems in simp)
  moreover have "next_window ?scr1 = Suc ?n" "windows ?scr1 = (windows scr)(?n \<mapsto> spec_rect s)"
    and "\<And>A B. ?scr1\<lparr>windows := A, next_window := B\<rparr> = scr\<lparr>windows := A, next_window := B\<rparr>"
    by simp_all
  moreover have "create_windows api (s # specs) scr
      = ((k, Some ?n) # fst (create_windows api specs ?scr1), snd (create_windows api specs ?scr1))"
    unfolding s create_windows.simps new[unfolded s] Let_def by (simp only: case_prod_beta prod.sel)
  moreover have "zip (map fst (s # specs)) (map Some (?n # [Suc ?n..<Suc ?n + length specs]))
      = (k, Some ?n) # zip (map fst specs) (map Some [Suc ?n..<Suc ?n + length specs])"
    by (simp add: s del: upt_Suc)
  moreover have "?n + length (s # specs) = Suc ?n + length specs" by simp
  ultimately show ?case
    unfolding upt list.map(2)[of spec_rect] map_add_zip_Cons[OF out] by (simp only: prod.sel)
qed

lemma replace_panels_eq:
  assumes "curses_ok api" "distinct ks" "set ks \<subseteq> dom (panels scr)" "length ws = length ks"
  shows "fold (\<lambda>(k, w). replace_panel api k w) (zip ks (map Some ws)) scr
    = scr\<lparr>panels := panels scr ++ map_of (zip ks ws)\<rparr>"
  using assms(2-)
proof (induction ks arbitrary: ws scr)
  case Nil
  then show ?case by simp
next
  case (Cons k ks)
  obtain w ws' where ws: "ws = w # ws'" using Cons.prems(3) by (cases ws) auto
  obtain old where old: "panels scr k = Some old" using Cons.prems(2) by auto
  have r: "replace_panel api k (Some w) scr = scr\<lparr>panels := (panels scr)(k \<mapsto> w)\<rparr>"
    by (simp add: replace_panel_def old curses_okD(4)[OF assms(1)])
  have out: "k \<notin> set ks"
    using Cons.prems(1) by simp
  have "fold (\<lambda>(k, w). replace_panel api k w) (zip ks (map Some ws'))
      (scr\<lparr>panels := (panels scr)(k \<mapsto> w)\<rparr>)
    = scr\<lparr>panels := (panels scr)(k \<mapsto> w) ++ map_of (zip ks ws')\<rparr>"
    using Cons.prems ws by (subst Cons.IH) auto
  then show ?case
    unfolding ws map_add_zip_Cons[OF out] by (simp add: r)
qed

lemma new_panels_eq:
  assumes "curses_ok api" "distinct ks" "length ws = length ks"
  shows "fold (\<lambda>(k, w). new_panel api k w) (zip ks (map Some ws)) scr
    = scr\<lparr>panels := panels scr ++ map_of (zip ks ws)\<rparr>"
  using assms(2-)
proof (induction ks arbitrary: ws scr)
  case Nil
  then show ?case by simp
next
  case (Cons k ks)
  obtain w ws' where ws: "ws = w # ws'" using Cons.prems(2) by (cases ws) auto
  have out: "k \<notin> set ks"
    using Cons.prems(1) by simp
  show ?case
    unfolding ws map_add_zip_Cons[OF out] using Cons ws
    by (simp add: new_panel_def curses_okD(3)[OF assms(1)])
qed

lemma delete_windows_eq:
  assumes "distinct ws" "set ws \<subseteq> dom (windows scr)"
  shows "fold_r delwin (map Some ws) scr = Inr (scr\<lparr>windows := windows scr |` (- set ws)\<rparr>)"
  using assms
proof (induction ws arbitrary: scr)
  case Nil
  then show ?case by simp
next
  case (Cons w ws)
  then have "delwin (Some w) scr = Inr (scr\<lparr>windows := (windows scr)(w := None)\<rparr>)"
    by (auto simp: delwin_def)
  moreover have "fold_r delwin (map Some ws) (scr\<lparr>windows := (windows scr)(w := None)\<rparr>)
      = Inr (scr\<lparr>windows := (windows scr)(w := None) |` (- set ws)\<rparr>)"
    using Cons.prems by (subst Cons.IH) auto
  moreover have "(windows scr)(w := None) |` (- set ws) = windows scr |` (- set (w # ws))"
    by (rule ext) (simp add: restrict_map_def)
  ultimately show ?case by simp
qed

section \<open>Sizes that fit\<close>

lemma layout_specs_simps:
  "map fst (layout_specs scr) = panel_ids" "length (layout_specs scr) = 5"
  by (simp_all add: layout_specs_def panel_ids_def)

lemma distinct_panel_ids: "distinct panel_ids"
  by (simp add: panel_ids_def ID_values)

lemma specs_created:
  assumes "curses_ok api" "fits scr (side_w scr) (composer_h scr)"
  shows "\<forall>(k, nl, nc, y, x) \<in> set (layout_specs scr).
    newwin_size api (LINES scr) (COLS scr) nl nc y x = Some (nl, nc)"
  using assms(2) curses_okD(1)[OF assms(1)] by (simp add: layout_specs_def fits_def)

lemma specs_size_ok:
  assumes "fits scr (side_w scr) (composer_h scr)"
  shows "\<forall>s \<in> set (layout_specs scr). size_ok (spec_rect s)"
  using assms by (simp add: layout_specs_def fits_def spec_rect_def size_ok_def)

text \<open>The state after the windows have been created and stored in the panels.\<close>

lemma new_layout_inv:
  assumes fits: "fits scr (side_w scr) (composer_h scr)"
    and panels: "panels scr = map_of (zip panel_ids [n..<n + 5])"
    and windows: "windows scr = map_of (zip [n..<n + 5] (map spec_rect (layout_specs scr)))"
    and next_w: "n + 5 \<le> next_window scr"
  shows "layout_inv scr"
proof -
  let ?z = "zip [n..<n + 5] (map spec_rect (layout_specs scr))"
  have len: "length [n..<n + 5] = length (map spec_rect (layout_specs scr))"
    by (simp add: layout_specs_simps)
  have dom: "dom (windows scr) = {n..<n + 5}"
    unfolding windows dom_map_of_zip[OF len] by simp
  have "ran (windows scr) \<subseteq> set (map spec_rect (layout_specs scr))"
    unfolding windows by (auto simp: ran_def dest!: map_of_SomeD dest: set_zip_rightD)
  with specs_size_ok[OF fits] have sizes: "\<forall>r \<in> ran (windows scr). size_ok r" by auto
  have "\<forall>s \<in> set (layout_specs scr). panel_rect scr (fst s) = Some (spec_rect s)"
    unfolding panel_rect_def panels windows panels_five
    by (simp add: layout_specs_def upt_five ID_values)
  with dom sizes fits panels next_w show ?thesis
    by (auto simp: layout_inv_def windows_inv_def windows_from_def)
qed

section \<open>The start\<close>

lemma init_layout_state:
  assumes api: "curses_ok api" and start: "windows scr = Map.empty" "panels scr = Map.empty"
    and fits: "fits scr (side_w scr) (composer_h scr)"
    and draw: "side_drawable st" "main_drawable st"
  shows "\<exists>scr'. init_layout api st scr = Inr scr' \<and> layout_inv scr'
    \<and> current_pan scr' = ID_SIDE \<and> cursor_positions scr' = cursor_positions scr
    \<and> LINES scr' = LINES scr \<and> COLS scr' = COLS scr"
proof -
  let ?n = "next_window scr"
  let ?sp = "layout_specs scr"
  let ?scr3 = "scr\<lparr>windows := map_of (zip [?n..<?n + 5] (map spec_rect ?sp)),
    next_window := ?n + 5, panels := map_of (zip panel_ids [?n..<?n + 5]), current_pan := ID_SIDE\<rparr>"
  have cw: "create_windows api ?sp scr = (zip panel_ids (map Some [?n..<?n + 5]),
      scr\<lparr>windows := map_of (zip [?n..<?n + 5] (map spec_rect ?sp)), next_window := ?n + 5\<rparr>)"
    using create_windows_eq[OF specs_created[OF api fits]]
    by (simp only: layout_specs_simps start empty_map_add)
  have fo: "fold (\<lambda>(k, w). new_panel api k w) (zip panel_ids (map Some [?n..<?n + 5]))
      (scr\<lparr>windows := map_of (zip [?n..<?n + 5] (map spec_rect ?sp)), next_window := ?n + 5\<rparr>)
    = scr\<lparr>windows := map_of (zip [?n..<?n + 5] (map spec_rect ?sp)), next_window := ?n + 5,
          panels := map_of (zip panel_ids [?n..<?n + 5])\<rparr>"
    using new_panels_eq[OF api distinct_panel_ids, of "[?n..<?n + 5]"]
    by (simp add: start panel_ids_def del: upt_Suc)
  have inv: "layout_inv ?scr3"
    by (rule new_layout_inv[of _ ?n])
      (use fits in \<open>simp_all add: fits_def layout_specs_def\<close>)
  then have w: "windows_inv ?scr3" by (simp add: layout_inv_def)
  obtain s1 where s1: "draw_border ?scr3 = Inr s1" "draws ?scr3 s1"
    using draw_border_ok[OF w] by blast
  obtain s2 where s2: "fill api st s1 = Inr s2" "draws s1 s2"
    using fill_ok[OF api, of s1 st] w draws_inv(1)[OF s1(2)] draw by auto
  have d2: "draws ?scr3 s2" using s1(2) s2(2) by (rule draws_trans)
  obtain s3 where s3: "draw_cursor s2 = Inr s3" "draws s2 s3"
    using draw_cursor_ok[of s2] w draws_inv(1)[OF d2] draws_frame(8)[OF d2]
    by (auto simp: pane_ids_def)
  have d3: "draws ?scr3 s3" using d2 s3(2) by (rule draws_trans)
  obtain s4 where s4: "update_panels s3 = Inr s4" "draws s3 s4"
    using update_panels_ok[of s3] w draws_inv(1)[OF d3] by auto
  have d4: "draws ?scr3 (doupdate s4)"
    using d3 s4(2) doupdate_draws by (blast intro: draws_trans)
  have "init_layout api st scr = Inr (doupdate s4)"
    by (simp add: init_layout_def windows_as_intended cw fo s1 s2 s3 s4 del: upt_Suc)
  moreover have "layout_inv (doupdate s4)" using inv draws_inv(3)[OF d4] by simp
  ultimately show ?thesis using draws_frame[OF d4] by auto
qed

section \<open>Resizing\<close>

text \<open>The state of a resize once the old windows are deleted.\<close>

definition swapped :: "nat \<Rightarrow> int \<Rightarrow> int \<Rightarrow> screen \<Rightarrow> screen" where
  "swapped n w h scr =
     (let scr0 = scr\<lparr>side_w := w, composer_h := h\<rparr>
      in scr0\<lparr>windows := map_of (zip [n..<n + 5] (map spec_rect (layout_specs scr0))),
              next_window := n + 5, panels := map_of (zip panel_ids [n..<n + 5])\<rparr>)"

lemma layout_specs_cong:
  "LINES a = LINES b \<Longrightarrow> COLS a = COLS b \<Longrightarrow> side_w a = side_w b \<Longrightarrow> composer_h a = composer_h b \<Longrightarrow>
   layout_specs a = layout_specs b"
  by (simp add: layout_specs_def)

lemma fits_cong: "LINES a = LINES b \<Longrightarrow> COLS a = COLS b \<Longrightarrow> fits a = fits b"
  by (intro ext) (simp add: fits_def)

lemma swapped_layout_inv: "fits scr w h \<Longrightarrow> layout_inv (swapped n w h scr)"
  by (rule new_layout_inv[of _ n])
    (simp_all add: swapped_def Let_def fits_def layout_specs_def)

lemma swapped_frame:
  "side_w (swapped n w h scr) = w" "composer_h (swapped n w h scr) = h"
  "LINES (swapped n w h scr) = LINES scr" "COLS (swapped n w h scr) = COLS scr"
  "current_pan (swapped n w h scr) = current_pan scr"
  "cursor_positions (swapped n w h scr) = cursor_positions scr"
  by (simp_all add: swapped_def Let_def)

lemma restrict_new_windows:
  assumes "dom m = {a..<a + 5}" "a + 5 \<le> (n::nat)" "length rs = 5"
  shows "(m ++ map_of (zip [n..<n + 5] rs)) |` (- {a..<a + 5}) = map_of (zip [n..<n + 5] rs)"
proof
  fix i
  have "i \<notin> {a..<a + 5} \<Longrightarrow> m i = None" using assms(1) by blast
  moreover have "i \<in> {a..<a + 5} \<Longrightarrow> map_of (zip [n..<n + 5] rs) i = None"
    using assms(2) by (auto simp: map_of_eq_None_iff dest!: set_zip_leftD)
  ultimately show "((m ++ map_of (zip [n..<n + 5] rs)) |` (- {a..<a + 5})) i
      = map_of (zip [n..<n + 5] rs) i"
    by (cases "i \<in> {a..<a + 5}") (auto simp: restrict_map_def map_add_def split: option.splits)
qed

lemma resize_unfold:
  assumes api: "curses_ok api" and inv: "windows_from a scr" and fits: "fits scr w h"
  shows "resize api st w h scr =
    bind_r (fold_r (clamp_cursor api) pane_ids (swapped (next_window scr) w h scr)) (\<lambda>scr4.
    bind_r (draw_border scr4) (\<lambda>scr5. bind_r (fill api st scr5) (\<lambda>scr6.
    bind_r (draw_cursor scr6) update_panels)))"
proof -
  let ?n = "next_window scr"
  let ?scr0 = "scr\<lparr>side_w := w, composer_h := h\<rparr>"
  let ?rs = "map spec_rect (layout_specs ?scr0)"
  let ?scr1 = "?scr0\<lparr>windows := windows scr ++ map_of (zip [?n..<?n + 5] ?rs), next_window := ?n + 5\<rparr>"
  let ?scr2 = "?scr1\<lparr>panels := map_of (zip panel_ids [?n..<?n + 5])\<rparr>"
  have fits0: "fits ?scr0 (side_w ?scr0) (composer_h ?scr0)"
    using fits by (simp add: fits_def)
  have cw: "create_windows api (layout_specs ?scr0) ?scr0
      = (zip panel_ids (map Some [?n..<?n + 5]), ?scr1)"
    using create_windows_eq[OF specs_created[OF api fits0]]
    by (simp add: layout_specs_simps del: upt_Suc)
  have pan: "panels scr = map_of (zip panel_ids [a..<a + 5])"
    and dom: "dom (windows scr) = {a..<a + 5}" and le: "a + 5 \<le> ?n"
    using inv by (simp_all add: windows_from_def)
  note pan5 = pan[unfolded panels_five]
  have old: "map (\<lambda>(k, w). panel_window ?scr1 k) (zip panel_ids (map Some [?n..<?n + 5]))
      = map Some [a..<a + 5]"
    by (simp only: upt_five) (simp add: panel_window_def pan5 panel_ids_def ID_values)
  have "panels scr ++ map_of (zip panel_ids [?n..<?n + 5]) = map_of (zip panel_ids [?n..<?n + 5])"
    unfolding pan panels_five by (rule ext) (simp add: map_add_def)
  then have fo: "fold (\<lambda>(k, w). replace_panel api k w) (zip panel_ids (map Some [?n..<?n + 5])) ?scr1
      = ?scr2"
    by (subst replace_panels_eq[OF api distinct_panel_ids])
      (simp_all add: pan panels_five panel_ids_def ID_values del: upt_Suc)
  have del: "fold_r delwin (map Some [a..<a + 5]) ?scr2 = Inr (swapped ?n w h scr)"
  proof (subst delete_windows_eq)
    show "set [a..<a + 5] \<subseteq> dom (windows ?scr2)" using dom by auto
    show "Inr (?scr2\<lparr>windows := windows ?scr2 |` (- set [a..<a + 5])\<rparr>) = Inr (swapped ?n w h scr)"
      using restrict_new_windows[OF dom le, of ?rs]
      by (simp add: swapped_def Let_def layout_specs_simps del: upt_Suc)
  qed simp
  have "w < COLS scr" "h < LINES scr" using fits by (simp_all add: fits_def)
  then show ?thesis
    unfolding resize_def Let_def pane_ids_def windows_as_intended cw case_prod_conv old fo del
    by (simp only: not_le[symmetric] if_False bind_r_simps)
qed

subsection \<open>Cursors\<close>

text \<open>A position moved into a window, by its last line and column.\<close>

definition clamped :: "rect option \<Rightarrow> int \<times> int \<Rightarrow> int \<times> int" where
  "clamped w p = (case w of None \<Rightarrow> p | Some r \<Rightarrow> (min (fst p) (r_rows r - 1), min (snd p) (r_cols r - 1)))"

lemma clamp_cursor_ok:
  assumes "curses_ok api" "windows_inv scr" "k \<in> set pane_ids" "cursors_nonneg scr"
  shows "\<exists>s. clamp_cursor api k scr = Inr s \<and> cursors_nonneg s \<and> cursor_in s k
    \<and> cursor_of s k = clamped (panel_rect scr k) (cursor_of scr k)
    \<and> s = scr\<lparr>cursor_positions := cursor_positions s\<rparr>
    \<and> (\<forall>j. j \<noteq> k \<longrightarrow> cursor_of s j = cursor_of scr j)"
proof -
  obtain r where r: "panel_rect scr k = Some r" "size_ok r"
    "getmaxyx api (panel_window scr k) scr = Inr (r_rows r, r_cols r)"
    using windows_inv_maxyx[OF assms(1,2) pane_ids_sub[OF assms(3)]] by metis
  let ?s = "scr\<lparr>cursor_positions := (cursor_positions scr)
      (k \<mapsto> (min (fst (cursor_of scr k)) (r_rows r - 1), min (snd (cursor_of scr k)) (r_cols r - 1)))\<rparr>"
  have cur: "cursor_of ?s j = (if j = k then (min (fst (cursor_of scr k)) (r_rows r - 1),
      min (snd (cursor_of scr k)) (r_cols r - 1)) else cursor_of scr j)" for j
    by (simp add: cursor_of_def at_def_def)
  have "panel_rect ?s k = Some r" using r(1) panel_rect_cong[of ?s scr k] by simp
  moreover have "0 \<le> fst (cursor_of scr k)" "0 \<le> snd (cursor_of scr k)"
    using assms(3,4) by (simp_all add: cursors_nonneg_def)
  ultimately have "cursor_in ?s k" "cursors_nonneg ?s"
    using r(2) assms(4) by (auto simp: cursor_in_def cur size_ok_def cursors_nonneg_def)
  moreover have "cursor_of ?s k = clamped (panel_rect scr k) (cursor_of scr k)"
    by (simp add: cur clamped_def r(1))
  moreover have "clamp_cursor api k scr = Inr ?s"
    by (simp add: clamp_cursor_def r(3))
  ultimately show ?thesis using cur by (intro exI[of _ ?s]) simp
qed

lemma clamp_cursors_ok:
  assumes "curses_ok api" "windows_inv scr" "cursors_nonneg scr"
  shows "\<exists>s. fold_r (clamp_cursor api) pane_ids scr = Inr s \<and> cursors_nonneg s \<and> cursors_in s
    \<and> (\<forall>k \<in> set pane_ids. cursor_of s k = clamped (panel_rect scr k) (cursor_of scr k))
    \<and> s = scr\<lparr>cursor_positions := cursor_positions s\<rparr>"
proof -
  have ids: "ID_SIDE \<in> set pane_ids" "ID_MAIN \<in> set pane_ids" "ID_COMP \<in> set pane_ids"
    by (simp_all add: pane_ids_def)
  have w: "windows_inv (scr\<lparr>cursor_positions := c\<rparr>)" for c
    using assms(2) windows_inv_cong[of "scr\<lparr>cursor_positions := c\<rparr>" scr] by simp
  obtain s1 where s1: "clamp_cursor api ID_SIDE scr = Inr s1" "cursors_nonneg s1" "cursor_in s1 ID_SIDE"
    "s1 = scr\<lparr>cursor_positions := cursor_positions s1\<rparr>"
    "\<forall>j. j \<noteq> ID_SIDE \<longrightarrow> cursor_of s1 j = cursor_of scr j"
    "cursor_of s1 ID_SIDE = clamped (panel_rect scr ID_SIDE) (cursor_of scr ID_SIDE)"
    using clamp_cursor_ok[OF assms(1,2) ids(1) assms(3)] by blast
  have "windows_inv s1" by (subst s1(4)) (rule w)
  then obtain s2 where s2: "clamp_cursor api ID_MAIN s1 = Inr s2" "cursors_nonneg s2"
    "cursor_in s2 ID_MAIN" "s2 = s1\<lparr>cursor_positions := cursor_positions s2\<rparr>"
    "\<forall>j. j \<noteq> ID_MAIN \<longrightarrow> cursor_of s2 j = cursor_of s1 j"
    "cursor_of s2 ID_MAIN = clamped (panel_rect s1 ID_MAIN) (cursor_of s1 ID_MAIN)"
    using clamp_cursor_ok[OF assms(1) _ ids(2) s1(2)] by blast
  have e2: "s2 = scr\<lparr>cursor_positions := cursor_positions s2\<rparr>"
    by (subst s2(4), subst s1(4)) simp
  have "windows_inv s2" by (subst e2) (rule w)
  then obtain s3 where s3: "clamp_cursor api ID_COMP s2 = Inr s3" "cursors_nonneg s3"
    "cursor_in s3 ID_COMP" "s3 = s2\<lparr>cursor_positions := cursor_positions s3\<rparr>"
    "\<forall>j. j \<noteq> ID_COMP \<longrightarrow> cursor_of s3 j = cursor_of s2 j"
    "cursor_of s3 ID_COMP = clamped (panel_rect s2 ID_COMP) (cursor_of s2 ID_COMP)"
    using clamp_cursor_ok[OF assms(1) _ ids(3) s2(2)] by blast
  have e3: "s3 = scr\<lparr>cursor_positions := cursor_positions s3\<rparr>"
    by (subst s3(4), subst e2) simp
  have p: "panel_rect s1 k = panel_rect scr k" "panel_rect s2 k = panel_rect scr k"
    "panel_rect s3 k = panel_rect scr k" for k
    by (rule panel_rect_cong; subst s1(4); simp) (rule panel_rect_cong; (subst e2 | subst e3); simp)+
  have "cursor_in s3 ID_SIDE" "cursor_in s3 ID_MAIN"
    using s1(3) s2(3,5) s3(5) cursor_in_cong[of s1 ID_SIDE s3] cursor_in_cong[of s2 ID_MAIN s3]
    by (simp_all add: p ID_values)
  moreover have "cursor_of s3 k = clamped (panel_rect scr k) (cursor_of scr k)" if "k \<in> set pane_ids" for k
    using that s1(5,6) s2(5,6) s3(5,6) by (auto simp: pane_ids_def p ID_values)
  ultimately show ?thesis using s1(1) s2(1) s3(1-4) e3
    by (intro exI[of _ s3]) (simp add: cursors_in_def pane_ids_def)
qed

lemma resize_ok:
  assumes api: "curses_ok api" and inv: "windows_inv scr" and fits: "fits scr w h"
    and cur: "cursors_nonneg scr" "current_pan scr \<in> set pane_ids"
    and draw: "side_drawable st" "main_drawable st"
  shows "\<exists>scr'. resize api st w h scr = Inr scr' \<and> layout_inv scr' \<and> cursors_in scr'
    \<and> cursors_nonneg scr' \<and> side_w scr' = w \<and> composer_h scr' = h \<and> LINES scr' = LINES scr
    \<and> COLS scr' = COLS scr \<and> current_pan scr' = current_pan scr
    \<and> (\<forall>k \<in> set pane_ids. cursor_of scr' k = clamped (panel_rect scr' k) (cursor_of scr k))"
proof -
  obtain a where a: "windows_from a scr" using inv by (auto simp: windows_inv_def)
  let ?s0 = "swapped (next_window scr) w h scr"
  have lay: "layout_inv ?s0" by (rule swapped_layout_inv[OF fits])
  have "cursors_nonneg ?s0"
    using cur(1) by (simp add: cursors_nonneg_def cursor_of_def swapped_frame)
  moreover have w0: "windows_inv ?s0" using lay by (simp add: layout_inv_def)
  ultimately obtain s1 where s1: "fold_r (clamp_cursor api) pane_ids ?s0 = Inr s1"
    "cursors_nonneg s1" "cursors_in s1" "s1 = ?s0\<lparr>cursor_positions := cursor_positions s1\<rparr>"
    "\<forall>k \<in> set pane_ids. cursor_of s1 k = clamped (panel_rect ?s0 k) (cursor_of ?s0 k)"
    using clamp_cursors_ok[OF api] by blast
  have f1: "panels s1 = panels ?s0" "windows s1 = windows ?s0" "next_window s1 = next_window ?s0"
    "side_w s1 = w" "composer_h s1 = h" "LINES s1 = LINES scr" "COLS s1 = COLS scr"
    "current_pan s1 = current_pan scr"
    by (subst s1(4); simp add: swapped_frame)+
  have w1: "windows_inv s1" using w0 windows_inv_cong[of s1 ?s0] f1 by simp
  have lay1: "layout_inv s1"
    using lay w1 layout_specs_cong[of s1 ?s0] fits_cong[of s1 ?s0] panel_rect_cong[of s1 ?s0]
    by (simp add: layout_inv_def f1 swapped_frame)
  obtain s2 where s2: "draw_border s1 = Inr s2" "draws s1 s2"
    using draw_border_ok[OF w1] by blast
  obtain s3 where s3: "fill api st s2 = Inr s3" "draws s2 s3"
    using fill_ok[OF api, of s2 st] w1 draws_inv(1)[OF s2(2)] draw by auto
  have d3: "draws s1 s3" using s2(2) s3(2) by (rule draws_trans)
  obtain s4 where s4: "draw_cursor s3 = Inr s4" "draws s3 s4"
    using draw_cursor_ok[of s3] w1 draws_inv(1)[OF d3] draws_frame(8)[OF d3] f1(8) cur(2) by auto
  have d4: "draws s1 s4" using d3 s4(2) by (rule draws_trans)
  obtain s5 where s5: "update_panels s4 = Inr s5" "draws s4 s5"
    using update_panels_ok[of s4] w1 draws_inv(1)[OF d4] by auto
  have d5: "draws s1 s5" using d4 s5(2) by (rule draws_trans)
  have "resize api st w h scr = Inr s5"
    unfolding resize_unfold[OF api a fits] by (simp add: s1(1) s2(1) s3(1) s4(1) s5(1))
  moreover have "panel_rect s5 k = panel_rect ?s0 k" "cursor_of s5 k = cursor_of s1 k" for k
    using panel_rect_cong[of s1 ?s0] f1 by (simp_all add: draws_inv[OF d5] draws_derived[OF d5])
  moreover have "cursor_of ?s0 k = cursor_of scr k" for k
    by (simp add: swapped_frame cursor_of_def)
  ultimately show ?thesis using lay1 s1(2,3,5) f1
    by (intro exI[of _ s5]) (simp add: draws_inv[OF d5] draws_frame[OF d5])
qed

lemma resize_too_big:
  "COLS scr \<le> w \<or> LINES scr \<le> h \<Longrightarrow> resize api st w h scr = Inr scr"
  by (auto simp: resize_def)

end
