(* ===== verification/Input_Facts.thy ===== *)
theory Input_Facts
  imports Process_Input Layout_Steps
begin

text \<open>
  What each key does, up to drawing: the state after a key is given by its cursor and scroll
  assignments, the rest being recorded calls. From these descriptions: the invariant of the
  user interface.
\<close>

section \<open>The invariant\<close>

definition screen_inv :: "screen \<Rightarrow> bool" where
  "screen_inv sc \<longleftrightarrow> layout_inv sc \<and> cursors_in sc \<and> current_pan sc \<in> set pane_ids"

text \<open>No container has more elements than fit in memory.\<close>

definition sizes_ok :: "tl_app_state \<Rightarrow> bool" where
  "sizes_ok st \<longleftrightarrow> length (position_set st (current_chatlist st)) < 2 ^ 63
     \<and> length (messages_of st (chosen_chat_id st)) < 2 ^ 63"

definition ui_inv :: "machine \<Rightarrow> bool" where
  "ui_inv m \<longleftrightarrow> screen_inv (scr m) \<and> side_drawable (app m) \<and> main_drawable (app m)
     \<and> sizes_ok (app m)"

lemma screen_invD:
  assumes "screen_inv sc"
  shows "windows_inv sc" "layout_inv sc" "cursors_in sc" "cursors_nonneg sc"
    "current_pan sc \<in> set pane_ids" "fits sc (side_w sc) (composer_h sc)"
proof -
  show l: "layout_inv sc" "cursors_in sc" "current_pan sc \<in> set pane_ids"
    using assms by (simp_all add: screen_inv_def)
  then show "windows_inv sc" "fits sc (side_w sc) (composer_h sc)" by (simp_all add: layout_inv_def)
  from l(2) show "cursors_nonneg sc"
    by (auto simp: cursors_in_def cursors_nonneg_def cursor_in_def split: option.splits)
qed

lemma draws_screen_inv: "draws a b \<Longrightarrow> screen_inv b = screen_inv a"
  by (simp add: screen_inv_def draws_inv draws_frame)

text \<open>The window of the pane with the focus, and the cursor in it.\<close>

lemma focus_window:
  assumes "curses_ok api" "screen_inv sc" "k = current_pan sc"
  obtains r where "panel_rect sc k = Some r" "size_ok r"
    "getmaxy api (panel_window sc k) sc = Inr (r_rows r)"
    "getmaxx api (panel_window sc k) sc = Inr (r_cols r)"
    "0 \<le> fst (cursor_of sc k)" "fst (cursor_of sc k) < r_rows r"
    "0 \<le> snd (cursor_of sc k)" "snd (cursor_of sc k) < r_cols r"
proof -
  note i = screen_invD[OF assms(2)]
  obtain r where r: "panel_rect sc k = Some r" "size_ok r"
    "getmaxy api (panel_window sc k) sc = Inr (r_rows r)"
    "getmaxx api (panel_window sc k) sc = Inr (r_cols r)"
    using windows_inv_maxyx[OF assms(1) i(1) pane_ids_sub[OF i(5)]] assms(3) by metis
  moreover have "cursor_in sc k" using i(3,5) assms(3) by (simp add: cursors_in_def)
  ultimately show thesis using that by (simp add: cursor_in_def)
qed

section \<open>Frames\<close>

lemma app_simps [simp]:
  "app (on_app f m) = f (app m)" "app (set_cursor k p m) = app m" "app (m\<lparr>scr := s\<rparr>) = app m"
  "app (on_input g m) = app m" "app (m\<lparr>cont := c\<rparr>) = app m"
  "app (m\<lparr>wd := get_chat_history ch (wd m)\<rparr>) = app m"
  by (simp_all add: app_def on_app_def set_cursor_def on_input_def upd_shared_def get_chat_history_def)

lemma scr_simps [simp]:
  "scr (on_app f m) = scr m" "scr (on_input g m) = scr m"
  "input_state (on_app f m) = input_state m" "cont (on_app f m) = cont m"
  "input_state (set_cursor k p m) = input_state m" "cont (set_cursor k p m) = cont m"
  "input_state (on_input g m) = g (input_state m)" "cont (on_input g m) = cont m"
  "wd (set_cursor k p m) = wd m" "wd (on_input g m) = wd m"
  by (simp_all add: on_app_def on_input_def set_cursor_def)

lemma set_cursor_frame [simp]:
  "current_pan (scr (set_cursor k p m)) = current_pan (scr m)"
  "cursor_of (scr (set_cursor k p m)) j = (if j = k then p else cursor_of (scr m) j)"
  "LINES (scr (set_cursor k p m)) = LINES (scr m)" "COLS (scr (set_cursor k p m)) = COLS (scr m)"
  "side_w (scr (set_cursor k p m)) = side_w (scr m)"
  "composer_h (scr (set_cursor k p m)) = composer_h (scr m)"
  "panel_rect (scr (set_cursor k p m)) j = panel_rect (scr m) j"
  "panel_window (scr (set_cursor k p m)) j = panel_window (scr m) j"
  by (simp_all add: set_cursor_def cursor_of_def at_def_def panel_rect_def panel_window_def
      cong: option.case_cong)

lemma layout_inv_set_cursor [simp]: "layout_inv (scr (set_cursor k p m)) = layout_inv (scr m)"
proof -
  have "windows_inv (scr (set_cursor k p m)) = windows_inv (scr m)"
    by (rule windows_inv_cong) (simp_all add: set_cursor_def)
  moreover have "layout_specs (scr (set_cursor k p m)) = layout_specs (scr m)"
    by (rule layout_specs_cong) simp_all
  moreover have "fits (scr (set_cursor k p m)) = fits (scr m)"
    by (rule fits_cong) simp_all
  ultimately show ?thesis by (simp add: layout_inv_def)
qed

lemma screen_inv_set_cursor:
  assumes "screen_inv (scr m)" "panel_rect (scr m) k = Some r"
    and "0 \<le> fst p" "fst p < r_rows r" "0 \<le> snd p" "snd p < r_cols r"
  shows "screen_inv (scr (set_cursor k p m))"
  using assms by (auto simp: screen_inv_def cursors_in_def cursor_in_def cong: option.case_cong)

lemma set_scroll_frame [simp]:
  "position_set (set_scroll k v st) l = position_set st l"
  "current_chatlist (set_scroll k v st) = current_chatlist st"
  "messages_of (set_scroll k v st) c = messages_of st c"
  "chosen_chat_id (set_scroll k v st) = chosen_chat_id st"
  "scroll_of (set_scroll k v st) j = (if j = k then v else scroll_of st j)"
  "chat_lists_ok (set_scroll k v st) = chat_lists_ok st"
  "chats_known (set_scroll k v st) = chats_known st"
  "sizes_ok (set_scroll k v st) = sizes_ok st"
  by (simp_all add: set_scroll_def position_set_def messages_of_def scroll_of_def at_def_def
      chat_lists_ok_def chats_known_def position_map_def sizes_ok_def)

section \<open>Drawing the result\<close>

text \<open>The step succeeds and its result is the machine \<open>m'\<close> with some more recorded calls.\<close>

definition shows_as :: "machine result \<Rightarrow> machine \<Rightarrow> bool" where
  "shows_as R m' \<longleftrightarrow> (\<exists>s. R = Inr (m'\<lparr>scr := s\<rparr>) \<and> draws (scr m') s)"

lemma shows_as_here [simp, intro]: "shows_as (Inr m) m"
  unfolding shows_as_def by (intro exI[of _ "scr m"]) simp

lemma shows_asE:
  assumes "shows_as R m'"
  obtains m'' where "R = Inr m''" "app m'' = app m'" "input_state m'' = input_state m'"
    "cont m'' = cont m'" "wd m'' = wd m'" "draws (scr m') (scr m'')"
  using assms by (auto simp: shows_as_def)

lemma shows_as_bind:
  assumes "shows_as R m1" and "\<And>s. draws (scr m1) s \<Longrightarrow> shows_as (f (m1\<lparr>scr := s\<rparr>)) (m1\<lparr>scr := s\<rparr>)"
  shows "shows_as (bind_r R f) m1"
proof -
  obtain s where s: "R = Inr (m1\<lparr>scr := s\<rparr>)" "draws (scr m1) s"
    using assms(1) by (auto simp: shows_as_def)
  from assms(2)[OF s(2)] obtain s' where "f (m1\<lparr>scr := s\<rparr>) = Inr (m1\<lparr>scr := s'\<rparr>)" "draws s s'"
    by (auto simp: shows_as_def)
  with s draws_trans show ?thesis by (auto simp: shows_as_def)
qed

lemma on_scr_shows: "(\<exists>s. f (scr m) = Inr s \<and> draws (scr m) s) \<Longrightarrow> shows_as (on_scr f m) m"
  by (auto simp: on_scr_def shows_as_def)

lemma show_pane_ok:
  assumes "windows_inv (scr m)" "current_pan (scr m) \<in> set pane_ids"
  shows "shows_as (show_pane m) m"
proof -
  obtain s1 where s1: "draw_cursor (scr m) = Inr s1" "draws (scr m) s1"
    using draw_cursor_ok assms by blast
  have "alive (panel_window s1 (current_pan s1)) s1"
    using windows_inv_alive[OF assms(1) pane_ids_sub[OF assms(2)]] draws_derived[OF s1(2)]
      draws_frame[OF s1(2)] by simp
  with s1 show ?thesis unfolding show_pane_def
    by (intro on_scr_shows) (simp add: on_window_alive doupdate_def)
qed

lemma draw_side_m_ok:
  assumes "curses_ok api" "windows_inv (scr m)" "side_drawable (app m)"
  shows "shows_as (draw_side_m api m) m"
  unfolding draw_side_m_def using draw_side_ok[OF assms] by (rule on_scr_shows)

lemma draw_main_m_ok:
  assumes "curses_ok api" "windows_inv (scr m)" "main_drawable (app m)"
  shows "shows_as (draw_main_m api m) m"
  unfolding draw_main_m_def using draw_main_ok[OF assms] by (rule on_scr_shows)

lemma show_after:
  assumes "shows_as R m'" "screen_inv (scr m')"
  shows "shows_as (bind_r R show_pane) m'"
  using assms(1)
proof (rule shows_as_bind)
  fix s assume "draws (scr m') s"
  with assms(2) have "screen_inv s" by (simp add: draws_screen_inv)
  from show_pane_ok[of "m'\<lparr>scr := s\<rparr>"] screen_invD[OF this]
  show "shows_as (show_pane (m'\<lparr>scr := s\<rparr>)) (m'\<lparr>scr := s\<rparr>)" by simp
qed


lemma ui_invD:
  assumes "ui_inv m"
  shows "screen_inv (scr m)" "side_drawable (app m)" "main_drawable (app m)" "sizes_ok (app m)"
    "windows_inv (scr m)" "current_pan (scr m) \<in> set pane_ids"
  using assms screen_invD[of "scr m"] by (simp_all add: ui_inv_def)

lemma show_pane_shows: "ui_inv m \<Longrightarrow> shows_as (show_pane m) m"
  by (intro show_pane_ok ui_invD)

lemma side_redraw:
  "curses_ok api \<Longrightarrow> ui_inv m \<Longrightarrow> shows_as (bind_r (draw_side_m api m) show_pane) m"
  by (intro show_after draw_side_m_ok) (simp_all add: ui_invD)

lemma main_redraw:
  "curses_ok api \<Longrightarrow> ui_inv m \<Longrightarrow> shows_as (bind_r (draw_main_m api m) show_pane) m"
  by (intro show_after draw_main_m_ok) (simp_all add: ui_invD)

section \<open>Scroll offsets\<close>

lemma unat_max_offset:
  assumes "0 \<le> maxy" "maxy < 2 ^ 31" "n < 2 ^ 63"
  shows "unat (max_offset maxy n) = n - nat maxy"
proof -
  have n: "unat (of_nat n :: u64) = n"
    using assms(3) by (simp add: unat_of_nat take_bit_nat_eq_self)
  note y = unat_size_of_int[OF assms(1,2)]
  show ?thesis
  proof (cases "size_of_int maxy \<le> (of_nat n :: u64)")
    case True
    then have "max_offset maxy n = of_nat n - size_of_int maxy" by (simp add: max_offset_def max_def)
    with True show ?thesis by (simp add: unat_sub n y)
  next
    case False
    then have "nat maxy > n" by (simp add: word_le_nat_alt n y)
    with False show ?thesis by (simp add: max_offset_def max_def)
  qed
qed

lemma unat_min: "unat (min a b) = min (unat a) (unat (b :: u64))"
  by (simp add: min_def word_le_nat_alt)

lemma unat_step_up:
  assumes "unat (v :: u64) < 2 ^ 63"
  shows "unat (min b (v + 1)) = min (unat b) (unat v + 1)"
proof -
  have "unat (v + 1) = unat v + 1" using assms by (simp add: unat_word_ariths)
  then show ?thesis by (simp add: unat_min)
qed

lemma unat_step_down: "unat (max 1 v - 1 :: u64) = unat v - 1"
proof (cases "v = 0")
  case True
  then show ?thesis by (simp add: max_def)
next
  case False
  then have "1 \<le> v" by (simp add: word_le_nat_alt unat_gt_0 Suc_le_eq)
  then show ?thesis by (simp add: max_def unat_sub)
qed

lemma on_app_scroll:
  "on_app (\<lambda>st. set_scroll k (min b (scroll_of st k + 1)) st) m
     = on_app (set_scroll k (min b (scroll_of (app m) k + 1))) m"
  "on_app (\<lambda>st. set_scroll k (max 1 (scroll_of st k) - 1) st) m
     = on_app (set_scroll k (max 1 (scroll_of (app m) k) - 1)) m"
  by (simp_all add: on_app_def app_def upd_shared_def upd_app_def)

lemma ui_inv_cursor:
  assumes "ui_inv m" "panel_rect (scr m) k = Some r"
    and "0 \<le> fst p" "fst p < r_rows r" "0 \<le> snd p" "snd p < r_cols r"
  shows "ui_inv (set_cursor k p m)"
  using assms screen_inv_set_cursor[of m k r p] by (simp add: ui_inv_def)

lemma ui_inv_scroll_side:
  "ui_inv m \<Longrightarrow> unat v \<le> length (chats_shown m) \<Longrightarrow> ui_inv (on_app (set_scroll ID_SIDE v) m)"
  by (simp add: ui_inv_def side_drawable_def main_drawable_def chats_shown_def ID_values)

lemma ui_inv_scroll_main:
  "ui_inv m \<Longrightarrow> unat v \<le> length (msgs_shown m) \<Longrightarrow> ui_inv (on_app (set_scroll ID_MAIN v) m)"
  by (simp add: ui_inv_def side_drawable_def main_drawable_def msgs_shown_def ID_values)

lemma shown_set_cursor [simp]:
  "chats_shown (set_cursor k p m) = chats_shown m" "msgs_shown (set_cursor k p m) = msgs_shown m"
  by (simp_all add: chats_shown_def msgs_shown_def)

lemma shown_sizes:
  assumes "ui_inv m"
  shows "length (chats_shown m) < 2 ^ 63" "length (msgs_shown m) < 2 ^ 63"
    "unat (scroll_of (app m) ID_SIDE) \<le> length (chats_shown m)"
    "chosen_chat_id (app m) \<noteq> - 1 \<Longrightarrow> unat (scroll_of (app m) ID_MAIN) \<le> length (msgs_shown m)"
  using assms by (simp_all add: ui_inv_def sizes_ok_def chats_shown_def msgs_shown_def
      side_drawable_def main_drawable_def)

section \<open>The keys\<close>

text \<open>The pane with the focus and its window, as all the descriptions assume them.\<close>

definition focus :: "machine \<Rightarrow> int \<Rightarrow> rect \<Rightarrow> bool" where
  "focus m k r \<longleftrightarrow> current_pan (scr m) = k \<and> panel_rect (scr m) k = Some r"

lemma focusD:
  assumes "curses_ok api" "ui_inv m" "focus m k r"
  shows "current_pan (scr m) = k" "panel_rect (scr m) k = Some r" "size_ok r"
    "getmaxy api (panel_window (scr m) k) (scr m) = Inr (r_rows r)"
    "getmaxx api (panel_window (scr m) k) (scr m) = Inr (r_cols r)"
    "0 \<le> fst (cursor_of (scr m) k)" "fst (cursor_of (scr m) k) < r_rows r"
    "0 \<le> snd (cursor_of (scr m) k)" "snd (cursor_of (scr m) k) < r_cols r"
  using focus_window[OF assms(1) ui_invD(1)[OF assms(2)], of k] assms(3)
  by (auto simp: focus_def)

lemma key_h_shows:
  assumes "curses_ok api" "ui_inv m" "focus m k r"
  shows "ui_inv (set_cursor k (fst (cur_pos m), max (snd (cur_pos m) - 1) 0) m)"
    and "shows_as (key_h m) (set_cursor k (fst (cur_pos m), max (snd (cur_pos m) - 1) 0) m)"
proof -
  note f = focusD[OF assms]
  show i: "ui_inv (set_cursor k (fst (cur_pos m), max (snd (cur_pos m) - 1) 0) m)"
    by (rule ui_inv_cursor[OF assms(2) f(2)]) (use f in simp_all)
  show "shows_as (key_h m) (set_cursor k (fst (cur_pos m), max (snd (cur_pos m) - 1) 0) m)"
    using f show_pane_shows[OF i] by (simp add: key_h_def)
qed

lemma key_l_shows:
  assumes "curses_ok api" "ui_inv m" "focus m k r"
  shows "ui_inv (set_cursor k (fst (cur_pos m), min (snd (cur_pos m) + 1) (r_cols r - 1)) m)"
    and "shows_as (key_l api m)
      (set_cursor k (fst (cur_pos m), min (snd (cur_pos m) + 1) (r_cols r - 1)) m)"
proof -
  note f = focusD[OF assms]
  show i: "ui_inv (set_cursor k (fst (cur_pos m), min (snd (cur_pos m) + 1) (r_cols r - 1)) m)"
    by (rule ui_inv_cursor[OF assms(2) f(2)]) (use f in simp_all)
  show "shows_as (key_l api m)
      (set_cursor k (fst (cur_pos m), min (snd (cur_pos m) + 1) (r_cols r - 1)) m)"
    using f show_pane_shows[OF i] by (simp add: key_l_def)
qed

text \<open>The states after \<^verbatim>\<open>j\<close>, \<^verbatim>\<open>k\<close>, \<^verbatim>\<open>G\<close> and the second \<^verbatim>\<open>g\<close>, and what makes each keep the invariant.\<close>

definition cursor_down :: "int \<Rightarrow> rect \<Rightarrow> u64 \<Rightarrow> machine \<Rightarrow> machine" where
  "cursor_down k r v m =
     (if fst (cur_pos m) \<ge> r_rows r - 1
      then on_app (set_scroll k v) (set_cursor k (r_rows r - 1, snd (cur_pos m)) m)
      else set_cursor k (fst (cur_pos m) + 1, snd (cur_pos m)) m)"

definition cursor_up :: "int \<Rightarrow> u64 \<Rightarrow> machine \<Rightarrow> machine" where
  "cursor_up k v m =
     (if fst (cur_pos m) \<le> 0
      then on_app (set_scroll k v) (set_cursor k (0, snd (cur_pos m)) m)
      else set_cursor k (fst (cur_pos m) - 1, snd (cur_pos m)) m)"

definition shown_length :: "int \<Rightarrow> machine \<Rightarrow> nat" where
  "shown_length k m = (if k = ID_SIDE then length (chats_shown m) else length (msgs_shown m))"

lemma ui_inv_scroll:
  "ui_inv m \<Longrightarrow> k = ID_SIDE \<or> k = ID_MAIN \<Longrightarrow> unat v \<le> shown_length k m \<Longrightarrow>
   ui_inv (on_app (set_scroll k v) m)"
  using ui_inv_scroll_side ui_inv_scroll_main by (auto simp: shown_length_def ID_values)

lemma shown_length_set_cursor [simp]: "shown_length k (set_cursor j p m) = shown_length k m"
  by (simp add: shown_length_def)

lemma cursor_down_inv:
  assumes "curses_ok api" "ui_inv m" "focus m k r" "k = ID_SIDE \<or> k = ID_MAIN"
    and "unat v \<le> shown_length k m"
  shows "ui_inv (cursor_down k r v m)"
proof -
  note f = focusD[OF assms(1-3)]
  have "ui_inv (set_cursor k (r_rows r - 1, snd (cur_pos m)) m)"
    by (rule ui_inv_cursor[OF assms(2) f(2)]) (use f in \<open>simp_all add: size_ok_def\<close>)
  moreover have "ui_inv (set_cursor k (fst (cur_pos m) + 1, snd (cur_pos m)) m)"
    if "fst (cur_pos m) < r_rows r - 1"
    by (rule ui_inv_cursor[OF assms(2) f(2)]) (use that f in simp_all)
  ultimately show ?thesis
    using assms(4,5) by (auto simp: cursor_down_def intro: ui_inv_scroll)
qed

lemma cursor_up_inv:
  assumes "curses_ok api" "ui_inv m" "focus m k r" "k = ID_SIDE \<or> k = ID_MAIN"
    and "unat v \<le> shown_length k m"
  shows "ui_inv (cursor_up k v m)"
proof -
  note f = focusD[OF assms(1-3)]
  have "ui_inv (set_cursor k (0, snd (cur_pos m)) m)"
    by (rule ui_inv_cursor[OF assms(2) f(2)]) (use f in \<open>simp_all add: size_ok_def\<close>)
  moreover have "ui_inv (set_cursor k (fst (cur_pos m) - 1, snd (cur_pos m)) m)"
    if "0 < fst (cur_pos m)"
    by (rule ui_inv_cursor[OF assms(2) f(2)]) (use that f in simp_all)
  ultimately show ?thesis
    using assms(4,5) by (auto simp: cursor_up_def intro: ui_inv_scroll)
qed

end
