(* ===== verification/Layout_Props.thy ===== *)
theory Layout_Props
  imports Layout_Steps
begin

text \<open>
  The properties of the layout: it is established at the start, kept by a resize and tiles the
  terminal; a composer of no line ends in a deleted window; the exact lines of the chat list and of
  the message window; what a scroll offset beyond the end does.
\<close>

section \<open>Concrete states\<close>

definition blank_screen :: "int \<Rightarrow> int \<Rightarrow> screen" where
  "blank_screen lines cols =
     \<lparr>LINES = lines, COLS = cols, windows = Map.empty, next_window = 0, panels = Map.empty,
      side_w = 0, composer_h = 0, current_pan = 0, cursor_positions = Map.empty, calls = []\<rparr>"

definition example_screen :: screen where
  "example_screen = (swapped 0 20 3 (blank_screen 24 80))\<lparr>current_pan := ID_SIDE\<rparr>"

definition example_state :: tl_app_state where
  "example_state = (new_app_state 0 False)
     \<lparr>id_to_chat :=
        [7 \<mapsto> \<lparr>chat_id = 7, chat_title = ''Ann'', chat_last_message = None, chat_positions = [],
               chat_lists = []\<rparr>,
         8 \<mapsto> \<lparr>chat_id = 8, chat_title = ''Bob'', chat_last_message = None, chat_positions = [],
               chat_lists = []\<rparr>],
      position_sets := [chat_list_id ChatListMain \<mapsto> [(9, 8), (5, 7)]],
      id_to_position := [chat_list_id ChatListMain \<mapsto> [8 \<mapsto> 9, 7 \<mapsto> 5]],
      chosen_chat_id := 7,
      st_messages := [7 \<mapsto>
        [\<lparr>msg_id = 2, msg_chat_id = 7, msg_date = 60, msg_content = MessageText ''yes''\<rparr>,
         \<lparr>msg_id = 1, msg_chat_id = 7, msg_date = 30, msg_content = MessageText ''hi''\<rparr>]]\<rparr>"

lemma example_state_simps:
  "position_set example_state (current_chatlist example_state) = [(9, 8), (5, 7)]"
  "scroll_of example_state k = 0" "chosen_chat_id example_state = 7"
  "messages_of example_state 7 =
     [\<lparr>msg_id = 2, msg_chat_id = 7, msg_date = 60, msg_content = MessageText ''yes''\<rparr>,
      \<lparr>msg_id = 1, msg_chat_id = 7, msg_date = 30, msg_content = MessageText ''hi''\<rparr>]"
  by (simp_all add: example_state_def position_set_def scroll_of_def messages_of_def at_def_def
      new_app_state_def)

lemma example_state_drawable: "side_drawable example_state" "main_drawable example_state"
proof -
  have "chat_lists_ok example_state"
    by (auto simp: chat_lists_ok_def example_state_def position_set_def position_map_def at_def_def
        new_app_state_def oset_def)
  moreover have "chats_known example_state"
    by (auto simp: chats_known_def example_state_def position_map_def at_def_def new_app_state_def)
  ultimately show "side_drawable example_state"
    by (simp add: side_drawable_def example_state_simps)
  show "main_drawable example_state"
    by (simp add: main_drawable_def example_state_simps texts_ok_def)
qed

lemma example_screen_inv: "layout_inv example_screen"
proof -
  have i: "layout_inv (swapped 0 20 3 (blank_screen 24 80))"
    by (rule swapped_layout_inv) (simp add: fits_def blank_screen_def)
  have c: "windows_inv (s\<lparr>current_pan := p\<rparr>) = windows_inv s"
    "panel_rect (s\<lparr>current_pan := p\<rparr>) k = panel_rect s k"
    "layout_specs (s\<lparr>current_pan := p\<rparr>) = layout_specs s" "fits (s\<lparr>current_pan := p\<rparr>) = fits s"
    for s p k
    by (rule windows_inv_cong panel_rect_cong layout_specs_cong fits_cong; simp)+
  from i show ?thesis
    by (simp add: layout_inv_def example_screen_def c)
qed

lemma example_screen_cursors:
  "cursors_nonneg example_screen" "current_pan example_screen \<in> set pane_ids"
  by (simp_all add: example_screen_def cursors_nonneg_def cursor_of_def swapped_frame at_def_def
      blank_screen_def pane_ids_def)

section \<open>The windows tile the terminal\<close>

text \<open>The panel whose window has a cell of the terminal, by the position of the borders.\<close>

definition cell_owner :: "screen \<Rightarrow> int \<Rightarrow> int \<Rightarrow> int" where
  "cell_owner scr y x =
     (if y < LINES scr - composer_h scr - 1
      then (if x < side_w scr then ID_SIDE else if x = side_w scr then ID_E_SIDE_MAIN else ID_MAIN)
      else (if y = LINES scr - composer_h scr - 1 then ID_C_SIDE_MAIN_COMP else ID_COMP))"

lemma layout_rects:
  assumes "layout_inv scr"
  shows "panel_rect scr ID_SIDE = Some \<lparr>r_y = 0, r_x = 0, r_rows = LINES scr - composer_h scr - 1,
        r_cols = side_w scr\<rparr>"
    "panel_rect scr ID_MAIN = Some \<lparr>r_y = 0, r_x = side_w scr + 1,
        r_rows = LINES scr - composer_h scr - 1, r_cols = COLS scr - side_w scr - 1\<rparr>"
    "panel_rect scr ID_COMP = Some \<lparr>r_y = LINES scr - composer_h scr, r_x = 0, r_rows = composer_h scr,
        r_cols = COLS scr\<rparr>"
    "panel_rect scr ID_E_SIDE_MAIN = Some \<lparr>r_y = 0, r_x = side_w scr,
        r_rows = LINES scr - composer_h scr - 1, r_cols = 1\<rparr>"
    "panel_rect scr ID_C_SIDE_MAIN_COMP = Some \<lparr>r_y = LINES scr - composer_h scr - 1, r_x = 0, r_rows = 1,
        r_cols = COLS scr\<rparr>"
  using assms by (simp_all add: layout_inv_def layout_specs_def spec_rect_def diff_diff_add)

lemma cell_owner_hit:
  assumes "layout_inv scr"
  shows "k \<in> set panel_ids \<and> (\<exists>r. panel_rect scr k = Some r \<and> cell_in y x r) \<longleftrightarrow>
    (0 \<le> y \<and> y < LINES scr \<and> 0 \<le> x \<and> x < COLS scr) \<and> k = cell_owner scr y x"
    (is "?hit \<longleftrightarrow> ?in \<and> _")
proof -
  note r = layout_rects[OF assms, unfolded ID_values]
  have f: "0 < side_w scr" "side_w scr < COLS scr - 1" "0 < composer_h scr"
    "composer_h scr < LINES scr - 1"
    using assms by (simp_all add: layout_inv_def fits_def)
  have ids: "j \<in> set panel_ids \<longleftrightarrow> j = 1 \<or> j = 2 \<or> j = 4 \<or> j = 16 \<or> j = 48" for j
    by (simp add: panel_ids_def ID_values)
  show ?thesis
  proof (cases "k \<in> set panel_ids")
    case True
    then consider "k = 1" | "k = 2" | "k = 4" | "k = 16" | "k = 48" unfolding ids by blast
    then show ?thesis
      by cases (use f in \<open>auto simp: ids r cell_in_def cell_owner_def ID_values split: if_splits\<close>)
  next
    case False
    then have "k \<noteq> cell_owner scr y x" by (auto simp: ids cell_owner_def ID_values)
    with False show ?thesis by simp
  qed
qed

text \<open>With the layout in place every cell of the terminal lies in the window of exactly one
  panel, and no window has a cell outside the terminal.\<close>

theorem layout_tiles:
  assumes "layout_inv scr"
  shows "(0 \<le> y \<and> y < LINES scr \<and> 0 \<le> x \<and> x < COLS scr) =
    (\<exists>!k. k \<in> set panel_ids \<and> (\<exists>r. panel_rect scr k = Some r \<and> cell_in y x r))"
  unfolding cell_owner_hit[OF assms] by auto

theorem layout_tiles_witness:
  "\<exists>!k. k \<in> set panel_ids \<and> (\<exists>r. panel_rect example_screen k = Some r \<and> cell_in 3 20 r)"
  using layout_tiles[OF example_screen_inv, of 3 20]
  by (simp add: example_screen_def swapped_frame blank_screen_def)

section \<open>The layout is established and kept\<close>

lemma init_config_fits:
  assumes "4 \<le> COLS scr" "5 \<le> LINES scr" "COLS scr < 2 ^ 31" "LINES scr < 2 ^ 31"
  shows "fits (init_config scr) (side_w (init_config scr)) (composer_h (init_config scr))"
proof -
  have "1 \<le> COLS scr div 4" "COLS scr div 4 < COLS scr - 1" "1 \<le> LINES scr div 5"
    "LINES scr div 5 < LINES scr - 1"
    using assms by presburger+
  then show ?thesis
    using assms by (simp add: init_config_def int_div_def fits_def min_def)
qed

text \<open>On a terminal of at least 5 lines and 4 columns \<^verbatim>\<open>init_config\<close> followed by \<^verbatim>\<open>init_layout\<close>
  creates the five windows without a fault: each panel has its window with the intended rectangle,
  there is no other window, the chat list has the focus, and the cursors are where they were.\<close>

theorem start_layout:
  assumes "curses_ok api" "4 \<le> COLS scr" "5 \<le> LINES scr" "COLS scr < 2 ^ 31" "LINES scr < 2 ^ 31"
    and "windows scr = Map.empty" "panels scr = Map.empty"
    and "side_drawable st" "main_drawable st"
  shows "\<exists>scr'. init_layout api st (init_config scr) = Inr scr' \<and> layout_inv scr'
    \<and> card (dom (windows scr')) = 5 \<and> current_pan scr' = ID_SIDE
    \<and> cursor_positions scr' = cursor_positions scr"
proof -
  have "windows (init_config scr) = Map.empty" "panels (init_config scr) = Map.empty"
    using assms(6,7) by (simp_all add: init_config_def)
  then obtain scr' where "init_layout api st (init_config scr) = Inr scr'" "layout_inv scr'"
    "current_pan scr' = ID_SIDE" "cursor_positions scr' = cursor_positions (init_config scr)"
    using init_layout_state[OF assms(1) _ _ init_config_fits[OF assms(2-5)] assms(8,9)] by blast
  then show ?thesis
    by (auto simp: init_config_def layout_inv_def windows_inv_def windows_from_def)
qed

theorem start_layout_witness:
  "\<exists>scr'. init_layout plain_curses example_state (init_config (blank_screen 24 80)) = Inr scr'
    \<and> layout_inv scr'"
  using start_layout[OF curses_ok_plain, of "blank_screen 24 80" example_state]
    example_state_drawable by (auto simp: blank_screen_def)

text \<open>C7: A resize to sizes that leave every window a cell succeeds from any state with five live
  windows, whatever their rectangles were (after the terminal changed, for example). The five old
  windows are deleted and the panels show five new ones, which are all there are: the chat list in the
  upper left with the new width, a border of one column right of it, the message window from there
  to the right edge, a border line below the three, and the composer with the new height at the
  bottom. Every cell of the terminal is in exactly one of them and no window reaches beyond it. The
  cursor of each pane is moved into its new window, by no more than needed, and the focus stays.\<close>

theorem resize_keeps_layout:
  assumes "curses_ok api" "windows_inv scr" "fits scr w h"
    and "cursors_nonneg scr" "current_pan scr \<in> set pane_ids"
    and "side_drawable st" "main_drawable st"
  shows "\<exists>scr'. resize api st w h scr = Inr scr' \<and> layout_inv scr' \<and> cursors_in scr'
    \<and> panel_rect scr' ID_SIDE = Some \<lparr>r_y = 0, r_x = 0, r_rows = LINES scr - h - 1, r_cols = w\<rparr>
    \<and> panel_rect scr' ID_E_SIDE_MAIN = Some \<lparr>r_y = 0, r_x = w, r_rows = LINES scr - h - 1, r_cols = 1\<rparr>
    \<and> panel_rect scr' ID_MAIN =
        Some \<lparr>r_y = 0, r_x = w + 1, r_rows = LINES scr - h - 1, r_cols = COLS scr - w - 1\<rparr>
    \<and> panel_rect scr' ID_C_SIDE_MAIN_COMP =
        Some \<lparr>r_y = LINES scr - h - 1, r_x = 0, r_rows = 1, r_cols = COLS scr\<rparr>
    \<and> panel_rect scr' ID_COMP = Some \<lparr>r_y = LINES scr - h, r_x = 0, r_rows = h, r_cols = COLS scr\<rparr>
    \<and> (\<forall>y x. (\<exists>!k. k \<in> set panel_ids \<and> (\<exists>r. panel_rect scr' k = Some r \<and> cell_in y x r))
          = (0 \<le> y \<and> y < LINES scr \<and> 0 \<le> x \<and> x < COLS scr))
    \<and> card (dom (windows scr')) = 5 \<and> side_w scr' = w \<and> composer_h scr' = h
    \<and> current_pan scr' = current_pan scr
    \<and> (\<forall>k \<in> set pane_ids. \<forall>r. panel_rect scr' k = Some r \<longrightarrow> cursor_of scr' k =
          (min (fst (cursor_of scr k)) (r_rows r - 1), min (snd (cursor_of scr k)) (r_cols r - 1)))"
proof -
  obtain scr' where r: "resize api st w h scr = Inr scr'" "layout_inv scr'" "cursors_in scr'"
    "side_w scr' = w" "composer_h scr' = h" "LINES scr' = LINES scr" "COLS scr' = COLS scr"
    "current_pan scr' = current_pan scr"
    "\<forall>k \<in> set pane_ids. cursor_of scr' k = clamped (panel_rect scr' k) (cursor_of scr k)"
    using resize_ok[OF assms] by blast
  have "card (dom (windows scr')) = 5"
    using r(2) by (auto simp: layout_inv_def windows_inv_def windows_from_def)
  moreover have "(\<exists>!k. k \<in> set panel_ids \<and> (\<exists>r. panel_rect scr' k = Some r \<and> cell_in y x r))
      = (0 \<le> y \<and> y < LINES scr \<and> 0 \<le> x \<and> x < COLS scr)" for y x
    unfolding cell_owner_hit[OF r(2)] r(6,7) by auto
  ultimately show ?thesis
    using r(1-5,8,9) layout_rects[OF r(2), unfolded r(4-7)] by (simp add: clamped_def)
qed

theorem resize_keeps_layout_witness:
  "\<exists>scr'. resize plain_curses example_state 30 5 example_screen = Inr scr' \<and> layout_inv scr'"
proof -
  have "windows_inv example_screen" using example_screen_inv by (simp add: layout_inv_def)
  moreover have "fits example_screen 30 5"
    by (simp add: example_screen_def fits_def swapped_frame blank_screen_def)
  ultimately show ?thesis
    using resize_keeps_layout[OF curses_ok_plain _ _ example_screen_cursors example_state_drawable]
    by blast
qed

section \<open>A composer without a line\<close>

text \<open>
  A window of zero lines stands for the lines from its first one down to the bottom of the screen,
  so one that would begin below the last line is a null pointer.
\<close>

definition no_window_below :: "curses_api \<Rightarrow> screen \<Rightarrow> bool" where
  "no_window_below api scr \<longleftrightarrow> newwin_size api (LINES scr) (COLS scr) 0 (COLS scr) (LINES scr) 0 = None"

lemma composer_less_windows:
  assumes api: "curses_ok api" "no_window_below api scr"
    and size: "0 < w" "w < COLS scr - 1" "1 < LINES scr"
    and scr0: "scr0 = scr\<lparr>side_w := w, composer_h := 0\<rparr>"
  shows "\<exists>scr1 r1 r2 r3 r4. create_windows api (resize_windows scr0) scr0 =
      ([(1, Some (next_window scr)), (2, Some (next_window scr + 1)), (4, None),
        (16, Some (next_window scr + 2)), (48, Some (next_window scr + 3))], scr1)
    \<and> panels scr1 = panels scr \<and> windows scr1 = (windows scr)(next_window scr \<mapsto> r1,
          next_window scr + 1 \<mapsto> r2, next_window scr + 2 \<mapsto> r3, next_window scr + 3 \<mapsto> r4)"
proof -
  have "newwin_size api (LINES scr) (COLS scr) (LINES scr - 1) w 0 0 = Some (LINES scr - 1, w)"
    "newwin_size api (LINES scr) (COLS scr) (LINES scr - 1) (COLS scr - w - 1) 0 (w + 1)
      = Some (LINES scr - 1, COLS scr - w - 1)"
    "newwin_size api (LINES scr) (COLS scr) (LINES scr - 1) 1 0 w = Some (LINES scr - 1, 1)"
    "newwin_size api (LINES scr) (COLS scr) 1 (COLS scr) (LINES scr - 1) 0 = Some (1, COLS scr)"
    using size by (intro curses_okD(1)[OF api(1)]; simp)+
  then show ?thesis
    using api(2) by (simp add: scr0 resize_windows_def newwin_def no_window_below_def ID_values numeral_eq_Suc)
      (intro exI, rule refl)
qed


text \<open>A resize to a composer of no line (dragging the composer's border to the last line of the
  terminal) from any state with five live windows ends in the use of a deleted window: no new
  composer window can be created, so its panel keeps the old one, which is then deleted and asked
  for its size.\<close>

theorem composer_less_resize_faults:
  assumes "curses_ok api" "no_window_below api scr" "windows_inv scr"
    and "0 < w" "w < COLS scr - 1" "1 < LINES scr"
  shows "resize api st w 0 scr = Inl Use_after_free"
proof -
  obtain a where a: "windows_from a scr" using assms(3) by (auto simp: windows_inv_def)
  let ?n = "next_window scr"
  obtain scr1 r1 r2 r3 r4 where
    cw: "create_windows api (resize_windows (scr\<lparr>side_w := w, composer_h := 0\<rparr>))
        (scr\<lparr>side_w := w, composer_h := 0\<rparr>)
      = ([(1, Some ?n), (2, Some (?n + 1)), (4, None), (16, Some (?n + 2)), (48, Some (?n + 3))], scr1)"
    and pan1: "panels scr1 = panels scr"
    and win1: "windows scr1 = (windows scr)(?n \<mapsto> r1, ?n + 1 \<mapsto> r2, ?n + 2 \<mapsto> r3, ?n + 3 \<mapsto> r4)"
    using composer_less_windows[OF assms(1,2,4-6) refl] by blast
  have pan: "panels scr1 = [1 \<mapsto> a, 2 \<mapsto> a + 1, 4 \<mapsto> a + 2, 16 \<mapsto> a + 3, 48 \<mapsto> a + 4]"
    and le: "a + 5 \<le> ?n" and dom: "dom (windows scr) = {a..<a + 5}"
    using a by (simp_all add: windows_from_def panels_five pan1)
  let ?scr2 = "scr1\<lparr>panels := [1 \<mapsto> ?n, 2 \<mapsto> ?n + 1, 4 \<mapsto> a + 2, 16 \<mapsto> ?n + 2, 48 \<mapsto> ?n + 3]\<rparr>"
  have rp: "fold (\<lambda>(k, w). replace_panel api k w)
      [(1, Some ?n), (2, Some (?n + 1)), (4, None), (16, Some (?n + 2)), (48, Some (?n + 3))] scr1 = ?scr2"
    using curses_okD(4,5)[OF assms(1)] by (simp add: replace_panel_def pan fun_upd_def)
      (rule arg_cong[where f = "\<lambda>p. scr1\<lparr>panels := p\<rparr>"], rule ext, simp)
  have del: "fold_r delwin (map Some [a, a + 1, a + 2, a + 3, a + 4]) ?scr2
      = Inr (?scr2\<lparr>windows := windows scr1 |` (- set [a, a + 1, a + 2, a + 3, a + 4])\<rparr>)" (is "_ = Inr ?scr3")
    by (subst delete_windows_eq) (use dom in \<open>auto simp: win1\<close>)
  have live: "windows ?scr3 ?n = Some r1" "windows ?scr3 (?n + 1) = Some r2" "windows ?scr3 (a + 2) = None"
    using le by (simp_all add: win1 restrict_map_def)
  have "fold_r (clamp_cursor api) [1, 2, 4] ?scr3 = Inl Use_after_free"
    using live by (simp add: clamp_cursor_def getmaxyx_def panel_window_def case_prod_beta)
  moreover have "w < COLS scr" "0 < LINES scr" using assms(5,6) by simp_all
  ultimately show ?thesis
    using rp del by (simp add: resize_def Let_def cw panel_window_def pan ID_values)
qed

theorem composer_less_resize_faults_witness:
  "resize plain_curses example_state 20 0 example_screen = Inl Use_after_free"
proof (rule composer_less_resize_faults[OF curses_ok_plain])
  show "windows_inv example_screen" using example_screen_inv by (simp add: layout_inv_def)
  show "no_window_below plain_curses example_screen"
    by (simp add: no_window_below_def plain_curses_def example_screen_def swapped_frame
        blank_screen_def Let_def)
qed (simp_all add: example_screen_def swapped_frame blank_screen_def)


section \<open>What is drawn\<close>

lemma layout_shows:
  assumes "layout_inv scr"
  shows "\<exists>wd. panel_window scr ID_SIDE = Some wd \<and> shows_window scr ID_SIDE wd
      \<lparr>r_y = 0, r_x = 0, r_rows = LINES scr - composer_h scr - 1, r_cols = side_w scr\<rparr>"
    and "\<exists>wd. panel_window scr ID_MAIN = Some wd \<and> shows_window scr ID_MAIN wd
      \<lparr>r_y = 0, r_x = side_w scr + 1, r_rows = LINES scr - composer_h scr - 1,
        r_cols = COLS scr - side_w scr - 1\<rparr>"
proof -
  have w: "windows_inv scr" and ids: "ID_SIDE \<in> set panel_ids" "ID_MAIN \<in> set panel_ids"
    using assms by (simp_all add: layout_inv_def panel_ids_def)
  have r: "panel_rect scr ID_SIDE = Some \<lparr>r_y = 0, r_x = 0, r_rows = LINES scr - composer_h scr - 1,
        r_cols = side_w scr\<rparr>"
    "panel_rect scr ID_MAIN = Some \<lparr>r_y = 0, r_x = side_w scr + 1,
        r_rows = LINES scr - composer_h scr - 1, r_cols = COLS scr - side_w scr - 1\<rparr>"
    by (rule layout_rects[OF assms])+
  show "\<exists>wd. panel_window scr ID_SIDE = Some wd \<and> shows_window scr ID_SIDE wd
      \<lparr>r_y = 0, r_x = 0, r_rows = LINES scr - composer_h scr - 1, r_cols = side_w scr\<rparr>"
    using windows_inv_panel[OF w ids(1)] r(1)
    by (metis option.inject panel_window_def shows_window_def)
  show "\<exists>wd. panel_window scr ID_MAIN = Some wd \<and> shows_window scr ID_MAIN wd
      \<lparr>r_y = 0, r_x = side_w scr + 1, r_rows = LINES scr - composer_h scr - 1,
        r_cols = COLS scr - side_w scr - 1\<rparr>"
    using windows_inv_panel[OF w ids(2)] r(2)
    by (metis option.inject panel_window_def shows_window_def)
qed

text \<open>The chat list from its scroll offset: line \<open>j\<close> of the window gets the title of the \<open>j\<close>-th
  chat from there in list order, padded or cut to the width, \<open>deleted account\<close> for an empty title,
  and a blank line beyond the last chat. Only as many lines are written as the list has chats (and
  the window has lines), so lines below a shrunken list keep their old text. Nothing but the
  recorded calls changes.\<close>

theorem chat_list_drawn:
  assumes "curses_ok api" "layout_inv scr" "side_drawable st"
    and "chats = position_set st (current_chatlist st)" "off = unat (scroll_of st ID_SIDE)"
  shows "\<exists>cs. draw_side api st scr = Inr (scr\<lparr>calls := calls scr @ cs\<rparr>)
    \<and> lines_written (panel_window scr ID_SIDE) cs =
        map (\<lambda>j. (int j, side_row st (nat (side_w scr)) (nth_opt chats (off + j))))
            [0..<min (length chats) (nat (LINES scr - composer_h scr - 1))]"
  using layout_shows(1)[OF assms(2)] draw_side_eq[OF assms(1), of scr _ _ st] assms(3)
  by (fastforce simp: side_drawable_def assms(4,5))

theorem chat_list_drawn_witness:
  "\<exists>cs. draw_side plain_curses example_state example_screen
      = Inr (example_screen\<lparr>calls := calls example_screen @ cs\<rparr>)
    \<and> lines_written (panel_window example_screen ID_SIDE) cs =
        [(0, ''Bob                 ''), (1, ''Ann                 '')]"
proof -
  have d: "side_w example_screen = 20" "LINES example_screen = 24" "composer_h example_screen = 3"
    by (simp_all add: example_screen_def swapped_frame blank_screen_def)
  have i: "id_to_chat example_state = [7 \<mapsto> \<lparr>chat_id = 7, chat_title = ''Ann'',
      chat_last_message = None, chat_positions = [], chat_lists = []\<rparr>,
      8 \<mapsto> \<lparr>chat_id = 8, chat_title = ''Bob'', chat_last_message = None, chat_positions = [],
      chat_lists = []\<rparr>]"
    by (simp add: example_state_def)
  show ?thesis
    using chat_list_drawn[OF curses_ok_plain example_screen_inv example_state_drawable(1) refl refl]
    by (simp add: d i example_state_simps side_row_def fit_def c_str_def numeral_eq_Suc upt_rec nth_opt_def)
qed

text \<open>The messages of the chosen chat from the scroll offset, upwards from the bottom line of the
  window: the newest one not scrolled away is at the bottom, each line is the text padded or cut
  to the width (a placeholder for other content), and lines above the oldest message are blanked.\<close>

theorem messages_drawn:
  assumes "curses_ok api" "layout_inv scr" "main_drawable st" "chosen_chat_id st \<noteq> - 1"
    and "msgs = messages_of st (chosen_chat_id st)" "off = unat (scroll_of st ID_MAIN)"
    and "rows = LINES scr - composer_h scr - 1" "cols = COLS scr - side_w scr - 1"
  shows "\<exists>cs. draw_main api st scr = Inr (scr\<lparr>calls := calls scr @ cs\<rparr>)
    \<and> lines_written (panel_window scr ID_MAIN) cs =
        map (\<lambda>j. (rows - 1 - int j, main_row (nat cols) (nth_opt msgs (off + j)))) [0..<nat rows]"
  using layout_shows(2)[OF assms(2)] draw_main_eq[OF assms(1), of scr _ _ st] assms(3,4)
  by (fastforce simp: main_drawable_def assms(5-8))

theorem messages_drawn_witness:
  "\<exists>cs. draw_main plain_curses example_state example_screen
      = Inr (example_screen\<lparr>calls := calls example_screen @ cs\<rparr>)
    \<and> lines_written (panel_window example_screen ID_MAIN) cs =
        map (\<lambda>j. (19 - int j, main_row 59 (nth_opt (messages_of example_state 7) j))) [0..<20]"
proof -
  have d: "side_w example_screen = 20" "LINES example_screen = 24" "composer_h example_screen = 3"
    "COLS example_screen = 80"
    by (simp_all add: example_screen_def swapped_frame blank_screen_def)
  show ?thesis
    using messages_drawn[OF curses_ok_plain example_screen_inv example_state_drawable(2) _ refl refl
        refl refl]
    by (simp add: d example_state_simps(2,3))
qed

text \<open>A scroll offset beyond the end of what is shown, which is what remains when the chat list or
  the message set gets shorter or another chat is chosen, makes drawing advance an iterator past
  the end; it is the only way in which drawing faults.\<close>

theorem draw_faults_iff:
  assumes "curses_ok api" "windows_inv scr" "chat_lists_ok st" "chats_known st"
    and "texts_ok (messages_of st (chosen_chat_id st))"
  shows "(draw_side api st scr = Inl e \<longleftrightarrow> e = Past_the_end \<and>
      length (position_set st (current_chatlist st)) < unat (scroll_of st ID_SIDE))
    \<and> (draw_main api st scr = Inl e \<longleftrightarrow> e = Past_the_end \<and> chosen_chat_id st \<noteq> - 1 \<and>
      length (messages_of st (chosen_chat_id st)) < unat (scroll_of st ID_MAIN))"
proof (rule conjI)
  have "ID_SIDE \<in> set panel_ids" by (simp add: panel_ids_def)
  from windows_inv_maxyx[OF assms(1,2) this] obtain m where
    m: "getmaxyx api (panel_window scr ID_SIDE) scr = Inr m" by metis
  show "draw_side api st scr = Inl e \<longleftrightarrow> e = Past_the_end \<and>
      length (position_set st (current_chatlist st)) < unat (scroll_of st ID_SIDE)"
  proof (cases "unat (scroll_of st ID_SIDE) \<le> length (position_set st (current_chatlist st))")
    case True
    with assms draw_side_ok[OF assms(1,2), of st] show ?thesis
      by (auto simp: side_drawable_def)
  next
    case False
    with m show ?thesis by (auto simp: draw_side_def drop_r_def case_prod_beta)
  qed
  show "draw_main api st scr = Inl e \<longleftrightarrow> e = Past_the_end \<and> chosen_chat_id st \<noteq> - 1 \<and>
      length (messages_of st (chosen_chat_id st)) < unat (scroll_of st ID_MAIN)"
  proof (cases "main_drawable st")
    case True
    with draw_main_ok[OF assms(1,2), of st] show ?thesis
      by (auto simp: main_drawable_def)
  next
    case False
    with assms(5) show ?thesis by (auto simp: main_drawable_def draw_main_def drop_r_def)
  qed
qed

theorem draw_faults_iff_witness:
  "draw_side plain_curses (example_state\<lparr>scroll_offset := [1 \<mapsto> 3]\<rparr>) example_screen = Inl Past_the_end"
proof -
  let ?st = "example_state\<lparr>scroll_offset := [1 \<mapsto> 3]\<rparr>"
  have "chat_lists_ok ?st" "chats_known ?st" "texts_ok (messages_of ?st (chosen_chat_id ?st))"
    using example_state_drawable
    by (simp_all add: side_drawable_def main_drawable_def chat_lists_ok_def chats_known_def
        position_set_def position_map_def messages_of_def example_state_simps(3))
  moreover have "windows_inv example_screen" using example_screen_inv by (simp add: layout_inv_def)
  moreover have "position_set ?st (current_chatlist ?st) = [(9, 8), (5, 7)]" "scroll_of ?st ID_SIDE = 3"
    using example_state_simps(1) by (simp_all add: position_set_def scroll_of_def at_def_def ID_values)
  ultimately show ?thesis
    using draw_faults_iff[OF curses_ok_plain, of example_screen ?st Past_the_end] by simp
qed

end
