(* ===== verification/Input_Props.thy ===== *)
theory Input_Props
  imports Input_Facts Layout_Props
begin

text \<open>
  The properties of input handling: no key faults and the user-interface invariant is kept (with the
  two exceptions the code has), pressing and dragging the borders, the focus, the selection in the
  chat list, choosing a chat, and the \<^verbatim>\<open>gg\<close> prefix.
\<close>

section \<open>The movement keys\<close>

lemma side_j_shows:
  assumes "curses_ok api" "ui_inv m" "focus m ID_SIDE r"
  defines "v \<equiv> min (max_offset (r_rows r) (length (chats_shown m))) (scroll_of (app m) ID_SIDE + 1)"
  shows "unat v = min (length (chats_shown m) - nat (r_rows r)) (unat (scroll_of (app m) ID_SIDE) + 1)"
    and "ui_inv (cursor_down ID_SIDE r v m)"
    and "shows_as (side_j api m) (cursor_down ID_SIDE r v m)"
proof -
  note f = focusD[OF assms(1-3)] and z = shown_sizes[OF assms(2)]
  show v: "unat v = min (length (chats_shown m) - nat (r_rows r)) (unat (scroll_of (app m) ID_SIDE) + 1)"
    using f(3) z by (simp add: v_def unat_step_up unat_max_offset size_ok_def)
  show i: "ui_inv (cursor_down ID_SIDE r v m)"
    by (rule cursor_down_inv[OF assms(1-3)]) (simp_all add: v shown_length_def)
  show "shows_as (side_j api m) (cursor_down ID_SIDE r v m)"
    using side_redraw[OF assms(1) i] show_pane_shows[OF i] f
    by (simp add: side_j_def Let_def cursor_down_def on_app_scroll v_def split: if_splits)
qed

lemma side_k_shows:
  assumes "curses_ok api" "ui_inv m" "focus m ID_SIDE r"
  defines "v \<equiv> max 1 (scroll_of (app m) ID_SIDE) - 1"
  shows "unat v = unat (scroll_of (app m) ID_SIDE) - 1"
    and "ui_inv (cursor_up ID_SIDE v m)"
    and "shows_as (side_k api m) (cursor_up ID_SIDE v m)"
proof -
  note f = focusD[OF assms(1-3)] and z = shown_sizes[OF assms(2)]
  show v: "unat v = unat (scroll_of (app m) ID_SIDE) - 1"
    by (simp add: v_def unat_step_down)
  show i: "ui_inv (cursor_up ID_SIDE v m)"
    by (rule cursor_up_inv[OF assms(1-3)]) (use z in \<open>simp_all add: v shown_length_def\<close>)
  show "shows_as (side_k api m) (cursor_up ID_SIDE v m)"
    using side_redraw[OF assms(1) i] show_pane_shows[OF i] f
    by (simp add: side_k_def Let_def cursor_up_def on_app_scroll v_def
        split: if_splits)
qed

lemma main_scroll_bound:
  assumes "ui_inv m" "unat v \<le> unat (scroll_of (app m) ID_MAIN)"
  shows "ui_inv (on_app (set_scroll ID_MAIN v) m)"
proof (cases "chosen_chat_id (app m) = - 1")
  case True
  with assms(1) show ?thesis
    by (simp add: ui_inv_def side_drawable_def main_drawable_def ID_values)
next
  case False
  with assms shown_sizes(4)[OF assms(1)] show ?thesis
    by (intro ui_inv_scroll_main) simp_all
qed

lemma main_j_shows:
  assumes "curses_ok api" "ui_inv m" "focus m ID_MAIN r"
  defines "v \<equiv> max 1 (scroll_of (app m) ID_MAIN) - 1"
  shows "unat v = unat (scroll_of (app m) ID_MAIN) - 1"
    and "ui_inv (cursor_down ID_MAIN r v m)"
    and "shows_as (main_j api m) (cursor_down ID_MAIN r v m)"
proof -
  note f = focusD[OF assms(1-3)]
  show v: "unat v = unat (scroll_of (app m) ID_MAIN) - 1"
    by (simp add: v_def unat_step_down)
  have "ui_inv (set_cursor ID_MAIN (r_rows r - 1, snd (cur_pos m)) m)"
    by (rule ui_inv_cursor[OF assms(2) f(2)]) (use f in \<open>simp_all add: size_ok_def\<close>)
  then have "ui_inv (on_app (set_scroll ID_MAIN v) (set_cursor ID_MAIN (r_rows r - 1, snd (cur_pos m)) m))"
    by (rule main_scroll_bound) (simp add: v)
  moreover have "ui_inv (set_cursor ID_MAIN (fst (cur_pos m) + 1, snd (cur_pos m)) m)"
    if "fst (cur_pos m) < r_rows r - 1"
    by (rule ui_inv_cursor[OF assms(2) f(2)]) (use that f in simp_all)
  ultimately show i: "ui_inv (cursor_down ID_MAIN r v m)"
    by (simp add: cursor_down_def)
  show "shows_as (main_j api m) (cursor_down ID_MAIN r v m)"
    using main_redraw[OF assms(1) i] show_pane_shows[OF i] f
    by (simp add: main_j_def Let_def cursor_down_def on_app_scroll v_def
        split: if_splits)
qed

lemma main_k_shows:
  assumes "curses_ok api" "ui_inv m" "focus m ID_MAIN r"
  defines "v \<equiv> min (max_offset (r_rows r) (length (msgs_shown m))) (scroll_of (app m) ID_MAIN + 1)"
  shows "unat v \<le> length (msgs_shown m) - nat (r_rows r)"
    and "ui_inv (cursor_up ID_MAIN v m)"
    and "shows_as (main_k api m) (cursor_up ID_MAIN v m)"
proof -
  note f = focusD[OF assms(1-3)] and z = shown_sizes[OF assms(2)]
  show v: "unat v \<le> length (msgs_shown m) - nat (r_rows r)"
    using f(3) z by (simp add: v_def unat_min unat_max_offset size_ok_def)
  show i: "ui_inv (cursor_up ID_MAIN v m)"
    by (rule cursor_up_inv[OF assms(1-3)]) (use v in \<open>simp_all add: shown_length_def ID_values\<close>)
  show "shows_as (main_k api m) (cursor_up ID_MAIN v m)"
    using main_redraw[OF assms(1) i] show_pane_shows[OF i] f
    by (simp add: main_k_def Let_def cursor_up_def on_app_scroll v_def split: if_splits)
qed

section \<open>The jumps\<close>

lemma key_G_shows:
  assumes "curses_ok api" "ui_inv m" "focus m k r" "k = ID_SIDE \<or> k = ID_MAIN"
  defines "v \<equiv> max_offset (r_rows r) (length (chats_shown m))"
  defines "m' \<equiv> on_app (set_scroll k v) (set_cursor k (r_rows r - 1, snd (cur_pos m)) m)"
  shows "unat v = length (chats_shown m) - nat (r_rows r)"
    and "screen_inv (scr m')" and "side_drawable (app m')" and "k = ID_SIDE \<Longrightarrow> ui_inv m'"
    and "shows_as (key_G api m) m'"
proof -
  note f = focusD[OF assms(1-3)] and z = shown_sizes[OF assms(2)]
  show v: "unat v = length (chats_shown m) - nat (r_rows r)"
    using f(3) z by (simp add: v_def unat_max_offset size_ok_def)
  have c: "ui_inv (set_cursor k (r_rows r - 1, snd (cur_pos m)) m)"
    by (rule ui_inv_cursor[OF assms(2) f(2)]) (use f in \<open>simp_all add: size_ok_def\<close>)
  then show s: "screen_inv (scr m')" by (simp add: m'_def ui_inv_def)
  show d: "side_drawable (app m')"
    using ui_invD(2)[OF assms(2)] assms(4) v
    by (auto simp: m'_def side_drawable_def chats_shown_def ID_values)
  show "k = ID_SIDE \<Longrightarrow> ui_inv m'"
    unfolding m'_def using c by (intro ui_inv_scroll) (simp_all add: v shown_length_def)
  have "shows_as (bind_r (draw_side_m api m') show_pane) m'"
    using d s by (intro show_after draw_side_m_ok assms(1)) (simp_all add: screen_invD)
  with f show "shows_as (key_G api m) m'"
    by (simp add: key_G_def Let_def m'_def v_def)
qed

definition to_top :: "int \<Rightarrow> machine \<Rightarrow> machine" where
  "to_top k m = set_cursor k (0, snd (cur_pos m)) (on_app (set_scroll k 0) m)"

lemma to_top_inv:
  assumes "curses_ok api" "ui_inv m" "focus m k r" "k = ID_SIDE \<or> k = ID_MAIN"
  shows "ui_inv (to_top k m)"
proof -
  note f = focusD[OF assms(1-3)]
  have "ui_inv (on_app (set_scroll k 0) m)"
    using assms(2,4) by (intro ui_inv_scroll) simp_all
  then show ?thesis unfolding to_top_def
    by (rule ui_inv_cursor[of _ k r]) (use f in \<open>simp_all add: size_ok_def\<close>)
qed

lemma ui_inv_on_input [simp]: "ui_inv (on_input g m) = ui_inv m"
  by (simp add: ui_inv_def)

lemma key_g_shows:
  assumes "curses_ok api" "ui_inv m" "focus m k r" "k = ID_SIDE \<or> k = ID_MAIN"
  defines "m' \<equiv> if in_state (input_state m) = S_KEY_PREF
      then on_input reset (if pref_key (input_state m) = of_char (CHR ''g'') then to_top k m else m)
      else on_input (\<lambda>s. s\<lparr>in_state := S_KEY_PREF, pref_key := of_char (CHR ''g'')\<rparr>) m"
  shows "ui_inv m'" and "shows_as (key_g api m) m'"
proof -
  note f = focusD[OF assms(1-3)]
  have t: "ui_inv (to_top k m)" by (rule to_top_inv[OF assms(1-4)])
  with assms(2) show "ui_inv m'" by (simp add: m'_def)
  from side_redraw[OF assms(1) t] obtain s where
    "bind_r (draw_side_m api (to_top k m)) show_pane = Inr ((to_top k m)\<lparr>scr := s\<rparr>)"
    "draws (scr (to_top k m)) s" by (auto simp: shows_as_def)
  then have "shows_as (bind_r (bind_r (draw_side_m api (to_top k m)) show_pane)
      (\<lambda>m1. Inr (on_input reset m1))) (on_input reset (to_top k m))"
    unfolding shows_as_def by (intro exI[of _ s]) (simp add: on_input_def)
  then show "shows_as (key_g api m) m'"
    using f by (simp add: key_g_def Let_def m'_def to_top_def)
qed

section \<open>Choosing a chat\<close>

definition pick_chat :: "int53 \<Rightarrow> machine \<Rightarrow> machine" where
  "pick_chat c m =
     (let m1 = on_app (\<lambda>st. st\<lparr>chosen_chat_id := c\<rparr>) m in m1\<lparr>wd := get_chat_history c (wd m1)\<rparr>)"

lemma pick_chat_frame [simp]:
  "scr (pick_chat c m) = scr m" "app (pick_chat c m) = (app m)\<lparr>chosen_chat_id := c\<rparr>"
  "input_state (pick_chat c m) = input_state m" "cont (pick_chat c m) = cont m"
  by (simp_all add: pick_chat_def Let_def)

lemma side_drawable_chosen [simp]: "side_drawable (st\<lparr>chosen_chat_id := c\<rparr>) = side_drawable st"
  by (simp add: side_drawable_def chat_lists_ok_def chats_known_def position_set_def
      position_map_def scroll_of_def)

lemma key_o_shows:
  assumes "curses_ok api" "ui_inv m" "focus m k r" "k = ID_SIDE \<or> k = ID_MAIN"
  defines "i \<equiv> scroll_of (app m) k + size_of_int (fst (cur_pos m))"
  shows "shows_as (key_o api m)
    (if unat i < length (chats_shown m) then pick_chat (snd (chats_shown m ! unat i)) m else m)"
proof -
  note f = focusD[OF assms(1-3)] and z = shown_sizes[OF assms(2)]
  have less: "i < of_nat (length (chats_shown m)) \<longleftrightarrow> unat i < length (chats_shown m)"
    using z(1) by (simp add: word_less_nat_alt unat_of_nat take_bit_nat_eq_self)
  let ?c = "snd (chats_shown m ! unat i)"
  let ?m1 = "on_app (\<lambda>st. st\<lparr>chosen_chat_id := ?c\<rparr>) m"
  have "shows_as (draw_side_m api ?m1) ?m1"
    by (rule draw_side_m_ok[OF assms(1)]) (use assms(2) in \<open>simp_all add: ui_invD\<close>)
  then obtain s where s: "draw_side_m api ?m1 = Inr (?m1\<lparr>scr := s\<rparr>)" "draws (scr m) s"
    by (auto simp: shows_as_def)
  let ?m2 = "(pick_chat ?c m)\<lparr>scr := s\<rparr>"
  have "windows_inv s" "current_pan s \<in> set pane_ids"
    using ui_invD(5,6)[OF assms(2)] by (simp_all add: draws_inv[OF s(2)] draws_frame[OF s(2)])
  then have "shows_as (show_pane ?m2) ?m2" by (intro show_pane_ok) simp_all
  then have "shows_as (show_pane ?m2) (pick_chat ?c m)"
    using s(2) draws_trans by (auto simp: shows_as_def)
  moreover have "?m1\<lparr>scr := s, wd := get_chat_history ?c (wd ?m1)\<rparr> = ?m2"
    by (simp add: pick_chat_def Let_def)
  ultimately show ?thesis
    using f(1) less s(1)
    by (simp add: key_o_def Let_def i_def)
qed

section \<open>Resizing\<close>

definition size_request_ok :: "screen \<Rightarrow> int \<times> int \<Rightarrow> bool" where
  "size_request_ok sc wh \<longleftrightarrow> fits sc (fst wh) (snd wh) \<or> COLS sc \<le> fst wh \<or> LINES sc \<le> snd wh"

lemma refresh_after_resize:
  assumes "resize api st w h (curs_set 0 sc) = Inr s1" "screen_inv s1"
  shows "\<exists>s. resize_and_refresh api st w h sc = Inr s \<and> draws s1 s"
proof -
  obtain s2 where s2: "update_panels s1 = Inr s2" "draws s1 s2"
    using update_panels_ok[OF screen_invD(1)[OF assms(2)]] by blast
  have i2: "screen_inv s2" using assms(2) draws_screen_inv[OF s2(2)] by simp
  obtain s3 where s3: "draw_cursor s2 = Inr s3" "draws s2 s3"
    using draw_cursor_ok screen_invD(1,5)[OF i2] by blast
  have "draws s1 (curs_set 1 (doupdate s3))"
    using s2(2) s3(2) doupdate_draws curs_set_draws by (blast intro: draws_trans)
  with assms(1) s2(1) s3(1) show ?thesis by (simp add: resize_and_refresh_def)
qed

lemma resize_changed_terminal:
  assumes api: "curses_ok api" and inv: "windows_inv sc" "cursors_nonneg sc"
    "current_pan sc \<in> set pane_ids" and fits: "fits sc w h"
    and draw: "side_drawable st" "main_drawable st"
  shows "\<exists>s. resize_and_refresh api st w h sc = Inr s \<and> screen_inv s \<and> LINES s = LINES sc
    \<and> COLS s = COLS sc \<and> current_pan s = current_pan sc \<and> side_w s = w \<and> composer_h s = h
    \<and> (\<forall>k \<in> set pane_ids. cursor_of s k = clamped (panel_rect s k) (cursor_of sc k))"
proof -
  let ?s0 = "curs_set 0 sc"
  have d0: "draws sc ?s0" by simp
  have i0: "windows_inv ?s0" "cursors_nonneg ?s0" "current_pan ?s0 \<in> set pane_ids" "fits ?s0 w h"
    using inv fits by (simp_all add: draws_inv[OF d0] draws_frame[OF d0])
  from resize_ok[OF api i0(1,4,2,3) draw] obtain s1 where s1:
    "resize api st w h ?s0 = Inr s1" "screen_inv s1" "side_w s1 = w" "composer_h s1 = h"
    "LINES s1 = LINES sc" "COLS s1 = COLS sc" "current_pan s1 = current_pan sc"
    "\<forall>k \<in> set pane_ids. cursor_of s1 k = clamped (panel_rect s1 k) (cursor_of sc k)"
    using i0(3) by (auto simp: screen_inv_def draws_frame[OF d0] draws_derived[OF d0])
  from refresh_after_resize[OF s1(1,2)] s1 show ?thesis
    by (auto simp: draws_screen_inv draws_frame draws_inv draws_derived)
qed

lemma resize_and_refresh_ok:
  assumes api: "curses_ok api" and inv: "screen_inv sc" and ok: "size_request_ok sc (w, h)"
    and draw: "side_drawable st" "main_drawable st"
  shows "\<exists>s. resize_and_refresh api st w h sc = Inr s \<and> screen_inv s \<and> LINES s = LINES sc
    \<and> COLS s = COLS sc \<and> current_pan s = current_pan sc
    \<and> (fits sc w h \<longrightarrow> side_w s = w \<and> composer_h s = h
          \<and> (\<forall>k \<in> set pane_ids. cursor_of s k = clamped (panel_rect s k) (cursor_of sc k)))"
proof (cases "fits sc w h")
  case True
  from resize_changed_terminal[OF api screen_invD(1,4,5)[OF inv] True draw] show ?thesis by blast
next
  case False
  let ?s0 = "curs_set 0 sc"
  have d0: "draws sc ?s0" by simp
  have "resize api st w h ?s0 = Inr ?s0"
    using ok False by (intro resize_too_big) (auto simp: size_request_ok_def draws_frame[OF d0])
  from refresh_after_resize[OF this] inv False show ?thesis
    by (auto simp: draws_screen_inv draws_frame draws_screen_inv[OF d0] draws_frame[OF d0])
qed

text \<open>The size a key asks for fits, or is refused as too big for the terminal.\<close>

definition key_sizes_ok :: "machine \<Rightarrow> key \<Rightarrow> bool" where
  "key_sizes_ok m c =
     (case c of
        KEY_MOUSE (Some ev) \<Rightarrow>
          size_request_ok (scr m) (dragged_sizes (scr m) (mbuf_where (input_state m)) ev)
          \<or> in_state (input_state m) \<noteq> S_MOUSE_DRAG
      | _ \<Rightarrow> True)"

lemma screen_inv_focus:
  assumes "screen_inv sc"
  obtains r where "panel_rect sc (current_pan sc) = Some r"
  using windows_inv_panel[OF screen_invD(1)[OF assms] pane_ids_sub[OF screen_invD(5)[OF assms]]]
  by metis

lemma cycle_panel_shows:
  assumes "ui_inv m"
  defines "p \<equiv> if current_pan (scr m) = ID_SIDE then ID_MAIN
      else if current_pan (scr m) = ID_MAIN then ID_COMP else ID_SIDE"
  shows "ui_inv (m\<lparr>scr := (scr m)\<lparr>current_pan := p\<rparr>\<rparr>)"
    and "shows_as (cycle_panel m) (m\<lparr>scr := (scr m)\<lparr>current_pan := p\<rparr>\<rparr>)"
proof -
  have pan: "current_pan (scr m) \<in> {1, 2, 4}"
    using ui_invD(6)[OF assms(1)] by (simp add: pane_ids_def ID_values)
  then have p: "(if push_bit 1 (current_pan (scr m)) > ID_COMP then 1
      else push_bit 1 (current_pan (scr m))) = p"
    by (auto simp: p_def ID_values push_bit_eq_mult)
  let ?s = "(scr m)\<lparr>current_pan := p\<rparr>"
  have c: "windows_inv ?s = windows_inv (scr m)" "panel_rect ?s k = panel_rect (scr m) k"
    "layout_specs ?s = layout_specs (scr m)" "fits ?s = fits (scr m)" for k
    by (rule windows_inv_cong panel_rect_cong layout_specs_cong fits_cong; simp)+
  have "cursors_in ?s = cursors_in (scr m)"
    by (simp add: cursors_in_def cursor_in_def c cursor_of_def cong: option.case_cong)
  moreover have "p \<in> set pane_ids" by (simp add: p_def pane_ids_def)
  ultimately have i: "screen_inv ?s"
    using ui_invD(1)[OF assms(1)] by (simp add: screen_inv_def layout_inv_def c)
  then show "ui_inv (m\<lparr>scr := ?s\<rparr>)" using assms(1) by (simp add: ui_inv_def)
  obtain s1 where "draw_cursor ?s = Inr s1" "draws ?s s1"
    using draw_cursor_ok screen_invD(1,5)[OF i] by blast
  then show "shows_as (cycle_panel m) (m\<lparr>scr := ?s\<rparr>)"
    unfolding cycle_panel_def Let_def p
    by (intro on_scr_shows) (simp add: doupdate_def)
qed

lemma process_mouse_ok:
  assumes "curses_ok api" "ui_inv m" "key_sizes_ok m (KEY_MOUSE (Some ev))"
  shows "\<exists>m'. process_mouse api ev m = Inr m' \<and> ui_inv m' \<and> cont m' = cont m \<and> app m' = app m"
proof (cases "\<not> button1_pressed ev \<and> \<not> button1_released ev \<and> report_mouse_position ev
    \<and> in_state (input_state m) = S_MOUSE_DRAG")
  case True
  obtain w h where wh: "dragged_sizes (scr m) (mbuf_where (input_state m)) ev = (w, h)"
    by fastforce
  then have "size_request_ok (scr m) (w, h)"
    using True assms(3) by (simp add: key_sizes_ok_def)
  from resize_and_refresh_ok[OF assms(1) ui_invD(1)[OF assms(2)] this ui_invD(2,3)[OF assms(2)]]
  obtain s where "resize_and_refresh api (app m) w h (scr m) = Inr s" "screen_inv s" by blast
  with True wh assms(2) show ?thesis
    by (auto simp: process_mouse_def on_scr_def ui_inv_def)
next
  case False
  with assms(2) show ?thesis by (auto simp: process_mouse_def)
qed

lemma process_common_ok:
  assumes "curses_ok api" "ui_inv m" "key_sizes_ok m c"
  shows "\<exists>m'. process_common api c m = Inr m' \<and> ui_inv m' \<and> cont m' = (cont m \<and> c \<noteq> CTRL_q)
    \<and> app m' = (if c = CTRL_q then set_terminating True (app m) else app m)
    \<and> (\<forall>x. c = Code x \<longrightarrow> input_state m' = input_state m)
    \<and> (c \<noteq> TAB \<longrightarrow> current_pan (scr m') = current_pan (scr m))"
proof (cases c)
  case (KEY_MOUSE me)
  show ?thesis
  proof (cases me)
    case None
    with KEY_MOUSE assms show ?thesis by (simp add: process_common_def CTRL_q_def)
  next
    case (Some ev)
    have "current_pan (scr m') = current_pan (scr m)" if "process_mouse api ev m = Inr m'" for m'
    proof (cases "\<not> button1_pressed ev \<and> \<not> button1_released ev \<and> report_mouse_position ev
        \<and> in_state (input_state m) = S_MOUSE_DRAG")
      case True
      obtain w h where wh: "dragged_sizes (scr m) (mbuf_where (input_state m)) ev = (w, h)"
        by fastforce
      then have "size_request_ok (scr m) (w, h)"
        using True assms(3) by (simp add: key_sizes_ok_def KEY_MOUSE Some)
      from resize_and_refresh_ok[OF assms(1) ui_invD(1)[OF assms(2)] this ui_invD(2,3)[OF assms(2)]]
        True that wh show ?thesis by (auto simp: process_mouse_def on_scr_def)
    next
      case False
      with that show ?thesis by (auto simp: process_mouse_def split: if_splits)
    qed
    with process_mouse_ok[OF assms(1,2), of ev] assms(3) KEY_MOUSE Some show ?thesis
      by (auto simp: process_common_def CTRL_q_def)
  qed
next
  case KEY_RESIZE
  have "size_request_ok (scr m) (side_w (scr m), composer_h (scr m))"
    using screen_invD(6)[OF ui_invD(1)[OF assms(2)]] by (simp add: size_request_ok_def)
  from resize_and_refresh_ok[OF assms(1) ui_invD(1)[OF assms(2)] this ui_invD(2,3)[OF assms(2)]]
  obtain s where "resize_and_refresh api (app m) (side_w (scr m)) (composer_h (scr m)) (scr m) = Inr s"
    "screen_inv s" "current_pan s = current_pan (scr m)" by blast
  with KEY_RESIZE assms(2) show ?thesis
    by (auto simp: process_common_def on_scr_def ui_inv_def CTRL_q_def)
next
  case ERR
  with assms show ?thesis by (simp add: process_common_def CTRL_q_def)
next
  case (Code x)
  have t: "side_drawable (set_terminating True st) = side_drawable st"
    "main_drawable (set_terminating True st) = main_drawable st"
    "sizes_ok (set_terminating True st) = sizes_ok st" for st
    by (simp_all add: set_terminating_def side_drawable_def main_drawable_def sizes_ok_def
        chat_lists_ok_def chats_known_def position_set_def position_map_def scroll_of_def
        messages_of_def)
  show ?thesis
  proof (cases "c = TAB")
    case True
    from cycle_panel_shows[OF assms(2)] obtain m' where
      "cycle_panel m = Inr m'" "ui_inv m'" "cont m' = cont m" "app m' = app m"
      "input_state m' = input_state m"
      by (auto simp: shows_as_def ui_inv_def draws_screen_inv)
    with True show ?thesis by (simp add: process_common_def TAB_def CTRL_q_def)
  next
    case False
    with assms(2) Code show ?thesis
      by (simp add: process_common_def ui_inv_def t CTRL_q_def)
  qed
qed

section \<open>All keys\<close>

lemma shows_ui:
  assumes "shows_as R m'" "ui_inv m'"
  shows "\<exists>m''. R = Inr m'' \<and> ui_inv m'' \<and> cont m'' = cont m' \<and> app m'' = app m'"
  using assms by (auto simp: shows_as_def ui_inv_def draws_screen_inv)

lemma shows_screen:
  assumes "shows_as R m'" "screen_inv (scr m')" "side_drawable (app m')"
  shows "\<exists>m''. R = Inr m'' \<and> screen_inv (scr m'') \<and> side_drawable (app m'') \<and> cont m'' = cont m'
    \<and> app m'' = app m'"
  using assms by (auto simp: shows_as_def draws_screen_inv)

text \<open>The two keys after which the message window may have a scroll offset beyond its messages.\<close>

definition may_overscroll :: "machine \<Rightarrow> key \<Rightarrow> bool" where
  "may_overscroll m c \<longleftrightarrow> c = Key (CHR ''o'') \<or>
     (current_pan (scr m) = ID_MAIN \<and> c = Key (CHR ''G''))"

definition pane_keys :: "key list" where
  "pane_keys = [Key (CHR ''h''), Key (CHR ''j''), Key (CHR ''k''), Key (CHR ''l''), Key (CHR ''G''),
     Key (CHR ''g''), Key (CHR ''o'')]"

lemma process_pane_other:
  "c \<notin> set pane_keys \<or> current_pan (scr m) = ID_COMP \<Longrightarrow> process_pane api c m = Inr m"
  by (auto simp: process_pane_def pane_keys_def ID_values)

lemma process_pane_key:
  assumes "current_pan (scr m) = k" "k = ID_SIDE \<or> k = ID_MAIN"
  shows "process_pane api (Key (CHR ''h'')) m = key_h m"
    "process_pane api (Key (CHR ''j'')) m = (if k = ID_SIDE then side_j api m else main_j api m)"
    "process_pane api (Key (CHR ''k'')) m = (if k = ID_SIDE then side_k api m else main_k api m)"
    "process_pane api (Key (CHR ''l'')) m = key_l api m"
    "process_pane api (Key (CHR ''G'')) m = key_G api m"
    "process_pane api (Key (CHR ''g'')) m = key_g api m"
    "process_pane api (Key (CHR ''o'')) m = key_o api m"
  using assms by (auto simp: process_pane_def ID_values)

lemma process_pane_ok:
  assumes api: "curses_ok api" and inv: "ui_inv m"
  shows "\<exists>m'. process_pane api c m = Inr m' \<and> screen_inv (scr m') \<and> side_drawable (app m')
    \<and> cont m' = cont m \<and> (\<not> may_overscroll m c \<longrightarrow> ui_inv m')"
proof (cases "c \<notin> set pane_keys \<or> current_pan (scr m) = ID_COMP")
  case True
  with inv show ?thesis by (simp add: process_pane_other ui_invD)
next
  case False
  obtain k where k: "current_pan (scr m) = k" "k = ID_SIDE \<or> k = ID_MAIN"
    using False ui_invD(6)[OF inv] by (auto simp: pane_ids_def)
  obtain r where f: "focus m k r"
    using screen_inv_focus[OF ui_invD(1)[OF inv]] k(1) by (auto simp: focus_def)
  note p = process_pane_key[OF k] and a = api inv f
  from False consider "c = Key (CHR ''h'')" | "c = Key (CHR ''j'')" | "c = Key (CHR ''k'')"
    | "c = Key (CHR ''l'')" | "c = Key (CHR ''G'')" | "c = Key (CHR ''g'')" | "c = Key (CHR ''o'')"
    by (auto simp: pane_keys_def)
  then show ?thesis
  proof cases
    case 1
    have "\<exists>m'. process_pane api c m = Inr m' \<and> ui_inv m' \<and> cont m' = cont m"
      using shows_ui[OF key_h_shows(2,1)[OF a]] p by (auto simp: 1)
    then show ?thesis by (auto simp: ui_invD)
  next
    case 2
    have "\<exists>m'. process_pane api c m = Inr m' \<and> ui_inv m' \<and> cont m' = cont m"
      using k(2) shows_ui[OF side_j_shows(3,2)[OF api inv, of r]] f p
        shows_ui[OF main_j_shows(3,2)[OF api inv, of r]]
      by (auto simp: 2 cursor_down_def ID_values split: if_splits)
    then show ?thesis by (auto simp: ui_invD)
  next
    case 3
    have "\<exists>m'. process_pane api c m = Inr m' \<and> ui_inv m' \<and> cont m' = cont m"
      using k(2) shows_ui[OF side_k_shows(3,2)[OF api inv, of r]] f p
        shows_ui[OF main_k_shows(3,2)[OF api inv, of r]]
      by (auto simp: 3 cursor_up_def ID_values split: if_splits)
    then show ?thesis by (auto simp: ui_invD)
  next
    case 4
    have "\<exists>m'. process_pane api c m = Inr m' \<and> ui_inv m' \<and> cont m' = cont m"
      using shows_ui[OF key_l_shows(2,1)[OF a]] p by (auto simp: 4)
    then show ?thesis by (auto simp: ui_invD)
  next
    case 5
    note g = key_G_shows[OF a k(2)]
    show ?thesis
    proof (cases "k = ID_SIDE")
      case True
      have "\<exists>m'. process_pane api c m = Inr m' \<and> ui_inv m' \<and> cont m' = cont m"
        using shows_ui[OF g(5) g(4)[OF True]] p by (auto simp: 5)
      then show ?thesis by (auto simp: ui_invD)
    next
      case False
      with k have "may_overscroll m c" by (simp add: may_overscroll_def 5)
      with shows_screen[OF g(5,2,3)] p show ?thesis by (auto simp: 5)
    qed
  next
    case 6
    have "\<exists>m'. process_pane api c m = Inr m' \<and> ui_inv m' \<and> cont m' = cont m"
      using shows_ui[OF key_g_shows(2,1)[OF a k(2)]] p
      by (auto simp: 6 to_top_def split: if_splits)
    then show ?thesis by (auto simp: ui_invD)
  next
    case 7
    obtain m' where m': "shows_as (key_o api m) m'" "scr m' = scr m" "cont m' = cont m"
      "side_drawable (app m')"
      using key_o_shows[OF a k(2)] inv by (auto simp: ui_invD split: if_splits)
    from shows_screen[OF m'(1)] m' p inv show ?thesis
      by (auto simp: ui_invD may_overscroll_def 7)
  qed
qed

lemma process_input_ok:
  assumes "curses_ok api" "ui_inv m" "key_sizes_ok m c"
  shows "\<exists>m'. process_input api c m = Inr m' \<and> screen_inv (scr m') \<and> side_drawable (app m')
    \<and> cont m' = (cont m \<and> c \<noteq> CTRL_q) \<and> (\<not> may_overscroll m c \<longrightarrow> ui_inv m')"
proof -
  obtain m1 where m1: "process_common api c m = Inr m1" "ui_inv m1"
    "cont m1 = (cont m \<and> c \<noteq> CTRL_q)" "c \<noteq> TAB \<longrightarrow> current_pan (scr m1) = current_pan (scr m)"
    using process_common_ok[OF assms] by metis
  have "may_overscroll m1 c \<longrightarrow> may_overscroll m c"
    using m1(4) by (auto simp: may_overscroll_def TAB_def)
  with process_pane_ok[OF assms(1) m1(2), of c] m1(1,3) show ?thesis
    by (auto simp: process_input_def)
qed

end
