(* ===== verification/Login.thy ===== *)
theory Login
  imports Tg_Client
begin

text \<open>
  Whole dialogues of \<^verbatim>\<open>init_auth\<close>: signing in with a code, the retry after a rejected answer, and
  the logout with restart that \<^verbatim>\<open>--logout\<close> asks for.
\<close>

definition auth_update :: "authorization_state \<Rightarrow> response" where
  "auth_update st = \<lparr>resp_request_id = 0, resp_object = Some (Update (UpdateAuthorizationState st))\<rparr>"

definition requests :: "world \<Rightarrow> td_function list" where
  "requests w = map (\<lambda>(c, i, f). f) (sent (sys w))"

lemma requests_frame [simp]:
  "requests (send_query f h w) = requests w @ [f]"
  "requests (print_out t w) = requests w"
  "requests (clear_logout_next w) = requests w"
  "requests (snd (read_word w)) = requests w"
  "requests (upd_tgcl g w) = requests w"
  "requests (upd_shared k w) = requests w"
  by (simp_all add: requests_def send_query_def next_query_id_def Let_def print_out_def
      clear_logout_next_def read_word_def upd_tgcl_def upd_shared_def split: option.splits list.splits)

lemma process_auth_update [simp]:
  "process_response (auth_update st) w = process_auth (upd_tgcl (\<lambda>c. c\<lparr>auth_state := Some st\<rparr>) w)"
  by (simp add: auth_update_def process_response_def is_update_option_def)

lemma init_auth_step:
  "\<not> need_restart (tgcl w) \<Longrightarrow> \<not> is_auth (tgcl w) \<Longrightarrow>
   init_auth (r # rs) w = bind_r (process_response r w) (init_auth rs)"
  by (subst init_auth.simps) (simp add: bind_r_def split: sum.splits)

lemma init_auth_done:
  "\<not> need_restart (tgcl w) \<Longrightarrow> is_auth (tgcl w) \<Longrightarrow> init_auth rs w = Inr (Some (w, rs))"
  by (subst init_auth.simps) simp

lemma init_auth_restart:
  "need_restart (tgcl w) \<Longrightarrow> init_auth rs w = init_auth rs (restart w)"
  by (subst init_auth.simps) simp

section \<open>Effects of the single states\<close>

text \<open>
  What the authorization updates do, on the parts of the world a dialogue is about: the flags, the
  words left in the input and the requests.
\<close>

record dialogue =
  d_is_auth :: bool
  d_need_restart :: bool
  d_logout :: bool
  d_cin :: "string list"
  d_requests :: "td_function list"

definition dialogue_of :: "world \<Rightarrow> dialogue" where
  "dialogue_of w = \<lparr>d_is_auth = is_auth (tgcl w), d_need_restart = need_restart (tgcl w),
     d_logout = logout_next (opts w), d_cin = cin (sys w), d_requests = requests w\<rparr>"

lemma cin_read_word [simp]:
  "fst (read_word w) = (case cin (sys w) of [] \<Rightarrow> '''' | t # ts \<Rightarrow> t)"
  "cin (sys (snd (read_word w))) = tl (cin (sys w))"
  by (simp_all add: read_word_def split: list.splits)

lemma dialogue_of_send [simp]:
  "dialogue_of (send_query f h w) = (dialogue_of w)\<lparr>d_requests := requests w @ [f]\<rparr>"
  by (simp add: dialogue_of_def)

lemma auth_params:
  assumes "getenv (sys w) ''TG_API_ID'' = Some t" and "stoi t = Inr i"
    and "getenv (sys w) ''TG_API_HASH'' = Some h"
  shows "\<exists>w'. process_response (auth_update WaitTdlibParameters) w = Inr w'
    \<and> dialogue_of w' = (dialogue_of w)\<lparr>d_requests := requests w @ [SetTdlibParameters
        \<lparr>par_use_test_dc = use_test_dc (opts w), par_database_directory = ''tmp/db'',
         par_use_message_database = True, par_use_secret_chats = True, par_api_id = i,
         par_api_hash = h, par_system_language_code = ''en'', par_device_model = ''Desktop'',
         par_application_version = ''1.0''\<rparr>]\<rparr>
    \<and> opts w' = opts w"
  using assms
  by (simp add: process_auth_def on_wait_tdlib_parameters_def getenv_string_def Let_def dialogue_of_def)

lemma auth_phone:
  assumes "cin (sys w) = phone # rest" and "phone \<noteq> ''0''"
  shows "\<exists>w'. process_response (auth_update WaitPhoneNumber) w = Inr w'
    \<and> dialogue_of w' = (dialogue_of w)\<lparr>d_logout := False, d_cin := rest,
        d_requests := requests w @ [SetAuthenticationPhoneNumber phone]\<rparr>"
  using assms
  by (simp add: process_auth_def on_wait_phone_number_def Let_def dialogue_of_def case_prod_beta)

lemma auth_code:
  assumes "cin (sys w) = code # rest"
  shows "\<exists>w'. process_response (auth_update WaitCode) w = Inr w'
    \<and> dialogue_of w' = (dialogue_of w)\<lparr>d_logout := False, d_cin := rest,
        d_requests := requests w @ [CheckAuthenticationCode code]\<rparr>"
  using assms
  by (simp add: process_auth_def ask_and_send_def Let_def dialogue_of_def case_prod_beta)

lemma auth_ready:
  "\<exists>w'. process_response (auth_update Ready) w = Inr w'
    \<and> dialogue_of w' = (if logout_next (opts w)
        then (dialogue_of w)\<lparr>d_logout := False, d_requests := requests w @ [LogOut]\<rparr>
        else (dialogue_of w)\<lparr>d_is_auth := True\<rparr>)"
  by (simp add: process_auth_def on_ready_def Let_def dialogue_of_def)

lemma auth_closed:
  "\<exists>w'. process_response (auth_update Closed) w = Inr w'
    \<and> dialogue_of w' = (dialogue_of w)\<lparr>d_is_auth := False, d_need_restart := True\<rparr>
    \<and> handlers (tgcl w') = handlers (tgcl w)"
  by (simp add: process_auth_def Let_def dialogue_of_def)

lemma auth_logging_out:
  "\<exists>w'. process_response (auth_update LoggingOut) w = Inr w'
    \<and> dialogue_of w' = (dialogue_of w)\<lparr>d_is_auth := False\<rparr>"
  by (simp add: process_auth_def Let_def dialogue_of_def)

lemma dialogue_of_eq:
  "dialogue_of w = d \<Longrightarrow> is_auth (tgcl w) = d_is_auth d \<and> need_restart (tgcl w) = d_need_restart d
     \<and> logout_next (opts w) = d_logout d \<and> cin (sys w) = d_cin d \<and> requests w = d_requests d"
  by (auto simp: dialogue_of_def)

section \<open>Properties\<close>

theorem init_auth_returns_ready_witness:
  "\<exists>w'. init_auth [auth_update Ready]
     (start_world \<lparr>use_test_dc = False, logout_next = False, debug_attach = False\<rparr> example_environment)
     = Inr (Some (w', [])) \<and> auth_state (tgcl w') = Some Ready"
proof -
  let ?w = "start_world \<lparr>use_test_dc = False, logout_next = False, debug_attach = False\<rparr>
      example_environment"
  have start: "\<not> is_auth (tgcl ?w)" "\<not> need_restart (tgcl ?w)" "\<not> logout_next (opts ?w)"
    by (simp_all add: start_world_def new_tg_client_def Let_def)
  from auth_ready[of ?w] start obtain w1 where
    w1: "process_response (auth_update Ready) ?w = Inr w1"
    and d1: "dialogue_of w1 = (dialogue_of ?w)\<lparr>d_is_auth := True\<rparr>" by auto
  have "init_auth [auth_update Ready] ?w = Inr (Some (w1, []))"
    using start dialogue_of_eq[OF d1] d1
    by (simp add: init_auth_step init_auth_done w1 del: process_auth_update)
      (simp add: dialogue_of_def init_auth_done)
  with init_auth_returns_ready[OF this start(1)] show ?thesis by blast
qed

text \<open>
  C6: Signing in by telephone number and code. Entered without authorization and without a
  pending logout, with the API credentials in the environment and the number and the code as the
  next words of the input, \<^verbatim>\<open>init_auth\<close> answers the usual sequence of states: it sends the TDLib
  parameters, the number and the code, in this order and nothing else, reads exactly those two
  words, returns authorized and leaves the later responses to the receive thread.
\<close>

theorem sign_in_with_code:
  assumes start: "\<not> is_auth (tgcl w)" "\<not> need_restart (tgcl w)"
    and env: "getenv (sys w) ''TG_API_ID'' = Some t" "stoi t = Inr i"
      "getenv (sys w) ''TG_API_HASH'' = Some h"
    and input: "cin (sys w) = phone # code # rest" "phone \<noteq> ''0''"
  shows "\<exists>w'. init_auth (map auth_update [WaitTdlibParameters, WaitPhoneNumber, WaitCode, Ready] @ rs) w
      = Inr (Some (w', rs))
    \<and> is_auth (tgcl w') \<and> cin (sys w') = rest
    \<and> requests w' = requests w @ [SetTdlibParameters
        \<lparr>par_use_test_dc = use_test_dc (opts w), par_database_directory = ''tmp/db'',
         par_use_message_database = True, par_use_secret_chats = True, par_api_id = i,
         par_api_hash = h, par_system_language_code = ''en'', par_device_model = ''Desktop'',
         par_application_version = ''1.0''\<rparr>,
        SetAuthenticationPhoneNumber phone, CheckAuthenticationCode code]"
proof -
  have d0: "d_is_auth (dialogue_of w) = False" "d_need_restart (dialogue_of w) = False"
    "d_cin (dialogue_of w) = phone # code # rest"
    using start input by (simp_all add: dialogue_of_def)
  obtain w1 where w1: "process_response (auth_update WaitTdlibParameters) w = Inr w1"
    and d1: "dialogue_of w1 = (dialogue_of w)\<lparr>d_requests := requests w @ [SetTdlibParameters
        \<lparr>par_use_test_dc = use_test_dc (opts w), par_database_directory = ''tmp/db'',
         par_use_message_database = True, par_use_secret_chats = True, par_api_id = i,
         par_api_hash = h, par_system_language_code = ''en'', par_device_model = ''Desktop'',
         par_application_version = ''1.0''\<rparr>]\<rparr>"
    using auth_params[OF env] by blast
  note f1 = dialogue_of_eq[OF d1]
  from auth_phone[of w1 phone "code # rest"] f1 d0 input obtain w2 where
    w2: "process_response (auth_update WaitPhoneNumber) w1 = Inr w2"
    and d2: "dialogue_of w2 = (dialogue_of w1)\<lparr>d_logout := False, d_cin := code # rest,
        d_requests := requests w1 @ [SetAuthenticationPhoneNumber phone]\<rparr>" by auto
  note f2 = dialogue_of_eq[OF d2]
  from auth_code[of w2 code rest] f2 obtain w3 where
    w3: "process_response (auth_update WaitCode) w2 = Inr w3"
    and d3: "dialogue_of w3 = (dialogue_of w2)\<lparr>d_logout := False, d_cin := rest,
        d_requests := requests w2 @ [CheckAuthenticationCode code]\<rparr>" by auto
  note f3 = dialogue_of_eq[OF d3]
  from auth_ready[of w3] f3 obtain w4 where
    w4: "process_response (auth_update Ready) w3 = Inr w4"
    and d4: "dialogue_of w4 = (dialogue_of w3)\<lparr>d_is_auth := True\<rparr>" by auto
  note f4 = dialogue_of_eq[OF d4]
  have flags: "\<not> is_auth (tgcl w1)" "\<not> need_restart (tgcl w1)" "\<not> is_auth (tgcl w2)"
    "\<not> need_restart (tgcl w2)" "\<not> is_auth (tgcl w3)" "\<not> need_restart (tgcl w3)"
    "is_auth (tgcl w4)" "\<not> need_restart (tgcl w4)"
    using f1 f2 f3 f4 d0 d1 d2 d3 by simp_all
  have "init_auth (map auth_update [WaitTdlibParameters, WaitPhoneNumber, WaitCode, Ready] @ rs) w
      = Inr (Some (w4, rs))"
    using start flags
    by (simp add: init_auth_step init_auth_done w1 w2 w3 w4 del: process_auth_update)
  then show ?thesis
    using flags f1 f2 f3 f4 d1 d2 d3 by auto
qed

theorem sign_in_with_code_witness:
  "\<exists>w'. init_auth (map auth_update [WaitTdlibParameters, WaitPhoneNumber, WaitCode, Ready] @ [])
     (start_world \<lparr>use_test_dc = False, logout_next = False, debug_attach = False\<rparr> example_environment)
     = Inr (Some (w', [])) \<and> is_auth (tgcl w') \<and> cin (sys w') = []"
proof -
  let ?w = "start_world \<lparr>use_test_dc = False, logout_next = False, debug_attach = False\<rparr>
      example_environment"
  have "\<not> is_auth (tgcl ?w)" "\<not> need_restart (tgcl ?w)"
    "getenv (sys ?w) ''TG_API_ID'' = Some ''42''" "getenv (sys ?w) ''TG_API_HASH'' = Some ''h''"
    "cin (sys ?w) = ''4915550'' # ''12345'' # []"
    by (simp_all add: start_world_def new_tg_client_def Let_def example_environment_def)
  moreover have "stoi ''42'' = Inr 42"
    by (simp add: stoi_def is_space_def is_digit_def digits_value_def)
  ultimately show ?thesis
    using sign_in_with_code[of ?w "''42''" 42 "''h''" "''4915550''" "''12345''" "[]" "[]"] by auto
qed

text \<open>
  A rejected answer is asked for again, a late rejection is not. An error response to the
  request of the current dialogue round runs the dialogue of the current state once more; any other
  response to an authorization request, an error that belongs to an earlier round included, only
  removes its handler.
\<close>

theorem auth_error_retries:
  assumes "handlers (tgcl w) k = Some (AuthHandler n)" and "k \<noteq> 0" and "\<not> is_update_option ob"
  shows "process_response \<lparr>resp_request_id = k, resp_object = Some ob\<rparr> w =
    (if is_error ob \<and> n = auth_query_id (tgcl w)
     then bind_r (process_auth w) (\<lambda>w'.
            Inr (upd_tgcl (\<lambda>c. c\<lparr>handlers := (handlers c)(k := None)\<rparr>) w'))
     else Inr (upd_tgcl (\<lambda>c. c\<lparr>handlers := (handlers c)(k := None)\<rparr>) w))"
  using assms by (simp add: process_response_def run_handler_def)

theorem auth_error_retries_witness:
  "\<exists>w w'. handlers (tgcl w) 2 = Some (AuthHandler 7)
     \<and> process_response \<lparr>resp_request_id = 2, resp_object = Some (Error 400 ''CODE_INVALID'')\<rparr> w = Inr w'
     \<and> handlers (tgcl w') 2 = None"
proof -
  let ?w = "(start_world \<lparr>use_test_dc = False, logout_next = False, debug_attach = False\<rparr>
      example_environment)\<lparr>tgcl := \<lparr>client_id = 1, auth_state = Some WaitCode, is_auth = False,
        need_restart = False, current_query_id = 2, auth_query_id = 8,
        handlers = [2 \<mapsto> AuthHandler 7]\<rparr>\<rparr>"
  have "process_response \<lparr>resp_request_id = 2, resp_object = Some (Error 400 ''CODE_INVALID'')\<rparr> ?w
      = Inr (upd_tgcl (\<lambda>c. c\<lparr>handlers := (handlers c)(2 := None)\<rparr>) ?w)"
    using auth_error_retries[of ?w 2 7 "Error 400 ''CODE_INVALID''"]
    by (simp add: is_update_option_def)
  then show ?thesis
    by (intro exI[of _ ?w] exI[of _ "upd_tgcl (\<lambda>c. c\<lparr>handlers := (handlers c)(2 := None)\<rparr>) ?w"])
      simp
qed

text \<open>
  The logout that \<^verbatim>\<open>--logout\<close> asks for. When the session is ready, the client logs out instead
  of entering the program; once TDLib has closed, \<^verbatim>\<open>init_auth\<close> goes on with a new client: no
  authorization, no handlers, request numbering from one, an empty application state, and the
  logout request is not repeated.
\<close>

theorem logout_then_restart:
  assumes "\<not> is_auth (tgcl w)" and "\<not> need_restart (tgcl w)" and "logout_next (opts w)"
  shows "\<exists>w'. init_auth (map auth_update [Ready, LoggingOut, Closing, Closed] @ rs) w = init_auth rs w'
    \<and> requests w' = requests w @ [LogOut, GetOption ''version'']
    \<and> \<not> logout_next (opts w')
    \<and> \<not> is_auth (tgcl w') \<and> \<not> need_restart (tgcl w') \<and> handlers (tgcl w') = Map.empty
    \<and> current_query_id (tgcl w') = 1
    \<and> id_to_chat (app_state (shared w')) = Map.empty"
proof -
  from auth_ready[of w] assms obtain w1 where
    w1: "process_response (auth_update Ready) w = Inr w1"
    and d1: "dialogue_of w1 = (dialogue_of w)\<lparr>d_logout := False, d_requests := requests w @ [LogOut]\<rparr>"
    by auto
  from auth_logging_out[of w1] obtain w2 where
    w2: "process_response (auth_update LoggingOut) w1 = Inr w2"
    and d2: "dialogue_of w2 = (dialogue_of w1)\<lparr>d_is_auth := False\<rparr>" by auto
  obtain w3 where w3: "process_response (auth_update Closing) w2 = Inr w3"
    and d3: "dialogue_of w3 = dialogue_of w2"
    by (simp add: process_auth_def Let_def dialogue_of_def)
  from auth_closed[of w3] obtain w4 where
    w4: "process_response (auth_update Closed) w3 = Inr w4"
    and d4: "dialogue_of w4 = (dialogue_of w3)\<lparr>d_is_auth := False, d_need_restart := True\<rparr>" by auto
  note f = dialogue_of_eq[OF d1] dialogue_of_eq[OF d2] dialogue_of_eq[OF d3] dialogue_of_eq[OF d4]
  have d0: "d_is_auth (dialogue_of w) = False" "d_need_restart (dialogue_of w) = False"
    using assms by (simp_all add: dialogue_of_def)
  have "init_auth (map auth_update [Ready, LoggingOut, Closing, Closed] @ rs) w
      = init_auth rs (restart w4)"
    using assms f d0 d1 d2 d3
    by (simp add: init_auth_step init_auth_restart w1 w2 w3 w4 del: process_auth_update)
  moreover have "requests (restart w4) = requests w4 @ [GetOption ''version'']"
    "opts (restart w4) = opts w4" "handlers (tgcl (restart w4)) = Map.empty"
    "current_query_id (tgcl (restart w4)) = 1"
    "id_to_chat (app_state (shared (restart w4))) = Map.empty"
    by (simp_all add: restart_def new_tg_client_def Let_def requests_def send_query_def
        next_query_id_def print_out_def new_app_state_def)
  ultimately show ?thesis
    using f d1 d2 d3 by (intro exI[of _ "restart w4"]) simp
qed

theorem logout_then_restart_witness:
  "\<exists>w'. init_auth (map auth_update [Ready, LoggingOut, Closing, Closed] @ [])
     (start_world \<lparr>use_test_dc = False, logout_next = True, debug_attach = False\<rparr> example_environment)
     = init_auth [] w' \<and> handlers (tgcl w') = Map.empty"
proof -
  let ?w = "start_world \<lparr>use_test_dc = False, logout_next = True, debug_attach = False\<rparr>
      example_environment"
  have "\<not> is_auth (tgcl ?w)" "\<not> need_restart (tgcl ?w)" "logout_next (opts ?w)"
    by (simp_all add: start_world_def new_tg_client_def Let_def example_environment_def)
  from logout_then_restart[OF this, of "[]"] show ?thesis by blast
qed

end
