(* ===== verification/Input_Claims.thy ===== *)
theory Input_Claims
  imports Input_Props Login
begin

text \<open>
  The properties of the keyboard and the mouse, stated on \<^verbatim>\<open>process_input\<close>.
\<close>

section \<open>A concrete machine\<close>

definition example_machine :: machine where
  "example_machine =
     \<lparr>wd = (start_world \<lparr>use_test_dc = False, logout_next = False, debug_attach = False\<rparr>
              example_environment)\<lparr>shared := \<lparr>app_state = example_state, events = empty_event_queue\<rparr>\<rparr>,
      scr = example_screen, input_state = initial_input_state, cont = True\<rparr>"

lemma example_machine_simps [simp]:
  "app example_machine = example_state" "scr example_machine = example_screen"
  "input_state example_machine = initial_input_state" "cont example_machine"
  by (simp_all add: example_machine_def app_def)

lemma example_screen_dims:
  "side_w example_screen = 20" "LINES example_screen = 24" "composer_h example_screen = 3"
  "COLS example_screen = 80" "current_pan example_screen = ID_SIDE" "cursor_of example_screen k = (0, 0)"
  by (simp_all add: example_screen_def swapped_frame blank_screen_def cursor_of_def at_def_def)

lemma example_panes:
  "panel_rect example_screen ID_SIDE = Some \<lparr>r_y = 0, r_x = 0, r_rows = 20, r_cols = 20\<rparr>"
  "panel_rect example_screen ID_MAIN = Some \<lparr>r_y = 0, r_x = 21, r_rows = 20, r_cols = 59\<rparr>"
  "panel_rect example_screen ID_COMP = Some \<lparr>r_y = 21, r_x = 0, r_rows = 3, r_cols = 80\<rparr>"
  using example_screen_inv
  by (simp_all add: layout_inv_def layout_specs_def spec_rect_def example_screen_dims)

lemma example_machine_inv [simp]: "ui_inv example_machine"
  using example_screen_inv example_state_drawable
  by (simp add: ui_inv_def screen_inv_def cursors_in_def cursor_in_def pane_ids_def example_panes
      example_screen_dims sizes_ok_def example_state_simps)

lemma example_focus: "focus example_machine ID_SIDE \<lparr>r_y = 0, r_x = 0, r_rows = 20, r_cols = 20\<rparr>"
  by (simp add: focus_def example_screen_dims example_panes)

section \<open>No key faults\<close>

text \<open>C8: In a state that satisfies the user-interface invariant (the layout, cursors inside their
  windows, scroll offsets within what is shown, agreement of the chat lists) every key and mouse event
  is processed without a fault, except for the drag of a border to a position that leaves some window
  without a cell although the resize is not refused, such as the last line of the terminal for the
  border of the composer, which is left out. Afterwards the layout, the cursors and the chat list are in
  order; so is the message window, unless the key was \<^verbatim>\<open>o\<close>, or \<^verbatim>\<open>G\<close> in the message window. The loop is
  told to stop exactly by Ctrl-q.\<close>

theorem process_input_safe:
  assumes "curses_ok api" "ui_inv m" "key_sizes_ok m c"
  shows "\<exists>m'. process_input api c m = Inr m' \<and> screen_inv (scr m') \<and> side_drawable (app m')
    \<and> (\<not> may_overscroll m c \<longrightarrow> ui_inv m') \<and> cont m' = (cont m \<and> c \<noteq> CTRL_q)"
  using process_input_ok[OF assms] by metis

theorem process_input_safe_witness:
  "\<exists>m'. process_input plain_curses (Key (CHR ''j'')) example_machine = Inr m' \<and> ui_inv m'"
  using process_input_safe[OF curses_ok_plain example_machine_inv, of "Key (CHR ''j'')"]
  by (auto simp: key_sizes_ok_def may_overscroll_def)

section \<open>The mouse\<close>

text \<open>Pressing the first button on a cell of the terminal starts a drag exactly when the cell
  belongs to one of the two border windows; otherwise the pane remembered is the one whose window
  has the cell.\<close>

theorem press_hits_pane:
  assumes "layout_inv sc" "0 \<le> ev_y ev" "ev_y ev < LINES sc" "0 \<le> ev_x ev" "ev_x ev < COLS sc"
    and "s' = process_B1_pressed sc ev s"
  shows "\<exists>k r. k \<in> set panel_ids \<and> panel_rect sc k = Some r \<and> cell_in (ev_y ev) (ev_x ev) r
    \<and> (in_state s' = S_MOUSE_DRAG) = (k \<in> {ID_E_SIDE_MAIN, ID_C_SIDE_MAIN_COMP})
    \<and> (in_state s' \<noteq> S_MOUSE_DRAG \<longrightarrow> mbuf_where s' = k \<and> in_state s' = S_NONE)"
proof -
  let ?k = "cell_owner sc (ev_y ev) (ev_x ev)"
  have "?k \<in> set panel_ids \<and> (\<exists>r. panel_rect sc ?k = Some r \<and> cell_in (ev_y ev) (ev_x ev) r)"
    using cell_owner_hit[OF assms(1), of ?k "ev_y ev" "ev_x ev"] assms(2-5) by blast
  moreover have "(in_state s' = S_MOUSE_DRAG) = (?k \<in> {ID_E_SIDE_MAIN, ID_C_SIDE_MAIN_COMP})
    \<and> (in_state s' \<noteq> S_MOUSE_DRAG \<longrightarrow> mbuf_where s' = ?k \<and> in_state s' = S_NONE)"
    unfolding assms(6) by (simp add: process_B1_pressed_def cell_owner_def reset_def S_defs ID_values)
  ultimately show ?thesis by blast
qed

theorem press_hits_pane_witness:
  "\<exists>k r. panel_rect example_screen k = Some r \<and> cell_in 3 20 r"
  using press_hits_pane[OF example_screen_inv _ _ _ _ refl, of
      "\<lparr>ev_y = 3, ev_x = 20, button1_pressed = True, button1_released = False,
        report_mouse_position = False\<rparr>" initial_input_state]
  by (simp add: example_screen_dims) blast

text \<open>C9: A dragged border follows the mouse: pressing on the vertical border, on the border of the
  composer or on their crossing, and then moving to a cell where every window keeps a cell, moves the
  border windows, the vertical one to the column of that cell if it was pressed and the horizontal
  one to its line if that was pressed; the one that was not pressed stays on its column or line. The
  three panes fill the terminal up to the borders. Apart from the windows, the sizes and the recorded
  calls nothing changes but the memory of the press and the cursors, which are moved into their
  windows by no more than needed.\<close>

theorem drag_moves_border:
  assumes "curses_ok api" "ui_inv m"
    and press: "button1_pressed ev" "0 \<le> ev_y ev" "0 \<le> ev_x ev" "ev_x ev < COLS (scr m)"
    and on_border: "vert = (ev_y ev \<le> LINES (scr m) - composer_h (scr m) - 1 \<and> ev_x ev = side_w (scr m))"
      "horiz = (ev_y ev = LINES (scr m) - composer_h (scr m) - 1)" "vert \<or> horiz"
    and move: "report_mouse_position to" "\<not> button1_pressed to" "\<not> button1_released to"
    and new: "border_x = (if vert then ev_x to else side_w (scr m))"
      "border_y = (if horiz then ev_y to else LINES (scr m) - composer_h (scr m) - 1)"
      "fits (scr m) border_x (LINES (scr m) - border_y - 1)"
  shows "\<exists>m'. bind_r (process_input api (KEY_MOUSE (Some ev)) m)
        (process_input api (KEY_MOUSE (Some to))) = Inr m'
    \<and> layout_inv (scr m') \<and> LINES (scr m') = LINES (scr m) \<and> COLS (scr m') = COLS (scr m)
    \<and> panel_rect (scr m') ID_E_SIDE_MAIN = Some \<lparr>r_y = 0, r_x = border_x, r_rows = border_y, r_cols = 1\<rparr>
    \<and> panel_rect (scr m') ID_C_SIDE_MAIN_COMP = Some \<lparr>r_y = border_y, r_x = 0, r_rows = 1, r_cols = COLS (scr m)\<rparr>
    \<and> panel_rect (scr m') ID_SIDE = Some \<lparr>r_y = 0, r_x = 0, r_rows = border_y, r_cols = border_x\<rparr>
    \<and> panel_rect (scr m') ID_MAIN =
        Some \<lparr>r_y = 0, r_x = border_x + 1, r_rows = border_y, r_cols = COLS (scr m) - border_x - 1\<rparr>
    \<and> panel_rect (scr m') ID_COMP =
        Some \<lparr>r_y = border_y + 1, r_x = 0, r_rows = LINES (scr m) - border_y - 1, r_cols = COLS (scr m)\<rparr>
    \<and> side_w (scr m') = border_x \<and> composer_h (scr m') = LINES (scr m) - border_y - 1
    \<and> current_pan (scr m') = current_pan (scr m)
    \<and> (\<forall>k \<in> set pane_ids. \<forall>r. panel_rect (scr m') k = Some r \<longrightarrow> cursor_of (scr m') k =
          (min (fst (cursor_of (scr m) k)) (r_rows r - 1), min (snd (cursor_of (scr m) k)) (r_cols r - 1)))
    \<and> wd m' = wd m \<and> cont m' = cont m
    \<and> in_state (input_state m') = S_MOUSE_DRAG \<and> pref_key (input_state m') = pref_key (input_state m)"
proof -
  let ?s = "process_B1_pressed (scr m) ev (input_state m)" and ?h = "LINES (scr m) - border_y - 1"
  let ?m1 = "on_input (process_B1_pressed (scr m) ev) m"
  have pane: "process_pane api (KEY_MOUSE me) m0 = Inr m0" for me m0
    by (rule process_pane_other) (simp add: pane_keys_def)
  have s: "in_state ?s = S_MOUSE_DRAG" "dragged_sizes (scr m) (mbuf_where ?s) to = (border_x, ?h)"
    "pref_key ?s = pref_key (input_state m)"
    using on_border new
    by (auto simp: process_B1_pressed_def reset_def dragged_sizes_def ID_values split: if_splits)
  obtain s' where s': "resize_and_refresh api (app m) border_x ?h (scr m) = Inr s'" "screen_inv s'"
    "LINES s' = LINES (scr m)" "COLS s' = COLS (scr m)" "current_pan s' = current_pan (scr m)"
    "side_w s' = border_x" "composer_h s' = ?h"
    "\<forall>k \<in> set pane_ids. cursor_of s' k = clamped (panel_rect s' k) (cursor_of (scr m) k)"
    using resize_and_refresh_ok[OF assms(1) ui_invD(1)[OF assms(2)] _ ui_invD(2,3)[OF assms(2)], of border_x ?h]
      new(3) by (auto simp: size_request_ok_def)
  have "process_input api (KEY_MOUSE (Some ev)) m = Inr ?m1"
    using press(1) by (simp add: process_input_def process_common_def process_mouse_def pane)
  moreover have "process_input api (KEY_MOUSE (Some to)) ?m1 = Inr (?m1\<lparr>scr := s'\<rparr>)"
    using move s s'(1)
    by (simp add: process_input_def process_common_def process_mouse_def pane on_scr_def)
  ultimately have run: "bind_r (process_input api (KEY_MOUSE (Some ev)) m)
      (process_input api (KEY_MOUSE (Some to))) = Inr (?m1\<lparr>scr := s'\<rparr>)" by simp
  have lay: "layout_inv s'" using s'(2) by (simp add: screen_invD(2))
  have upper: "LINES (scr m) - ?h - 1 = border_y" "LINES (scr m) - ?h = border_y + 1" by simp_all
  show ?thesis
    using layout_rects[OF lay, unfolded s'(3,4,6,7) upper] lay s'(3-8) s
    by (intro exI[of _ "?m1\<lparr>scr := s'\<rparr>"]) (simp add: run clamped_def on_input_def)
qed

theorem drag_moves_border_witness:
  "\<exists>m'. bind_r (process_input plain_curses (KEY_MOUSE (Some \<lparr>ev_y = 20, ev_x = 20,
          button1_pressed = True, button1_released = False, report_mouse_position = False\<rparr>))
        example_machine)
      (process_input plain_curses (KEY_MOUSE (Some \<lparr>ev_y = 15, ev_x = 40, button1_pressed = False,
          button1_released = False, report_mouse_position = True\<rparr>))) = Inr m'
    \<and> side_w (scr m') = 40 \<and> composer_h (scr m') = 8"
  using drag_moves_border[OF curses_ok_plain example_machine_inv, of
      "\<lparr>ev_y = 20, ev_x = 20, button1_pressed = True, button1_released = False,
        report_mouse_position = False\<rparr>" True True
      "\<lparr>ev_y = 15, ev_x = 40, button1_pressed = False, button1_released = False,
        report_mouse_position = True\<rparr>" 40 15]
  by (auto simp: example_screen_dims fits_def)

section \<open>The focus\<close>

definition next_pan :: "int \<Rightarrow> int" where
  "next_pan p = (if p = ID_SIDE then ID_MAIN else if p = ID_MAIN then ID_COMP else ID_SIDE)"

lemma next_pan_cycle:
  assumes "p \<in> set pane_ids"
  shows "{next_pan p, next_pan (next_pan p), next_pan (next_pan (next_pan p))} = set pane_ids"
    and "next_pan (next_pan (next_pan p)) = p"
proof -
  have n: "next_pan 1 = 2" "next_pan 2 = 4" "next_pan 4 = 1"
    by (simp_all add: next_pan_def ID_values)
  have "p = 1 \<or> p = 2 \<or> p = 4" using assms by (simp add: pane_ids_def ID_values)
  then show "{next_pan p, next_pan (next_pan p), next_pan (next_pan (next_pan p))} = set pane_ids"
    "next_pan (next_pan (next_pan p)) = p"
    by (auto simp: n pane_ids_def ID_values)
qed

text \<open>The tab key moves the focus from the chat list to the messages, to the composer and back
  to the chat list; three tabs visit every pane and return, with all cursors where they were.\<close>

theorem tab_cycles:
  assumes "curses_ok api" "ui_inv m"
  shows "\<exists>m1 m2 m3. process_input api TAB m = Inr m1 \<and> process_input api TAB m1 = Inr m2
    \<and> process_input api TAB m2 = Inr m3
    \<and> {current_pan (scr m1), current_pan (scr m2), current_pan (scr m3)} = set pane_ids
    \<and> current_pan (scr m3) = current_pan (scr m) \<and> app m3 = app m
    \<and> cursor_positions (scr m3) = cursor_positions (scr m) \<and> ui_inv m3"
proof -
  have tab: "\<exists>m'. process_input api TAB m = Inr m' \<and> ui_inv m' \<and> app m' = app m
      \<and> current_pan (scr m') = next_pan (current_pan (scr m))
      \<and> cursor_positions (scr m') = cursor_positions (scr m)" if "ui_inv m" for m
  proof -
    note c = cycle_panel_shows[OF that, folded next_pan_def]
    from c(2) obtain s where s: "cycle_panel m
        = Inr (m\<lparr>scr := s\<rparr>)" "draws ((scr m)\<lparr>current_pan := next_pan (current_pan (scr m))\<rparr>) s"
      by (auto simp: shows_as_def)
    have "process_input api TAB m = Inr (m\<lparr>scr := s\<rparr>)"
      using s(1) by (simp add: process_input_def process_common_def TAB_def CTRL_q_def
          process_pane_other pane_keys_def)
    moreover have "ui_inv (m\<lparr>scr := s\<rparr>)"
      using c(1) by (simp add: ui_inv_def draws_screen_inv[OF s(2)])
    ultimately show ?thesis by (auto simp: draws_frame[OF s(2)])
  qed
  obtain m1 where m1: "process_input api TAB m = Inr m1" "ui_inv m1" "app m1 = app m"
    "current_pan (scr m1) = next_pan (current_pan (scr m))"
    "cursor_positions (scr m1) = cursor_positions (scr m)"
    using tab[OF assms(2)] by blast
  obtain m2 where m2: "process_input api TAB m1 = Inr m2" "ui_inv m2" "app m2 = app m1"
    "current_pan (scr m2) = next_pan (current_pan (scr m1))"
    "cursor_positions (scr m2) = cursor_positions (scr m1)"
    using tab[OF m1(2)] by blast
  obtain m3 where m3: "process_input api TAB m2 = Inr m3" "ui_inv m3" "app m3 = app m2"
    "current_pan (scr m3) = next_pan (current_pan (scr m2))"
    "cursor_positions (scr m3) = cursor_positions (scr m2)"
    using tab[OF m2(2)] by blast
  note n = next_pan_cycle[OF ui_invD(6)[OF assms(2)]]
  show ?thesis
    using m1 m2 m3 n by auto
qed

theorem tab_cycles_witness:
  "\<exists>m1 m2 m3. process_input plain_curses TAB example_machine = Inr m1
    \<and> process_input plain_curses TAB m1 = Inr m2 \<and> process_input plain_curses TAB m2 = Inr m3
    \<and> current_pan (scr m3) = ID_SIDE"
  using tab_cycles[OF curses_ok_plain example_machine_inv] by (auto simp: example_screen_dims)

section \<open>The selection in the chat list\<close>

lemma process_input_pane_key:
  assumes "x \<noteq> 17" "x \<noteq> 9"
  shows "process_input api (Code x) m = process_pane api (Code x) m"
  using assms by (simp add: process_input_def process_common_def CTRL_q_def TAB_def)

text \<open>The index in the chat list of the line the cursor is on.\<close>

definition selected :: "machine \<Rightarrow> nat" where
  "selected m = unat (scroll_of (app m) ID_SIDE) + nat (fst (cursor_of (scr m) ID_SIDE))"



text \<open>\<^verbatim>\<open>o\<close> in the chat list chooses the chat on the cursor's line, if there is one, and requests
  its history; otherwise it does nothing. The scroll offset of the message window stays what it
  was for the previous chat.\<close>

theorem open_selected_chat:
  assumes "curses_ok api" "ui_inv m" "focus m ID_SIDE r"
  shows "\<exists>m'. process_input api (Key (CHR ''o'')) m = Inr m'
    \<and> scroll_of (app m') ID_MAIN = scroll_of (app m) ID_MAIN
    \<and> (case nth_opt (chats_shown m) (selected m) of
        None \<Rightarrow> app m' = app m \<and> requests (wd m') = requests (wd m)
      | Some p \<Rightarrow> chosen_chat_id (app m') = snd p
          \<and> requests (wd m') = requests (wd m) @ [GetChatHistory (snd p) 0 0 100 False])"
proof -
  note f = focusD[OF assms(1-3)]
  let ?y = "fst (cursor_of (scr m) ID_SIDE)"
  let ?i = "scroll_of (app m) ID_SIDE + size_of_int (fst (cur_pos m))"
  have y: "0 \<le> ?y" "?y < 2 ^ 31" using f(3,6,7) by (simp_all add: size_ok_def)
  have s: "unat (scroll_of (app m) ID_SIDE) < 2 ^ 63"
    using shown_sizes(1,3)[OF assms(2)] by simp
  have "nat ?y < 2 ^ 31" using y by (simp add: nat_less_iff)
  then have i: "unat ?i = selected m"
    using s y by (simp add: unat_word_ariths unat_size_of_int selected_def f(1))
  have key: "process_input api (Key (CHR ''o'')) m = key_o api m"
    using process_pane_key(7)[OF f(1)] by (simp add: process_input_pane_key)
  have req: "requests (wd (pick_chat c m)) = requests (wd m) @ [GetChatHistory c 0 0 100 False]" for c
    by (simp add: pick_chat_def Let_def get_chat_history_def requests_def send_query_def
        next_query_id_def on_app_def upd_shared_def)
  have scroll: "scroll_of (st\<lparr>chosen_chat_id := c\<rparr>) k = scroll_of st k" for st c k
    by (simp add: scroll_of_def)
  from key_o_shows[OF assms(1-3)] show ?thesis
    unfolding key i
    by (auto simp: shows_as_def nth_opt_def req scroll)
qed

theorem open_selected_chat_witness:
  "\<exists>m'. process_input plain_curses (Key (CHR ''o'')) example_machine = Inr m'
    \<and> chosen_chat_id (app m') = 8"
proof -
  have "nth_opt (chats_shown example_machine) (selected example_machine) = Some (9, 8)"
    by (simp add: chats_shown_def selected_def example_screen_dims example_state_simps)
  then show ?thesis
    using open_selected_chat[OF curses_ok_plain example_machine_inv example_focus] by auto
qed

section \<open>Jumps\<close>

text \<open>\<^verbatim>\<open>G\<close> in the message window takes the size of the chat list for the number of messages: when
  the chosen chat has fewer messages than the chat list has chats beyond one window, the key sets a
  scroll offset beyond the messages, and the next time the message window is drawn an iterator is
  advanced past the end.\<close>

theorem main_G_overscrolls:
  assumes "curses_ok api" "ui_inv m" "focus m ID_MAIN r" "chosen_chat_id (app m) \<noteq> - 1"
    and "length (msgs_shown m) < length (chats_shown m) - nat (r_rows r)"
  shows "\<exists>m'. process_input api (Key (CHR ''G'')) m = Inr m'
    \<and> unat (scroll_of (app m') ID_MAIN) = length (chats_shown m) - nat (r_rows r)
    \<and> draw_main api (app m') (scr m') = Inl Past_the_end"
proof -
  note f = focusD[OF assms(1-3)] and g = key_G_shows[OF assms(1-3) disjI2[OF refl]]
  have key: "process_input api (Key (CHR ''G'')) m = key_G api m"
    using process_pane_key(5)[OF f(1)] by (simp add: process_input_pane_key)
  from g(5) obtain m' where m': "key_G api m = Inr m'"
    "app m' = set_scroll ID_MAIN (max_offset (r_rows r) (length (chats_shown m))) (app m)"
    by (auto simp: shows_as_def)
  with assms(4,5) g(1) show ?thesis
    unfolding key by (intro exI[of _ m']) (simp add: draw_main_def drop_r_def msgs_shown_def)
qed

text \<open>A machine with the focus on the messages and 25 chats in the list.\<close>

definition crowded_machine :: machine where
  "crowded_machine = example_machine
     \<lparr>wd := upd_shared (upd_app (\<lambda>st. st
        \<lparr>id_to_chat := (\<lambda>c. Some \<lparr>chat_id = c, chat_title = ''Ann'', chat_last_message = None,
            chat_positions = [], chat_lists = []\<rparr>),
         position_sets := [chat_list_id ChatListMain \<mapsto> map (\<lambda>i. (0, i)) (rev [1..25])],
         id_to_position := [chat_list_id ChatListMain \<mapsto> (\<lambda>c. if c \<in> {1..25} then Some 0 else None)]\<rparr>))
        (wd example_machine),
      scr := example_screen\<lparr>current_pan := ID_MAIN\<rparr>\<rparr>"

lemma crowded_app:
  "chats_shown crowded_machine = map (\<lambda>i. (0, i)) (rev [1..25])" "chosen_chat_id (app crowded_machine) = 7"
  "msgs_shown crowded_machine = messages_of example_state 7" "scroll_of (app crowded_machine) k = 0"
  by (simp_all add: crowded_machine_def chats_shown_def msgs_shown_def app_def upd_shared_def upd_app_def
      example_machine_def example_state_def new_app_state_def position_set_def at_def_def
      messages_of_def scroll_of_def)

lemma crowded_inv: "ui_inv crowded_machine"
proof -
  let ?a = "app crowded_machine"
  have ps: "position_set ?a l = (if l = chat_list_id ChatListMain then map (\<lambda>i. (0, i)) (rev [1..25]) else [])"
    "position_map ?a l = (if l = chat_list_id ChatListMain
        then (\<lambda>c. if c \<in> {1..25} then Some 0 else None) else Map.empty)" for l
    by (simp_all add: crowded_machine_def app_def upd_shared_def upd_app_def example_machine_def
        example_state_def new_app_state_def position_set_def position_map_def at_def_def)
  have "oset (\<lambda>p. p) (map (\<lambda>i. (0::int, i)) (rev [1..25::int]))"
    by (simp add: oset_def upto.simps)
  then have "chat_lists_ok ?a"
    by (auto simp: chat_lists_ok_def ps oset_def image_iff)
  moreover have "chats_known ?a"
    by (auto simp: chats_known_def ps crowded_machine_def app_def upd_shared_def upd_app_def
        split: if_splits)
  moreover have "texts_ok (messages_of ?a 7)" "messages_of ?a 7 = messages_of example_state 7"
    using crowded_app(2,3) by (simp_all add: msgs_shown_def example_state_simps texts_ok_def)
  ultimately have "side_drawable ?a" "main_drawable ?a" "sizes_ok ?a"
    using crowded_app by (simp_all add: side_drawable_def main_drawable_def sizes_ok_def
        chats_shown_def example_state_simps)
  moreover have "screen_inv (scr crowded_machine)"
  proof -
    let ?s = "example_screen\<lparr>current_pan := ID_MAIN\<rparr>"
    have c: "windows_inv ?s = windows_inv example_screen" "panel_rect ?s k = panel_rect example_screen k"
      "layout_specs ?s = layout_specs example_screen" "fits ?s = fits example_screen"
      "cursor_of ?s k = cursor_of example_screen k" for k
      by ((rule windows_inv_cong panel_rect_cong layout_specs_cong fits_cong; simp)+)
        (simp add: cursor_of_def)
    show ?thesis
      using ui_invD(1)[OF example_machine_inv]
      by (simp add: crowded_machine_def screen_inv_def layout_inv_def cursors_in_def cursor_in_def c
          pane_ids_def cong: option.case_cong)
  qed
  ultimately show ?thesis by (simp add: ui_inv_def)
qed

theorem main_G_overscrolls_witness:
  "\<exists>m'. process_input plain_curses (Key (CHR ''G'')) crowded_machine = Inr m'
    \<and> draw_main plain_curses (app m') (scr m') = Inl Past_the_end"
proof -
  let ?r = "\<lparr>r_y = 0, r_x = 21, r_rows = 20, r_cols = 59\<rparr>"
  have "panel_rect (scr crowded_machine) ID_MAIN = Some ?r"
    using example_panes(2) panel_rect_cong[of "scr crowded_machine" example_screen ID_MAIN]
    by (simp add: crowded_machine_def)
  moreover have "current_pan (scr crowded_machine) = ID_MAIN" by (simp add: crowded_machine_def)
  ultimately have "focus crowded_machine ID_MAIN ?r" by (simp add: focus_def)
  moreover have "length (msgs_shown crowded_machine) < length (chats_shown crowded_machine) - nat (r_rows ?r)"
    by (simp add: crowded_app example_state_simps)
  ultimately show ?thesis
    using main_G_overscrolls[OF curses_ok_plain crowded_inv] crowded_app(2) by fastforce
qed


fun process_keys :: "curses_api \<Rightarrow> key list \<Rightarrow> machine \<Rightarrow> machine result" where
  "process_keys api [] m = Inr m"
| "process_keys api (c # cs) m = bind_r (process_input api c m) (process_keys api cs)"

lemma on_scr_input_state: "on_scr f m = Inr m' \<Longrightarrow> input_state m' = input_state m"
  by (auto simp: on_scr_def)

lemma drawn_input_state:
  "show_pane m = Inr m' \<Longrightarrow> input_state m' = input_state m"
  "draw_side_m api m = Inr m' \<Longrightarrow> input_state m' = input_state m"
  "draw_main_m api m = Inr m' \<Longrightarrow> input_state m' = input_state m"
  using on_scr_input_state by (auto simp: show_pane_def draw_side_m_def draw_main_m_def)

lemma process_pane_input_state:
  assumes "process_pane api c m = Inr m'" "c \<noteq> Key (CHR ''g'')"
  shows "input_state m' = input_state m"
  using assms
  by (auto simp: process_pane_def key_h_def key_l_def side_j_def side_k_def main_j_def main_k_def
      key_G_def key_o_def Let_def dest!: drawn_input_state elim!: bind_r_InrE split: if_splits)

lemma process_keys_input_state:
  assumes "process_keys api cs m = Inr m'" "set cs \<subseteq> range Code - {Key (CHR ''g'')}"
  shows "input_state m' = input_state m"
  using assms
proof (induction cs arbitrary: m)
  case Nil
  then show ?case by simp
next
  case (Cons c cs)
  obtain x where c: "c = Code x" "c \<noteq> Key (CHR ''g'')"
    using Cons.prems(2) by (simp add: image_iff) blast
  obtain m1 m2 where m1: "process_common api c m = Inr m1" and m2: "process_pane api c m1 = Inr m2"
    and rest: "process_keys api cs m2 = Inr m'"
    using Cons.prems(1) by (simp add: process_input_def) (elim bind_r_InrE, blast)
  have "input_state m1 = input_state m"
    using m1 c(1) on_scr_input_state
    by (fastforce simp: process_common_def cycle_panel_def Let_def split: if_splits)
  with process_pane_input_state[OF m2 c(2)] Cons.IH[OF rest] Cons.prems(2) show ?case by simp
qed

text \<open>\<^verbatim>\<open>gg\<close> jumps to the first line. The prefix \<^verbatim>\<open>g\<close> is not cancelled by other keys: after \<^verbatim>\<open>g\<close>, any
  sequence of other character keys, even one that moves the focus, leaves the next \<^verbatim>\<open>g\<close> the second
  of the pair, which puts the cursor of the pane that then has the focus on the first line and its
  scroll offset to zero.\<close>

theorem gg_jumps:
  assumes "curses_ok api" "ui_inv m" "focus m k r" "k = ID_SIDE \<or> k = ID_MAIN"
    and "in_state (input_state m) \<noteq> S_KEY_PREF"
    and "set cs \<subseteq> range Code - {Key (CHR ''g'')}"
    and "process_keys api (Key (CHR ''g'') # cs) m = Inr m1"
    and "ui_inv m1" "focus m1 k' r'" "k' = ID_SIDE \<or> k' = ID_MAIN"
  shows "\<exists>m2. process_input api (Key (CHR ''g'')) m1 = Inr m2 \<and> ui_inv m2
    \<and> fst (cursor_of (scr m2) k') = 0 \<and> scroll_of (app m2) k' = 0
    \<and> in_state (input_state m2) = S_NONE"
proof -
  have key: "process_input api (Key (CHR ''g'')) m0 = key_g api m0" if "focus m0 j q" "j = ID_SIDE \<or> j = ID_MAIN"
    for m0 j q
    using process_pane_key(6)[of m0 j] that by (simp add: process_input_pane_key focus_def)
  obtain m0 where m0: "key_g api m = Inr m0" "process_keys api cs m0 = Inr m1"
    using assms(7) key[OF assms(3,4)] by auto
  have "input_state m0 = (input_state m)\<lparr>in_state := S_KEY_PREF, pref_key := of_char (CHR ''g'')\<rparr>"
    using m0(1) assms(5) by (auto simp: key_g_def Let_def)
  with process_keys_input_state[OF m0(2) assms(6)]
  have pref: "in_state (input_state m1) = S_KEY_PREF" "pref_key (input_state m1) = of_char (CHR ''g'')"
    by simp_all
  note g = key_g_shows[OF assms(1,8,9,10)]
  have "ui_inv (on_input reset (to_top k' m1))" using g(1) pref by simp
  moreover have "shows_as (key_g api m1) (on_input reset (to_top k' m1))" using g(2) pref by simp
  ultimately obtain m2 where "key_g api m1 = Inr m2" "ui_inv m2" "app m2 = app (to_top k' m1)"
    "input_state m2 = reset (input_state (to_top k' m1))" "cursor_of (scr m2) k' = cursor_of (scr (to_top k' m1)) k'"
    by (auto simp: shows_as_def ui_inv_def draws_screen_inv draws_derived)
  then show ?thesis
    unfolding key[OF assms(9,10)] by (simp add: to_top_def reset_def)
qed

theorem gg_jumps_witness:
  "\<exists>m1 m2. process_keys plain_curses [Key (CHR ''g''), Key (CHR ''x'')] example_machine = Inr m1
    \<and> process_input plain_curses (Key (CHR ''g'')) m1 = Inr m2
    \<and> fst (cursor_of (scr m2) ID_SIDE) = 0 \<and> in_state (input_state m2) = S_NONE"
proof -
  let ?m1 = "on_input (\<lambda>s. s\<lparr>in_state := S_KEY_PREF, pref_key := of_char (CHR ''g'')\<rparr>) example_machine"
  have "process_input plain_curses (Key (CHR ''g'')) example_machine = Inr ?m1"
    using process_pane_key(6)[of example_machine ID_SIDE]
    by (simp add: process_input_pane_key example_screen_dims key_g_def initial_input_state_def S_defs)
  moreover have "process_input plain_curses (Key (CHR ''x'')) ?m1 = Inr ?m1"
    by (simp add: process_input_pane_key) (rule process_pane_other, simp add: pane_keys_def)
  ultimately have k: "process_keys plain_curses [Key (CHR ''g''), Key (CHR ''x'')] example_machine = Inr ?m1"
    by simp
  have "focus ?m1 ID_SIDE \<lparr>r_y = 0, r_x = 0, r_rows = 20, r_cols = 20\<rparr>"
    using example_focus by (simp add: focus_def)
  with gg_jumps[OF curses_ok_plain example_machine_inv example_focus _ _ _ k] k show ?thesis
    by (auto simp: initial_input_state_def S_defs)
qed

end
