(* ===== verification/Chatcurse.thy ===== *)
theory Chatcurse
  imports Input_Claims
begin

text \<open>
  The program (\<^verbatim>\<open>src/chatcurse.cc\<close>): the command line, the start of the user interface, the main loop,
  and the two threads as a step relation labelled with what comes from outside.
\<close>

section \<open>The command line\<close>

text \<open>
  The loop over the arguments. \<open>Inl s\<close> stands for the message about the invalid option \<open>s\<close> and
  \<^verbatim>\<open>exit(1)\<close>; the second component of the result tells whether \<^verbatim>\<open>--debug\<close> raised the log level.
\<close>

fun parse_options :: "string list \<Rightarrow> options \<times> bool \<Rightarrow> string + options \<times> bool" where
  "parse_options [] st = Inr st"
| "parse_options (a # args) (opt, debug) =
     (if a = ''--debug'' then parse_options args (opt, True)
      else if a = ''--attach'' then parse_options args (opt\<lparr>debug_attach := True\<rparr>, debug)
      else if a = ''--use-test-dc'' then parse_options args (opt\<lparr>use_test_dc := True\<rparr>, debug)
      else if a = ''--logout'' then parse_options args (opt\<lparr>logout_next := True\<rparr>, debug)
      else Inl a)"

definition default_options :: options where
  "default_options = \<lparr>use_test_dc = False, logout_next = False, debug_attach = False\<rparr>"

section \<open>The start of the user interface\<close>

text \<open>From \<^verbatim>\<open>init_config\<close> to the loop, in the world \<^verbatim>\<open>init_auth\<close> returned with.\<close>

definition start_ui :: "curses_api \<Rightarrow> world \<Rightarrow> screen \<Rightarrow> machine result" where
  "start_ui api w sc =
     bind_r (init_layout api (app_state (shared w)) (init_config sc)) (\<lambda>sc1.
     bind_r (getmaxy api (panel_window sc1 ID_SIDE) sc1) (\<lambda>chat_list_size.
       Inr \<lparr>wd = init_data chat_list_size w, scr = sc1, input_state = initial_input_state,
            cont = True\<rparr>))"

section \<open>The main loop\<close>

text \<open>The \<^verbatim>\<open>switch\<close> on the type of the event.\<close>

definition handle_event :: "curses_api \<Rightarrow> event \<Rightarrow> machine \<Rightarrow> machine result" where
  "handle_event api ev m =
     (case ev of
        event_quit \<Rightarrow> Inr (on_app (set_terminating True) (m\<lparr>cont := False\<rparr>))
      | event_resize w h \<Rightarrow> on_scr (resize_and_refresh api (app m) w h) m
      | event_chatlist \<Rightarrow>
          on_scr (\<lambda>s. bind_r (draw_side api (app m) (curs_set 0 s)) (\<lambda>s1.
            bind_r (update_panels s1) (\<lambda>s2. bind_r (draw_cursor s2) (\<lambda>s3.
              Inr (curs_set 1 (doupdate s3)))))) m
      | event_cycle_panel \<Rightarrow> cycle_panel m
      | event_messages c \<Rightarrow>
          on_scr (\<lambda>s. bind_r (draw_main api (app m) s) (\<lambda>s1. bind_r (draw_cursor s1) (\<lambda>s2.
            Inr (doupdate s2)))) m)"

text \<open>\<^verbatim>\<open>event_queue.pop_and_get()\<close> in the loop.\<close>

definition pop_event :: "machine \<Rightarrow> (event option \<times> machine) result" where
  "pop_event m =
     bind_r (pop_and_get (events (shared (wd m)))) (\<lambda>(e, q).
       Inr (e, m\<lparr>wd := upd_shared (\<lambda>s. s\<lparr>events := q\<rparr>) (wd m)\<rparr>))"

text \<open>One iteration of the loop, when the other thread does not interfere.\<close>

definition ui_iteration :: "curses_api \<Rightarrow> key \<Rightarrow> machine \<Rightarrow> machine result" where
  "ui_iteration api c m =
     bind_r (process_input api c m) (\<lambda>m1.
     bind_r (pop_event m1) (\<lambda>(to_update, m2).
       case to_update of None \<Rightarrow> Inr m2 | Some ev \<Rightarrow> handle_event api ev m2))"

section \<open>The two threads\<close>

text \<open>
  Where each thread is. The user-interface thread is before \<^verbatim>\<open>process_input\<close>, before \<^verbatim>\<open>pop_and_get\<close>, in
  the \<^verbatim>\<open>switch\<close> on an event, or has left the loop; the Telegram thread is before the test of the
  flag, before \<^verbatim>\<open>receive\<close>, or has returned.
\<close>

datatype ui_place = At_input | At_pop | At_event event | Ui_stopped

datatype tg_place = At_check | At_receive | Tg_stopped

record system =
  mach :: machine
  ui :: ui_place
  tg :: tg_place

definition next_turn :: "machine \<Rightarrow> ui_place" where
  "next_turn m = (if cont m then At_input else Ui_stopped)"

subsection \<open>What is accessed without a lock\<close>

text \<open>
  The objects that both threads use outside the locks of the application state: the table of the
  chat lists and each list in it, the table of the messages and the set of each chat, the handlers
  and the request counter of the client. \<^verbatim>\<open>operator[]\<close> on a table inserts a missing key.
\<close>

datatype shared_object =
    List_table
  | Chat_list int
  | Message_table
  | Chat_messages int53
  | Handler_table
  | Request_counter

datatype memory_access = Reads shared_object | Writes shared_object

fun conflict :: "memory_access \<Rightarrow> memory_access \<Rightarrow> bool" where
  "conflict (Reads a) (Reads b) = False"
| "conflict (Reads a) (Writes b) = (a = b)"
| "conflict (Writes a) (Reads b) = (a = b)"
| "conflict (Writes a) (Writes b) = (a = b)"

definition list_lookup :: "tl_app_state \<Rightarrow> int \<Rightarrow> memory_access" where
  "list_lookup st l = (if l \<in> dom (position_sets st) then Reads List_table else Writes List_table)"

definition message_lookup :: "tl_app_state \<Rightarrow> int53 \<Rightarrow> memory_access" where
  "message_lookup st c = (if c \<in> dom (st_messages st) then Reads Message_table else Writes Message_table)"

text \<open>
  The accesses of \<^verbatim>\<open>process_input\<close> that hold no lock of the object: the size of the current chat list
  (\<^verbatim>\<open>j\<close> on the last line of the chat pane, \<^verbatim>\<open>G\<close>, \<^verbatim>\<open>o\<close>), the number of messages (\<^verbatim>\<open>k\<close> on the first line
  of the message pane), and the request that \<^verbatim>\<open>o\<close> sends. Drawing holds the lock of what it draws.
\<close>

definition on_last_line :: "curses_api \<Rightarrow> machine \<Rightarrow> bool" where
  "on_last_line api m =
     (case getmaxy api (panel_window (scr m) (current_pan (scr m))) (scr m) of
        Inl e \<Rightarrow> False | Inr maxy \<Rightarrow> maxy - 1 \<le> fst (cur_pos m))"

definition ui_accesses :: "curses_api \<Rightarrow> key \<Rightarrow> machine \<Rightarrow> memory_access list" where
  "ui_accesses api c m =
     (let pan = current_pan (scr m);
          list_size = [list_lookup (app m) (current_chatlist (app m)),
                       Reads (Chat_list (current_chatlist (app m)))];
          i = scroll_of (app m) pan + size_of_int (fst (cur_pos m))
      in if pan \<noteq> ID_SIDE \<and> pan \<noteq> ID_MAIN then []
         else if c = Key (CHR ''j'') then (if pan = ID_SIDE \<and> on_last_line api m then list_size else [])
         else if c = Key (CHR ''k'') then
           (if pan = ID_MAIN \<and> fst (cur_pos m) \<le> 0
            then [message_lookup (app m) (chosen_chat_id (app m)),
                  Reads (Chat_messages (chosen_chat_id (app m)))]
            else [])
         else if c = Key (CHR ''G'') then list_size
         else if c = Key (CHR ''o'') then
           list_size @ (if i < of_nat (length (chats_shown m))
                        then [Writes Request_counter, Writes Handler_table] else [])
         else [])"

text \<open>
  The accesses of \<^verbatim>\<open>process_response\<close> to these objects. Its update handlers hold the lock of the
  chat lists or of the messages, which the accesses above do not take. A chat list counts as written
  by every position that names it.
\<close>

definition list_accesses :: "tl_app_state \<Rightarrow> int list \<Rightarrow> memory_access list" where
  "list_accesses st ls = map (list_lookup st) ls @ map (\<lambda>l. Writes (Chat_list l)) ls"

definition auth_accesses :: "authorization_state \<Rightarrow> world \<Rightarrow> memory_access list" where
  "auth_accesses st w =
     (case st of
        WaitOtherDeviceConfirmation link \<Rightarrow> []
      | LoggingOut \<Rightarrow> []
      | Closing \<Rightarrow> []
      | Closed \<Rightarrow> []
      | WaitPassword \<Rightarrow> []
      | Ready \<Rightarrow> if logout_next (opts w) then [Writes Request_counter] else []
      | _ \<Rightarrow> [Writes Request_counter, Writes Handler_table])"

fun update_accesses :: "td_object \<Rightarrow> world \<Rightarrow> memory_access list" where
  "update_accesses (Update (UpdateAuthorizationState st)) w = auth_accesses st w"
| "update_accesses (Update (UpdateNewChat ch)) w =
     list_accesses (app_state (shared w))
       (map chat_list_id (chat_lists ch) @ map (\<lambda>p. chat_list_id (pos_list p)) (chat_positions ch))"
| "update_accesses (Update (UpdateChatAddedToList c l)) w =
     list_accesses (app_state (shared w)) [chat_list_id l]"
| "update_accesses (Update (UpdateChatPosition c p)) w =
     list_accesses (app_state (shared w)) [chat_list_id (pos_list p)]"
| "update_accesses (Update (UpdateChatLastMessage c m ps)) w =
     list_accesses (app_state (shared w)) (map (\<lambda>p. chat_list_id (pos_list p)) ps)"
| "update_accesses _ w = []"

definition handler_accesses :: "handler \<Rightarrow> td_object \<Rightarrow> world \<Rightarrow> memory_access list" where
  "handler_accesses h ob w =
     (case h of
        AuthHandler captured \<Rightarrow>
          if captured = auth_query_id (tgcl w) \<and> is_error ob
          then (case auth_state (tgcl w) of None \<Rightarrow> [] | Some st \<Rightarrow> auth_accesses st w) else []
      | ChatHistoryHandler \<Rightarrow>
          (case ob of
             Messages n (Some m # ms) \<Rightarrow>
               if n = 0 then []
               else [message_lookup (app_state (shared w)) (msg_chat_id m),
                     Writes (Chat_messages (msg_chat_id m))]
           | _ \<Rightarrow> []))"

definition tg_accesses :: "response \<Rightarrow> world \<Rightarrow> memory_access list" where
  "tg_accesses r w =
     (case resp_object r of
        None \<Rightarrow> []
      | Some ob \<Rightarrow>
          if is_update_option ob then []
          else if resp_request_id r = 0 then update_accesses ob w
          else Reads Handler_table #
            (case handlers (tgcl w) (resp_request_id r) of
               None \<Rightarrow> []
             | Some h \<Rightarrow> handler_accesses h ob w @ [Writes Handler_table]))"

definition races :: "curses_api \<Rightarrow> key \<Rightarrow> response \<Rightarrow> machine \<Rightarrow> bool" where
  "races api c r m \<longleftrightarrow>
     list_ex (\<lambda>a. list_ex (conflict a) (tg_accesses r (wd m))) (ui_accesses api c m)"

subsection \<open>The steps\<close>

text \<open>
  What comes from outside in a step: the key that \<^verbatim>\<open>getch\<close> returns, the screen a change of the
  terminal's size leaves before \<^verbatim>\<open>KEY_RESIZE\<close>, the response that \<^verbatim>\<open>receive\<close> returns; or which operation
  runs without input. \<open>Overlapped c r\<close> is a key and a response processed at the same time.
\<close>

datatype action =
    Key_read key
  | Terminal_resized screen
  | Popped
  | Handled
  | Tested
  | Received response
  | Overlapped key response

text \<open>
  A step is guarded by the places of the threads and by the flag alone. Each operation, from one
  point where a thread takes its input to the next, is one step: the accesses of \<open>process_response\<close>
  to the chat lists and to the messages hold their lock, and whatever accesses these outside it races
  with them, which is the fault below. So operations that overlap without a race have the effect of
  some order of them, but for the drawings of one resize, which may show the chat list and the
  messages of different moments.
\<close>

definition terminal_event :: "screen \<Rightarrow> screen \<Rightarrow> bool" where
  "terminal_event sc sc' \<longleftrightarrow>
     sc' = sc\<lparr>LINES := LINES sc', COLS := COLS sc', windows := windows sc'\<rparr>
     \<and> dom (windows sc') = dom (windows sc)"

inductive step :: "curses_api \<Rightarrow> system \<Rightarrow> action \<Rightarrow> system \<Rightarrow> bool" for api where
  ui_input: "\<lbrakk>ui s = At_input; process_input api c (mach s) = Inr m\<rbrakk>
     \<Longrightarrow> step api s (Key_read c) (s\<lparr>mach := m, ui := At_pop\<rparr>)"
| ui_resized: "\<lbrakk>ui s = At_input; terminal_event (scr (mach s)) sc;
       process_input api KEY_RESIZE ((mach s)\<lparr>scr := sc\<rparr>) = Inr m\<rbrakk>
     \<Longrightarrow> step api s (Terminal_resized sc) (s\<lparr>mach := m, ui := At_pop\<rparr>)"
| ui_nothing: "\<lbrakk>ui s = At_pop; pop_event (mach s) = Inr (None, m)\<rbrakk>
     \<Longrightarrow> step api s Popped (s\<lparr>mach := m, ui := next_turn m\<rparr>)"
| ui_popped: "\<lbrakk>ui s = At_pop; pop_event (mach s) = Inr (Some ev, m)\<rbrakk>
     \<Longrightarrow> step api s Popped (s\<lparr>mach := m, ui := At_event ev\<rparr>)"
| ui_event: "\<lbrakk>ui s = At_event ev; handle_event api ev (mach s) = Inr m\<rbrakk>
     \<Longrightarrow> step api s Handled (s\<lparr>mach := m, ui := next_turn m\<rparr>)"
| tg_continue: "\<lbrakk>tg s = At_check; \<not> terminating (app (mach s))\<rbrakk>
     \<Longrightarrow> step api s Tested (s\<lparr>tg := At_receive\<rparr>)"
| tg_return: "\<lbrakk>tg s = At_check; terminating (app (mach s))\<rbrakk>
     \<Longrightarrow> step api s Tested (s\<lparr>tg := Tg_stopped\<rparr>)"
| tg_response: "\<lbrakk>tg s = At_receive; process_response r (wd (mach s)) = Inr w\<rbrakk>
     \<Longrightarrow> step api s (Received r) (s\<lparr>mach := (mach s)\<lparr>wd := w\<rparr>, tg := At_check\<rparr>)"

text \<open>The same operations when they fault, and the data race of two that overlap.\<close>

inductive faults :: "curses_api \<Rightarrow> system \<Rightarrow> action \<Rightarrow> fault \<Rightarrow> bool" for api where
  input_fault: "\<lbrakk>ui s = At_input; process_input api c (mach s) = Inl e\<rbrakk>
     \<Longrightarrow> faults api s (Key_read c) e"
| resized_fault: "\<lbrakk>ui s = At_input; terminal_event (scr (mach s)) sc;
       process_input api KEY_RESIZE ((mach s)\<lparr>scr := sc\<rparr>) = Inl e\<rbrakk>
     \<Longrightarrow> faults api s (Terminal_resized sc) e"
| pop_fault: "\<lbrakk>ui s = At_pop; pop_event (mach s) = Inl e\<rbrakk> \<Longrightarrow> faults api s Popped e"
| event_fault: "\<lbrakk>ui s = At_event ev; handle_event api ev (mach s) = Inl e\<rbrakk>
     \<Longrightarrow> faults api s Handled e"
| received_fault: "\<lbrakk>tg s = At_receive; process_response r (wd (mach s)) = Inl e\<rbrakk>
     \<Longrightarrow> faults api s (Received r) e"
| race_fault: "\<lbrakk>ui s = At_input; tg s = At_receive; races api c r (mach s)\<rbrakk>
     \<Longrightarrow> faults api s (Overlapped c r) Data_race"

inductive_cases step_cases: "step api s a s'"

inductive_cases faults_cases: "faults api s a e"

inductive_simps faults_received: "faults api s (Received r) e"

inductive_simps faults_overlapped: "faults api s (Overlapped c r) e"

end
