(* ===== verification/Thread_Inputs.thy ===== *)
theory Thread_Inputs
  imports Chatcurse
begin

text \<open>
  What the two threads are given: the sizes and scroll offsets drawing relies on, the inputs under
  which they last, each a condition on the input and the state before it, and what a response does to
  the lists, the messages and the event queue.
\<close>

section \<open>Inputs\<close>

definition data_ok :: "tl_app_state \<Rightarrow> bool" where
  "data_ok st \<longleftrightarrow> (\<forall>c. texts_ok (messages_of st c) \<and> length (messages_of st c) < 2 ^ 63)
     \<and> (\<forall>l. length (position_set st l) < 2 ^ 63)"

definition scrolls_ok :: "tl_app_state \<Rightarrow> bool" where
  "scrolls_ok st \<longleftrightarrow>
     unat (scroll_of st ID_SIDE) \<le> length (position_set st (current_chatlist st))
     \<and> (chosen_chat_id st \<noteq> - 1 \<longrightarrow>
          unat (scroll_of st ID_MAIN) \<le> length (messages_of st (chosen_chat_id st)))"

text \<open>
  A key: no drag that would leave a pane without a cell, no \<^verbatim>\<open>G\<close> in the message pane, no \<^verbatim>\<open>o\<close> while the
  messages are scrolled or request identifiers are used up.
\<close>

definition key_ok :: "machine \<Rightarrow> key \<Rightarrow> bool" where
  "key_ok m c \<longleftrightarrow> key_sizes_ok m c
     \<and> (current_pan (scr m) = ID_MAIN \<longrightarrow> c \<noteq> Key (CHR ''G''))
     \<and> (c = Key (CHR ''o'') \<longrightarrow> ids_left 1 (wd m) \<and> scroll_of (app m) ID_MAIN = 0)"

text \<open>A terminal that still has room for the panes; its windows are then of any positive size.\<close>

definition terminal_ok :: "screen \<Rightarrow> bool" where
  "terminal_ok sc \<longleftrightarrow> (\<forall>r \<in> ran (windows sc). size_ok r) \<and> fits sc (side_w sc) (composer_h sc)"

text \<open>Room for what a response adds: one chat in a list, its messages in the set of a chat.\<close>

fun room_for :: "td_object \<Rightarrow> tl_app_state \<Rightarrow> bool" where
  "room_for (Messages n ms) st \<longleftrightarrow> (\<forall>m. Some m \<in> set ms \<longrightarrow> texts_ok [m])
     \<and> (\<forall>c. length (messages_of st c) + length ms < 2 ^ 63)"
| "room_for (Update u) st \<longleftrightarrow> (\<forall>l. length (position_set st l) + 1 < 2 ^ 63)"
| "room_for ob st = True"

definition removes_from :: "int \<Rightarrow> chat_position list \<Rightarrow> bool" where
  "removes_from l ps \<longleftrightarrow> (\<exists>p \<in> set ps. chat_list_id (pos_list p) = l \<and> pos_order p = 0)"

text \<open>Whether an object takes a chat out of the current list.\<close>

fun shortens_list :: "td_object \<Rightarrow> tl_app_state \<Rightarrow> bool" where
  "shortens_list (Update (UpdateNewChat ch)) st = removes_from (current_chatlist st) (chat_positions ch)"
| "shortens_list (Update (UpdateChatPosition c p)) st = removes_from (current_chatlist st) [p]"
| "shortens_list (Update (UpdateChatLastMessage c m ps)) st = removes_from (current_chatlist st) ps"
| "shortens_list ob st = False"

text \<open>
  A response: announced as \<^verbatim>\<open>td_api.tl\<close> says, while identifiers and memory last, and none that takes a
  chat out of a list that is scrolled to its end.
\<close>

definition arrival_ok :: "response \<Rightarrow> world \<Rightarrow> bool" where
  "arrival_ok r w \<longleftrightarrow> response_ok r w
     \<and> (case resp_object r of
          None \<Rightarrow> True
        | Some ob \<Rightarrow>
            let st = app_state (shared w)
            in ids_left 1 w \<and> room_for ob st
               \<and> (shortens_list ob st \<longrightarrow>
                    unat (scroll_of st ID_SIDE) < length (position_set st (current_chatlist st))))"

definition input_ok :: "system \<Rightarrow> action \<Rightarrow> bool" where
  "input_ok s a =
     (case a of
        Key_read c \<Rightarrow> key_ok (mach s) c
      | Terminal_resized sc \<Rightarrow> terminal_ok sc
      | Received r \<Rightarrow> arrival_ok r (wd (mach s))
      | _ \<Rightarrow> True)"

definition good_step :: "curses_api \<Rightarrow> system \<Rightarrow> system \<Rightarrow> bool" where
  "good_step api s s' \<longleftrightarrow> (\<exists>a. input_ok s a \<and> step api s a s')"

text \<open>No request to resize waits: the code has a class for this event but never makes one.\<close>

definition resize_waits :: "event_queue_struct \<Rightarrow> bool" where
  "resize_waits q \<longleftrightarrow> (\<exists>w h. event_resize w h \<in> ran (event_map q))"

definition no_resize :: "system \<Rightarrow> bool" where
  "no_resize s \<longleftrightarrow> \<not> resize_waits (events (shared (wd (mach s))))
     \<and> (\<forall>w h. ui s \<noteq> At_event (event_resize w h))"

section \<open>What a response does to the lists\<close>

lemma length_position_set:
  assumes "chat_lists_ok st"
  shows "length (position_set st l) = card (dom (position_map st l))" "finite (dom (position_map st l))"
proof -
  have d: "dom (position_map st l) = set (map snd (position_set st l))"
    using chat_lists_okD(2)[OF assms, of _ _ l] by (force simp: dom_def)
  show "length (position_set st l) = card (dom (position_map st l))"
    unfolding d using distinct_card[OF listed_once[OF assms, of l]] by simp
  show "finite (dom (position_map st l))" unfolding d by simp
qed

lemma dom_update_position_ge:
  "dom (position_map st l) - (if removes_from l [p] then {cid} else {})
     \<subseteq> dom (position_map (update_position cid p st) l)"
  by (auto simp: position_map_update_position removes_from_def)

lemma dom_fold_update_position_ge:
  "dom (position_map st l) - (if removes_from l ps then {cid} else {})
     \<subseteq> dom (position_map (fold (update_position cid) ps st) l)"
proof (induction ps arbitrary: st)
  case Nil
  then show ?case by simp
next
  case (Cons p ps)
  have "removes_from l (p # ps) \<longleftrightarrow> removes_from l [p] \<or> removes_from l ps"
    by (auto simp: removes_from_def)
  with Cons[of "update_position cid p st"] dom_update_position_ge[of st l p cid] show ?case
    by (cases "removes_from l [p]"; cases "removes_from l ps"; simp; blast)
qed

lemma dom_fold_list_chat_ge: "dom (position_map st l) \<subseteq> dom (position_map (fold (list_chat cid) ls st) l)"
proof (induction ls arbitrary: st)
  case Nil
  then show ?case by simp
next
  case (Cons li ls)
  have "dom (position_map st l) \<subseteq> dom (position_map (list_chat cid li st) l)"
    by (auto simp: position_map_list_chat)
  with Cons[of "list_chat cid li st"] show ?case by simp
qed

text \<open>A change of the lists by one chat: the sizes stay in bounds, and so do the scroll offsets.\<close>

lemma list_change:
  assumes ok: "chat_lists_ok st" "chat_lists_ok st'"
    and upper: "\<And>l. dom (position_map st' l) \<subseteq> insert cid (dom (position_map st l))"
    and lower: "dom (position_map st (current_chatlist st)) - (if rem then {cid} else {})
      \<subseteq> dom (position_map st' (current_chatlist st))"
    and view: "current_chatlist st' = current_chatlist st" "scroll_offset st' = scroll_offset st"
      "chosen_chat_id st' = chosen_chat_id st" "st_messages st' = st_messages st"
    and pre: "data_ok st" "scrolls_ok st" "\<And>l. length (position_set st l) + 1 < 2 ^ 63"
      "rem \<Longrightarrow> unat (scroll_of st ID_SIDE) < length (position_set st (current_chatlist st))"
  shows "data_ok st' \<and> scrolls_ok st'"
proof -
  note len = length_position_set[OF ok(1)] and len' = length_position_set[OF ok(2)]
  have "length (position_set st' l) \<le> length (position_set st l) + 1" for l
    using card_mono[OF _ upper[of l]] card_insert_le_m1[of _ "dom (position_map st l)" cid] len(2)[of l]
    by (simp add: len(1) len'(1) card_insert_if split: if_splits)
  with pre(3) have "length (position_set st' l) < 2 ^ 63" for l
    using le_less_trans by blast
  then have "data_ok st'" using pre(1) view(4) by (simp add: data_ok_def messages_of_def)
  moreover have "unat (scroll_of st ID_SIDE) \<le> length (position_set st' (current_chatlist st))"
  proof -
    have "card (dom (position_map st (current_chatlist st)) - (if rem then {cid} else {}))
        \<le> length (position_set st' (current_chatlist st))"
      using card_mono[OF len'(2) lower] len'(1) by simp
    moreover have "length (position_set st (current_chatlist st)) - 1
        \<le> card (dom (position_map st (current_chatlist st)) - {cid})"
      unfolding len(1) by (simp add: card_Diff_singleton_if)
    ultimately show ?thesis
      using pre(2,4) by (auto simp: scrolls_ok_def len(1) split: if_splits)
  qed
  ultimately show ?thesis
    using pre(2) view by (simp add: scrolls_ok_def scroll_of_def messages_of_def)
qed

lemma new_chat_data:
  assumes "app_inv (app_state s)" "announces_new (app_state s) (chat_id ch)"
    and "data_ok (app_state s)" "scrolls_ok (app_state s)"
    and "\<And>l. length (position_set (app_state s) l) + 1 < 2 ^ 63"
    and "removes_from (current_chatlist (app_state s)) (chat_positions ch) \<Longrightarrow>
      unat (scroll_of (app_state s) ID_SIDE) < length (position_set (app_state s) (current_chatlist (app_state s)))"
  shows "data_ok (app_state (process_update_new_chat ch s)) \<and> scrolls_ok (app_state (process_update_new_chat ch s))"
proof (rule list_change[where st = "app_state s" and cid = "chat_id ch"
      and rem = "removes_from (current_chatlist (app_state s)) (chat_positions ch)"])
  let ?st1 = "fold (list_chat (chat_id ch)) (chat_lists ch) (app_state s)"
  have st: "position_map (app_state (process_update_new_chat ch s)) l
      = position_map (fold (update_position (chat_id ch)) (chat_positions ch) ?st1) l" for l
    by (simp add: process_update_new_chat_def Let_def)
  show "dom (position_map (app_state (process_update_new_chat ch s)) l)
      \<subseteq> insert (chat_id ch) (dom (position_map (app_state s) l))" for l
    unfolding st by (rule subset_trans[OF dom_fold_update_position dom_fold_list_chat])
  show "dom (position_map (app_state s) (current_chatlist (app_state s)))
      - (if removes_from (current_chatlist (app_state s)) (chat_positions ch) then {chat_id ch} else {})
      \<subseteq> dom (position_map (app_state (process_update_new_chat ch s)) (current_chatlist (app_state s)))"
    unfolding st using dom_fold_list_chat_ge dom_fold_update_position_ge by blast
qed (use assms app_inv_new_chat[OF assms(1,2)] in
    \<open>simp_all add: app_inv_def process_update_new_chat_def Let_def\<close>)

text \<open>Positions of one chat, as a position update and a last message bring them.\<close>

lemma positions_data:
  assumes "chat_lists_ok st" "data_ok st" "scrolls_ok st" "\<And>l. length (position_set st l) + 1 < 2 ^ 63"
    and "removes_from (current_chatlist st) ps \<Longrightarrow>
      unat (scroll_of st ID_SIDE) < length (position_set st (current_chatlist st))"
  shows "data_ok (fold (update_position cid) ps st) \<and> scrolls_ok (fold (update_position cid) ps st)"
proof (rule list_change[where st = st and cid = cid and rem = "removes_from (current_chatlist st) ps"])
  show "dom (position_map (fold (update_position cid) ps st) l) \<subseteq> insert cid (dom (position_map st l))" for l
    using dom_fold_update_position by blast
qed (use assms in \<open>simp_all add: dom_fold_update_position_ge\<close>)

lemma added_data:
  assumes "chat_lists_ok st" "position_map st (chat_list_id li) cid \<in> {None, Some 0}"
    and "data_ok st" "scrolls_ok st" "\<And>l. length (position_set st l) + 1 < 2 ^ 63"
  shows "data_ok (list_chat cid li st) \<and> scrolls_ok (list_chat cid li st)"
  by (rule list_change[where st = st and cid = cid and rem = False])
    (use assms dom_list_chat[of cid li st] chat_lists_ok_list_chat[OF assms(1,2)]
      dom_fold_list_chat_ge[of st _ cid "[li]"] in auto)

lemma store_data [simp]:
  "data_ok (st\<lparr>id_to_chat := m\<rparr>) = data_ok st" "scrolls_ok (st\<lparr>id_to_chat := m\<rparr>) = scrolls_ok st"
  "data_ok (st\<lparr>id_to_user := a\<rparr>) = data_ok st" "scrolls_ok (st\<lparr>id_to_user := a\<rparr>) = scrolls_ok st"
  "data_ok (st\<lparr>id_to_user_full_info := b\<rparr>) = data_ok st"
  "scrolls_ok (st\<lparr>id_to_user_full_info := b\<rparr>) = scrolls_ok st"
  "data_ok (st\<lparr>id_to_basicgroup := c\<rparr>) = data_ok st" "scrolls_ok (st\<lparr>id_to_basicgroup := c\<rparr>) = scrolls_ok st"
  "data_ok (st\<lparr>id_to_basicgroup_full_info := d\<rparr>) = data_ok st"
  "scrolls_ok (st\<lparr>id_to_basicgroup_full_info := d\<rparr>) = scrolls_ok st"
  "data_ok (st\<lparr>id_to_supergroup := e\<rparr>) = data_ok st" "scrolls_ok (st\<lparr>id_to_supergroup := e\<rparr>) = scrolls_ok st"
  "data_ok (st\<lparr>id_to_supergroup_full_info := f\<rparr>) = data_ok st"
  "scrolls_ok (st\<lparr>id_to_supergroup_full_info := f\<rparr>) = scrolls_ok st"
  by (simp_all add: data_ok_def scrolls_ok_def position_set_def messages_of_def scroll_of_def)

section \<open>What a response does to the messages\<close>

lemma emplace_sizes:
  assumes "emplace_message c m st = Inr st'"
  shows "length (messages_of st k) \<le> length (messages_of st' k)"
    "length (messages_of st' k) \<le> length (messages_of st k) + 1"
    "texts_ok (messages_of st k) \<Longrightarrow> (\<And>x. m = Some x \<Longrightarrow> texts_ok [x]) \<Longrightarrow> texts_ok (messages_of st' k)"
    "scrolls_ok st' = (unat (scroll_of st ID_SIDE) \<le> length (position_set st (current_chatlist st))
      \<and> (chosen_chat_id st \<noteq> - 1 \<longrightarrow>
          unat (scroll_of st ID_MAIN) \<le> length (messages_of st' (chosen_chat_id st))))"
    "position_set st' l = position_set st l"
proof -
  obtain x where x: "m = Some x" "st' = st\<lparr>st_messages := (st_messages st)
      (c \<mapsto> oset_insert msg_date x (messages_of st c))\<rparr>"
    using emplace_message_frame[OF assms] by blast
  have len: "length xs \<le> length (oset_insert msg_date x xs)"
    "length (oset_insert msg_date x xs) \<le> length xs + 1" for xs
    by (induction xs) auto
  have k: "messages_of st' k = (if k = c then oset_insert msg_date x (messages_of st c) else messages_of st k)"
    using messages_of_emplace[of c x st st' k] assms x(1) by simp
  show "length (messages_of st k) \<le> length (messages_of st' k)"
    "length (messages_of st' k) \<le> length (messages_of st k) + 1"
    using len by (simp_all add: k)
  show "texts_ok (messages_of st' k)" if "texts_ok (messages_of st k)" "\<And>x. m = Some x \<Longrightarrow> texts_ok [x]"
    using that(1) that(2)[OF x(1)] set_oset_insert_subset[of msg_date x "messages_of st c"]
    by (auto simp: k texts_ok_def)
  show "scrolls_ok st' = (unat (scroll_of st ID_SIDE) \<le> length (position_set st (current_chatlist st))
      \<and> (chosen_chat_id st \<noteq> - 1 \<longrightarrow>
          unat (scroll_of st ID_MAIN) \<le> length (messages_of st' (chosen_chat_id st))))"
    by (simp add: scrolls_ok_def x(2) scroll_of_def)
  show "position_set st' l = position_set st l" by (simp add: x(2))
qed

lemma messages_data:
  assumes "fold_r (emplace_message c) ms st = Inr st'"
    and "data_ok st" "scrolls_ok st" "\<And>m. Some m \<in> set ms \<Longrightarrow> texts_ok [m]"
    and "\<And>k. length (messages_of st k) + length ms < 2 ^ 63"
  shows "data_ok st' \<and> scrolls_ok st'"
  using assms
proof (induction ms arbitrary: st)
  case Nil
  then show ?case by simp
next
  case (Cons m ms)
  from Cons.prems(1) obtain t where t: "emplace_message c m st = Inr t" "fold_r (emplace_message c) ms t = Inr st'"
    by (auto simp: bind_r_eq_Inr)
  note e = emplace_sizes[OF t(1)]
  have len: "length (messages_of t k) + length ms < 2 ^ 63" for k
    using e(2)[of k] Cons.prems(5)[of k] by simp
  have "texts_ok (messages_of t k)" for k
    using e(3)[of k] Cons.prems(2,4) by (auto simp: data_ok_def)
  moreover have "length (messages_of t k) < 2 ^ 63" for k using len[of k] by simp
  ultimately have "data_ok t" using Cons.prems(2) e(5) by (simp add: data_ok_def)
  moreover have "scrolls_ok t"
    unfolding e(4) using Cons.prems(3) e(1)[of "chosen_chat_id st"] by (auto simp: scrolls_ok_def)
  ultimately show ?case using Cons.IH[OF t(2)] Cons.prems(4) len by simp
qed

section \<open>What a response does\<close>

lemma process_auth_shared: "process_auth w = Inr w' \<Longrightarrow> shared w' = shared w"
  by (auto simp: process_auth_def Let_def on_wait_tdlib_parameters_def on_wait_phone_number_def
      ask_and_send_def on_wait_registration_def on_ready_def on_wait_other_device_def
      case_prod_beta bind_r_eq_Inr split: option.splits authorization_state.splits if_splits)

lemma last_message_data:
  assumes "process_update_chat_last_message c m ps s = Inr s'"
    and "chat_lists_ok (app_state s)" "data_ok (app_state s)" "scrolls_ok (app_state s)"
    and "\<And>l. length (position_set (app_state s) l) + 1 < 2 ^ 63"
    and "removes_from (current_chatlist (app_state s)) ps \<Longrightarrow>
      unat (scroll_of (app_state s) ID_SIDE) < length (position_set (app_state s) (current_chatlist (app_state s)))"
  shows "data_ok (app_state s') \<and> scrolls_ok (app_state s')"
proof -
  obtain ch where ch: "id_to_chat (app_state s) c = Some ch"
    using assms(1) by (auto simp: process_update_chat_last_message_def split: option.splits)
  let ?st1 = "(app_state s)\<lparr>id_to_chat := (id_to_chat (app_state s))(c \<mapsto> ch\<lparr>chat_last_message := m\<rparr>)\<rparr>"
  have "app_state s' = fold (update_position c) ps ?st1"
    using assms(1) ch by (auto simp: process_update_chat_last_message_def Let_def split: if_splits)
  moreover have "data_ok (fold (update_position c) ps ?st1) \<and> scrolls_ok (fold (update_position c) ps ?st1)"
    by (rule positions_data) (use assms(2-6) in \<open>simp_all add: scroll_of_def\<close>)
  ultimately show ?thesis by simp
qed

lemma process_update_data:
  assumes "process_update ob w = Inr w'" "app_inv (app_state (shared w))" "st = app_state (shared w)"
    and "data_ok st" "scrolls_ok st" "announcements_ok ob w" "room_for ob st"
    and "shortens_list ob st \<longrightarrow> unat (scroll_of st ID_SIDE) < length (position_set st (current_chatlist st))"
  shows "data_ok (app_state (shared w')) \<and> scrolls_ok (app_state (shared w'))"
proof (cases ob)
  case (Update u)
  have room: "length (position_set st l) + 1 < 2 ^ 63" for l
    using assms(7) Update by simp
  have lists: "chat_lists_ok st" using assms(2,3) by (simp add: app_inv_def)
  show ?thesis
  proof (cases u)
    case (UpdateAuthorizationState a)
    with Update assms(1,3-5) show ?thesis by (auto dest: process_auth_shared)
  next
    case (UpdateNewChat ch)
    with Update assms new_chat_data[of "shared w" ch] room show ?thesis by auto
  next
    case (UpdateChatAddedToList c l)
    with Update assms added_data[of st l c] room lists show ?thesis
      by (auto simp: adds_unlisted_def process_update_chat_added_to_list_def)
  next
    case (UpdateChatPosition c p)
    with Update assms positions_data[of st "[p]" c] room lists show ?thesis
      by (auto simp: process_update_chat_position_def)
  next
    case (UpdateChatLastMessage c m ps)
    with Update assms last_message_data[of c m ps "shared w"] room lists show ?thesis
      by (auto simp: upd_shared_r_def)
  qed (use Update assms in \<open>auto simp: store_handlers\<close>)
qed (use assms in auto)

lemma history_data:
  assumes "process_get_chat_history n ms s = Inr s'" "data_ok (app_state s)" "scrolls_ok (app_state s)"
    and "room_for (Messages n ms) (app_state s)"
  shows "data_ok (app_state s') \<and> scrolls_ok (app_state s')"
  using assms messages_data[of _ ms "app_state s" "app_state s'"]
  by (auto simp: process_get_chat_history_def bind_r_eq_Inr simp del: fold_r.simps
      split: if_splits list.splits option.splits)

lemma process_response_data:
  assumes "process_response r w = Inr w'" "tg_inv w" "arrival_ok r w"
    and "data_ok (app_state (shared w))" "scrolls_ok (app_state (shared w))"
  shows "data_ok (app_state (shared w')) \<and> scrolls_ok (app_state (shared w'))"
proof (cases "resp_object r")
  case None
  with assms show ?thesis by (simp add: process_response_def)
next
  case (Some ob)
  have inv: "app_inv (app_state (shared w))" using assms(2) by (simp add: tg_inv_def)
  have h: "data_ok (app_state (shared w1)) \<and> scrolls_ok (app_state (shared w1))"
    if "run_handler h ob w = Inr w1" for h w1
    using that assms(3-5) Some history_data[of _ _ "shared w"]
    by (auto simp: run_handler_def upd_shared_r_def arrival_ok_def dest!: process_auth_shared
        split: handler.splits td_object.splits if_splits)
  show ?thesis
  proof (cases "is_update_option ob \<or> resp_request_id r \<noteq> 0")
    case True
    with Some assms(1,4,5) h show ?thesis
      by (auto simp: process_response_def split: if_splits option.splits elim!: bind_r_InrE)
  next
    case False
    with Some assms(1) have "process_update ob w = Inr w'" by (simp add: process_response_def)
    from process_update_data[OF this inv refl assms(4,5)] assms(3) Some False show ?thesis
      by (auto simp: arrival_ok_def response_ok_def Let_def)
  qed
qed

subsection \<open>The events it pushes\<close>

definition grows_events :: "world \<Rightarrow> world \<Rightarrow> bool" where
  "grows_events w w' \<longleftrightarrow> events (shared w') = events (shared w)
     \<or> (\<exists>e. event_type e \<noteq> ET_RESIZE \<and> events (shared w') = push e (events (shared w)))"

lemma resize_waits_push:
  "event_type e \<noteq> ET_RESIZE \<Longrightarrow> resize_waits (push e q) \<Longrightarrow> resize_waits q"
  by (auto simp: resize_waits_def push_def Let_def ran_def split: if_splits)

lemma grows_events_resize:
  "grows_events w w' \<Longrightarrow> \<not> resize_waits (events (shared w)) \<Longrightarrow> \<not> resize_waits (events (shared w'))"
  using resize_waits_push by (auto simp: grows_events_def)

lemma chatlist_grows: "events (shared w') = push event_chatlist (events (shared w)) \<Longrightarrow> grows_events w w'"
  unfolding grows_events_def by (intro disjI2 exI[of _ event_chatlist]) (simp add: ET_defs)

lemma same_grows: "events (shared w') = events (shared w) \<Longrightarrow> grows_events w w'"
  by (simp add: grows_events_def)

lemma process_update_events:
  assumes "process_update ob w = Inr w'"
  shows "grows_events w w'"
proof -
  have "events (shared w') = events (shared w) \<or> events (shared w') = push event_chatlist (events (shared w))"
    using assms
    by (cases "(ob, w)" rule: process_update.cases)
      (auto simp: store_handlers upd_shared_r_def process_update_chat_last_message_def Let_def
        dest!: process_auth_shared split: option.splits if_splits)
  then show ?thesis using chatlist_grows same_grows by blast
qed

lemma history_grows:
  assumes "process_get_chat_history n ms (shared w) = Inr s" "shared w' = s"
  shows "grows_events w w'"
proof -
  have "events s = events (shared w) \<or> (\<exists>c. events s = push (event_messages c) (events (shared w)))"
    using assms(1)
    by (auto simp: process_get_chat_history_def bind_r_eq_Inr split: if_splits list.splits option.splits)
  moreover have "event_type (event_messages c) \<noteq> ET_RESIZE" for c by (simp add: ET_defs)
  ultimately show ?thesis unfolding grows_events_def assms(2) by blast
qed

lemma process_response_events:
  assumes "process_response r w = Inr w'"
  shows "grows_events w w'"
proof (cases "resp_object r")
  case None
  with assms show ?thesis by (simp add: process_response_def grows_events_def)
next
  case (Some ob)
  have h: "grows_events w w1" if "run_handler h ob w = Inr w1" for h w1
    using that
    by (auto simp: run_handler_def upd_shared_r_def same_grows dest!: process_auth_shared
        intro: history_grows elim!: bind_r_InrE split: handler.splits td_object.splits if_splits)
  have d: "grows_events w (upd_tgcl g w1) = grows_events w w1" for g w1 by (simp add: grows_events_def)
  from Some assms process_update_events show ?thesis
    by (auto simp: process_response_def d same_grows dest: h split: if_splits option.splits elim!: bind_r_InrE)
qed

end
