(* ===== verification/Threads.thy ===== *)
theory Threads
  imports Thread_Inputs
begin

text \<open>
  The invariant of the two threads and its preservation by every step, the start of the user
  interface, and the steps that remain once the program has been told to stop.
\<close>

section \<open>The invariant\<close>

definition world_good :: "world \<Rightarrow> bool" where
  "world_good w \<longleftrightarrow> tg_inv w \<and> env_ok w \<and> data_ok (app_state (shared w))"

definition sys_inv :: "system \<Rightarrow> bool" where
  "sys_inv s \<longleftrightarrow> world_good (wd (mach s)) \<and> screen_inv (scr (mach s)) \<and> scrolls_ok (app (mach s))"

lemma sys_inv_ui:
  assumes "world_good (wd m)" "screen_inv (scr m)" "scrolls_ok (app m)"
  shows "ui_inv m"
  using assms
  by (auto simp: world_good_def tg_inv_def app_inv_def ui_inv_def app_def data_ok_def scrolls_ok_def
      side_drawable_def main_drawable_def sizes_ok_def)

lemma ui_inv_scrolls: "ui_inv m \<Longrightarrow> scrolls_ok (app m)"
  by (simp add: ui_inv_def scrolls_ok_def side_drawable_def main_drawable_def)

lemma sys_inv_ui_inv: "sys_inv s \<Longrightarrow> ui_inv (mach s)"
  by (simp add: sys_inv_def sys_inv_ui)

section \<open>What the user-interface thread does to the world\<close>

lemma env_ok_cong: "getenv (sys w') = getenv (sys w) \<Longrightarrow> env_ok w' = env_ok w"
  by (simp add: env_ok_def)

lemma app_inv_view [simp]:
  "app_inv (st\<lparr>chosen_chat_id := c\<rparr>) = app_inv st"
  "app_inv (set_scroll k v st) = app_inv st"
  "app_inv (set_terminating b st) = app_inv st"
  "data_ok (st\<lparr>chosen_chat_id := c\<rparr>) = data_ok st"
  "data_ok (set_scroll k v st) = data_ok st"
  "data_ok (set_terminating b st) = data_ok st"
  by (simp_all add: app_inv_def chat_lists_ok_def chats_known_def messages_ok_def data_ok_def
      position_set_def position_map_def messages_of_def set_scroll_def set_terminating_def)

lemma world_good_on_app:
  assumes "\<And>st. app_inv (f st) = app_inv st" "\<And>st. data_ok (f st) = data_ok st"
  shows "world_good (wd (on_app f m)) = world_good (wd m)"
  using assms by (simp add: world_good_def tg_inv_def handlers_inv_def auth_inv_def env_ok_def on_app_def)

lemma ids_left_on_app [simp]: "ids_left n (wd (on_app f m)) = ids_left n (wd m)"
  by (simp add: ids_left_def on_app_def)

lemma world_good_view [simp]:
  "world_good (wd (on_app (\<lambda>st. st\<lparr>chosen_chat_id := c\<rparr>) m)) = world_good (wd m)"
  "world_good (wd (on_app (set_scroll k v) m)) = world_good (wd m)"
  "world_good (wd (on_app (set_terminating b) m)) = world_good (wd m)"
  by (rule world_good_on_app; simp)+

lemma world_good_history:
  assumes "world_good w" "ids_left 1 w"
  shows "world_good (get_chat_history c w)"
proof -
  have "tg_inv (get_chat_history c w)"
    using assms unfolding get_chat_history_def world_good_def by (intro tg_inv_send_query) auto
  moreover have "env_ok (get_chat_history c w)"
    using assms(1) env_ok_cong[of "get_chat_history c w" w]
    by (simp add: get_chat_history_def world_good_def)
  ultimately show ?thesis
    using assms(1) by (simp add: world_good_def get_chat_history_def)
qed

lemma on_scr_wd: "on_scr f m = Inr m' \<Longrightarrow> wd m' = wd m"
  by (auto simp: on_scr_def)

lemma drawn_wd:
  "show_pane m = Inr m' \<Longrightarrow> wd m' = wd m"
  "draw_side_m api m = Inr m' \<Longrightarrow> wd m' = wd m"
  "draw_main_m api m = Inr m' \<Longrightarrow> wd m' = wd m"
  using on_scr_wd by (auto simp: show_pane_def draw_side_m_def draw_main_m_def)

lemma process_pane_good:
  assumes "process_pane api c m = Inr m'" "world_good (wd m)" "c = Key (CHR ''o'') \<longrightarrow> ids_left 1 (wd m)"
  shows "world_good (wd m')"
  using assms
  by (auto simp: process_pane_def key_h_def key_l_def side_j_def side_k_def main_j_def main_k_def
      key_G_def key_g_def key_o_def Let_def on_app_scroll world_good_history
      dest!: drawn_wd elim!: bind_r_InrE split: if_splits)

lemma process_common_good:
  assumes "process_common api c m = Inr m'" "world_good (wd m)"
  shows "world_good (wd m')" "ids_left 1 (wd m') = ids_left 1 (wd m)"
proof -
  have "wd m' = wd m \<or> wd m' = wd (on_app (set_terminating True) m)"
    using assms(1)
    by (auto simp: process_common_def process_mouse_def cycle_panel_def Let_def case_prod_beta on_app_def
        dest!: on_scr_wd split: key.splits option.splits if_splits)
  moreover have "ids_left 1 (wd (on_app (set_terminating True) m)) = ids_left 1 (wd m)"
    by simp
  ultimately show "world_good (wd m')" "ids_left 1 (wd m') = ids_left 1 (wd m)"
    using assms(2) by auto
qed

lemma process_input_good:
  assumes "process_input api c m = Inr m'" "world_good (wd m)" "c = Key (CHR ''o'') \<longrightarrow> ids_left 1 (wd m)"
  shows "world_good (wd m')"
proof -
  obtain m1 where m1: "process_common api c m = Inr m1" "process_pane api c m1 = Inr m'"
    using assms(1) by (auto simp: process_input_def elim!: bind_r_InrE)
  show ?thesis
    using process_pane_good[OF m1(2)] process_common_good[OF m1(1) assms(2)] assms(3) by simp
qed

text \<open>Choosing a chat leaves the scroll offset of the message window alone.\<close>

lemma key_o_scroll:
  assumes "process_pane api (Key (CHR ''o'')) m = Inr m'"
  shows "scroll_of (app m') j = scroll_of (app m) j"
proof -
  have a: "wd x = wd y \<Longrightarrow> app x = app y" for x y by (simp add: app_def)
  have s: "scroll_of (st\<lparr>chosen_chat_id := c\<rparr>) j = scroll_of st j" for st c
    by (simp add: scroll_of_def)
  show ?thesis
    using assms
    by (auto simp: process_pane_def key_o_def Let_def s dest!: drawn_wd a elim!: bind_r_InrE split: if_splits)
qed

section \<open>Every step keeps the invariant\<close>

lemma input_step:
  assumes "curses_ok api" "world_good (wd m)" "screen_inv (scr m)" "scrolls_ok (app m)" "key_ok m c"
  shows "\<exists>m'. process_input api c m = Inr m' \<and> world_good (wd m') \<and> screen_inv (scr m')
    \<and> scrolls_ok (app m')"
proof -
  note u = sys_inv_ui[OF assms(2-4)]
  obtain m' where m': "process_input api c m = Inr m'" "screen_inv (scr m')" "side_drawable (app m')"
    "\<not> may_overscroll m c \<longrightarrow> ui_inv m'"
    using process_input_ok[OF assms(1) u] assms(5) by (auto simp: key_ok_def)
  have good: "world_good (wd m')"
    using process_input_good[OF m'(1) assms(2)] assms(5) by (simp add: key_ok_def)
  have "scrolls_ok (app m')"
  proof (cases "may_overscroll m c")
    case False
    with m'(4) show ?thesis by (simp add: ui_inv_scrolls)
  next
    case True
    with assms(5) have o: "c = Key (CHR ''o'')" "scroll_of (app m) ID_MAIN = 0"
      by (auto simp: may_overscroll_def key_ok_def)
    then have "process_pane api (Key (CHR ''o'')) m = Inr m'"
      using m'(1) by (simp add: process_input_pane_key)
    from key_o_scroll[OF this] o(2) m'(3) show ?thesis
      by (simp add: scrolls_ok_def side_drawable_def)
  qed
  with m' good show ?thesis by blast
qed

lemma terminal_event_inv:
  assumes "screen_inv sc" "terminal_event sc sc'" "terminal_ok sc'"
  shows "windows_inv sc'" "cursors_nonneg sc'" "current_pan sc' \<in> set pane_ids"
    "fits sc' (side_w sc') (composer_h sc')"
proof -
  have f: "panels sc' = panels sc" "next_window sc' = next_window sc" "current_pan sc' = current_pan sc"
    "cursor_positions sc' = cursor_positions sc"
    using assms(2) unfolding terminal_event_def
    by (metis screen.select_convs screen.surjective screen.update_convs)+
  obtain n where "windows_from n sc"
    using screen_invD(1)[OF assms(1)] by (auto simp: windows_inv_def)
  then have "windows_from n sc'"
    using assms(2,3) by (simp add: windows_from_def terminal_event_def terminal_ok_def f)
  then show "windows_inv sc'" by (auto simp: windows_inv_def)
  show "cursors_nonneg sc'"
    using screen_invD(4)[OF assms(1)] by (simp add: cursors_nonneg_def cursor_of_def f)
  show "current_pan sc' \<in> set pane_ids" using screen_invD(5)[OF assms(1)] f by simp
  show "fits sc' (side_w sc') (composer_h sc')" using assms(3) by (simp add: terminal_ok_def)
qed

lemma resized_step:
  assumes "curses_ok api" "world_good (wd m)" "screen_inv (scr m)" "scrolls_ok (app m)"
    and "terminal_event (scr m) sc" "terminal_ok sc"
  shows "\<exists>m'. process_input api KEY_RESIZE (m\<lparr>scr := sc\<rparr>) = Inr m' \<and> world_good (wd m')
    \<and> screen_inv (scr m') \<and> scrolls_ok (app m')"
proof -
  note u = ui_invD(2,3)[OF sys_inv_ui[OF assms(2-4)]]
  from resize_changed_terminal[OF assms(1) terminal_event_inv[OF assms(3,5,6)] u]
  obtain s where s: "resize_and_refresh api (app m) (side_w sc) (composer_h sc) sc = Inr s" "screen_inv s"
    by blast
  have "process_input api KEY_RESIZE (m\<lparr>scr := sc\<rparr>) = Inr (m\<lparr>scr := s\<rparr>)"
    using s(1) by (simp add: process_input_def process_common_def on_scr_def process_pane_other pane_keys_def)
  with s(2) assms(2,4) show ?thesis by simp
qed

lemma pop_step:
  assumes "world_good (wd m)"
  shows "\<exists>e m'. pop_event m = Inr (e, m') \<and> world_good (wd m') \<and> scr m' = scr m \<and> app m' = app m
    \<and> cont m' = cont m"
proof -
  have "eq_inv (events (shared (wd m)))" using assms by (simp add: world_good_def tg_inv_def)
  from eq.get_total[OF this] obtain e q where q: "pop_and_get (events (shared (wd m))) = Inr (e, q)"
    "eq_inv q" by blast
  with assms show ?thesis
    by (auto simp: pop_event_def world_good_def tg_inv_def handlers_inv_def auth_inv_def env_ok_def app_def)
qed

lemma event_step:
  assumes "curses_ok api" "world_good (wd m)" "screen_inv (scr m)" "scrolls_ok (app m)"
    and "\<And>w h. ev \<noteq> event_resize w h"
  shows "\<exists>m'. handle_event api ev m = Inr m' \<and> world_good (wd m') \<and> screen_inv (scr m')
    \<and> scrolls_ok (app m')"
proof -
  note u = sys_inv_ui[OF assms(2-4)] and i = screen_invD[OF assms(3)]
  have d0: "draws (scr m) (curs_set 0 (scr m))" by simp
  have step: "\<exists>m'. handle_event api ev m = Inr m' \<and> world_good (wd m') \<and> screen_inv (scr m')
    \<and> scrolls_ok (app m')" if "shows_as (handle_event api ev m) m"
    using that assms(2-4) by (auto simp: shows_as_def draws_screen_inv)
  show ?thesis
  proof (cases ev)
    case event_quit
    have "scrolls_ok (set_terminating True st) = scrolls_ok st" for st
      by (simp add: scrolls_ok_def set_terminating_def scroll_of_def position_set_def messages_of_def)
    with event_quit assms show ?thesis
      using world_good_view(3)[of True "m\<lparr>cont := False\<rparr>"] by (simp add: handle_event_def)
  next
    case event_cycle_panel
    obtain p where p: "ui_inv (m\<lparr>scr := (scr m)\<lparr>current_pan := p\<rparr>\<rparr>)"
      "shows_as (cycle_panel m) (m\<lparr>scr := (scr m)\<lparr>current_pan := p\<rparr>\<rparr>)"
      using cycle_panel_shows[OF u] by blast
    with event_cycle_panel assms(2,4) show ?thesis
      by (auto simp: handle_event_def shows_as_def draws_screen_inv ui_inv_def)
  next
    case (event_resize w h)
    with assms(5) show ?thesis by blast
  next
    case event_chatlist
    obtain s1 where s1: "draw_side api (app m) (curs_set 0 (scr m)) = Inr s1" "draws (curs_set 0 (scr m)) s1"
      using draw_side_ok[OF assms(1) _ ui_invD(2)[OF u], of "curs_set 0 (scr m)"] i(1)
      by (auto simp: draws_inv[OF d0])
    have d1: "draws (scr m) s1" using d0 s1(2) by (rule draws_trans)
    obtain s2 where s2: "update_panels s1 = Inr s2" "draws s1 s2"
      using update_panels_ok[of s1] i(1) draws_inv(1)[OF d1] by auto
    have d2: "draws (scr m) s2" using d1 s2(2) by (rule draws_trans)
    obtain s3 where s3: "draw_cursor s2 = Inr s3" "draws s2 s3"
      using draw_cursor_ok[of s2] i(1,5) draws_inv(1)[OF d2] draws_frame(8)[OF d2] by auto
    have "draws (scr m) (curs_set 1 (doupdate s3))"
      using d2 s3(2) doupdate_draws curs_set_draws by (blast intro: draws_trans)
    with s1 s2 s3 show ?thesis
      unfolding handle_event_def event_chatlist event.case
      by (intro step[unfolded handle_event_def event_chatlist event.case] on_scr_shows) simp
  next
    case (event_messages c)
    obtain s1 where s1: "draw_main api (app m) (scr m) = Inr s1" "draws (scr m) s1"
      using draw_main_ok[OF assms(1) i(1) ui_invD(3)[OF u]] by blast
    obtain s2 where s2: "draw_cursor s1 = Inr s2" "draws s1 s2"
      using draw_cursor_ok[of s1] i(1,5) draws_inv(1)[OF s1(2)] draws_frame(8)[OF s1(2)] by auto
    have "draws (scr m) (doupdate s2)"
      using s1(2) s2(2) doupdate_draws by (blast intro: draws_trans)
    with s1 s2 show ?thesis
      unfolding handle_event_def event_messages event.case
      by (intro step[unfolded handle_event_def event_messages event.case] on_scr_shows) simp
  qed
qed

lemma response_step:
  assumes "world_good w" "scrolls_ok (app_state (shared w))" "arrival_ok r w" "response_fault r w = None"
  shows "\<exists>w'. process_response r w = Inr w' \<and> world_good w' \<and> scrolls_ok (app_state (shared w'))"
proof (cases "resp_object r")
  case None
  with assms show ?thesis by (simp add: process_response_def)
next
  case (Some ob)
  have inv: "tg_inv w" and ids: "ids_left 1 w" and ok: "response_ok r w"
    using assms Some by (simp_all add: world_good_def arrival_ok_def Let_def)
  obtain w' where w': "process_response r w = Inr w'" "getenv (sys w') = getenv (sys w)" "tg_inv w'"
    using process_response_step[OF inv ids assms(4)] ok by (auto simp: step_ok_def)
  have "data_ok (app_state (shared w'))" "scrolls_ok (app_state (shared w'))"
    using process_response_data[OF w'(1) inv assms(3) _ assms(2)] assms(1) by (simp_all add: world_good_def)
  with w' assms(1) env_ok_cong[OF w'(2)] show ?thesis by (simp add: world_good_def)
qed

text \<open>A response faults exactly when \<open>response_fault\<close> says so.\<close>

lemma response_fault_iff:
  assumes "world_good w" "scrolls_ok (app_state (shared w))" "arrival_ok r w"
  shows "process_response r w = Inl e \<longleftrightarrow> response_fault r w = Some e"
  using response_step[OF assms] process_response_faults[of w r] assms(1)
  by (cases "response_fault r w") (auto simp: world_good_def)

lemma step_keeps_inv:
  assumes "step api s a s'" "input_ok s a" "curses_ok api" "sys_inv s" "no_resize s"
  shows "sys_inv s'"
  using assms(1)
proof (cases rule: step.cases)
  case (ui_input c m)
  with input_step[OF assms(3), of "mach s" c] assms(2,4) show ?thesis
    by (auto simp: sys_inv_def input_ok_def)
next
  case (ui_resized sc m)
  with resized_step[OF assms(3), of "mach s" sc] assms(2,4) show ?thesis
    by (auto simp: sys_inv_def input_ok_def)
next
  case (ui_nothing m)
  with pop_step[of "mach s"] assms(4) show ?thesis by (auto simp: sys_inv_def)
next
  case (ui_popped ev m)
  with pop_step[of "mach s"] assms(4) show ?thesis by (auto simp: sys_inv_def)
next
  case (ui_event ev m)
  with event_step[OF assms(3), of "mach s" ev] assms(4,5) show ?thesis
    by (auto simp: sys_inv_def no_resize_def)
next
  case (tg_response r w)
  then have "response_fault r (wd (mach s)) = None"
    using process_response_faults[of "wd (mach s)" r] assms(4)
    by (cases "response_fault r (wd (mach s))") (auto simp: sys_inv_def world_good_def)
  with tg_response response_step[of "wd (mach s)" r] assms(2,4) show ?thesis
    by (auto simp: sys_inv_def input_ok_def app_def)
qed (use assms(4) in \<open>simp_all add: sys_inv_def\<close>)

subsection \<open>The faults that remain\<close>

lemma fault_cases:
  assumes "curses_ok api" "sys_inv s" "no_resize s" "input_ok s a"
  shows "faults api s a e \<longleftrightarrow>
    (\<exists>r. a = Received r \<and> tg s = At_receive \<and> response_fault r (wd (mach s)) = Some e)
    \<or> (\<exists>c r. a = Overlapped c r \<and> e = Data_race \<and> ui s = At_input \<and> tg s = At_receive
         \<and> races api c r (mach s))"
proof
  assume "faults api s a e"
  then show "(\<exists>r. a = Received r \<and> tg s = At_receive \<and> response_fault r (wd (mach s)) = Some e)
    \<or> (\<exists>c r. a = Overlapped c r \<and> e = Data_race \<and> ui s = At_input \<and> tg s = At_receive
         \<and> races api c r (mach s))"
  proof (cases rule: faults.cases)
    case (input_fault c)
    with input_step[OF assms(1), of "mach s" c] assms(2,4) show ?thesis
      by (auto simp: sys_inv_def input_ok_def)
  next
    case (resized_fault sc)
    with resized_step[OF assms(1), of "mach s" sc] assms(2,4) show ?thesis
      by (auto simp: sys_inv_def input_ok_def)
  next
    case pop_fault
    with pop_step[of "mach s"] assms(2) show ?thesis by (auto simp: sys_inv_def)
  next
    case (event_fault ev)
    with event_step[OF assms(1), of "mach s" ev] assms(2,3) show ?thesis
      by (auto simp: sys_inv_def no_resize_def)
  next
    case (received_fault r)
    with response_fault_iff[of "wd (mach s)" r e] assms(2,4) show ?thesis
      by (auto simp: sys_inv_def input_ok_def app_def)
  next
    case (race_fault c r)
    then show ?thesis by blast
  qed
next
  assume "(\<exists>r. a = Received r \<and> tg s = At_receive \<and> response_fault r (wd (mach s)) = Some e)
    \<or> (\<exists>c r. a = Overlapped c r \<and> e = Data_race \<and> ui s = At_input \<and> tg s = At_receive
         \<and> races api c r (mach s))"
  then show "faults api s a e"
    using process_response_faults[of "wd (mach s)"] assms(2)
    by (auto simp: sys_inv_def world_good_def faults_received faults_overlapped)
qed

section \<open>No request to resize\<close>

lemma process_pane_events:
  assumes "process_pane api c m = Inr m'"
  shows "events (shared (wd m')) = events (shared (wd m))"
  using assms
  by (auto simp: process_pane_def key_h_def key_l_def side_j_def side_k_def main_j_def main_k_def
      key_G_def key_g_def key_o_def Let_def on_app_def get_chat_history_def set_cursor_def
      on_input_def dest!: drawn_wd elim!: bind_r_InrE split: if_splits)

lemma process_common_events:
  assumes "process_common api c m = Inr m'"
  shows "events (shared (wd m')) = events (shared (wd m))"
  using assms
  by (auto simp: process_common_def process_mouse_def cycle_panel_def Let_def case_prod_beta on_app_def
      on_input_def dest!: on_scr_wd split: key.splits option.splits if_splits)

lemma process_input_events:
  "process_input api c m = Inr m' \<Longrightarrow> events (shared (wd m')) = events (shared (wd m))"
  by (auto simp: process_input_def process_common_events process_pane_events elim!: bind_r_InrE)

lemma handle_event_events:
  assumes "handle_event api ev m = Inr m'"
  shows "events (shared (wd m')) = events (shared (wd m))"
  using assms
  by (auto simp: handle_event_def cycle_panel_def Let_def on_app_def dest!: on_scr_wd split: event.splits)

lemma pop_and_get_ran:
  assumes "pop_and_get q = Inr (e, q')"
  shows "ran (event_map q') \<subseteq> ran (event_map q) \<and> (\<forall>ev. e = Some ev \<longrightarrow> ev \<in> ran (event_map q))"
  using assms by (auto simp: pop_and_get_def ran_def split: list.splits option.splits if_splits)

lemma pop_event_resize:
  assumes "pop_event m = Inr (e, m')" "\<not> resize_waits (events (shared (wd m)))"
  shows "\<not> resize_waits (events (shared (wd m')))" "e \<noteq> Some (event_resize x y)"
proof -
  let ?q = "events (shared (wd m))"
  obtain q where q: "pop_and_get ?q = Inr (e, q)" "events (shared (wd m')) = q"
    using assms(1) by (auto simp: pop_event_def elim!: bind_r_InrE)
  have "ran (event_map q) \<subseteq> ran (event_map ?q)" "\<And>ev. e = Some ev \<Longrightarrow> ev \<in> ran (event_map ?q)"
    using pop_and_get_ran[OF q(1)] by blast+
  with assms(2) q(2) show "\<not> resize_waits (events (shared (wd m')))" "e \<noteq> Some (event_resize x y)"
    unfolding resize_waits_def by blast+
qed

lemma no_resize_step:
  assumes "step api s a s'" "no_resize s"
  shows "no_resize s'"
  using assms(1)
proof (cases rule: step.cases)
  case (ui_input c m)
  with assms(2) process_input_events show ?thesis by (auto simp: no_resize_def)
next
  case (ui_resized sc m)
  with assms(2) process_input_events[OF ui_resized(5)] show ?thesis by (auto simp: no_resize_def)
next
  case (ui_nothing m)
  with assms(2) pop_event_resize[OF ui_nothing(4)] show ?thesis
    by (auto simp: no_resize_def next_turn_def)
next
  case (ui_popped ev m)
  with assms(2) pop_event_resize[OF ui_popped(4)] show ?thesis by (auto simp: no_resize_def)
next
  case (ui_event ev m)
  with assms(2) handle_event_events[OF ui_event(4)] show ?thesis
    by (auto simp: no_resize_def next_turn_def)
next
  case (tg_response r w)
  with assms(2) grows_events_resize[OF process_response_events[OF tg_response(4)]] show ?thesis
    by (auto simp: no_resize_def)
qed (use assms(2) in \<open>auto simp: no_resize_def\<close>)

lemma run_invariant:
  assumes "(good_step api)\<^sup>*\<^sup>* s s'" "curses_ok api" "sys_inv s" "no_resize s"
  shows "sys_inv s' \<and> no_resize s'"
  using assms(1)
proof (induction rule: rtranclp_induct)
  case base
  with assms(3,4) show ?case by simp
next
  case (step t u)
  then obtain a where "input_ok t a" "step api t a u" by (auto simp: good_step_def)
  with step(3) step_keeps_inv[OF _ _ assms(2)] no_resize_step show ?case by blast
qed

section \<open>The flag stays set\<close>

lemma history_terminating:
  assumes "process_get_chat_history n ms s = Inr s'"
  shows "st_terminating (app_state s') = st_terminating (app_state s)"
proof -
  have f: "st_terminating st' = st_terminating st" if "fold_r (emplace_message c) xs st = Inr st'"
    for c xs st st'
    using that
    by (rule fold_r_invariant[where P = "\<lambda>t. st_terminating t = st_terminating st", rotated 2])
      (auto dest!: emplace_message_frame)
  show ?thesis
    using assms
    by (auto simp: process_get_chat_history_def bind_r_eq_Inr simp del: fold_r.simps dest: f
        split: if_splits list.splits option.splits)
qed

lemma process_update_terminating:
  assumes "process_update ob w = Inr w'"
  shows "st_terminating (app_state (shared w')) = st_terminating (app_state (shared w))"
  using assms
  by (cases "(ob, w)" rule: process_update.cases)
    (auto simp: store_handlers process_update_new_chat_def process_update_chat_added_to_list_def
      process_update_chat_position_def process_update_chat_last_message_def Let_def upd_shared_r_def
      dest!: process_auth_shared split: option.splits if_splits)

lemma process_response_terminating:
  assumes "process_response r w = Inr w'"
  shows "st_terminating (app_state (shared w')) = st_terminating (app_state (shared w))"
proof (cases "resp_object r")
  case None
  with assms show ?thesis by (simp add: process_response_def)
next
  case (Some ob)
  have h: "st_terminating (app_state (shared w1)) = st_terminating (app_state (shared w))"
    if "run_handler h ob w = Inr w1" for h w1
    using that
    by (auto simp: run_handler_def upd_shared_r_def dest!: process_auth_shared history_terminating
        split: handler.splits td_object.splits if_splits)
  from Some assms show ?thesis
    by (auto simp: process_response_def dest!: process_update_terminating h
        split: if_splits option.splits elim!: bind_r_InrE)
qed

lemma process_pane_terminating:
  assumes "process_pane api c m = Inr m'"
  shows "terminating (app m') = terminating (app m)"
proof -
  have a: "wd x = wd y \<Longrightarrow> app x = app y" for x y by (simp add: app_def)
  have t: "terminating (st\<lparr>chosen_chat_id := k\<rparr>) = terminating st"
    "terminating (set_scroll j v st) = terminating st" for st k j v
    by (simp_all add: terminating_def set_scroll_def)
  show ?thesis
    using assms
    by (auto simp: process_pane_def key_h_def key_l_def side_j_def side_k_def main_j_def main_k_def
        key_G_def key_g_def key_o_def Let_def on_app_scroll t
        dest!: drawn_wd a elim!: bind_r_InrE split: if_splits)
qed

lemma process_common_terminating:
  assumes "process_common api c m = Inr m'" "terminating (app m)"
  shows "terminating (app m')"
proof -
  have "wd m' = wd m \<or> wd m' = wd (on_app (set_terminating True) m)"
    using assms(1)
    by (auto simp: process_common_def process_mouse_def cycle_panel_def Let_def case_prod_beta on_app_def
        dest!: on_scr_wd split: key.splits option.splits if_splits)
  then have "app m' = app m \<or> app m' = set_terminating True (app m)"
    using app_simps(1)[of "set_terminating True" m] by (auto simp: app_def)
  with assms(2) show ?thesis by (auto simp: terminating_def set_terminating_def)
qed

lemma process_input_terminating:
  "process_input api c m = Inr m' \<Longrightarrow> terminating (app m) \<Longrightarrow> terminating (app m')"
  using process_common_terminating process_pane_terminating
  by (fastforce simp: process_input_def)

lemma pop_event_app: "pop_event m = Inr (e, m') \<Longrightarrow> app m' = app m \<and> cont m' = cont m"
  by (auto simp: pop_event_def app_def)

lemma handle_event_terminating:
  assumes "handle_event api ev m = Inr m'" "terminating (app m)" "\<not> cont m"
  shows "terminating (app m') \<and> \<not> cont m'"
  using assms
  by (auto simp: handle_event_def cycle_panel_def Let_def on_scr_def set_terminating_def terminating_def
      split: event.splits)

section \<open>Stopping\<close>

text \<open>The states after Ctrl-q or a quit event, and how many steps each thread has left.\<close>

definition stopping :: "system \<Rightarrow> bool" where
  "stopping s \<longleftrightarrow> \<not> cont (mach s) \<and> terminating (app (mach s)) \<and> ui s \<noteq> At_input"

fun ui_left :: "ui_place \<Rightarrow> nat" where
  "ui_left Ui_stopped = 0" | "ui_left (At_event ev) = 1" | "ui_left At_pop = 2" | "ui_left At_input = 3"

fun tg_left :: "tg_place \<Rightarrow> nat" where
  "tg_left Tg_stopped = 0" | "tg_left At_check = 1" | "tg_left At_receive = 2"

definition steps_left :: "system \<Rightarrow> nat" where
  "steps_left s = ui_left (ui s) + tg_left (tg s)"

lemma steps_left_0: "steps_left s = 0 \<longleftrightarrow> ui s = Ui_stopped \<and> tg s = Tg_stopped"
  by (cases "ui s"; cases "tg s") (simp_all add: steps_left_def)

lemma stopping_max: "stopping s \<Longrightarrow> steps_left s \<le> 4"
  by (cases "ui s"; cases "tg s") (simp_all add: steps_left_def stopping_def)

lemma stopping_step:
  assumes "step api s a s'" "stopping s"
  shows "stopping s' \<and> steps_left s' < steps_left s"
  using assms(1)
proof (cases rule: step.cases)
  case (ui_nothing m)
  with assms(2) pop_event_app[OF ui_nothing(4)] show ?thesis
    by (simp add: stopping_def steps_left_def next_turn_def)
next
  case (ui_popped ev m)
  with assms(2) pop_event_app[OF ui_popped(4)] show ?thesis
    by (simp add: stopping_def steps_left_def)
next
  case (ui_event ev m)
  with assms(2) handle_event_terminating[OF ui_event(4)] show ?thesis
    by (simp add: stopping_def steps_left_def next_turn_def)
next
  case (tg_response r w)
  with assms(2) process_response_terminating[OF tg_response(4)] show ?thesis
    by (simp add: stopping_def steps_left_def terminating_def app_def)
qed (use assms(2) in \<open>simp_all add: stopping_def steps_left_def\<close>)

lemma stopping_run:
  assumes "stopping s" "(good_step api ^^ n) s s'"
  shows "stopping s' \<and> n + steps_left s' \<le> steps_left s"
  using assms(2)
proof (induction n arbitrary: s')
  case 0
  with assms(1) show ?case by simp
next
  case (Suc n)
  then obtain t where t1: "(good_step api ^^ n) s t" "good_step api t s'" by auto
  then obtain a where t: "(good_step api ^^ n) s t" "step api t a s'" unfolding good_step_def by blast
  with Suc.IH[OF t(1)] stopping_step[OF t(2)] show ?case by auto
qed

text \<open>Until both threads have stopped one of them has a step: \<^verbatim>\<open>receive\<close> returns after its time-out.\<close>

lemma stopping_progress:
  assumes "curses_ok api" "sys_inv s" "no_resize s" "stopping s" "steps_left s \<noteq> 0"
  shows "\<exists>s'. good_step api s s'"
proof -
  note inv = assms(2)[unfolded sys_inv_def]
  have "\<exists>a s'. input_ok s a \<and> step api s a s'"
  proof (cases "tg s")
    case At_check
    with assms(4) have "step api s Tested (s\<lparr>tg := Tg_stopped\<rparr>)"
      by (auto simp: stopping_def intro: step.tg_return)
    moreover have "input_ok s Tested" by (simp add: input_ok_def)
    ultimately show ?thesis by blast
  next
    case At_receive
    let ?r = "\<lparr>resp_request_id = 0, resp_object = None\<rparr>"
    have "process_response ?r (wd (mach s)) = Inr (wd (mach s))" by (simp add: process_response_def)
    from step.tg_response[OF At_receive this] show ?thesis
      by (intro exI[of _ "Received ?r"]) (auto simp: input_ok_def arrival_ok_def response_ok_def)
  next
    case Tg_stopped
    have ok: "input_ok s Popped" "input_ok s Handled" by (simp_all add: input_ok_def)
    show ?thesis
    proof (cases "ui s")
      case At_pop
      obtain e m where "pop_event (mach s) = Inr (e, m)" using pop_step inv by blast
      with At_pop ok show ?thesis by (cases e) (blast intro: step.ui_nothing step.ui_popped)+
    next
      case (At_event ev)
      with assms(3) have "ev \<noteq> event_resize x y" for x y by (simp add: no_resize_def)
      with event_step[OF assms(1), of "mach s" ev] inv At_event ok show ?thesis
        by (blast intro: step.ui_event)
    qed (use Tg_stopped assms(4,5) in \<open>simp_all add: steps_left_def stopping_def\<close>)
  qed
  then show ?thesis by (auto simp: good_step_def)
qed

lemma stopped_no_step:
  assumes "ui s = Ui_stopped" "tg s = Tg_stopped"
  shows "\<not> good_step api s s'"
  using assms by (auto simp: good_step_def elim: step_cases)

text \<open>Reading Ctrl-q, or handling a quit event, leads to such a state.\<close>

lemma ctrl_q_input:
  "process_input api CTRL_q m = Inr (on_app (set_terminating True) (m\<lparr>cont := False\<rparr>))"
  by (simp add: process_input_def process_common_def CTRL_q_def process_pane_other pane_keys_def)

lemma quit_step_stops:
  assumes "step api s a s1" "a = Key_read CTRL_q \<or> (a = Handled \<and> ui s = At_event event_quit)"
  shows "stopping s1" "input_ok s a"
proof -
  show "stopping s1"
    using assms(1)
    by (cases rule: step.cases) (use assms(2) in \<open>auto simp: ctrl_q_input handle_event_def stopping_def
        terminating_def set_terminating_def next_turn_def\<close>)
  show "input_ok s a" using assms(2) by (auto simp: input_ok_def key_ok_def key_sizes_ok_def CTRL_q_def)
qed

section \<open>The start\<close>

lemma world_good_init_data:
  assumes "world_good w" "ids_left 1 w"
  shows "world_good (init_data n w)"
proof -
  have "tg_inv (init_data n w)"
    using assms unfolding init_data_def world_good_def by (intro tg_inv_send_query) auto
  with assms(1) env_ok_cong[of "init_data n w" w] show ?thesis
    by (simp add: world_good_def init_data_def)
qed

end
