(* ===== verification/Qr_Props.thy ===== *)
theory Qr_Props
  imports Qr_Link
begin

text \<open>
  The properties of the QR code generator: what the login dialogue prints can be scanned. The
  reader side (\<open>read_text\<close>, \<open>read_data\<close>, \<open>deinterleave\<close>) is written from the format.
\<close>

section \<open>Text\<close>

text \<open>
  C15: \<^verbatim>\<open>encodeText\<close> and the reader are inverse. For every text of at most \<^verbatim>\<open>INT_MAX\<close> characters and
  every level, either no version can hold the segments and the call throws \<^verbatim>\<open>data_too_long\<close>, or it
  returns a symbol of the least version that can, at the requested level or a higher one, and
  reading that symbol gives the text (up to its first NUL). No other exception, assertion or index
  out of range is possible.
\<close>

theorem encode_text_roundtrip:
  assumes "int (length (c_str cs)) \<le> INT_MAX"
  shows "\<exists>segs. makeSegments (c_str cs) = Inr segs \<and>
    (case find (fits_version segs ecl) [1..40] of
       None \<Rightarrow> encodeText cs ecl = Inl (Data_too_long (getTotalBits segs 40) (int (data_codewords 40 ecl) * 8))
     | Some v \<Rightarrow> (\<exists>q. encodeText cs ecl = Inr q \<and> qr_version q = v \<and>
         ecc_index ecl \<le> ecc_index (errorCorrectionLevel q) \<and> read_text q = Some (c_str cs)))"
proof -
  obtain segs where "makeSegments (c_str cs) = Inr segs" using makeSegments_ok[OF assms] by metis
  with encodeText_ok[OF assms this, of ecl] show ?thesis
    by (intro exI[of _ segs]) (auto split: option.splits)
qed

theorem encode_text_roundtrip_witness:
  "\<exists>q. encodeText ''tg://login?token=Z'' QUARTILE = Inr q \<and> read_text q = Some ''tg://login?token=Z''"
proof -
  have s: "c_str ''tg://login?token=Z'' = ''tg://login?token=Z''" by code_simp
  obtain segs where segs: "makeSegments ''tg://login?token=Z'' = Inr segs"
    and c: "case find (fits_version segs QUARTILE) [1..40] of
       None \<Rightarrow> encodeText ''tg://login?token=Z'' QUARTILE =
         Inl (Data_too_long (getTotalBits segs 40) (int (data_codewords 40 QUARTILE) * 8))
     | Some v \<Rightarrow> (\<exists>q. encodeText ''tg://login?token=Z'' QUARTILE = Inr q \<and> qr_version q = v \<and>
         ecc_index QUARTILE \<le> ecc_index (errorCorrectionLevel q) \<and> read_text q = Some ''tg://login?token=Z'')"
    using encode_text_roundtrip[of "''tg://login?token=Z''" QUARTILE] unfolding s by auto
  have "case makeSegments ''tg://login?token=Z'' of Inl e \<Rightarrow> False | Inr segs \<Rightarrow> fits_version segs QUARTILE 2"
    by code_simp
  with segs have "fits_version segs QUARTILE 2" by simp
  moreover have "2 \<in> set [1..40 :: int]" by simp
  ultimately have "find (fits_version segs QUARTILE) [1..40] \<noteq> None" by (metis find_None_iff)
  with c show ?thesis by (auto split: option.splits)
qed

section \<open>The constructor\<close>

text \<open>
  C16: the constructor \<^verbatim>\<open>QrCode\<close> returns for every version, level and mask number (or -1 for the
  automatic choice) on data of the length of the tables: no index leaves the grids, no assertion
  fails, the penalty stays within the asserted bound, and undoing the mask, scanning the modules and
  undoing the interleaving of the finished symbol gives the data.
\<close>

theorem qr_constructor_total:
  assumes "1 \<le> v" "v \<le> 40" "int (length data) = raw_modules v div 8 - ecc_codewords ecl v * ecc_blocks ecl v"
    and "-1 \<le> msk" "msk \<le> 7"
  shows "\<exists>q. QrCode v ecl data msk = Inr q \<and> qr_version q = v \<and> qr_size q = v * 4 + 17 \<and>
    errorCorrectionLevel q = ecl \<and> 0 \<le> qr_mask q \<and> qr_mask q \<le> 7 \<and> (msk \<noteq> -1 \<longrightarrow> qr_mask q = msk) \<and>
    square (nat (qr_size q)) (modules q) \<and> read_data q = data"
proof -
  have "length data = data_codewords v ecl"
    using assms(3) block_sizes(5)[OF assms(1,2), of ecl] by simp
  from QrCode_ok[OF assms(1,2) this assms(4,5)] show ?thesis by metis
qed

theorem qr_constructor_total_witness:
  "\<exists>q. QrCode 1 QUARTILE (replicate 13 7) (-1) = Inr q \<and> read_data q = replicate 13 7"
proof -
  have "raw_modules 1 div 8 - ecc_codewords QUARTILE 1 * ecc_blocks QUARTILE 1 = 13" by code_simp
  then show ?thesis
    using qr_constructor_total[of 1 "replicate 13 7" QUARTILE "-1"] by auto
qed

text \<open>
  C19: the automatic choice of the mask. On a symbol whose format modules are reserved, the loop of
  the constructor ends with the mask of least penalty, the first one among equals, and leaves every
  module but the format bits as it found it.
\<close>

theorem least_penalty_mask:
  assumes "wf_qr q" "format_cells (qr_size q) \<subseteq> marks q"
  shows "\<exists>m q'. chooseMask q = Inr (m, q') \<and> 0 \<le> m \<and> m \<le> 7 \<and>
    (\<forall>i. 0 \<le> i \<and> i \<le> 7 \<longrightarrow> penalty_of m q \<le> penalty_of i q) \<and>
    (\<forall>i. 0 \<le> i \<and> i < m \<longrightarrow> penalty_of m q < penalty_of i q) \<and>
    (\<forall>p \<in> cells (qr_size q) - format_cells (qr_size q). mod_at q' p = mod_at q p)"
proof -
  obtain m q' where "chooseMask q = Inr (m, q')" "0 \<le> m" "m \<le> 7" "agree (format_cells (qr_size q)) q q'"
    "\<And>i. 0 \<le> i \<Longrightarrow> i \<le> 7 \<Longrightarrow> penalty_of m q \<le> penalty_of i q"
    "\<And>i. 0 \<le> i \<Longrightarrow> i < m \<Longrightarrow> penalty_of m q < penalty_of i q"
    using chooseMask_ok[OF assms] by blast
  then show ?thesis by (intro exI[of _ m] exI[of _ q']) (auto simp: agree_def)
qed

definition all_reserved :: qr_code where
  "all_reserved = \<lparr>qr_version = 1, qr_size = 21, errorCorrectionLevel = LOW, qr_mask = 0,
     modules = replicate 21 (replicate 21 False), isFunction = replicate 21 (replicate 21 True)\<rparr>"

lemma all_reserved: "wf_qr all_reserved" "format_cells (qr_size all_reserved) \<subseteq> marks all_reserved"
proof -
  show "wf_qr all_reserved"
    by (simp add: wf_qr_def all_reserved_def square_def)
  show "format_cells (qr_size all_reserved) \<subseteq> marks all_reserved"
    by (auto simp: marks_def all_reserved_def fun_at_def format_cells_def cells_def nth_replicate)
qed

theorem least_penalty_mask_witness: "\<exists>m q'. chooseMask all_reserved = Inr (m, q') \<and> 0 \<le> m"
  using least_penalty_mask[OF all_reserved] by blast

text \<open>
  a mask is undone by applying it again, as the loop over the masks relies on, and it leaves the
  function modules alone.
\<close>

theorem mask_twice:
  assumes "wf_qr q" "0 \<le> msk" "msk \<le> 7"
  shows "\<exists>q'. applyMask msk q = Inr q' \<and> applyMask msk q' = Inr q \<and> isFunction q' = isFunction q \<and>
    (\<forall>p \<in> marks q. mod_at q' p = mod_at q p)"
proof -
  obtain q' where q': "applyMask msk q = Inr q'" "same_frame q q'"
    "\<forall>p \<in> cells (qr_size q). mod_at q' p = (mod_at q p \<noteq> (inverted msk p \<and> \<not> fun_at q p))"
    using applyMask_ok[OF assms] by blast
  with applyMask_involution[OF assms q'(1)] show ?thesis
    by (intro exI[of _ q']) (auto simp: same_frame_def marks_def)
qed

theorem mask_twice_witness: "\<exists>q'. applyMask 5 all_reserved = Inr q' \<and> applyMask 5 q' = Inr all_reserved"
  using mask_twice[OF all_reserved(1), of 5] by auto

section \<open>Error correction\<close>

lemma gf_mul_power2: "i < 8 \<Longrightarrow> gf_mul x (2 ^ i) = (xtime ^^ i) x"
proof (induction i)
  case 0
  then show ?case using gf_mul_commute[of x 1] by simp
next
  case (Suc i)
  have "list_all (\<lambda>i. (2 :: 8 word) ^ Suc i = xtime (2 ^ i)) [0..<7]"
    by (simp add: upt_rec xtime_def)
  with Suc.prems have "(2 :: 8 word) ^ Suc i = xtime (2 ^ i)"
    by (simp only: list_all_iff atLeast_upt[symmetric] lessThan_iff)
  with Suc show ?case by (simp only: gf_mul_xtime funpow.simps o_apply)
qed

text \<open>
  C18: \<^verbatim>\<open>reedSolomonMultiply\<close> is multiplication in the field of 256 elements: the sum over the bits of
  \<open>y\<close> of \<open>x\<close> shifted and reduced by \<open>0x11D\<close> that often, and with it commutative, associative,
  distributive over exclusive or and with unit one.
\<close>

theorem field_multiplication:
  "reedSolomonMultiply x y = foldr (\<lambda>i z. (if bit y i then (xtime ^^ i) x else 0) XOR z) [0..<8] 0 \<and>
   reedSolomonMultiply x y = reedSolomonMultiply y x \<and>
   reedSolomonMultiply (reedSolomonMultiply x y) z = reedSolomonMultiply x (reedSolomonMultiply y z) \<and>
   reedSolomonMultiply x (y XOR z) = reedSolomonMultiply x y XOR reedSolomonMultiply x z \<and>
   reedSolomonMultiply 1 x = x"
proof -
  have "gf_mul x y = gf_mul x (foldr (\<lambda>i z. byte_bit y i XOR z) [0..<8] 0)"
    by (rule arg_cong[OF byte_as_bits])
  also have "\<dots> = foldr (\<lambda>i z. gf_mul x (byte_bit y i) XOR z) [0..<8] 0"
    by (rule xor_linear_foldr) (rule xor_linear_intros)
  also have "\<dots> = foldr (\<lambda>i z. (if bit y i then (xtime ^^ i) x else 0) XOR z) [0..<8] 0"
    by (intro foldr_cong) (simp_all add: byte_bit_def gf_mul_power2)
  finally have "gf_mul x y = foldr (\<lambda>i z. (if bit y i then (xtime ^^ i) x else 0) XOR z) [0..<8] 0" .
  then show ?thesis
    unfolding reedSolomonMultiply_eq
    by (intro conjI gf_mul_commute gf_mul_assoc gf_mul_xor_right gf_mul_1)
qed

text \<open>
  C17: the codewords of a symbol are interleaved Reed-Solomon codewords. The data are cut into the
  blocks of the tables, each block followed by its remainder, read as a polynomial, vanishes at as
  many powers of \<open>2\<close> as it has correction codewords, all of them are in the result, column by
  column, and undoing the interleaving gives the data.
\<close>

theorem blocks_are_codewords:
  assumes "1 \<le> qr_version q" "qr_version q \<le> 40"
    and "length data = data_codewords (qr_version q) (errorCorrectionLevel q)"
  shows "\<exists>cw D. addEccAndInterleave data q = Inr cw \<and> length cw = raw_codewords (qr_version q) \<and>
    concat (parts (qr_version q) (errorCorrectionLevel q) data) = data \<and>
    cw = interleaved (short_data (qr_version q) (errorCorrectionLevel q))
           (short_blocks (qr_version q) (errorCorrectionLevel q)) (ecc_len (qr_version q) (errorCorrectionLevel q))
           (parts (qr_version q) (errorCorrectionLevel q) data)
           (map (\<lambda>d. reedSolomonComputeRemainder d D) (parts (qr_version q) (errorCorrectionLevel q) data)) \<and>
    (\<forall>d \<in> set (parts (qr_version q) (errorCorrectionLevel q) data).
       \<forall>i < ecc_len (qr_version q) (errorCorrectionLevel q).
         poly_eval (d @ reedSolomonComputeRemainder d D) (gf_pow 2 i) = 0) \<and>
    deinterleave (qr_version q) (errorCorrectionLevel q) cw = data"
proof -
  let ?v = "qr_version q" and ?e = "errorCorrectionLevel q"
  obtain cw D where cw: "addEccAndInterleave data q = Inr cw" "length cw = raw_codewords ?v"
    "reedSolomonComputeDivisor (ecc_codewords ?e ?v) = Inr D"
    "cw = interleaved (short_data ?v ?e) (short_blocks ?v ?e) (ecc_len ?v ?e) (parts ?v ?e data)
            (map (\<lambda>d. reedSolomonComputeRemainder d D) (parts ?v ?e data))"
    "deinterleave ?v ?e cw = data"
    using addEccAndInterleave_ok[OF assms] by blast
  have "1 \<le> ecc_codewords ?e ?v" "ecc_codewords ?e ?v \<le> 255"
    using tables(2,3)[OF assms(1,2), of ?e] by linarith+
  then have "poly_eval (d @ reedSolomonComputeRemainder d D) (gf_pow 2 i) = 0" if "i < ecc_len ?v ?e" for d i
    using rs_codeword(1)[OF _ _ cw(3)] that by (simp add: ecc_len_def)
  with cw parts_facts(1)[OF assms] show ?thesis by blast
qed

theorem blocks_are_codewords_witness:
  "\<exists>cw. addEccAndInterleave (replicate 19 7) all_reserved = Inr cw \<and> deinterleave 1 LOW cw = replicate 19 7"
proof -
  have "length (replicate 19 (7 :: 8 word)) = data_codewords 1 LOW" by code_simp
  then show ?thesis
    using blocks_are_codewords[of all_reserved "replicate 19 7"] by (auto simp: all_reserved_def)
qed

section \<open>Capacities\<close>

definition blank_symbol :: "int \<Rightarrow> ecc \<Rightarrow> qr_code" where
  "blank_symbol v ecl = (let sz = v * 4 + 17; light = replicate (to_size sz) (replicate (to_size sz) False) in
     \<lparr>qr_version = v, qr_size = sz, errorCorrectionLevel = ecl, qr_mask = 0, modules = light, isFunction = light\<rparr>)"

lemma blank_symbol:
  assumes "1 \<le> v" "v \<le> 40"
  shows "wf_qr (blank_symbol v ecl)" "marks (blank_symbol v ecl) = {}"
proof -
  have ts: "to_size (v * 4 + 17) = nat (v * 4 + 17)" using assms by (intro to_size_small) simp_all
  show "wf_qr (blank_symbol v ecl)"
    unfolding wf_qr_def blank_symbol_def Let_def ts using assms by (simp add: square_def)
  show "marks (blank_symbol v ecl) = {}"
    by (auto simp: marks_def fun_at_def blank_symbol_def Let_def ts cells_def)
qed

text \<open>
  the capacity of a version is there. For every version \<^verbatim>\<open>getNumRawDataModules\<close> returns between 208
  and 29648, its assertion, and drawing the function patterns of that version leaves at least that
  many modules free; for every level at least nine of its codewords are left for data.
\<close>

theorem capacity_available:
  assumes "1 \<le> v" "v \<le> 40"
  shows "\<exists>raw q dcw. getNumRawDataModules v = Inr raw \<and> 208 \<le> raw \<and> raw \<le> 29648 \<and>
    drawFunctionPatterns (blank_symbol v ecl) = Inr q \<and>
    raw \<le> int (card {p \<in> cells (qr_size q). \<not> fun_at q p}) \<and>
    getNumDataCodewords v ecl = Inr dcw \<and> 9 \<le> dcw \<and> dcw < raw div 8"
proof -
  note b = blank_symbol[OF assms, of ecl]
  have bv: "qr_version (blank_symbol v ecl) = v" "qr_size (blank_symbol v ecl) = v * 4 + 17"
    by (simp_all add: blank_symbol_def Let_def)
  obtain q where q: "drawFunctionPatterns (blank_symbol v ecl) = Inr q"
    "qdraws (blank_symbol v ecl) (function_cells v) q"
    using ok_drawFunctionPatterns[OF b(1)] bv(1) by (auto simp: ok_draw_def)
  have "marks q = function_cells v" "qr_size q = v * 4 + 17"
    using q(2) b(2) bv by (auto simp: qdraws_def hdr_def)
  then have free: "{p \<in> cells (qr_size q). \<not> fun_at q p} = cells (v * 4 + 17) - function_cells v"
    by (auto simp: marks_def)
  have "getNumDataCodewords v ecl = Inr (raw_modules v div 8 - ecc_codewords ecl v * ecc_blocks ecl v)"
    using getNumDataCodewords_eq[OF assms] block_sizes(5)[OF assms] by simp
  moreover have "0 < ecc_codewords ecl v * ecc_blocks ecl v"
    using tables(1,2)[OF assms, of ecl] by (intro mult_pos_pos) linarith+
  moreover have "raw_modules v \<le> int (card {p \<in> cells (qr_size q). \<not> fun_at q p})"
    unfolding free using card_data_cells[OF assms] by simp
  ultimately show ?thesis
    using q(1) getNumRawDataModules_eq[OF assms] raw_modules_range[OF assms] tables(5)[OF assms, of ecl]
    by (intro exI[of _ "raw_modules v"] exI[of _ q] exI[of _ "raw_modules v div 8 - ecc_codewords ecl v * ecc_blocks ecl v"])
       simp
qed

theorem capacity_available_witness:
  "\<exists>raw. getNumRawDataModules 40 = Inr raw \<and> 208 \<le> raw \<and> raw \<le> 29648"
  using capacity_available[of 40 HIGH] by auto

section \<open>The printed code\<close>

definition lower_blank :: "glyph \<Rightarrow> bool" where
  "lower_blank g = (g \<in> {Upper_half, Blank})"

definition upper_blank :: "glyph \<Rightarrow> bool" where
  "upper_blank g = (g \<in> {Lower_half, Blank})"

lemma length_display_row: "0 \<le> qr_size q \<Longrightarrow> length (display_row q k) = nat (qr_size q) + 9"
  by (simp add: display_row_def Let_def)

lemma nth_concat_equal:
  assumes "\<And>k. length (f k) = m" "i < n" "j < m"
  shows "concat (map f [0..<n]) ! (i * m + j) = f i ! j"
  using assms(2)
proof (induction n)
  case (Suc n)
  have len: "length (concat (map f [0..<n])) = n * m" for n
    by (induction n) (simp_all add: assms(1))
  show ?case
  proof (cases "i = n")
    case True
    then show ?thesis by (simp add: nth_append len)
  next
    case False
    with Suc.prems have "i < n" by simp
    then have "i * m + j < n * m"
      using assms(3) by (metis add_less_cancel_left less_le_trans mult_Suc mult_le_mono1 Suc_leI add.commute)
    with Suc.IH[OF \<open>i < n\<close>] show ?thesis by (simp add: nth_append len)
  qed
qed simp

text \<open>
  C20: what \<^verbatim>\<open>display\<close> prints shows every module. The output has one line per two rows of modules,
  a frame of two light modules around the symbol, and the glyph of each position shows the module
  in the upper half of the cell for even rows and in the lower half for odd ones; dark modules are
  left blank, light ones are filled.
\<close>

theorem display_shows_modules:
  assumes "square (nat (qr_size q)) (modules q)" "21 \<le> qr_size q" "qr_size q \<le> 177"
  shows "\<exists>out. display q = Inr out \<and>
    (\<forall>x y. 0 \<le> x \<and> x < qr_size q \<and> 0 \<le> y \<and> y < qr_size q \<longrightarrow>
       (let g = out ! (1 + nat ((y + 2) div 2) * (nat (qr_size q) + 9) + nat (x + 4)) in
        mod_at q (x, y) = (if even y then upper_blank g else lower_blank g)))"
proof -
  let ?n = "qr_size q" and ?rows = "nat ((qr_size q + 5) div 2)"
  let ?body = "concat (map (display_row q) [0..<?rows])"
  have "mod_at q (x, y) = (if even y then upper_blank g else lower_blank g)"
    if xy: "0 \<le> x" "x < ?n" "0 \<le> y" "y < ?n"
      and g: "g = ([Newline] @ ?body @ [Newline]) ! (1 + nat ((y + 2) div 2) * (nat ?n + 9) + nat (x + 4))" for x y g
  proof -
    define k where "k = nat ((y + 2) div 2)"
    have "(y + 2) div 2 \<le> (?n + 1) div 2" "(?n + 5) div 2 = (?n + 1) div 2 + 2"
      using xy by (auto intro: zdiv_mono1)
    then have k: "k < ?rows" unfolding k_def using xy by (simp add: nat_less_eq_zless)
    have lr: "length (display_row q k) = nat ?n + 9" for k using assms(2) by (simp add: length_display_row)
    have j: "nat (x + 4) < nat ?n + 9" using xy by simp
    have lb: "length ?body = ?rows * (nat ?n + 9)" using lr by (simp add: length_concat o_def sum_list_triv)
    have "k * (nat ?n + 9) + nat (x + 4) < length ?body"
    proof -
      have "Suc k * (nat ?n + 9) \<le> ?rows * (nat ?n + 9)" using k by (intro mult_le_mono1) simp
      with j show ?thesis unfolding lb by simp
    qed
    then have "g = ?body ! (k * (nat ?n + 9) + nat (x + 4))"
      using g by (simp add: nth_append k_def)
    also have "\<dots> = display_row q k ! nat (x + 4)"
      using nth_concat_equal[of "display_row q" "nat ?n + 9" k ?rows "nat (x + 4)"] lr k j by simp
    also have "\<dots> = (let z = -2 + 2 * int k in glyph_of (dark q x z) (z + 1 < ?n + 2 \<longrightarrow> dark q x (z + 1)))"
    proof -
      have "nat (x + 4) = Suc (Suc (nat (x + 2)))" using xy by simp
      moreover have "[-2..?n + 1] ! nat (x + 2) = x" "nat (x + 2) < length [-2..?n + 1]"
        using xy by (simp_all add: nth_upto)
      ultimately show ?thesis by (simp add: display_row_def Let_def nth_append)
    qed
    finally have gl: "g = glyph_of (dark q x (-2 + 2 * int k)) (-2 + 2 * int k + 1 < ?n + 2 \<longrightarrow> dark q x (-2 + 2 * int k + 1))"
      by (simp add: Let_def)
    show ?thesis
    proof (cases "even y")
      case True
      then have "-2 + 2 * int k = y" using xy by (auto simp: k_def elim!: evenE)
      with True xy gl show ?thesis by (auto simp: glyph_of_def upper_blank_def dark_def)
    next
      case False
      then have "-2 + 2 * int k + 1 = y" using xy by (auto simp: k_def elim!: oddE)
      with False xy gl show ?thesis by (auto simp: glyph_of_def lower_blank_def dark_def)
    qed
  qed
  then show ?thesis
    using display_eq[OF assms(1,3)] by (intro exI[of _ "[Newline] @ ?body @ [Newline]"]) (simp add: Let_def)
qed

theorem display_shows_modules_witness: "\<exists>out. display all_reserved = Inr out"
  using display_shows_modules[of all_reserved] wf_square(1)[OF all_reserved(1)]
  by (auto simp: all_reserved_def)

end
