(* ===== verification/Td_Bytes.thy ===== *)
theory Td_Bytes
  imports Bit_Lists
begin

text \<open>
  Shared by the models of the TDLib utilities (\<^verbatim>\<open>src/lib/td/tdutils\<close>): byte strings, the errors of
  \<^verbatim>\<open>td::Status\<close> and of failed checks, and facts on single bytes that are established by running
  through the 256 values.

  A \<^verbatim>\<open>Slice\<close> or \<^verbatim>\<open>std::string\<close> is the list of its bytes, each an \<open>8 word\<close>; character literals are
  converted by \<open>bytes_of\<close>.
\<close>

section \<open>Bytes and errors\<close>

type_synonym byte = "8 word"
type_synonym bytes = "8 word list"

definition bytes_of :: "string \<Rightarrow> bytes" where
  "bytes_of s = map of_char s"

text \<open>
  \<open>Status_error\<close> is a \<^verbatim>\<open>td::Status\<close> with its message, \<open>Check_failed\<close> a failed \<^verbatim>\<open>CHECK\<close>,
  \<^verbatim>\<open>LOG_CHECK\<close> or \<^verbatim>\<open>LOG(FATAL)\<close>, which ends the process, \<open>Memory_error\<close> an access outside an
  object and \<open>Overflow_error\<close> a signed result outside its type, which have undefined behaviour.
\<close>

datatype td_error = Status_error string | Check_failed | Memory_error | Overflow_error

definition check_r :: "bool \<Rightarrow> 's \<Rightarrow> td_error + 's" where
  "check_r b s = (if b then Inr s else Inl Check_failed)"

lemma check_r_simps [simp]: "check_r True s = Inr s" "check_r False s = Inl Check_failed"
  by (simp_all add: check_r_def)

section \<open>Facts on single bytes\<close>

lemma all_bytes: "list_all P (map word_of_nat [0..<256]) \<Longrightarrow> P (b :: byte)"
proof -
  assume *: "list_all P (map word_of_nat [0..<256])"
  have "unat b \<in> set [0..<256]" using unsigned_less[of b, where ?'a = nat] by simp
  with * have "P (word_of_nat (unat b))" by (simp only: list_all_iff set_map) blast
  then show "P b" by simp
qed

lemma byte_less: "unat (b :: byte) < 256"
  using unsigned_less[of b, where ?'a = nat] by simp

lemma low_masks:
  "(1 :: 'a::len word) = mask 1" "(3 :: 'a word) = mask 2" "(15 :: 'a word) = mask 4" "(63 :: 'a word) = mask 6"
  by (simp_all add: mask_eq_exp_minus_1)

lemma unat_byte_eq [simp]: "unat a = unat b \<longleftrightarrow> a = (b :: byte)"
  by (simp add: word_unat_eq_iff)

lemma bit_byte_less: "bit (a :: byte) n \<Longrightarrow> n < 8"
  using bit_imp_le_length[of a n] by simp

lemma bit_byte_high [simp]: "8 \<le> n \<Longrightarrow> \<not> bit (a :: byte) n"
  using bit_byte_less[of a n] by auto

lemma suc3_arith: "Suc (Suc (Suc n)) div 3 = n div 3 + 1" "Suc (Suc (Suc n)) mod 3 = n mod 3"
proof -
  have "Suc (Suc (Suc n)) = n + 3" by simp
  then show "Suc (Suc (Suc n)) div 3 = n div 3 + 1" "Suc (Suc (Suc n)) mod 3 = n mod 3"
    by simp_all
qed

lemma suc4_arith: "Suc (Suc (Suc (Suc n))) div 4 = n div 4 + 1" "Suc (Suc (Suc (Suc n))) mod 4 = n mod 4"
proof -
  have "Suc (Suc (Suc (Suc n))) = n + 4" by simp
  then show "Suc (Suc (Suc (Suc n))) div 4 = n div 4 + 1" "Suc (Suc (Suc (Suc n))) mod 4 = n mod 4"
    by simp_all
qed

section \<open>Numbers of a fixed number of bits\<close>

lemma bit_less_length: "bit (q :: nat) n \<Longrightarrow> q < 2 ^ k \<Longrightarrow> n < k"
  by (metis bit_take_bit_iff take_bit_nat_eq_self)

lemma push_bit_or_nat:
  assumes "q < 2 ^ k"
  shows "push_bit k p OR q = p * 2 ^ k + (q :: nat)"
proof -
  have "push_bit k p AND q = 0"
    by (auto simp: bit_eq_iff bit_and_iff bit_push_bit_iff dest!: bit_less_length[OF _ assms])
  then show ?thesis by (simp add: push_bit_eq_mult flip: disjunctive_add_eq_or)
qed

end
