(* ===== verification/Td_Base64.thy ===== *)
theory Td_Base64
  imports Td_Bytes
begin

text \<open>
  The base64 and base32 codecs of TDLib (\<^verbatim>\<open>src/lib/td/tdutils/td/utils/base64.cpp\<close>). The template
  parameter \<open>is_url\<close> is an argument; the two result types of the decoder, \<^verbatim>\<open>string\<close> and
  \<^verbatim>\<open>SecureString\<close>, hold the same bytes. \<^verbatim>\<open>base64url\<close> is what login links are written in.
\<close>

section \<open>The alphabets\<close>

definition get_characters :: "bool \<Rightarrow> bytes" where
  "get_characters is_url = bytes_of
     (if is_url then ''ABCDEFGHIJKLMNOPQRSTUVWXYZabcdefghijklmnopqrstuvwxyz0123456789-_''
      else ''ABCDEFGHIJKLMNOPQRSTUVWXYZabcdefghijklmnopqrstuvwxyz0123456789+/'')"

definition get_character_table :: "bool \<Rightarrow> bytes" where
  "get_character_table is_url =
     foldl (\<lambda>char_to_value i. char_to_value[unat (get_characters is_url ! i) := word_of_nat i])
           (replicate 256 64) [0..<64]"

section \<open>Encoding\<close>

text \<open>One round of the loop reads up to three bytes into the accumulator \<^verbatim>\<open>c\<close>.\<close>

definition encode_group :: "bool \<Rightarrow> bytes \<Rightarrow> bytes" where
  "encode_group is_url input =
     (let characters = get_characters is_url; left = min (length input) 3;
          c0 = push_bit 16 (ucast (input ! 0)) :: 32 word;
          c1 = (if left \<noteq> 1 then c0 OR push_bit 8 (ucast (input ! 1)) else c0);
          c2 = (if left = 3 then c1 OR ucast (input ! 2) else c1) in
      [characters ! unat (drop_bit 18 c0), characters ! unat (drop_bit 12 c1 AND 63)] @
      (if left \<noteq> 1 then [characters ! unat (drop_bit 6 c2 AND 63)]
       else if \<not> is_url then bytes_of ''='' else []) @
      (if left = 3 then [characters ! unat (c2 AND 63)]
       else if \<not> is_url then bytes_of ''='' else []))"

function base64_encode_impl :: "bool \<Rightarrow> bytes \<Rightarrow> bytes" where
  "base64_encode_impl is_url input =
     (if input = [] then []
      else encode_group is_url input @ base64_encode_impl is_url (drop 3 input))"
  by pat_completeness auto
termination by (relation "measure (length \<circ> snd)") auto

declare base64_encode_impl.simps [simp del]

definition base64_encode :: "bytes \<Rightarrow> bytes" where
  "base64_encode input = base64_encode_impl False input"

definition base64url_encode :: "bytes \<Rightarrow> bytes" where
  "base64url_encode input = base64_encode_impl True input"

section \<open>Decoding\<close>

text \<open>The loop that removes the equals signs at the end and counts them.\<close>

function remove_padding :: "bytes \<Rightarrow> nat \<Rightarrow> bytes \<times> nat" where
  "remove_padding base64 padding_length =
     (if base64 \<noteq> [] \<and> last base64 = of_char (CHR ''='')
      then remove_padding (butlast base64) (padding_length + 1) else (base64, padding_length))"
  by pat_completeness auto
termination by (relation "measure (length \<circ> fst)") auto

declare remove_padding.simps [simp del]

definition base64_drop_padding :: "bool \<Rightarrow> bytes \<Rightarrow> td_error + bytes" where
  "base64_drop_padding is_url base64 =
     (let (base64, padding_length) = remove_padding base64 0 in
      if padding_length \<ge> 3 then Inl (Status_error ''Wrong string padding'')
      else if (\<not> is_url \<or> padding_length > 0) \<and> (length base64 + padding_length) AND 3 \<noteq> 0
      then Inl (Status_error ''Wrong padding length'')
      else if is_url \<and> length base64 AND 3 = 1 then Inl (Status_error ''Wrong string length'')
      else Inr base64)"

definition decode_value :: "bytes \<Rightarrow> bytes \<Rightarrow> nat \<Rightarrow> 32 word \<Rightarrow> td_error + 32 word" where
  "decode_value table base64 t c =
     (let value = table ! unat (base64 ! t) in
      if value = 64 then Inl (Status_error ''Wrong character in the string'')
      else Inr (c OR push_bit ((3 - t) * 6) (ucast value)))"

definition decode_group :: "bytes \<Rightarrow> bytes \<Rightarrow> td_error + bytes" where
  "decode_group table base64 =
     (let left = min (length base64) 4 in
      bind_r (fold_r (decode_value table base64) [0..<left] 0) (\<lambda>c.
      if left = 2
      then (if c AND (2 ^ 16 - 1) \<noteq> 0 then Inl (Status_error ''Wrong padding in the string'')
            else Inr [ucast (drop_bit 16 c)])
      else if left = 3
      then (if c AND (2 ^ 8 - 1) \<noteq> 0 then Inl (Status_error ''Wrong padding in the string'')
            else Inr [ucast (drop_bit 16 c), ucast (drop_bit 8 c)])
      else Inr [ucast (drop_bit 16 c), ucast (drop_bit 8 c), ucast c]))"

text \<open>\<^verbatim>\<open>do_base64_decode_impl\<close>, with the bytes it writes through \<^verbatim>\<open>ptr\<close>.\<close>

function do_base64_decode_impl :: "bytes \<Rightarrow> bytes \<Rightarrow> td_error + bytes" where
  "do_base64_decode_impl table base64 =
     (if base64 = [] then Inr []
      else bind_r (decode_group table base64) (\<lambda>out.
           bind_r (do_base64_decode_impl table (drop 4 base64)) (\<lambda>rest. Inr (out @ rest))))"
  by pat_completeness auto
termination by (relation "measure (length \<circ> snd)") auto

declare do_base64_decode_impl.simps [simp del]

definition create_empty :: "nat \<Rightarrow> bytes" where
  [simp]: "create_empty n = replicate n 0"

text \<open>The result is allocated first; writing more bytes than it has is a memory error.\<close>

definition base64_decode_impl :: "bool \<Rightarrow> bytes \<Rightarrow> td_error + bytes" where
  "base64_decode_impl is_url base64 =
     bind_r (base64_drop_padding is_url base64) (\<lambda>base64.
     let result = create_empty (length base64 div 4 * 3 + ((length base64 AND 3) + 1) div 2) in
     bind_r (do_base64_decode_impl (get_character_table is_url) base64) (\<lambda>out.
     if length out \<le> length result then Inr (out @ drop (length out) result) else Inl Memory_error))"

definition base64_decode :: "bytes \<Rightarrow> td_error + bytes" where
  "base64_decode base64 = base64_decode_impl False base64"

definition base64_decode_secure :: "bytes \<Rightarrow> td_error + bytes" where
  "base64_decode_secure base64 = base64_decode_impl False base64"

definition base64url_decode :: "bytes \<Rightarrow> td_error + bytes" where
  "base64url_decode base64 = base64_decode_impl True base64"

definition base64url_decode_secure :: "bytes \<Rightarrow> td_error + bytes" where
  "base64url_decode_secure base64 = base64_decode_impl True base64"

section \<open>The predicates\<close>

definition is_base64_impl :: "bool \<Rightarrow> bytes \<Rightarrow> bool" where
  "is_base64_impl is_url input =
     (let (input, padding_length) = remove_padding input 0; table = get_character_table is_url in
      if padding_length \<ge> 3 then False
      else if (\<not> is_url \<or> padding_length > 0) \<and> (length input + padding_length) AND 3 \<noteq> 0 then False
      else if is_url \<and> length input AND 3 = 1 then False
      else if list_ex (\<lambda>c. table ! unat c = 64) input then False
      else if length input AND 3 = 2 \<and> table ! unat (last input) AND 15 \<noteq> 0 then False
      else if length input AND 3 = 3 \<and> table ! unat (last input) AND 3 \<noteq> 0 then False
      else True)"

definition is_base64 :: "bytes \<Rightarrow> bool" where
  "is_base64 input = is_base64_impl False input"

definition is_base64url :: "bytes \<Rightarrow> bool" where
  "is_base64url input = is_base64_impl True input"

definition is_base64_characters_impl :: "bool \<Rightarrow> bytes \<Rightarrow> bool" where
  "is_base64_characters_impl is_url input =
     (let table = get_character_table is_url in list_all (\<lambda>c. table ! unat c \<noteq> 64) input)"

definition is_base64_characters :: "bytes \<Rightarrow> bool" where
  "is_base64_characters input = is_base64_characters_impl False input"

definition is_base64url_characters :: "bytes \<Rightarrow> bool" where
  "is_base64url_characters input = is_base64_characters_impl True input"

definition base64_filter :: "bytes \<Rightarrow> bytes" where
  "base64_filter input =
     (let table = get_character_table False in
      foldl (\<lambda>res c. if table ! unat c \<noteq> 64 \<or> c = of_char (CHR ''='') then res @ [c] else res) [] input)"

end
