(* ===== verification/Td_Base64_Facts.thy ===== *)
theory Td_Base64_Facts
  imports Td_Base64
begin

text \<open>
  Facts on the codecs: the tables invert the alphabets; three bytes and the four values of six bits
  they are written as determine each other; encoding, decoding and the predicates in terms of these
  values.
\<close>

section \<open>The tables\<close>

lemma foldl_update_other:
  "k \<notin> f ` set is \<Longrightarrow> foldl (\<lambda>t i. t[f i := g i]) t is ! k = t ! k"
  by (induction "is" arbitrary: t) auto

lemma foldl_update_at:
  assumes "distinct (map f is)" "i \<in> set is" "\<forall>i \<in> set is. f i < length t"
  shows "foldl (\<lambda>t i. t[f i := g i]) t is ! f i = g i"
  using assms by (induction "is" arbitrary: t) (auto simp: foldl_update_other)

lemma characters: "length (get_characters u) = 64" "distinct (get_characters u)"
  "of_char (CHR ''='') \<notin> set (get_characters u)"
proof -
  have "list_all (\<lambda>u. length (get_characters u) = 64 \<and> distinct (get_characters u) \<and>
    of_char (CHR ''='') \<notin> set (get_characters u)) [False, True]"
    by code_simp
  then show "length (get_characters u) = 64" "distinct (get_characters u)"
    "of_char (CHR ''='') \<notin> set (get_characters u)"
    by (cases u; simp)+
qed

abbreviation value_of :: "bool \<Rightarrow> byte \<Rightarrow> byte" where
  "value_of u c \<equiv> get_character_table u ! unat c"

lemma value_of_character: "i < 64 \<Longrightarrow> value_of u (get_characters u ! i) = word_of_nat i"
proof -
  assume i: "i < 64"
  have "map (\<lambda>i. get_characters u ! i) [0..<64] = get_characters u"
    using characters(1)[of u] by (metis map_nth)
  moreover have "distinct (map unat (get_characters u))"
    using characters(2)[of u] by (simp add: distinct_map inj_on_def)
  ultimately have "distinct (map (\<lambda>i. unat (get_characters u ! i)) [0..<64])"
    by (metis (no_types, lifting) list.map_comp o_apply map_eq_conv)
  then show ?thesis
    unfolding get_character_table_def using i
    by (subst foldl_update_at) (auto simp: byte_less)
qed

lemma value_of_other: "c \<notin> set (get_characters u) \<Longrightarrow> value_of u c = 64"
  unfolding get_character_table_def
  by (subst foldl_update_other) (auto simp: characters(1) in_set_conv_nth byte_less)

lemma value_of_cases:
  obtains (other) "c \<notin> set (get_characters u)" "value_of u c = 64"
  | (character) i where "i < 64" "c = get_characters u ! i" "value_of u c = word_of_nat i"
  by (metis characters(1) in_set_conv_nth value_of_character value_of_other)

lemma value_of_64_iff: "value_of u c = 64 \<longleftrightarrow> c \<notin> set (get_characters u)"
proof (cases rule: value_of_cases[of c u])
  case (character i)
  then have "unat (value_of u c) = i" by (simp add: unat_of_nat)
  with character show ?thesis by (auto simp: characters(1))
qed simp

lemma value_of_inverse:
  "c \<in> set (get_characters u) \<Longrightarrow> get_characters u ! unat (value_of u c) = c \<and> unat (value_of u c) < 64"
  by (cases rule: value_of_cases[of c u]) (auto simp: unat_of_nat)

section \<open>Three bytes and four characters\<close>

lemma byte_eqI:
  fixes a b :: byte
  assumes "bit a 0 = bit b 0" "bit a 1 = bit b 1" "bit a 2 = bit b 2" "bit a 3 = bit b 3"
    "bit a 4 = bit b 4" "bit a 5 = bit b 5" "bit a 6 = bit b 6" "bit a 7 = bit b 7"
  shows "a = b"
proof (rule bit_word_eqI)
  fix n assume "n < LENGTH(8)"
  then have "n \<in> {0, 1, 2, 3, 4, 5, 6, 7}" by auto
  with assms show "bit a n = bit b n" by auto
qed

definition six0 :: "byte \<Rightarrow> byte" where "six0 a = drop_bit 2 a"
definition six1 :: "byte \<Rightarrow> byte \<Rightarrow> byte" where "six1 a b = push_bit 4 (a AND 3) OR drop_bit 4 b"
definition six2 :: "byte \<Rightarrow> byte \<Rightarrow> byte" where "six2 b c = push_bit 2 (b AND 15) OR drop_bit 6 c"
definition six3 :: "byte \<Rightarrow> byte" where "six3 c = c AND 63"

lemmas six_defs = six0_def six1_def six2_def six3_def

lemma drop6: "drop_bit 18 (push_bit 16 (ucast a) :: 32 word) = ucast (six0 a)"
  "drop_bit 12 (push_bit 16 (ucast a) OR push_bit 8 (ucast b) :: 32 word) AND 63 = ucast (six1 a b)"
  "drop_bit 6 ((push_bit 16 (ucast a) OR push_bit 8 (ucast b)) OR ucast c :: 32 word) AND 63 = ucast (six2 b c)"
  "((push_bit 16 (ucast a) OR push_bit 8 (ucast b)) OR ucast c :: 32 word) AND 63 = ucast (six3 c)"
  "drop_bit 12 (push_bit 16 (ucast a) :: 32 word) AND 63 = ucast (six1 a 0)"
  "drop_bit 6 (push_bit 16 (ucast a) OR push_bit 8 (ucast b) :: 32 word) AND 63 = ucast (six2 b 0)"
  by (rule bit_word_eqI; auto simp: six_defs low_masks bit_simps dest: bit_byte_less)+

section \<open>Encoding and decoding on values of six bits\<close>

fun sixes :: "bytes \<Rightarrow> bytes" where
  "sixes [] = []"
| "sixes [a] = [six0 a, six1 a 0]"
| "sixes [a, b] = [six0 a, six1 a b, six2 b 0]"
| "sixes (a # b # c # xs) = six0 a # six1 a b # six2 b c # six3 c # sixes xs"

text \<open>The way back, for any number of values but one more than a multiple of four.\<close>

definition join0 :: "byte \<Rightarrow> byte \<Rightarrow> byte" where "join0 v w = push_bit 2 v OR drop_bit 4 w"
definition join1 :: "byte \<Rightarrow> byte \<Rightarrow> byte" where "join1 v w = push_bit 4 v OR drop_bit 2 w"
definition join2 :: "byte \<Rightarrow> byte \<Rightarrow> byte" where "join2 v w = push_bit 6 v OR w"

lemmas join_defs = join0_def join1_def join2_def

fun join :: "bytes \<Rightarrow> bytes" where
  "join [] = []"
| "join [v] = []"
| "join [v, w] = [join0 v w]"
| "join [v, w, x] = [join0 v w, join1 w x]"
| "join (v # w # x # y # vs) = join0 v w # join1 w x # join2 x y # join vs"

text \<open>No bits are lost at the end.\<close>

definition tail_ok :: "bytes \<Rightarrow> bool" where
  "tail_ok vs \<longleftrightarrow> (length vs mod 4 = 2 \<longrightarrow> last vs AND 15 = 0) \<and> (length vs mod 4 = 3 \<longrightarrow> last vs AND 3 = 0)"

definition small :: "bytes \<Rightarrow> bool" where
  "small vs \<longleftrightarrow> list_all (\<lambda>v. unat v < 64) vs"

lemma small_simps [simp]: "small []" "small (v # vs) \<longleftrightarrow> unat v < 64 \<and> small vs"
  by (simp_all add: small_def)

lemma small_bits: "unat (v :: byte) < 64 \<Longrightarrow> \<not> bit v 6 \<and> \<not> bit v 7"
proof -
  have "list_all (\<lambda>v :: byte. unat v < 64 \<longrightarrow> \<not> bit v 6 \<and> \<not> bit v 7) (map word_of_nat [0..<256])"
    by code_simp
  from all_bytes[OF this, of v] show "unat v < 64 \<Longrightarrow> \<not> bit v 6 \<and> \<not> bit v 7" by simp
qed

lemma and_mask_zero: "(w :: byte) AND 3 = 0 \<longleftrightarrow> \<not> bit w 0 \<and> \<not> bit w 1"
  "(w :: byte) AND 15 = 0 \<longleftrightarrow> \<not> bit w 0 \<and> \<not> bit w 1 \<and> \<not> bit w 2 \<and> \<not> bit w 3"
proof -
  have "list_all (\<lambda>w :: byte. (w AND 3 = 0 \<longleftrightarrow> \<not> bit w 0 \<and> \<not> bit w 1) \<and>
    (w AND 15 = 0 \<longleftrightarrow> \<not> bit w 0 \<and> \<not> bit w 1 \<and> \<not> bit w 2 \<and> \<not> bit w 3)) (map word_of_nat [0..<256])"
    by code_simp
  from all_bytes[OF this, of w] show "w AND 3 = 0 \<longleftrightarrow> \<not> bit w 0 \<and> \<not> bit w 1"
    "w AND 15 = 0 \<longleftrightarrow> \<not> bit w 0 \<and> \<not> bit w 1 \<and> \<not> bit w 2 \<and> \<not> bit w 3" by simp_all
qed

lemma small_sixes: "small (sixes x)"
proof -
  have "unat (v :: byte) < 64" if "v AND 63 = v" for v
  proof -
    have "unat (v AND 63) \<le> unat (63 :: byte)" by (rule word_and_le1[THEN word_le_nat_alt[THEN iffD1]])
    with that show ?thesis by simp
  qed
  moreover have "six0 a AND 63 = six0 a" "six1 a b AND 63 = six1 a b" "six2 a b AND 63 = six2 a b"
    "six3 a AND 63 = six3 a" for a b
    by (rule byte_eqI; simp add: six_defs low_masks bit_simps)+
  ultimately show ?thesis by (induction x rule: sixes.induct) simp_all
qed

lemma join_sixes: "join (sixes x) = x"
proof -
  have "join0 (six0 a) (six1 a b) = a" "join1 (six1 a b) (six2 b c) = b" "join2 (six2 b c) (six3 c) = c" for a b c
    by (rule byte_eqI; simp add: six_defs join_defs low_masks bit_simps)+
  then show ?thesis by (induction x rule: sixes.induct) simp_all
qed

lemma length_sixes: "length (sixes x) = length x div 3 * 4 + (if length x mod 3 = 0 then 0 else length x mod 3 + 1)"
  by (induction x rule: sixes.induct) (simp_all add: suc3_arith div_add_self1)

lemma tail_ok_Cons4: "tail_ok (v # w # x # y # vs) \<longleftrightarrow> tail_ok vs"
proof -
  have "length (v # w # x # y # vs) mod 4 = length vs mod 4" by simp
  then show ?thesis by (cases "vs = []") (simp_all add: tail_ok_def del: length_Cons)
qed

lemma tail_ok_sixes: "tail_ok (sixes x)"
proof -
  have "six1 a 0 AND 15 = 0" "six2 a 0 AND 3 = 0" for a
    by (rule byte_eqI; simp add: six_defs low_masks bit_simps)+
  then show ?thesis
    by (induction x rule: sixes.induct) (simp_all add: tail_ok_Cons4, simp_all add: tail_ok_def)
qed

lemma sixes_join:
  "small vs \<Longrightarrow> tail_ok vs \<Longrightarrow> length vs mod 4 \<noteq> 1 \<Longrightarrow> sixes (join vs) = vs"
proof -
  have six: "unat v < 64 \<Longrightarrow> unat w < 64 \<Longrightarrow> six0 (join0 v w) = v"
    "unat w < 64 \<Longrightarrow> unat x < 64 \<Longrightarrow> six1 (join0 v w) (join1 w x) = w"
    "unat w < 64 \<Longrightarrow> unat x < 64 \<Longrightarrow> unat y < 64 \<Longrightarrow> six2 (join1 w x) (join2 x y) = x"
    "unat x < 64 \<Longrightarrow> unat y < 64 \<Longrightarrow> six3 (join2 x y) = y"
    "unat w < 64 \<Longrightarrow> w AND 15 = 0 \<Longrightarrow> six1 (join0 v w) 0 = w"
    "unat x < 64 \<Longrightarrow> x AND 3 = 0 \<Longrightarrow> six2 (join1 w x) 0 = x" for v w x y
    by (rule byte_eqI; auto simp: six_defs join_defs low_masks(2-4) bit_simps and_mask_zero[unfolded low_masks] dest!: small_bits)+
  show "small vs \<Longrightarrow> tail_ok vs \<Longrightarrow> length vs mod 4 \<noteq> 1 \<Longrightarrow> sixes (join vs) = vs"
  proof (induction vs rule: join.induct)
    case (5 v w x y vs)
    then show ?case by (simp add: six tail_ok_Cons4 suc4_arith)
  qed (simp_all add: six tail_ok_def)
qed

section \<open>The codec on six-bit values\<close>

abbreviation characters_of :: "bool \<Rightarrow> bytes \<Rightarrow> bytes" where
  "characters_of u vs \<equiv> map (\<lambda>v. get_characters u ! unat v) vs"

definition padding :: "nat \<Rightarrow> bytes" where
  "padding n = replicate ((3 - n mod 3) mod 3) (of_char (CHR ''=''))"

lemma unat_ucast_byte [simp]: "unat (ucast (b :: byte) :: 32 word) = unat b"
  by (simp add: unsigned_ucast_eq take_bit_nat_eq_self less_trans[OF byte_less])

lemma encode_group_eq:
  "encode_group u [a] = characters_of u (sixes [a]) @ (if u then [] else bytes_of ''=='')"
  "encode_group u [a, b] = characters_of u (sixes [a, b]) @ (if u then [] else bytes_of ''='')"
  "encode_group u (a # b # c # xs) = characters_of u [six0 a, six1 a b, six2 b c, six3 c]"
  by (simp_all add: encode_group_def Let_def drop6 min_def bytes_of_def del: drop_bit_or)

lemma base64_encode_impl_eq:
  "base64_encode_impl u x = characters_of u (sixes x) @ (if u then [] else padding (length x))"
proof (induction x rule: sixes.induct)
  case (4 a b c xs)
  then show ?case
    by (subst base64_encode_impl.simps) (simp add: encode_group_eq padding_def)
qed (simp_all add: base64_encode_impl.simps encode_group_eq padding_def bytes_of_def numeral_2_eq_2)

lemma character_value [simp]: "unat v < 64 \<Longrightarrow> value_of u (get_characters u ! unat v) = v"
  by (simp add: value_of_character)

lemma decode_value_character:
  "t < length vs \<Longrightarrow> unat (vs ! t) < 64 \<Longrightarrow>
   decode_value (get_character_table u) (characters_of u vs) t c = Inr (c OR push_bit ((3 - t) * 6) (ucast (vs ! t)))"
proof -
  assume a: "t < length vs" "unat (vs ! t) < 64"
  then have "vs ! t \<noteq> 64" by auto
  with a show ?thesis by (simp add: decode_value_def)
qed

lemma joined_bytes:
  "ucast (drop_bit 16 ((push_bit 18 (ucast v) OR push_bit 12 (ucast w)) :: 32 word)) = join0 v w"
  "ucast (drop_bit 16 ((push_bit 18 (ucast v) OR push_bit 12 (ucast w)) OR push_bit 6 (ucast x) :: 32 word)) = join0 v w"
  "ucast (drop_bit 8 ((push_bit 18 (ucast v) OR push_bit 12 (ucast w)) OR push_bit 6 (ucast x) :: 32 word)) = join1 w x"
  "ucast (drop_bit 16 (((push_bit 18 (ucast v) OR push_bit 12 (ucast w)) OR push_bit 6 (ucast x)) OR ucast y :: 32 word)) = join0 v w"
  "ucast (drop_bit 8 (((push_bit 18 (ucast v) OR push_bit 12 (ucast w)) OR push_bit 6 (ucast x)) OR ucast y :: 32 word)) = join1 w x"
  "ucast (((push_bit 18 (ucast v) OR push_bit 12 (ucast w)) OR push_bit 6 (ucast x)) OR ucast y :: 32 word) = join2 x y"
  if "unat x < 64" "unat y < 64"
  using small_bits[OF that(1)] small_bits[OF that(2)]
  by - (rule byte_eqI; simp add: join_defs bit_simps)+

end
