(* ===== verification/Td_Base64_Props.thy ===== *)
theory Td_Base64_Props
  imports Td_Base64_Facts
begin

text \<open>
  Decoding undoes encoding, and the predicates say exactly when decoding succeeds.
\<close>

section \<open>Decoding characters\<close>

lemma lost_bits:
  "((push_bit 18 (ucast v) OR push_bit 12 (ucast w)) :: 32 word) AND 65535 = 0 \<longleftrightarrow> (w :: byte) AND 15 = 0"
  "((push_bit 18 (ucast v) OR push_bit 12 (ucast w)) OR push_bit 6 (ucast x) :: 32 word) AND 255 = 0
     \<longleftrightarrow> (x :: byte) AND 3 = 0"
proof -
  have m: "(65535 :: 32 word) = mask 16" "(255 :: 32 word) = mask 8" by (simp_all add: mask_eq_exp_minus_1)
  have z: "push_bit n (ucast b) = (0 :: 32 word) \<longleftrightarrow> b = 0" if "n \<le> 24" for n and b :: byte
  proof
    assume "push_bit n (ucast b) = (0 :: 32 word)"
    then have "bit (push_bit n (ucast b) :: 32 word) (n + i) = False" for i by simp
    with that have "i < 8 \<Longrightarrow> \<not> bit b i" for i by (simp add: bit_simps)
    then show "b = 0" by (intro bit_word_eqI) simp
  qed simp
  have "((push_bit 18 (ucast v) OR push_bit 12 (ucast w)) :: 32 word) AND mask 16 = push_bit 12 (ucast (w AND 15))"
    by (rule bit_word_eqI; auto simp: low_masks bit_simps)
  moreover have "((push_bit 18 (ucast v) OR push_bit 12 (ucast w)) OR push_bit 6 (ucast x) :: 32 word) AND mask 8
      = push_bit 6 (ucast (x AND 3))"
    by (rule bit_word_eqI; auto simp: low_masks bit_simps)
  ultimately show
    "((push_bit 18 (ucast v) OR push_bit 12 (ucast w)) :: 32 word) AND 65535 = 0 \<longleftrightarrow> w AND 15 = 0"
    "((push_bit 18 (ucast v) OR push_bit 12 (ucast w)) OR push_bit 6 (ucast x) :: 32 word) AND 255 = 0 \<longleftrightarrow> x AND 3 = 0"
    by (simp_all only: m z)
qed

lemma upto_small: "[0..<2] = [0, 1]" "[0..<3] = [0, 1, 2]" "[0..<4] = [0, 1, 2, 3 :: nat]"
  by (simp_all add: upt_rec)

lemmas decode_char_simps = decode_value_character[of _ "v # w # vs" for v w vs]

lemma decode_group_eq:
  assumes "unat v < 64" "unat w < 64"
  shows "decode_group (get_character_table u) (characters_of u [v, w]) =
      (if w AND 15 = 0 then Inr [join0 v w] else Inl (Status_error ''Wrong padding in the string''))"
    "unat x < 64 \<Longrightarrow> decode_group (get_character_table u) (characters_of u [v, w, x]) =
      (if x AND 3 = 0 then Inr [join0 v w, join1 w x] else Inl (Status_error ''Wrong padding in the string''))"
    "unat x < 64 \<Longrightarrow> unat y < 64 \<Longrightarrow> decode_group (get_character_table u) (characters_of u (v # w # x # y # vs)) =
      Inr [join0 v w, join1 w x, join2 x y]"
  using assms
  by (simp_all add: decode_group_def Let_def upto_small decode_char_simps min_def lost_bits joined_bytes
      del: list.map drop_bit_or)

lemma decode_characters:
  "small vs \<Longrightarrow> length vs mod 4 \<noteq> 1 \<Longrightarrow>
   do_base64_decode_impl (get_character_table u) (characters_of u vs) =
   (if tail_ok vs then Inr (join vs) else Inl (Status_error ''Wrong padding in the string''))"
proof (induction vs rule: join.induct)
  case (3 v w)
  then show ?case
    by (subst do_base64_decode_impl.simps)
       (use 3 in \<open>simp add: decode_group_eq[simplified] tail_ok_def do_base64_decode_impl.simps\<close>)
next
  case (4 v w x)
  then show ?case
    by (subst do_base64_decode_impl.simps)
       (use 4 in \<open>simp add: decode_group_eq[simplified] tail_ok_def do_base64_decode_impl.simps\<close>)
next
  case (5 v w x y vs)
  from 5 show ?case
    by (subst do_base64_decode_impl.simps)
       (simp add: decode_group_eq[simplified] tail_ok_Cons4)
qed (simp_all add: do_base64_decode_impl.simps tail_ok_def)

text \<open>A character outside the alphabet is found; no other kind of error arises.\<close>

lemma fold_decode_error:
  "fold_r (decode_value table base64) ts c = Inl e \<Longrightarrow> e = Status_error ''Wrong character in the string''"
  by (induction ts arbitrary: c) (auto simp: decode_value_def Let_def bind_r_eq_Inl split: if_splits)

lemma fold_decode_bad:
  "t \<in> set ts \<Longrightarrow> table ! unat (base64 ! t) = 64 \<Longrightarrow>
   fold_r (decode_value table base64) ts c = Inl (Status_error ''Wrong character in the string'')"
  by (induction ts arbitrary: c) (auto simp: decode_value_def Let_def)

lemma decode_group_error: "decode_group table base64 = Inl e \<Longrightarrow> \<exists>m. e = Status_error m"
  by (auto simp: decode_group_def Let_def bind_r_eq_Inl dest: fold_decode_error split: if_splits)

lemma decode_bad:
  "c \<in> set base64 \<Longrightarrow> table ! unat c = 64 \<Longrightarrow> \<exists>m. do_base64_decode_impl table base64 = Inl (Status_error m)"
proof (induction table base64 rule: do_base64_decode_impl.induct)
  case (1 table base64)
  then have ne: "base64 \<noteq> []" by auto
  show ?case
  proof (cases "decode_group table base64")
    case (Inl e)
    with ne decode_group_error[OF Inl] show ?thesis by (auto simp: do_base64_decode_impl.simps[of table base64])
  next
    case (Inr out)
    have "c \<notin> set (take 4 base64)"
    proof
      assume "c \<in> set (take 4 base64)"
      then obtain t where t: "t < min (length base64) 4" "base64 ! t = c" by (auto simp: in_set_conv_nth)
      then have "decode_group table base64 = Inl (Status_error ''Wrong character in the string'')"
        using fold_decode_bad[of t "[0..<min (length base64) 4]" table base64 0] "1.prems"(2)
        by (simp add: decode_group_def Let_def)
      with Inr show False by simp
    qed
    then have "c \<in> set (drop 4 base64)"
      using "1.prems"(1) by (metis Un_iff append_take_drop_id set_append)
    from "1.IH"[OF ne this "1.prems"(2)] ne Inr show ?thesis
      by (auto simp: do_base64_decode_impl.simps[of table base64])
  qed
qed

lemma length_join: "length vs mod 4 \<noteq> 1 \<Longrightarrow> length (join vs) = length vs div 4 * 3 + (length vs mod 4 + 1) div 2"
  by (induction vs rule: join.induct) (simp_all add: suc4_arith div_add_self1)

section \<open>Padding\<close>

lemma remove_padding_facts:
  "remove_padding s n = (b, p) \<Longrightarrow>
   n \<le> p \<and> s = b @ replicate (p - n) (of_char (CHR ''='')) \<and> (b \<noteq> [] \<longrightarrow> last b \<noteq> of_char (CHR ''=''))"
proof (induction s n rule: remove_padding.induct)
  case (1 s n)
  show ?case
  proof (cases "s \<noteq> [] \<and> last s = of_char (CHR ''='')")
    case True
    with 1 have *: "Suc n \<le> p" "butlast s = b @ replicate (p - Suc n) (of_char (CHR ''=''))"
      "b \<noteq> [] \<longrightarrow> last b \<noteq> of_char (CHR ''='')"
      by (simp_all add: remove_padding.simps[of s n])
    have "s = butlast s @ [of_char (CHR ''='')]" using True by (metis append_butlast_last_id)
    also have "\<dots> = b @ replicate (Suc (p - Suc n)) (of_char (CHR ''=''))"
      by (simp add: *(2) replicate_append_same)
    finally show ?thesis using * by (simp add: Suc_diff_Suc)
  next
    case False
    with 1(2) show ?thesis by (auto simp: remove_padding.simps[of s n])
  qed
qed

lemma remove_padding_append:
  "(b \<noteq> [] \<longrightarrow> last b \<noteq> of_char (CHR ''='')) \<Longrightarrow>
   remove_padding (b @ replicate k (of_char (CHR ''=''))) n = (b, n + k)"
proof (induction k arbitrary: n)
  case 0
  then show ?case by (subst remove_padding.simps) auto
next
  case (Suc k)
  have "b @ replicate (Suc k) (of_char (CHR ''='')) = (b @ replicate k (of_char (CHR ''=''))) @ [of_char (CHR ''='')]"
    by (simp add: replicate_append_same)
  then have "last (b @ replicate (Suc k) (of_char (CHR ''=''))) = of_char (CHR ''='')"
    "butlast (b @ replicate (Suc k) (of_char (CHR ''=''))) = b @ replicate k (of_char (CHR ''=''))"
    by (simp_all only: last_snoc butlast_snoc)
  with Suc show ?case by (subst remove_padding.simps) simp
qed

lemma and_3: "(n :: nat) AND 3 = n mod 4"
proof -
  have "(3 :: nat) = mask 2" by (simp add: mask_eq_exp_minus_1)
  then show ?thesis by (simp only: take_bit_eq_mask[symmetric]) (simp add: take_bit_eq_mod)
qed

section \<open>Predicate and decoder\<close>

lemma characters_of_values:
  "\<forall>c \<in> set b. value_of u c \<noteq> 64 \<Longrightarrow> characters_of u (map (value_of u) b) = b \<and> small (map (value_of u) b)"
  by (induction b) (auto simp: value_of_64_iff value_of_inverse)

lemma base64_decode_impl_eq:
  assumes "remove_padding s 0 = (b, p)"
  shows "base64_decode_impl u s = Inr (join (map (value_of u) b)) \<and> is_base64_impl u s \<or>
    (\<exists>m. base64_decode_impl u s = Inl (Status_error m)) \<and> \<not> is_base64_impl u s"
proof (cases "base64_drop_padding u s")
  case (Inl e)
  with assms have "\<exists>m. e = Status_error m" "\<not> is_base64_impl u s"
    by (auto simp: base64_drop_padding_def is_base64_impl_def Let_def split: if_splits)
  with Inl show ?thesis by (auto simp: base64_decode_impl_def)
next
  case (Inr b')
  with assms have b': "b' = b" and form: "\<not> p \<ge> 3" "(\<not> u \<or> p > 0) \<longrightarrow> (length b + p) mod 4 = 0" "u \<longrightarrow> length b mod 4 \<noteq> 1"
    by (auto simp: base64_drop_padding_def Let_def and_3 split: if_splits)
  have four: "length b mod 4 \<noteq> 1"
  proof
    assume one: "length b mod 4 = 1"
    with form(2,3) have "(length b + p) mod 4 = 0" by blast
    with one form(1) show False by presburger
  qed
  show ?thesis
  proof (cases "\<exists>c \<in> set b. value_of u c = 64")
    case True
    then obtain c where c: "c \<in> set b" "value_of u c = 64" by blast
    from decode_bad[OF this] Inr b' have "\<exists>m. base64_decode_impl u s = Inl (Status_error m)"
      by (auto simp: base64_decode_impl_def)
    moreover have "\<not> is_base64_impl u s"
      using assms c by (auto simp: is_base64_impl_def Let_def list_ex_iff)
    ultimately show ?thesis by blast
  next
    case False
    let ?vs = "map (value_of u) b"
    have vs: "characters_of u ?vs = b" "small ?vs" using characters_of_values False by blast+
    have "do_base64_decode_impl (get_character_table u) b =
        (if tail_ok ?vs then Inr (join ?vs) else Inl (Status_error ''Wrong padding in the string''))"
      by (rule decode_characters[OF vs(2), of u, unfolded vs(1) length_map, OF four])
    then have "base64_decode_impl u s = (if tail_ok ?vs then Inr (join ?vs) else Inl (Status_error ''Wrong padding in the string''))"
      using Inr b' four by (simp add: base64_decode_impl_def Let_def and_3 length_join)
    moreover have "is_base64_impl u s \<longleftrightarrow> tail_ok ?vs"
    proof -
      have "last ?vs = value_of u (last b)" if "b \<noteq> []" using that by (simp add: last_map)
      moreover have "b \<noteq> []" if "length b mod 4 = 2 \<or> length b mod 4 = 3" using that by auto
      ultimately show ?thesis
        using assms form False by (auto simp: is_base64_impl_def Let_def and_3 list_ex_iff tail_ok_def)
    qed
    ultimately show ?thesis by auto
  qed
qed

section \<open>Round trips\<close>

lemma sixes_form:
  obtains "length x mod 3 = 0" "length (sixes x) mod 4 = 0"
  | "length x mod 3 = 1" "length (sixes x) mod 4 = 2"
  | "length x mod 3 = 2" "length (sixes x) mod 4 = 3"
proof -
  let ?r = "length x mod 3"
  have "(length x div 3 * 4 + m) mod 4 = m mod 4" for m by simp
  then have "length (sixes x) mod 4 = (if ?r = 0 then 0 else ?r + 1) mod 4" by (simp only: length_sixes)
  moreover have "?r = 0 \<or> ?r = 1 \<or> ?r = 2" by arith
  ultimately show ?thesis using that by auto
qed

lemma length_mod_join:
  "length vs mod 4 \<noteq> 1 \<Longrightarrow> length (join vs) mod 3 = (length vs mod 4 + 1) div 2 mod 3"
  by (induction vs rule: join.induct) (simp_all add: suc3_arith suc4_arith)

lemma decode_encode: "base64_decode_impl u (base64_encode_impl u x) = Inr x"
proof -
  let ?s = "characters_of u (sixes x)"
  define k where "k = (if u then 0 else (3 - length x mod 3) mod 3)"
  have enc: "base64_encode_impl u x = ?s @ replicate k (of_char (CHR ''=''))"
    by (simp add: base64_encode_impl_eq padding_def k_def)
  have "set ?s \<subseteq> set (get_characters u)"
    using small_sixes[of x] by (auto simp: small_def list_all_iff characters(1))
  then have "?s \<noteq> [] \<longrightarrow> last ?s \<noteq> of_char (CHR ''='')"
    using characters(3)[of u] last_in_set[of ?s] by (metis subsetD)
  then have rp: "remove_padding (base64_encode_impl u x) 0 = (?s, k)"
    unfolding enc by (subst remove_padding_append) simp_all
  have "u \<and> k = 0 \<or> \<not> u \<and> k = 0 \<and> length (sixes x) mod 4 = 0 \<or> \<not> u \<and> k = 2 \<and> length (sixes x) mod 4 = 2
      \<or> \<not> u \<and> k = 1 \<and> length (sixes x) mod 4 = 3"
    by (cases x rule: sixes_form) (simp_all add: k_def)
  then have form: "k < 3" "u \<Longrightarrow> k = 0" "\<not> u \<Longrightarrow> (length (sixes x) + k) mod 4 = 0"
    by (auto simp: mod_add_left_eq[of "length (sixes x)" 4 2, symmetric] mod_Suc)
  have four: "length (sixes x) mod 4 \<noteq> 1" by (cases x rule: sixes_form) simp_all
  from four have "base64_drop_padding u (base64_encode_impl u x) = Inr ?s"
    unfolding base64_drop_padding_def rp prod.case using form by (cases u; simp add: and_3)
  moreover have "do_base64_decode_impl (get_character_table u) ?s = Inr x"
    using decode_characters[OF small_sixes four, of u] by (simp add: tail_ok_sixes join_sixes)
  moreover have "length x = length (sixes x) div 4 * 3 + (length (sixes x) mod 4 + 1) div 2"
    using length_join[OF four] by (simp add: join_sixes)
  ultimately show ?thesis by (simp add: base64_decode_impl_def Let_def and_3)
qed

text \<open>
  C21: what is encoded is decoded. For every byte string, decoding its base64 or base64url form gives
  the bytes back, without an error and without writing outside the allocated result, and the form
  passes the check of the same variant.
\<close>

theorem base64_roundtrip:
  "base64_decode (base64_encode x) = Inr x \<and> base64url_decode (base64url_encode x) = Inr x \<and>
   is_base64 (base64_encode x) \<and> is_base64url (base64url_encode x)"
proof -
  have "is_base64_impl u (base64_encode_impl u x)" for u
    using base64_decode_impl_eq[of "base64_encode_impl u x" _ _ u] decode_encode[of u x]
    by (cases "remove_padding (base64_encode_impl u x) 0") fastforce
  then show ?thesis
    by (simp add: decode_encode base64_decode_def base64_encode_def base64url_decode_def base64url_encode_def
        is_base64_def is_base64url_def)
qed

text \<open>
  C22: the checks \<^verbatim>\<open>is_base64\<close> and \<^verbatim>\<open>is_base64url\<close>, which look at the last character only, agree with the
  decoder on every string: decoding succeeds exactly when the check does, and a decoded string is the
  encoding of the result: itself for the first form, so that no two strings have the same meaning,
  and after its padding is removed for the second form, where padding is optional (\<^verbatim>\<open>QQ\<close> and \<^verbatim>\<open>QQ==\<close>
  mean the same). A rejected string gives an error status, never a write outside the result.
\<close>

theorem base64_canonical:
  "case base64_decode_impl u s of
     Inr x \<Rightarrow> is_base64_impl u s \<and> base64_encode_impl u x = (if u then fst (remove_padding s 0) else s)
   | Inl e \<Rightarrow> \<not> is_base64_impl u s \<and> (\<exists>m. e = Status_error m)"
proof -
  obtain b p where rp: "remove_padding s 0 = (b, p)" by (cases "remove_padding s 0")
  let ?vs = "map (value_of u) b"
  consider "base64_decode_impl u s = Inr (join ?vs)" "is_base64_impl u s"
    | m where "base64_decode_impl u s = Inl (Status_error m)" "\<not> is_base64_impl u s"
    using base64_decode_impl_eq[OF rp, of u] by blast
  then show ?thesis
  proof cases
    case 1
    then have ok: "\<forall>c \<in> set b. value_of u c \<noteq> 64" and form: "p < 3" "\<not> u \<Longrightarrow> (length b + p) mod 4 = 0"
      "u \<Longrightarrow> length b mod 4 \<noteq> 1" and tl: "length b mod 4 = 2 \<longrightarrow> value_of u (last b) AND 15 = 0"
      "length b mod 4 = 3 \<longrightarrow> value_of u (last b) AND 3 = 0"
      by (auto simp: is_base64_impl_def rp Let_def and_3 list_ex_iff split: if_splits)
    note vs = characters_of_values[OF ok]
    have four: "length b mod 4 \<noteq> 1"
    proof
      assume one: "length b mod 4 = 1"
      with form(2,3) have "(length b + p) mod 4 = 0" by blast
      with one form(1) show False by presburger
    qed
    have "tail_ok ?vs"
      using tl by (cases "b = []") (simp_all add: tail_ok_def last_map)
    then have "sixes (join ?vs) = ?vs" using vs four by (intro sixes_join) simp_all
    then have "base64_encode_impl u (join ?vs) = b @ (if u then [] else padding (length (join ?vs)))"
      using vs by (simp add: base64_encode_impl_eq)
    moreover have "padding (length (join ?vs)) = replicate p (of_char (CHR ''=''))" if "\<not> u"
    proof -
      have "length b mod 4 = 0 \<and> p = 0 \<or> length b mod 4 = 2 \<and> p = 2 \<or> length b mod 4 = 3 \<and> p = 1"
        using form(1) form(2)[OF that] four by presburger
      then show ?thesis using length_mod_join[of ?vs] by (auto simp: padding_def)
    qed
    moreover have "s = b @ replicate p (of_char (CHR ''=''))" using remove_padding_facts[OF rp] by simp
    ultimately show ?thesis using 1 rp by simp
  qed auto
qed

end
