(* ===== verification/Td_Base32.thy ===== *)
theory Td_Base32
  imports Td_Base64_Facts
begin

text \<open>
  The base32 codec of \<^verbatim>\<open>src/lib/td/tdutils/td/utils/base64.cpp\<close>. Its accumulator \<^verbatim>\<open>c\<close> is a 32-bit word
  of which the lowest \<^verbatim>\<open>length\<close> bits have not been written yet; the older bits are shifted out.
\<close>

section \<open>The routines\<close>

definition get_base32_characters :: "bool \<Rightarrow> bytes" where
  "get_base32_characters upper_case = bytes_of
     (if upper_case then ''ABCDEFGHIJKLMNOPQRSTUVWXYZ234567'' else ''abcdefghijklmnopqrstuvwxyz234567'')"

definition get_base32_character_table :: bytes where
  "get_base32_character_table =
     foldl (\<lambda>char_to_value i.
        char_to_value[unat (get_base32_characters False ! i) := word_of_nat i,
                      unat (get_base32_characters True ! i) := word_of_nat i])
           (replicate 256 32) [0..<32]"

text \<open>The inner loop of the encoder; its state is \<^verbatim>\<open>length\<close> and the output.\<close>

function emit_characters :: "bytes \<Rightarrow> 32 word \<Rightarrow> nat \<Rightarrow> bytes \<Rightarrow> nat \<times> bytes" where
  "emit_characters characters c len base32 =
     (if len \<ge> 5
      then emit_characters characters c (len - 5)
             (base32 @ [characters ! unat (drop_bit (len - 5) c AND 31)])
      else (len, base32))"
  by pat_completeness auto
termination by (relation "measure (\<lambda>(_, _, len, _). len)") auto

declare emit_characters.simps [simp del]

definition base32_encode_step :: "bytes \<Rightarrow> 32 word \<times> nat \<times> bytes \<Rightarrow> byte \<Rightarrow> 32 word \<times> nat \<times> bytes" where
  "base32_encode_step characters = (\<lambda>(c, len, base32) b.
     let c' = push_bit 8 c OR ucast b in (c', emit_characters characters c' (len + 8) base32))"

definition base32_encode :: "bytes \<Rightarrow> bool \<Rightarrow> bytes" where
  "base32_encode input upper_case =
     (let characters = get_base32_characters upper_case;
          (c, len, base32) = foldl (base32_encode_step characters) (0, 0, []) input in
      if len \<noteq> 0 then base32 @ [characters ! unat (push_bit (5 - len) c AND 31)] else base32)"

definition base32_decode_step :: "byte \<Rightarrow> 32 word \<times> nat \<times> bytes \<Rightarrow> td_error + (32 word \<times> nat \<times> bytes)" where
  "base32_decode_step = (\<lambda>ch (c, len, res).
     let val = get_base32_character_table ! unat ch in
     if val = 32 then Inl (Status_error ''Wrong character in the string'')
     else let c' = push_bit 5 c OR ucast val; len' = len + 5 in
          if len' \<ge> 8
          then Inr (c', len' - 8, res @ [ucast (drop_bit (len' - 8) c' AND 255)])
          else Inr (c', len', res))"

definition base32_decode :: "bytes \<Rightarrow> td_error + bytes" where
  "base32_decode base32 =
     bind_r (fold_r base32_decode_step base32 (0, 0, [])) (\<lambda>(c, len, res).
     if c AND (push_bit len 1 - 1) \<noteq> 0 then Inl (Status_error ''Nonzero padding'') else Inr res)"

section \<open>The alphabet\<close>

definition base32_value :: "byte \<Rightarrow> byte" where
  "base32_value ch = get_base32_character_table ! unat ch"

lemma base32_characters: "i < 32 \<Longrightarrow> base32_value (get_base32_characters u ! i) = word_of_nat i"
proof -
  have "list_all (\<lambda>i. base32_value (get_base32_characters False ! i) = word_of_nat i) [0..<32]"
    "list_all (\<lambda>i. base32_value (get_base32_characters True ! i) = word_of_nat i) [0..<32]"
    by code_simp+
  then show "i < 32 \<Longrightarrow> base32_value (get_base32_characters u ! i) = word_of_nat i"
    by (cases u) (simp_all add: list_all_iff del: upt_Suc)
qed

section \<open>The bits still to be written\<close>

definition low_bits :: "'a::semiring_bit_operations \<Rightarrow> nat \<Rightarrow> bool list" where
  "low_bits w n = map (bit w) (rev [0..<n])"

lemma length_low_bits [simp]: "length (low_bits w n) = n"
  by (simp add: low_bits_def)

lemma low_bits_cong: "(\<And>i. i < n \<Longrightarrow> bit v i = bit w i) \<Longrightarrow> low_bits v n = low_bits w n"
  by (simp add: low_bits_def)

lemma low_bits_add: "low_bits w (m + n) = low_bits (drop_bit n w) m @ low_bits w n"
proof -
  have "[0..<m + n] = [0..<n] @ map (\<lambda>i. i + n) [0..<m]"
    by (simp only: upt_add_eq_append[OF le0] map_add_upt add.commute[of m n])
  then show ?thesis by (simp add: low_bits_def rev_map bit_drop_bit_eq o_def add.commute)
qed

lemma low_bits_shift:
  fixes c d :: "32 word"
  assumes "n + k \<le> 32" "\<And>i. k \<le> i \<Longrightarrow> \<not> bit d i"
  shows "low_bits (push_bit k c OR d) (n + k) = low_bits c n @ low_bits d k"
proof -
  have "low_bits (drop_bit k (push_bit k c OR d)) n = low_bits c n"
    using assms by (intro low_bits_cong) (auto simp: bit_simps)
  moreover have "low_bits (push_bit k c OR d) k = low_bits d k"
    by (intro low_bits_cong) (auto simp: bit_simps)
  ultimately show ?thesis by (simp add: low_bits_add)
qed

section \<open>Encoding writes the bits of the bytes\<close>

abbreviation bits8 :: "bytes \<Rightarrow> bool list" where
  "bits8 x \<equiv> concat (map (\<lambda>b. low_bits b 8) x)"

abbreviation bits5 :: "bytes \<Rightarrow> bool list" where
  "bits5 vs \<equiv> concat (map (\<lambda>v. low_bits v 5) vs)"

text \<open>A string of the alphabet, given by its values.\<close>

definition written :: "bool \<Rightarrow> bytes \<Rightarrow> bytes" where
  "written u vs = map (\<lambda>v. get_base32_characters u ! unat v) vs"

definition quintets :: "bytes \<Rightarrow> bool" where
  "quintets vs \<longleftrightarrow> list_all (\<lambda>v. unat v < 32) vs"

lemma five_bits:
  fixes w :: "32 word"
  shows "unat (w AND 31) < 32" "unat (ucast (w AND 31) :: byte) = unat (w AND 31)"
    "low_bits (ucast (w AND 31) :: byte) 5 = low_bits w 5"
proof -
  have m: "(31 :: 32 word) = mask 5" by (simp add: mask_eq_exp_minus_1)
  have "w AND 31 \<le> 31" by (rule word_and_le1)
  then have le: "unat (w AND 31) \<le> 31" by (simp add: word_le_nat_alt)
  then show "unat (w AND 31) < 32" by simp
  from le show "unat (ucast (w AND 31) :: byte) = unat (w AND 31)"
    by (simp add: unsigned_ucast_eq take_bit_nat_eq_self)
  show "low_bits (ucast (w AND 31) :: byte) 5 = low_bits w 5"
    by (intro low_bits_cong) (simp add: m bit_simps)
qed

lemma written_append: "written u (vs @ ws) = written u vs @ written u ws"
  by (simp add: written_def)

lemma quintets_append [simp]: "quintets (vs @ ws) \<longleftrightarrow> quintets vs \<and> quintets ws"
  by (simp add: quintets_def)

lemma emit_characters_ok:
  "\<exists>ws. emit_characters (get_base32_characters u) c len (written u vs) = (len mod 5, written u (vs @ ws)) \<and>
     quintets ws \<and> bits5 ws @ low_bits c (len mod 5) = low_bits c len"
proof (induction len arbitrary: vs rule: less_induct)
  case (less len)
  show ?case
  proof (cases "len \<ge> 5")
    case False
    then show ?thesis by (intro exI[of _ "[]"]) (simp add: emit_characters.simps quintets_def)
  next
    case True
    then obtain k where k: "len = 5 + k" using le_iff_add by blast
    let ?v = "ucast (drop_bit k c AND 31) :: byte"
    from less[of k "vs @ [?v]"] k obtain ws where
      "emit_characters (get_base32_characters u) c k (written u (vs @ [?v])) = (k mod 5, written u ((vs @ [?v]) @ ws))"
      "quintets ws" "bits5 ws @ low_bits c (k mod 5) = low_bits c k"
      by auto
    moreover have "len mod 5 = k mod 5" by (simp add: k)
    ultimately show ?thesis
      by (intro exI[of _ "?v # ws"], subst emit_characters.simps)
         (simp add: k five_bits quintets_def written_def low_bits_add[of c 5 k])
  qed
qed

lemma encode_loop_ok:
  "\<exists>c len vs. foldl (base32_encode_step (get_base32_characters u)) (0, 0, []) x = (c, len, written u vs) \<and>
     len < 5 \<and> quintets vs \<and> bits5 vs @ low_bits c len = bits8 x"
proof (induction x rule: rev_induct)
  case Nil
  then show ?case by (intro exI[of _ 0] exI[of _ "[]"]) (simp add: written_def quintets_def low_bits_def)
next
  case (snoc b x)
  then obtain c len vs where IH:
    "foldl (base32_encode_step (get_base32_characters u)) (0, 0, []) x = (c, len, written u vs)"
    "len < 5" "quintets vs" "bits5 vs @ low_bits c len = bits8 x" by blast
  let ?c = "push_bit 8 c OR ucast b :: 32 word"
  obtain ws where ws: "emit_characters (get_base32_characters u) ?c (len + 8) (written u vs) = ((len + 8) mod 5, written u (vs @ ws))"
    "quintets ws" "bits5 ws @ low_bits ?c ((len + 8) mod 5) = low_bits ?c (len + 8)"
    using emit_characters_ok[of u ?c "len + 8" vs] by blast
  have "low_bits ?c (len + 8) = low_bits c len @ low_bits (ucast b :: 32 word) 8"
    using IH(2) by (intro low_bits_shift) (auto simp: bit_simps)
  also have "low_bits (ucast b :: 32 word) 8 = low_bits b 8"
    by (intro low_bits_cong) (simp add: bit_simps)
  finally have "bits5 (vs @ ws) @ low_bits ?c ((len + 8) mod 5) = bits8 (x @ [b])"
    using ws(3) by (simp flip: IH(4))
  moreover have "(len + 8) mod 5 < 5" by simp
  ultimately show ?case
    using IH ws by (intro exI[of _ ?c] exI[of _ "(len + 8) mod 5"] exI[of _ "vs @ ws"])
      (simp add: base32_encode_step_def Let_def)
qed

text \<open>The last character is filled up with zero bits.\<close>

lemma base32_encode_ok:
  "\<exists>vs k. base32_encode x u = written u vs \<and> quintets vs \<and> k < 5 \<and> bits5 vs = bits8 x @ replicate k False"
proof -
  obtain c len vs where loop: "foldl (base32_encode_step (get_base32_characters u)) (0, 0, []) x = (c, len, written u vs)"
    "len < 5" "quintets vs" "bits5 vs @ low_bits c len = bits8 x"
    using encode_loop_ok[of u x] by blast
  show ?thesis
  proof (cases "len = 0")
    case True
    with loop show ?thesis
      by (intro exI[of _ vs] exI[of _ 0]) (simp add: base32_encode_def Let_def low_bits_def)
  next
    case False
    let ?w = "push_bit (5 - len) c" and ?v = "ucast (push_bit (5 - len) c AND 31) :: byte"
    have "low_bits (?w OR 0) (len + (5 - len)) = low_bits c len @ low_bits (0 :: 32 word) (5 - len)"
      using loop(2) by (intro low_bits_shift) simp_all
    moreover have "low_bits (0 :: 32 word) n = replicate n False" for n
      by (intro nth_equalityI) (simp_all add: low_bits_def)
    ultimately have "low_bits ?v 5 = low_bits c len @ replicate (5 - len) False"
      using loop(2) by (simp add: five_bits)
    with loop False show ?thesis
      by (intro exI[of _ "vs @ [?v]"] exI[of _ "5 - len"])
         (simp add: base32_encode_def Let_def written_def five_bits quintets_def flip: loop(4))
  qed
qed

section \<open>Decoding reads them\<close>

lemma decode_loop_ok:
  "quintets vs \<Longrightarrow> \<exists>c len res. fold_r base32_decode_step (written u vs) (0, 0, []) = Inr (c, len, res) \<and>
     len < 8 \<and> bits8 res @ low_bits c len = bits5 vs"
proof (induction vs rule: rev_induct)
  case Nil
  then show ?case by (simp add: written_def low_bits_def)
next
  case (snoc v vs)
  then obtain c len res where IH: "fold_r base32_decode_step (written u vs) (0, 0, []) = Inr (c, len, res)"
    "len < 8" "bits8 res @ low_bits c len = bits5 vs" and v: "unat v < 32"
    by (auto simp: quintets_def)
  let ?c = "push_bit 5 c OR ucast v :: 32 word"
  have hi: "\<not> bit v i" if "5 \<le> i" for i
    using v that bit_less_length[of "unat v" i 5] by (auto simp: bit_simps)
  have "low_bits ?c (len + 5) = low_bits c len @ low_bits (ucast v :: 32 word) 5"
    using IH(2) hi by (intro low_bits_shift) (auto simp: bit_simps)
  also have "low_bits (ucast v :: 32 word) 5 = low_bits v 5"
    by (intro low_bits_cong) (simp add: bit_simps)
  finally have bits: "bits8 res @ low_bits ?c (len + 5) = bits5 (vs @ [v])"
    by (simp flip: IH(3))
  have val: "get_base32_character_table ! unat (get_base32_characters u ! unat v) = v"
    using base32_characters[OF v, of u] by (simp add: base32_value_def)
  have "v \<noteq> 32" using v by auto
  then have step: "base32_decode_step (get_base32_characters u ! unat v) (c, len, res) =
      (if len + 5 \<ge> 8 then Inr (?c, len + 5 - 8, res @ [ucast (drop_bit (len + 5 - 8) ?c AND 255)])
       else Inr (?c, len + 5, res))"
    by (simp add: base32_decode_step_def Let_def val)
  have app: "fold_r base32_decode_step (written u (vs @ [v])) (0, 0, []) =
      base32_decode_step (get_base32_characters u ! unat v) (c, len, res)"
    by (simp add: written_append fold_r_append IH(1)) (simp add: written_def bind_r_def split: sum.splits)
  show ?case
  proof (cases "len + 5 \<ge> 8")
    case True
    then obtain m where m: "len + 5 = 8 + m" using le_iff_add by blast
    have "low_bits (ucast (drop_bit m ?c AND 255) :: byte) 8 = low_bits (drop_bit m ?c) 8"
    proof -
      have "(255 :: 32 word) = mask 8" by (simp add: mask_eq_exp_minus_1)
      note m8 = this
      show ?thesis by (intro low_bits_cong) (simp add: m8 bit_simps)
    qed
    moreover have "base32_decode_step (get_base32_characters u ! unat v) (c, len, res)
        = Inr (?c, m, res @ [ucast (drop_bit m ?c AND 255)])"
      by (simp only: step m) simp
    ultimately show ?thesis
      using bits[unfolded m low_bits_add] m IH(2) unfolding app by auto
  next
    case False
    with bits show ?thesis by (simp add: app step)
  qed
qed

lemma bits8_inject: "bits8 x = bits8 y \<Longrightarrow> x = y"
proof (induction x arbitrary: y)
  case Nil
  then show ?case by (cases y) (auto simp: low_bits_def)
next
  case (Cons a x)
  then obtain b y' where y: "y = b # y'" by (cases y) (auto simp: low_bits_def)
  with Cons.prems have "low_bits a 8 = low_bits b 8" "bits8 x = bits8 y'" by simp_all
  moreover from this(1) have "a = b"
    by (intro bit_word_eqI) (auto simp: low_bits_def)
  ultimately show ?case using Cons.IH y by simp
qed

lemma length_bits8: "length (bits8 x) = 8 * length x"
  by (induction x) simp_all

text \<open>
  base32, which TDLib uses for proxy secrets, is undone by its decoder: for every byte string and
  either case of the alphabet, decoding the encoded form gives the bytes back, and no set bit is lost
  at the end.
\<close>

theorem base32_roundtrip: "base32_decode (base32_encode x upper_case) = Inr x"
proof -
  obtain vs k where enc: "base32_encode x upper_case = written upper_case vs" "quintets vs" "k < 5"
    "bits5 vs = bits8 x @ replicate k False"
    using base32_encode_ok by blast
  obtain c len res where dec: "fold_r base32_decode_step (written upper_case vs) (0, 0, []) = Inr (c, len, res)"
    "len < 8" "bits8 res @ low_bits c len = bits8 x @ replicate k False"
    using decode_loop_ok[OF enc(2), of upper_case] enc(4) by auto
  from arg_cong[OF dec(3), of length] have "8 * length res + len = 8 * length x + k"
    by (simp add: length_bits8)
  with dec(2) enc(3) have len: "length res = length x" "len = k" by presburger+
  then have "bits8 res = bits8 x" "low_bits c len = replicate k False"
    using dec(3) by (simp_all add: append_eq_append_conv length_bits8)
  then have "res = x" "set (low_bits c len) \<subseteq> {False}"
    by (auto intro: bits8_inject)
  moreover from this(2) have "c AND (push_bit len 1 - 1) = 0"
    by (intro bit_word_eqI) (auto simp: low_bits_def image_subset_iff bit_and_iff bit_mask_iff simp flip: mask_eq_exp_minus_1 push_bit_eq_mult)
  ultimately show ?thesis by (simp add: base32_decode_def enc(1) dec(1))
qed

end
