(* ===== verification/Td_Utf8.thy ===== *)
theory Td_Utf8
  imports Td_Bytes
begin

text \<open>
  UTF-8 in TDLib (\<^verbatim>\<open>src/lib/td/tdutils/td/utils/utf8.h\<close>, \<^verbatim>\<open>utf8.cpp\<close>): the validity check every
  string of the interface goes through, reading and writing one character, lengths and truncation in
  characters and in UTF-16 code units. Case folding and search words depend on the Unicode tables
  and are not modelled.

  A pointer into a string is the list of bytes from there on. A \<^verbatim>\<open>CSlice\<close> is followed by a zero
  byte; reading beyond that byte is a memory error.
\<close>

section \<open>The check\<close>

text \<open>
  The loop of \<^verbatim>\<open>check_utf8\<close>; the argument is what is left of the string and its terminator. It ends
  when the byte just read was the terminator at \<^verbatim>\<open>data_end\<close>.
\<close>

fun check_utf8_loop :: "bytes \<Rightarrow> td_error + bool" where
  "check_utf8_loop [] = Inl Memory_error"
| "check_utf8_loop (a # data) =
     (if a AND 0x80 = 0 then (if data = [] then Inr True else check_utf8_loop data)
      else if a AND 0x40 = 0 then Inr False
      else case data of [] \<Rightarrow> Inl Memory_error | b # data \<Rightarrow>
      if b AND 0xC0 \<noteq> 0x80 then Inr False
      else if a AND 0x20 = 0
      then (if a AND 0x1E > 0 then check_utf8_loop data else Inr False)
      else case data of [] \<Rightarrow> Inl Memory_error | c # data \<Rightarrow>
      if c AND 0xC0 \<noteq> 0x80 then Inr False
      else if a AND 0x10 = 0
      then let x = push_bit 6 (ucast (a AND 0x0F)) OR ucast (b AND 0x20) :: 32 word in
           if x \<noteq> 0 \<and> x \<noteq> 0x360 then check_utf8_loop data else Inr False
      else case data of [] \<Rightarrow> Inl Memory_error | d # data \<Rightarrow>
      if d AND 0xC0 \<noteq> 0x80 then Inr False
      else if a AND 0x08 = 0
      then let t = push_bit 6 (ucast (a AND 0x07)) OR ucast (b AND 0x30) :: 32 word in
           if 0 < t \<and> t < 0x110 then check_utf8_loop data else Inr False
      else Inr False)"

definition check_utf8 :: "bytes \<Rightarrow> td_error + bool" where
  "check_utf8 str = check_utf8_loop (str @ [0])"

section \<open>One character\<close>

definition is_utf8_character_first_code_unit :: "byte \<Rightarrow> bool" where
  "is_utf8_character_first_code_unit c = (c AND 0xC0 \<noteq> 0x80)"

text \<open>The bytes \<^verbatim>\<open>append_utf8_character\<close> adds to its string.\<close>

definition append_utf8_character :: "bytes \<Rightarrow> 32 word \<Rightarrow> bytes" where
  "append_utf8_character str code =
     (if code \<le> 0x7F then str @ [ucast code]
      else if code \<le> 0x7FF
      then str @ [ucast (0xC0 OR drop_bit 6 code), ucast (0x80 OR (code AND 0x3F))]
      else if code \<le> 0xFFFF
      then str @ [ucast (0xE0 OR drop_bit 12 code), ucast (0x80 OR (drop_bit 6 code AND 0x3F)),
                  ucast (0x80 OR (code AND 0x3F))]
      else str @ [ucast (0xF0 OR drop_bit 18 code), ucast (0x80 OR (drop_bit 12 code AND 0x3F)),
                  ucast (0x80 OR (drop_bit 6 code AND 0x3F)), ucast (0x80 OR (code AND 0x3F))])"

text \<open>
  \<^verbatim>\<open>append_utf8_character_unsafe\<close> writes through a pointer: \<open>done\<close> and \<open>room\<close> are the buffer before and
  after the pointer, the result is the buffer split at the returned pointer.
\<close>

definition put_byte :: "byte \<Rightarrow> bytes \<times> bytes \<Rightarrow> td_error + (bytes \<times> bytes)" where
  "put_byte v = (\<lambda>(done, room). case room of [] \<Rightarrow> Inl Memory_error | _ # room \<Rightarrow> Inr (done @ [v], room))"

definition append_utf8_character_unsafe :: "bytes \<times> bytes \<Rightarrow> 32 word \<Rightarrow> td_error + (bytes \<times> bytes)" where
  "append_utf8_character_unsafe ptr code =
     (if code \<le> 0x7F then put_byte (ucast code) ptr
      else if code \<le> 0x7FF
      then fold_r put_byte [ucast (0xC0 OR drop_bit 6 code), ucast (0x80 OR (code AND 0x3F))] ptr
      else if code \<le> 0xFFFF
      then fold_r put_byte [ucast (0xE0 OR drop_bit 12 code), ucast (0x80 OR (drop_bit 6 code AND 0x3F)),
                            ucast (0x80 OR (code AND 0x3F))] ptr
      else fold_r put_byte [ucast (0xF0 OR drop_bit 18 code), ucast (0x80 OR (drop_bit 12 code AND 0x3F)),
                            ucast (0x80 OR (drop_bit 6 code AND 0x3F)), ucast (0x80 OR (code AND 0x3F))] ptr)"

definition next_byte :: "bytes \<Rightarrow> nat \<Rightarrow> td_error + 32 word" where
  "next_byte ptr i = (if i < length ptr then Inr (ucast (ptr ! i)) else Inl Memory_error)"

text \<open>\<^verbatim>\<open>next_utf8_unsafe\<close> returns the pointer behind the character and its code.\<close>

definition next_utf8_unsafe :: "bytes \<Rightarrow> td_error + (bytes \<times> 32 word)" where
  "next_utf8_unsafe ptr =
     bind_r (next_byte ptr 0) (\<lambda>a.
     if a AND 0x80 = 0 then Inr (drop 1 ptr, a)
     else if a AND 0x20 = 0
     then bind_r (next_byte ptr 1) (\<lambda>b. Inr (drop 2 ptr, push_bit 6 (a AND 0x1F) OR (b AND 0x3F)))
     else if a AND 0x10 = 0
     then bind_r (next_byte ptr 1) (\<lambda>b. bind_r (next_byte ptr 2) (\<lambda>c.
          Inr (drop 3 ptr, (push_bit 12 (a AND 0x0F) OR push_bit 6 (b AND 0x3F)) OR (c AND 0x3F))))
     else if a AND 0x08 = 0
     then bind_r (next_byte ptr 1) (\<lambda>b. bind_r (next_byte ptr 2) (\<lambda>c. bind_r (next_byte ptr 3) (\<lambda>d.
          Inr (drop 4 ptr, ((push_bit 18 (a AND 0x07) OR push_bit 12 (b AND 0x3F)) OR push_bit 6 (c AND 0x3F))
                           OR (d AND 0x3F)))))
     else Inl Check_failed)"

text \<open>
  \<^verbatim>\<open>prev_utf8_unsafe\<close> moves back to the first code unit before the pointer; \<open>before\<close> holds the bytes
  in front of the pointer, the result those in front of the returned one.
\<close>

function prev_utf8_unsafe :: "bytes \<Rightarrow> td_error + bytes" where
  "prev_utf8_unsafe before =
     (if before = [] then Inl Memory_error
      else if \<not> is_utf8_character_first_code_unit (last before) then prev_utf8_unsafe (butlast before)
      else Inr (butlast before))"
  by pat_completeness auto
termination by (relation "measure length") auto

declare prev_utf8_unsafe.simps [simp del]

section \<open>Lengths and truncation\<close>

definition utf8_length :: "bytes \<Rightarrow> nat" where
  "utf8_length str = foldl (\<lambda>result c. result + of_bool (is_utf8_character_first_code_unit c)) 0 str"

definition utf8_utf16_length :: "bytes \<Rightarrow> nat" where
  "utf8_utf16_length str =
     foldl (\<lambda>result c. result + (of_bool (is_utf8_character_first_code_unit c) + of_bool (c AND 0xF8 = 0xF0))) 0 str"

text \<open>The loops of the truncating functions, from index \<open>i\<close> on; \<^verbatim>\<open>size_t\<close> wraps around.\<close>

fun utf8_truncate_loop :: "bytes \<Rightarrow> bytes \<Rightarrow> nat \<Rightarrow> u64 \<Rightarrow> bytes" where
  "utf8_truncate_loop str [] i len = str"
| "utf8_truncate_loop str (c # cs) i len =
     (if is_utf8_character_first_code_unit c
      then (if len = 0 then take i str else utf8_truncate_loop str cs (i + 1) (len - 1))
      else utf8_truncate_loop str cs (i + 1) len)"

definition utf8_truncate :: "bytes \<Rightarrow> u64 \<Rightarrow> bytes" where
  "utf8_truncate str len =
     (if length str > unat len then utf8_truncate_loop str str 0 len else str)"

fun utf8_utf16_truncate_loop :: "bytes \<Rightarrow> bytes \<Rightarrow> nat \<Rightarrow> u64 \<Rightarrow> bytes" where
  "utf8_utf16_truncate_loop str [] i len = str"
| "utf8_utf16_truncate_loop str (c # cs) i len =
     (if is_utf8_character_first_code_unit c
      then (if len \<le> 0 then take i str
            else utf8_utf16_truncate_loop str cs (i + 1) (if c \<ge> 0xF0 then len - 1 - 1 else len - 1))
      else utf8_utf16_truncate_loop str cs (i + 1) len)"

definition utf8_utf16_truncate :: "bytes \<Rightarrow> u64 \<Rightarrow> bytes" where
  "utf8_utf16_truncate str len = utf8_utf16_truncate_loop str str 0 len"

definition utf8_substr_from :: "bytes \<Rightarrow> u64 \<Rightarrow> bytes" where
  "utf8_substr_from str offset =
     (if offset = 0 then str else drop (length (utf8_truncate str offset)) str)"

definition utf8_substr :: "bytes \<Rightarrow> u64 \<Rightarrow> u64 \<Rightarrow> bytes" where
  "utf8_substr str offset len = utf8_truncate (utf8_substr_from str offset) len"

definition utf8_utf16_substr_from :: "bytes \<Rightarrow> u64 \<Rightarrow> bytes" where
  "utf8_utf16_substr_from str offset =
     (if offset = 0 then str else drop (length (utf8_utf16_truncate str offset)) str)"

definition utf8_utf16_substr :: "bytes \<Rightarrow> u64 \<Rightarrow> u64 \<Rightarrow> bytes" where
  "utf8_utf16_substr str offset len = utf8_utf16_truncate (utf8_utf16_substr_from str offset) len"

section \<open>The specification\<close>

text \<open>
  The characters of Unicode: all numbers below \<open>0x110000\<close> but the surrogates. \<open>encode n\<close> is the UTF-8
  encoding, by division.
\<close>

definition is_character :: "nat \<Rightarrow> bool" where
  "is_character n \<longleftrightarrow> n < 0xD800 \<or> 0xE000 \<le> n \<and> n < 0x110000"

definition byte_of :: "nat \<Rightarrow> byte" where
  "byte_of n = word_of_nat n"

definition encode :: "nat \<Rightarrow> bytes" where
  "encode n = map byte_of
     (if n < 0x80 then [n]
      else if n < 0x800 then [192 + n div 64, 128 + n mod 64]
      else if n < 0x10000 then [224 + n div 4096, 128 + n div 64 mod 64, 128 + n mod 64]
      else [240 + n div 262144, 128 + n div 4096 mod 64, 128 + n div 64 mod 64, 128 + n mod 64])"

definition encode_all :: "nat list \<Rightarrow> bytes" where
  "encode_all ns = concat (map encode ns)"

end
