(* ===== verification/Td_Utf8_Facts.thy ===== *)
theory Td_Utf8_Facts
  imports Td_Utf8
begin

text \<open>
  The bit tests of the UTF-8 routines as comparisons of numbers, and with them the check and the two
  ways of writing a character in terms of the encoding.
\<close>

section \<open>Single bytes\<close>

lemma lead_byte:
  fixes a :: byte
  shows "a AND 0x80 = 0 \<longleftrightarrow> unat a < 128" "unat a \<ge> 128 \<Longrightarrow> a AND 0x40 = 0 \<longleftrightarrow> unat a < 192"
    "unat a \<ge> 192 \<Longrightarrow> a AND 0x20 = 0 \<longleftrightarrow> unat a < 224" "unat a \<ge> 224 \<Longrightarrow> a AND 0x10 = 0 \<longleftrightarrow> unat a < 240"
    "unat a \<ge> 240 \<Longrightarrow> a AND 0x08 = 0 \<longleftrightarrow> unat a < 248"
    "192 \<le> unat a \<Longrightarrow> unat a < 224 \<Longrightarrow> a AND 0x1E > 0 \<longleftrightarrow> unat a \<ge> 194"
proof -
  have "list_all (\<lambda>a :: byte. (a AND 0x80 = 0 \<longleftrightarrow> unat a < 128) \<and> (unat a \<ge> 128 \<longrightarrow> (a AND 0x40 = 0 \<longleftrightarrow> unat a < 192)) \<and>
    (unat a \<ge> 192 \<longrightarrow> (a AND 0x20 = 0 \<longleftrightarrow> unat a < 224)) \<and> (unat a \<ge> 224 \<longrightarrow> (a AND 0x10 = 0 \<longleftrightarrow> unat a < 240)) \<and>
    (unat a \<ge> 240 \<longrightarrow> (a AND 0x08 = 0 \<longleftrightarrow> unat a < 248)) \<and>
    (192 \<le> unat a \<longrightarrow> unat a < 224 \<longrightarrow> (a AND 0x1E > 0 \<longleftrightarrow> unat a \<ge> 194))) (map word_of_nat [0..<256])"
    by code_simp
  note * = all_bytes[OF this, of a]
  from * show "a AND 0x80 = 0 \<longleftrightarrow> unat a < 128" by blast
  from * show "unat a \<ge> 128 \<Longrightarrow> a AND 0x40 = 0 \<longleftrightarrow> unat a < 192" by blast
  from * show "unat a \<ge> 192 \<Longrightarrow> a AND 0x20 = 0 \<longleftrightarrow> unat a < 224" by blast
  from * show "unat a \<ge> 224 \<Longrightarrow> a AND 0x10 = 0 \<longleftrightarrow> unat a < 240" by blast
  from * show "unat a \<ge> 240 \<Longrightarrow> a AND 0x08 = 0 \<longleftrightarrow> unat a < 248" by blast
  from * show "192 \<le> unat a \<Longrightarrow> unat a < 224 \<Longrightarrow> a AND 0x1E > 0 \<longleftrightarrow> unat a \<ge> 194" by blast
qed

lemma next_byte_bits:
  fixes b :: byte
  shows "b AND 0xC0 = 0x80 \<longleftrightarrow> 128 \<le> unat b \<and> unat b < 192"
    "128 \<le> unat b \<Longrightarrow> unat b < 192 \<Longrightarrow> unat (b AND 0x20) = (if unat b < 160 then 0 else 32)"
    "128 \<le> unat b \<Longrightarrow> unat b < 192 \<Longrightarrow> unat (b AND 0x30) = (unat b - 128) div 16 * 16"
    "unat (b AND 0x3F) = unat b mod 64" "unat (b AND 0x1F) = unat b mod 32"
    "unat (b AND 0x0F) = unat b mod 16" "unat (b AND 0x07) = unat b mod 8"
    "b AND 0xF8 = 0xF0 \<longleftrightarrow> 240 \<le> unat b \<and> unat b < 248"
proof -
  have "list_all (\<lambda>b :: byte. (b AND 0xC0 = 0x80 \<longleftrightarrow> 128 \<le> unat b \<and> unat b < 192) \<and>
    (128 \<le> unat b \<longrightarrow> unat b < 192 \<longrightarrow> unat (b AND 0x20) = (if unat b < 160 then 0 else 32)) \<and>
    (128 \<le> unat b \<longrightarrow> unat b < 192 \<longrightarrow> unat (b AND 0x30) = (unat b - 128) div 16 * 16) \<and>
    unat (b AND 0x3F) = unat b mod 64 \<and> unat (b AND 0x1F) = unat b mod 32 \<and>
    unat (b AND 0x0F) = unat b mod 16 \<and> unat (b AND 0x07) = unat b mod 8 \<and>
    (b AND 0xF8 = 0xF0 \<longleftrightarrow> 240 \<le> unat b \<and> unat b < 248)) (map word_of_nat [0..<256])"
    by code_simp
  note * = all_bytes[OF this, of b]
  from * show "b AND 0xC0 = 0x80 \<longleftrightarrow> 128 \<le> unat b \<and> unat b < 192" by blast
  from * show "128 \<le> unat b \<Longrightarrow> unat b < 192 \<Longrightarrow> unat (b AND 0x20) = (if unat b < 160 then 0 else 32)" by blast
  from * show "128 \<le> unat b \<Longrightarrow> unat b < 192 \<Longrightarrow> unat (b AND 0x30) = (unat b - 128) div 16 * 16" by blast
  from * show "unat (b AND 0x3F) = unat b mod 64" by blast
  from * show "unat (b AND 0x1F) = unat b mod 32" by blast
  from * show "unat (b AND 0x0F) = unat b mod 16" by blast
  from * show "unat (b AND 0x07) = unat b mod 8" by blast
  from * show "b AND 0xF8 = 0xF0 \<longleftrightarrow> 240 \<le> unat b \<and> unat b < 248" by blast
qed

lemma first_code_unit_iff: "is_utf8_character_first_code_unit c \<longleftrightarrow> \<not> (128 \<le> unat c \<and> unat c < 192)"
  by (simp add: is_utf8_character_first_code_unit_def next_byte_bits(1))

section \<open>Joining bit fields of 32-bit words\<close>

lemma unat_push_or:
  fixes x y :: "32 word"
  assumes "unat y < 2 ^ k" "unat x * 2 ^ k + unat y < 2 ^ 32"
  shows "unat (push_bit k x OR y) = unat x * 2 ^ k + unat y"
proof -
  have "push_bit k (unat x) < 2 ^ 32" using assms by (simp add: push_bit_eq_mult)
  then have "unat (push_bit k x) = push_bit k (unat x)"
    by (simp add: unsigned_push_bit_eq take_bit_nat_eq_self)
  then show ?thesis using push_bit_or_nat[OF assms(1)] by (simp add: unsigned_or_eq)
qed

lemma unat_small_and:
  fixes w :: "32 word"
  shows "unat (w AND 0x3F) = unat w mod 64" "unat (w AND 0x1F) = unat w mod 32"
    "unat (w AND 0x0F) = unat w mod 16" "unat (w AND 0x07) = unat w mod 8"
proof -
  have m: "(0x3F :: 32 word) = mask 6" "(0x1F :: 32 word) = mask 5" "(0x0F :: 32 word) = mask 4" "(0x07 :: 32 word) = mask 3"
    by (simp_all add: mask_eq_exp_minus_1)
  show "unat (w AND 0x3F) = unat w mod 64" "unat (w AND 0x1F) = unat w mod 32"
    "unat (w AND 0x0F) = unat w mod 16" "unat (w AND 0x07) = unat w mod 8"
    by (simp_all only: m take_bit_eq_mask[symmetric] unsigned_take_bit_eq) (simp_all add: take_bit_eq_mod)
qed

lemma unat_drop_bit_div: "unat (drop_bit k (w :: 32 word)) = unat w div 2 ^ k"
  by (simp only: unat_drop_bit_eq drop_bit_eq_div[of k "unat w"])

lemma unat_ucast_32 [simp]: "unat (ucast (b :: byte) :: 32 word) = unat b"
  by (simp add: unsigned_ucast_eq take_bit_nat_eq_self less_trans[OF byte_less])

text \<open>A marker above the bits of a field.\<close>

lemma marked_byte:
  fixes w :: "32 word"
  assumes "unat w < 2 ^ k" "p * 2 ^ k + unat w < 256"
  shows "ucast (word_of_nat (p * 2 ^ k) OR w) = (word_of_nat (p * 2 ^ k + unat w) :: byte)"
proof -
  have "unat (word_of_nat q OR w) = q OR unat w" if "q < 2 ^ 32" for q
    using that by (simp add: unsigned_or_eq unat_of_nat)
  moreover have "p * 2 ^ k < 2 ^ 32" using assms(2) by simp
  ultimately have "unat (word_of_nat (p * 2 ^ k) OR w) = (p * 2 ^ k) OR unat w" by blast
  also have "\<dots> = p * 2 ^ k + unat w"
    using push_bit_or_nat[OF assms(1), of p] by (simp add: push_bit_eq_mult)
  finally have u: "unat (word_of_nat (p * 2 ^ k) OR w) = p * 2 ^ k + unat w" .
  have "ucast (word_of_nat (p * 2 ^ k) OR w) = (word_of_nat (unat (word_of_nat (p * 2 ^ k) OR w)) :: byte)"
    by simp
  then show ?thesis by (simp only: u)
qed

section \<open>Writing a character\<close>

lemma marked_bytes:
  fixes w :: "32 word"
  shows "unat w < 64 \<Longrightarrow> ucast (0x80 OR w) = (word_of_nat (128 + unat w) :: byte)"
    "unat w < 32 \<Longrightarrow> ucast (0xC0 OR w) = (word_of_nat (192 + unat w) :: byte)"
    "unat w < 16 \<Longrightarrow> ucast (0xE0 OR w) = (word_of_nat (224 + unat w) :: byte)"
    "unat w < 8 \<Longrightarrow> ucast (0xF0 OR w) = (word_of_nat (240 + unat w) :: byte)"
  using marked_byte[of w 6 2] marked_byte[of w 5 6] marked_byte[of w 4 14] marked_byte[of w 3 30] by simp_all

lemma append_utf8_character_eq:
  assumes "unat code < 0x200000"
  shows "append_utf8_character str code = str @ encode (unat code)"
proof -
  let ?n = "unat code"
  have le: "code \<le> 0x7F \<longleftrightarrow> ?n < 0x80" "code \<le> 0x7FF \<longleftrightarrow> ?n < 0x800" "code \<le> 0xFFFF \<longleftrightarrow> ?n < 0x10000"
    by (auto simp: word_le_nat_alt)
  have "unat (drop_bit 6 code AND 0x3F) = ?n div 64 mod 64" "unat (drop_bit 12 code AND 0x3F) = ?n div 4096 mod 64"
    "unat (drop_bit 6 code) = ?n div 64" "unat (drop_bit 12 code) = ?n div 4096" "unat (drop_bit 18 code) = ?n div 262144"
    by (simp_all add: unat_small_and unat_drop_bit_div)
  note u = this unat_small_and(1)[of code]
  have "ucast code = (word_of_nat ?n :: byte)" by simp
  moreover have "?n < 0x800 \<Longrightarrow> ?n div 64 < 32" "?n < 0x10000 \<Longrightarrow> ?n div 4096 < 16" "?n div 262144 < 8"
    using assms by linarith+
  ultimately show ?thesis
    by (simp add: append_utf8_character_def le encode_def byte_of_def marked_bytes u)
qed

section \<open>The check as comparisons\<close>

definition continues :: "byte \<Rightarrow> bool" where
  "continues b \<longleftrightarrow> 128 \<le> unat b \<and> unat b < 192"

lemma check_utf8_cases:
  "unat a < 128 \<Longrightarrow> check_utf8_loop (a # r) = (if r = [] then Inr True else check_utf8_loop r)"
  "128 \<le> unat a \<Longrightarrow> unat a < 192 \<Longrightarrow> check_utf8_loop (a # r) = Inr False"
  "192 \<le> unat a \<Longrightarrow> \<not> continues b \<Longrightarrow> check_utf8_loop (a # b # r) = Inr False"
  "192 \<le> unat a \<Longrightarrow> unat a < 224 \<Longrightarrow> continues b \<Longrightarrow>
     check_utf8_loop (a # b # r) = (if unat a \<ge> 194 then check_utf8_loop r else Inr False)"
  "224 \<le> unat a \<Longrightarrow> continues b \<Longrightarrow> \<not> continues c \<Longrightarrow> check_utf8_loop (a # b # c # r) = Inr False"
  "224 \<le> unat a \<Longrightarrow> unat a < 240 \<Longrightarrow> continues b \<Longrightarrow> continues c \<Longrightarrow>
     check_utf8_loop (a # b # c # r) =
     (if \<not> (unat a = 224 \<and> unat b < 160) \<and> \<not> (unat a = 237 \<and> unat b \<ge> 160) then check_utf8_loop r else Inr False)"
  "240 \<le> unat a \<Longrightarrow> continues b \<Longrightarrow> continues c \<Longrightarrow> \<not> continues d \<Longrightarrow> check_utf8_loop (a # b # c # d # r) = Inr False"
  "240 \<le> unat a \<Longrightarrow> continues b \<Longrightarrow> continues c \<Longrightarrow> continues d \<Longrightarrow>
     check_utf8_loop (a # b # c # d # r) =
     (if unat a < 245 \<and> \<not> (unat a = 240 \<and> unat b < 144) \<and> \<not> (unat a = 244 \<and> unat b \<ge> 144)
      then check_utf8_loop r else Inr False)"
proof -
  note bits = lead_byte next_byte_bits(1) continues_def
  show "unat a < 128 \<Longrightarrow> check_utf8_loop (a # r) = (if r = [] then Inr True else check_utf8_loop r)"
    "128 \<le> unat a \<Longrightarrow> unat a < 192 \<Longrightarrow> check_utf8_loop (a # r) = Inr False"
    "192 \<le> unat a \<Longrightarrow> \<not> continues b \<Longrightarrow> check_utf8_loop (a # b # r) = Inr False"
    "192 \<le> unat a \<Longrightarrow> unat a < 224 \<Longrightarrow> continues b \<Longrightarrow>
       check_utf8_loop (a # b # r) = (if unat a \<ge> 194 then check_utf8_loop r else Inr False)"
    "224 \<le> unat a \<Longrightarrow> continues b \<Longrightarrow> \<not> continues c \<Longrightarrow> check_utf8_loop (a # b # c # r) = Inr False"
    "240 \<le> unat a \<Longrightarrow> continues b \<Longrightarrow> continues c \<Longrightarrow> \<not> continues d \<Longrightarrow> check_utf8_loop (a # b # c # d # r) = Inr False"
    by (simp_all add: bits)
  show "check_utf8_loop (a # b # c # r) =
     (if \<not> (unat a = 224 \<and> unat b < 160) \<and> \<not> (unat a = 237 \<and> unat b \<ge> 160) then check_utf8_loop r else Inr False)"
    if a: "224 \<le> unat a" "unat a < 240" and b: "continues b" "continues c"
  proof -
    let ?x = "push_bit 6 (ucast (a AND 0x0F)) OR ucast (b AND 0x20) :: 32 word"
    have b20: "unat (b AND 0x20) = (if unat b < 160 then 0 else 32)"
      using b(1) next_byte_bits(2)[of b] by (simp add: continues_def)
    have "unat ?x = unat a mod 16 * 64 + (if unat b < 160 then 0 else 32)"
      by (subst unat_push_or) (simp_all add: b20 next_byte_bits(6), linarith)
    moreover have "?x = 0 \<longleftrightarrow> unat ?x = 0" "?x = 0x360 \<longleftrightarrow> unat ?x = 0x360"
      by (simp_all add: word_unat_eq_iff)
    moreover have "unat a mod 16 = unat a - 224" using a by presburger
    ultimately have "?x \<noteq> 0 \<and> ?x \<noteq> 0x360 \<longleftrightarrow> \<not> (unat a = 224 \<and> unat b < 160) \<and> \<not> (unat a = 237 \<and> unat b \<ge> 160)"
      using a by (auto split: if_splits) presburger
    with a b show ?thesis by (simp add: bits Let_def)
  qed
  show "check_utf8_loop (a # b # c # d # r) =
     (if unat a < 245 \<and> \<not> (unat a = 240 \<and> unat b < 144) \<and> \<not> (unat a = 244 \<and> unat b \<ge> 144)
      then check_utf8_loop r else Inr False)"
    if a: "240 \<le> unat a" and b: "continues b" "continues c" "continues d"
  proof (cases "unat a < 248")
    case True
    let ?t = "push_bit 6 (ucast (a AND 0x07)) OR ucast (b AND 0x30) :: 32 word"
    have b30: "unat (b AND 0x30) = (unat b - 128) div 16 * 16"
      using b(1) next_byte_bits(3)[of b] by (simp add: continues_def)
    have lt: "(unat b - 128) div 16 < 4" using b(1) unfolding continues_def by presburger
    have "unat ?t = unat a mod 8 * 64 + (unat b - 128) div 16 * 16"
    proof -
      have "unat a mod 8 < 8" by simp
      with lt have "(unat b - 128) div 16 * 16 < 2 ^ 6"
        "unat a mod 8 * 2 ^ 6 + (unat b - 128) div 16 * 16 < 2 ^ 32" by simp_all
      then show ?thesis by (subst unat_push_or) (simp_all add: b30 next_byte_bits(7))
    qed
    moreover have "0 < ?t \<longleftrightarrow> 0 < unat ?t" "?t < 0x110 \<longleftrightarrow> unat ?t < 0x110"
      by (simp_all add: word_less_nat_alt)
    ultimately have t: "0 < ?t \<and> ?t < 0x110 \<longleftrightarrow>
        0 < unat a mod 8 * 64 + (unat b - 128) div 16 * 16 \<and> unat a mod 8 * 64 + (unat b - 128) div 16 * 16 < 0x110"
      by simp
    define q where "q = (unat b - 128) div 16"
    define k where "k = unat a mod 8"
    have "unat a = 240 + k" using a True unfolding k_def by presburger
    moreover have "q = 0 \<longleftrightarrow> unat b < 144" "q < 4"
      using b(1) lt unfolding q_def continues_def by auto
    ultimately have "0 < ?t \<and> ?t < 0x110 \<longleftrightarrow>
        unat a < 245 \<and> \<not> (unat a = 240 \<and> unat b < 144) \<and> \<not> (unat a = 244 \<and> unat b \<ge> 144)"
      unfolding t q_def[symmetric] k_def[symmetric] by auto
    with a b True show ?thesis by (simp add: bits Let_def)
  qed (use a b in \<open>simp add: bits\<close>)
qed

declare check_utf8_loop.simps(2) [simp del]

end
