(* ===== verification/Td_Utf8_Props.thy ===== *)
theory Td_Utf8_Props
  imports Td_Utf8_Facts
begin

text \<open>
  The check accepts exactly the encodings of sequences of Unicode characters; reading and writing a
  character are inverse; lengths and truncation count characters and UTF-16 code units.
\<close>

section \<open>The check\<close>

lemma unat_byte [simp]: "n < 256 \<Longrightarrow> unat (byte_of n) = n"
  by (simp add: unat_of_nat byte_of_def)

lemma join64: "y < 64 \<Longrightarrow> (x * 64 + y) div 64 = (x :: nat)" "y < 64 \<Longrightarrow> (x * 64 + y) mod 64 = (y :: nat)"
  by simp_all

lemma continues_byte [simp]: "continues (byte_of (128 + n mod 64))"
proof -
  have "n mod 64 < 64" by simp
  then have "128 + n mod 64 < 256" by linarith
  then show ?thesis by (simp add: continues_def)
qed

lemma lead_bytes:
  "0x80 \<le> n \<Longrightarrow> n < 0x800 \<Longrightarrow> unat (byte_of (192 + n div 64)) = 192 + n div 64"
  "n < 0x10000 \<Longrightarrow> unat (byte_of (224 + n div 4096)) = 224 + n div 4096"
  "n < 0x200000 \<Longrightarrow> unat (byte_of (240 + n div 262144)) = 240 + n div 262144"
  "unat (byte_of (128 + m mod 64)) = 128 + m mod 64"
proof -
  have "m mod 64 < 64" by simp
  then show "unat (byte_of (128 + m mod 64)) = 128 + m mod 64" by (subst unat_byte) simp_all
qed (subst unat_byte; linarith)+

lemma check_character:
  assumes "is_character n" "r \<noteq> []"
  shows "check_utf8_loop (encode n @ r) = check_utf8_loop r"
proof -
  consider "n < 0x80" | "0x80 \<le> n" "n < 0x800" | "0x800 \<le> n" "n < 0x10000" | "0x10000 \<le> n" "n < 0x110000"
    using assms(1) unfolding is_character_def by linarith
  then show ?thesis
  proof cases
    case 1
    with assms(2) show ?thesis by (simp add: encode_def check_utf8_cases)
  next
    case 2
    then show ?thesis
      by (simp add: encode_def check_utf8_cases lead_bytes) linarith
  next
    case 3
    let ?a = "byte_of (224 + n div 4096)" and ?b = "byte_of (128 + n div 64 mod 64)"
    define l where "l = n div 64"
    have l: "n div 4096 = l div 64" "l div 64 * 64 + l mod 64 = l" "l mod 64 < 64"
      using div_mult2_eq[of n 64 64] by (simp_all add: l_def)
    have "32 \<le> l" "l < 1024" "l < 864 \<or> 896 \<le> l"
      using 3 assms(1) unfolding l_def is_character_def by linarith+
    with l have "l div 64 < 16" "\<not> (l div 64 = 0 \<and> l mod 64 < 32)" "\<not> (l div 64 = 13 \<and> l mod 64 \<ge> 32)"
      by linarith+
    moreover have "unat ?a = 224 + l div 64" "unat ?b = 128 + l mod 64"
      using 3 lead_bytes(2)[of n] lead_bytes(4)[of l] by (simp_all only: l(1) l_def[symmetric])
    ultimately show ?thesis
      using 3 check_utf8_cases(6)[of ?a ?b "byte_of (128 + n mod 64)" r]
      by (simp add: encode_def l_def[symmetric] l(1))
  next
    case 4
    let ?a = "byte_of (240 + n div 262144)" and ?b = "byte_of (128 + n div 4096 mod 64)"
    define l where "l = n div 4096"
    have l: "n div 262144 = l div 64" "l div 64 * 64 + l mod 64 = l" "l mod 64 < 64"
      using div_mult2_eq[of n 4096 64] by (simp_all add: l_def)
    have "16 \<le> l" "l < 272" using 4 unfolding l_def by linarith+
    with l have "l div 64 < 5" "\<not> (l div 64 = 0 \<and> l mod 64 < 16)" "\<not> (l div 64 = 4 \<and> l mod 64 \<ge> 16)"
      by linarith+
    moreover have "unat ?a = 240 + l div 64" "unat ?b = 128 + l mod 64"
      using lead_bytes(3)[OF less_trans[OF 4(2)]] lead_bytes(4)[of l] by (simp_all add: l(1) l_def[symmetric])
    ultimately show ?thesis
      using 4 check_utf8_cases(8)[of ?a ?b "byte_of (128 + n div 64 mod 64)" "byte_of (128 + n mod 64)" r]
      by (simp add: encode_def l_def[symmetric] l(1))
  qed
qed

lemma word_of_unat: "n = unat a \<Longrightarrow> byte_of n = a"
  by (simp add: byte_of_def)

lemma continues_low: "continues b \<Longrightarrow> unat b - 128 < 64" "continues b \<Longrightarrow> 128 + (unat b - 128) = unat b"
  by (auto simp: continues_def)

text \<open>The bytes of an accepted character are the encoding of one.\<close>

lemma two_bytes:
  assumes "194 \<le> unat a" "unat a < 224" "continues b"
  shows "\<exists>n. is_character n \<and> [a, b] = encode n"
proof -
  define n where "n = (unat a - 192) * 64 + (unat b - 128)"
  have "n div 64 = unat a - 192" "n mod 64 = unat b - 128"
    unfolding n_def by (rule join64, rule continues_low, rule assms)+
  moreover have "0x80 \<le> n" "n < 0x800"
    using assms unfolding n_def continues_def by linarith+
  ultimately have "is_character n \<and> [a, b] = encode n"
    using assms by (simp add: is_character_def encode_def word_of_unat continues_low)
  then show ?thesis by blast
qed

lemma three_bytes:
  assumes "224 \<le> unat a" "unat a < 240" "continues b" "continues c"
    and ok: "\<not> (unat a = 224 \<and> unat b < 160)" "\<not> (unat a = 237 \<and> unat b \<ge> 160)"
  shows "\<exists>n. is_character n \<and> [a, b, c] = encode n"
proof -
  define m where "m = (unat a - 224) * 64 + (unat b - 128)"
  define n where "n = m * 64 + (unat c - 128)"
  have m: "m div 64 = unat a - 224" "m mod 64 = unat b - 128"
    unfolding m_def by (rule join64, rule continues_low, rule assms)+
  have n: "n div 64 = m" "n mod 64 = unat c - 128"
    unfolding n_def by (rule join64, rule continues_low, rule assms)+
  have "32 \<le> m" "m < 864 \<or> 896 \<le> m" "m < 1024"
    using assms unfolding m_def continues_def by presburger+
  then have "0x800 \<le> n" "n < 0x10000" "n < 0xD800 \<or> 0xE000 \<le> n"
    using assms(4) unfolding n_def continues_def by linarith+
  with m n have "is_character n \<and> [a, b, c] = encode n"
    using assms div_mult2_eq[of n 64 64]
    by (simp add: is_character_def encode_def word_of_unat continues_low)
  then show ?thesis by blast
qed

lemma four_bytes:
  assumes "240 \<le> unat a" "unat a < 245" "continues b" "continues c" "continues d"
    and ok: "\<not> (unat a = 240 \<and> unat b < 144)" "\<not> (unat a = 244 \<and> unat b \<ge> 144)"
  shows "\<exists>n. is_character n \<and> [a, b, c, d] = encode n"
proof -
  define l where "l = (unat a - 240) * 64 + (unat b - 128)"
  define m where "m = l * 64 + (unat c - 128)"
  define n where "n = m * 64 + (unat d - 128)"
  have l: "l div 64 = unat a - 240" "l mod 64 = unat b - 128"
    unfolding l_def by (rule join64, rule continues_low, rule assms)+
  have m: "m div 64 = l" "m mod 64 = unat c - 128"
    unfolding m_def by (rule join64, rule continues_low, rule assms)+
  have n: "n div 64 = m" "n mod 64 = unat d - 128"
    unfolding n_def by (rule join64, rule continues_low, rule assms)+
  have "16 \<le> l" "l < 272"
    using assms unfolding l_def continues_def by linarith+
  then have "1024 \<le> m" "m < 17408" using continues_low(1)[OF assms(4)] unfolding m_def by linarith+
  then have "0x10000 \<le> n" "n < 0x110000" using continues_low(1)[OF assms(5)] unfolding n_def by linarith+
  with l m n have "is_character n \<and> [a, b, c, d] = encode n"
    using assms div_mult2_eq[of n 64 64] div_mult2_eq[of n 64 4096] div_mult2_eq[of m 64 64]
    by (simp add: is_character_def encode_def word_of_unat continues_low)
  then show ?thesis by blast
qed

text \<open>What the check rejects at once does not start with a character.\<close>

lemma not_continues_0: "\<not> continues 0"
  by (simp add: continues_def)

lemma check_first_long:
  assumes "224 \<le> unat a" "continues b"
  shows "check_utf8_loop (a # b # s @ [0]) = Inr False \<or> (\<exists>n r. is_character n \<and> a # b # s = encode n @ r)"
proof (cases "s \<noteq> [] \<and> continues (hd s)")
  case False
  with assms show ?thesis
    by (cases s; cases "unat a < 240") (simp_all add: check_utf8_cases not_continues_0)
next
  case True
  then obtain c r where c: "s = c # r" "continues c" by (cases s) auto
  show ?thesis
  proof (cases "unat a < 240")
    case three: True
    show ?thesis
    proof (cases "\<not> (unat a = 224 \<and> unat b < 160) \<and> \<not> (unat a = 237 \<and> unat b \<ge> 160)")
      case True
      with three_bytes[of a b c] three assms c obtain n where "is_character n" "[a, b, c] = encode n" by blast
      then have "is_character n \<and> a # b # s = encode n @ r" by (simp add: c(1) flip: \<open>[a, b, c] = encode n\<close>)
      then show ?thesis by blast
    next
      case False
      then show ?thesis using check_utf8_cases(6)[of a b c "r @ [0]"] three assms c by auto
    qed
  next
    case four: False
    show ?thesis
    proof (cases "r \<noteq> [] \<and> continues (hd r)")
      case False
      with four assms c show ?thesis by (cases r) (simp_all add: check_utf8_cases not_continues_0)
    next
      case True
      then obtain d q where d: "r = d # q" "continues d" by (cases r) auto
      show ?thesis
      proof (cases "unat a < 245 \<and> \<not> (unat a = 240 \<and> unat b < 144) \<and> \<not> (unat a = 244 \<and> unat b \<ge> 144)")
        case True
        with four_bytes[of a b c d] four assms c d obtain n where "is_character n" "[a, b, c, d] = encode n" by auto
        then have "is_character n \<and> a # b # s = encode n @ q"
          by (simp add: c(1) d(1) flip: \<open>[a, b, c, d] = encode n\<close>)
        then show ?thesis by blast
      next
        case False
        then show ?thesis using check_utf8_cases(8)[of a b c d "q @ [0]"] four assms c d by auto
      qed
    qed
  qed
qed

lemma check_first:
  assumes "s \<noteq> []"
  shows "check_utf8_loop (s @ [0]) = Inr False \<or> (\<exists>n r. is_character n \<and> s = encode n @ r)"
proof -
  obtain a s1 where s: "s = a # s1" using assms by (cases s) auto
  consider "unat a < 128" | "128 \<le> unat a" "unat a < 192" | "192 \<le> unat a" "s1 = [] \<or> \<not> continues (hd s1)"
    | b s2 where "192 \<le> unat a" "s1 = b # s2" "continues b"
    by (cases s1) (auto simp: not_less intro: leI)
  then show ?thesis
  proof cases
    case 1
    then have "is_character (unat a) \<and> s = encode (unat a) @ s1"
      by (simp add: is_character_def encode_def s word_of_unat)
    then show ?thesis by blast
  next
    case 2
    then show ?thesis by (simp add: s check_utf8_cases)
  next
    case 3
    then show ?thesis by (cases s1) (simp_all add: s check_utf8_cases not_continues_0)
  next
    case 4
    show ?thesis
    proof (cases "unat a < 224")
      case True
      show ?thesis
      proof (cases "194 \<le> unat a")
        case lead: True
        with True 4 two_bytes[of a b] obtain n where "is_character n" "[a, b] = encode n" by blast
        then have "is_character n \<and> s = encode n @ s2" by (simp add: s 4 flip: \<open>[a, b] = encode n\<close>)
        then show ?thesis by blast
      qed (use True 4 check_utf8_cases(4)[of a b "s2 @ [0]"] in \<open>simp add: s\<close>)
    next
      case False
      with check_first_long[of a b s2] 4 show ?thesis by (simp add: s)
    qed
  qed
qed

lemma check_utf8_encode_all: "list_all is_character ns \<Longrightarrow> check_utf8_loop (encode_all ns @ [0]) = Inr True"
proof (induction ns)
  case Nil
  then show ?case by (simp add: encode_all_def check_utf8_cases)
next
  case (Cons n ns)
  then show ?case using check_character[of n "encode_all ns @ [0]"] by (simp add: encode_all_def)
qed

lemma encode_not_empty [simp]: "encode n \<noteq> []"
  by (simp add: encode_def)

lemma check_utf8_total:
  "check_utf8_loop (s @ [0]) = Inr (\<exists>ns. list_all is_character ns \<and> s = encode_all ns)"
proof (induction s rule: length_induct)
  case (1 s)
  show ?case
  proof (cases "\<exists>ns. list_all is_character ns \<and> s = encode_all ns")
    case True
    then show ?thesis using check_utf8_encode_all by auto
  next
    case False
    have "s \<noteq> []"
    proof
      assume "s = []"
      then have "list_all is_character [] \<and> s = encode_all []" by (simp add: encode_all_def)
      with False show False by blast
    qed
    from check_first[OF this] show ?thesis
    proof
      assume "\<exists>n r. is_character n \<and> s = encode n @ r"
      then obtain n r where n: "is_character n" "s = encode n @ r" by blast
      have "\<not> (\<exists>ns. list_all is_character ns \<and> r = encode_all ns)"
      proof
        assume "\<exists>ns. list_all is_character ns \<and> r = encode_all ns"
        then obtain ns where "list_all is_character ns" "r = encode_all ns" by blast
        with n have "list_all is_character (n # ns) \<and> s = encode_all (n # ns)" by (simp add: encode_all_def)
        with False show False by blast
      qed
      moreover have "length r < length s" using n(2) by simp
      ultimately have "check_utf8_loop (r @ [0]) = Inr False" using 1 by simp
      then show ?thesis using check_character[OF n(1), of "r @ [0]"] n(2) False by simp
    qed (use False in simp)
  qed
qed

text \<open>
  C23: \<^verbatim>\<open>check_utf8\<close> accepts exactly the encodings of sequences of Unicode characters: no overlong forms,
  no surrogates, nothing beyond \<open>0x10FFFF\<close>, no truncated character. It never reads beyond the
  terminating zero byte, although it reads several bytes ahead without looking at the length.
\<close>

theorem check_utf8_characters:
  "check_utf8 s = Inr (\<exists>ns. list_all is_character ns \<and> s = encode_all ns)"
  by (simp add: check_utf8_def check_utf8_total)

end
