(* ===== verification/Td_Utf8_Text.thy ===== *)
theory Td_Utf8_Text
  imports Td_Utf8_Props
begin

text \<open>
  Reading, writing, counting and cutting UTF-8 text in terms of its characters.
\<close>

section \<open>One character\<close>

lemma ucast_and_byte:
  "(ucast (b :: byte) :: 32 word) AND 0x80 = ucast (b AND 0x80)" "(ucast b :: 32 word) AND 0x20 = ucast (b AND 0x20)"
  "(ucast b :: 32 word) AND 0x10 = ucast (b AND 0x10)" "(ucast b :: 32 word) AND 0x08 = ucast (b AND 0x08)"
  by (simp_all add: unsigned_and_eq)

lemma ucast_zero_iff: "(ucast (b :: byte) :: 32 word) = 0 \<longleftrightarrow> b = 0"
proof -
  have "(ucast b :: 32 word) = 0 \<longleftrightarrow> unat (ucast b :: 32 word) = 0" by (simp only: unat_eq_0)
  then show ?thesis by (simp add: unat_eq_0)
qed

lemma is_character_less: "is_character n \<Longrightarrow> n < 0x110000"
  by (auto simp: is_character_def)

lemma unat_character: "is_character n \<Longrightarrow> unat (word_of_nat n :: 32 word) = n"
  using is_character_less[of n] by (simp add: unat_of_nat)

lemma mod_window: "q * m \<le> x \<Longrightarrow> x < q * m + m \<Longrightarrow> x mod m = x - q * (m :: nat)"
proof -
  assume a: "q * m \<le> x" "x < q * m + m"
  then obtain r where r: "x = q * m + r" using le_iff_add by blast
  with a(2) show ?thesis by simp
qed

text \<open>The fields of a character joined again.\<close>

lemma joined_fields:
  fixes a b c d :: byte
  shows "192 \<le> unat a \<Longrightarrow> unat a < 224 \<Longrightarrow>
      unat (push_bit 6 (ucast a AND 0x1F) OR (ucast b AND 0x3F) :: 32 word) = (unat a - 192) * 64 + unat b mod 64"
    "224 \<le> unat a \<Longrightarrow> unat a < 240 \<Longrightarrow>
      unat ((push_bit 12 (ucast a AND 0x0F) OR push_bit 6 (ucast b AND 0x3F)) OR (ucast c AND 0x3F) :: 32 word)
      = ((unat a - 224) * 64 + unat b mod 64) * 64 + unat c mod 64"
    "240 \<le> unat a \<Longrightarrow> unat a < 248 \<Longrightarrow>
      unat (((push_bit 18 (ucast a AND 0x07) OR push_bit 12 (ucast b AND 0x3F)) OR push_bit 6 (ucast c AND 0x3F))
            OR (ucast d AND 0x3F) :: 32 word)
      = (((unat a - 240) * 64 + unat b mod 64) * 64 + unat c mod 64) * 64 + unat d mod 64"
proof -
  have nest: "unat (push_bit 6 x OR (ucast e AND 0x3F) :: 32 word) = unat x * 64 + unat e mod 64"
    if "unat x < 2 ^ 26" for x :: "32 word" and e :: byte
  proof -
    have "unat e mod 64 < 64" by simp
    with that show ?thesis by (subst unat_push_or) (simp_all add: unat_small_and)
  qed
  have lt: "unat e mod 64 < 64" for e :: byte by simp
  show "unat (push_bit 6 (ucast a AND 0x1F) OR (ucast b AND 0x3F) :: 32 word) = (unat a - 192) * 64 + unat b mod 64"
    if "192 \<le> unat a" "unat a < 224"
  proof -
    have x: "unat (ucast a AND 0x1F :: 32 word) = unat a - 192"
      unfolding unat_small_and unat_ucast_32 using mod_window[of 6 32 "unat a"] that by simp
    have "unat (ucast a AND 0x1F :: 32 word) < 2 ^ 26" unfolding x using byte_less[of a] by simp
    from nest[OF this, of b] show ?thesis by (simp only: x)
  qed
  show "unat ((push_bit 12 (ucast a AND 0x0F) OR push_bit 6 (ucast b AND 0x3F)) OR (ucast c AND 0x3F) :: 32 word)
      = ((unat a - 224) * 64 + unat b mod 64) * 64 + unat c mod 64" if "224 \<le> unat a" "unat a < 240"
  proof -
    let ?x = "push_bit 6 (ucast a AND 0x0F) OR (ucast b AND 0x3F) :: 32 word"
    have f: "unat (ucast a AND 0x0F :: 32 word) = unat a - 224"
      unfolding unat_small_and unat_ucast_32 using mod_window[of 14 16 "unat a"] that by simp
    have "unat (ucast a AND 0x0F :: 32 word) < 2 ^ 26" unfolding f using byte_less[of a] by simp
    from nest[OF this, of b] have x: "unat ?x = (unat a - 224) * 64 + unat b mod 64" by (simp only: f)
    have "(push_bit 12 (ucast a AND 0x0F) OR push_bit 6 (ucast b AND 0x3F)) OR (ucast c AND 0x3F)
        = push_bit 6 ?x OR (ucast c AND 0x3F :: 32 word)"
      by (simp add: push_bit_or)
    moreover have "unat ?x < 2 ^ 26" unfolding x using lt[of b] byte_less[of a] by simp
    ultimately show ?thesis using nest[of ?x c] x by metis
  qed
  show "unat (((push_bit 18 (ucast a AND 0x07) OR push_bit 12 (ucast b AND 0x3F)) OR push_bit 6 (ucast c AND 0x3F))
            OR (ucast d AND 0x3F) :: 32 word)
      = (((unat a - 240) * 64 + unat b mod 64) * 64 + unat c mod 64) * 64 + unat d mod 64"
    if "240 \<le> unat a" "unat a < 248"
  proof -
    let ?x = "push_bit 6 (ucast a AND 0x07) OR (ucast b AND 0x3F) :: 32 word"
    let ?y = "push_bit 6 ?x OR (ucast c AND 0x3F) :: 32 word"
    have f: "unat (ucast a AND 0x07 :: 32 word) = unat a - 240"
      unfolding unat_small_and unat_ucast_32 using mod_window[of 30 8 "unat a"] that by simp
    have "unat (ucast a AND 0x07 :: 32 word) < 2 ^ 26" unfolding f using byte_less[of a] by simp
    from nest[OF this, of b] have x: "unat ?x = (unat a - 240) * 64 + unat b mod 64" by (simp only: f)
    have "unat ?x < 2 ^ 26" unfolding x using lt[of b] byte_less[of a] by simp
    from nest[OF this, of c] x have y: "unat ?y = ((unat a - 240) * 64 + unat b mod 64) * 64 + unat c mod 64" by simp
    have "((push_bit 18 (ucast a AND 0x07) OR push_bit 12 (ucast b AND 0x3F)) OR push_bit 6 (ucast c AND 0x3F))
        OR (ucast d AND 0x3F) = push_bit 6 ?y OR (ucast d AND 0x3F :: 32 word)"
      by (simp add: push_bit_or)
    moreover have "unat ?y < 2 ^ 26" unfolding y using lt[of b] lt[of c] byte_less[of a] by simp
    ultimately show ?thesis using nest[of ?y d] y by metis
  qed
qed

lemma next_utf8_cases:
  "unat a < 128 \<Longrightarrow> next_utf8_unsafe (a # r) = Inr (r, ucast a)"
  "192 \<le> unat a \<Longrightarrow> unat a < 224 \<Longrightarrow> next_utf8_unsafe (a # b # r) =
     Inr (r, push_bit 6 (ucast a AND 0x1F) OR (ucast b AND 0x3F))"
  "224 \<le> unat a \<Longrightarrow> unat a < 240 \<Longrightarrow> next_utf8_unsafe (a # b # c # r) =
     Inr (r, (push_bit 12 (ucast a AND 0x0F) OR push_bit 6 (ucast b AND 0x3F)) OR (ucast c AND 0x3F))"
  "240 \<le> unat a \<Longrightarrow> unat a < 248 \<Longrightarrow> next_utf8_unsafe (a # b # c # d # r) =
     Inr (r, ((push_bit 18 (ucast a AND 0x07) OR push_bit 12 (ucast b AND 0x3F)) OR push_bit 6 (ucast c AND 0x3F))
             OR (ucast d AND 0x3F))"
  by (simp_all add: next_utf8_unsafe_def next_byte_def ucast_and_byte ucast_zero_iff lead_byte)

lemma word_eqI_unat: "unat w = n \<Longrightarrow> w = (word_of_nat n :: 32 word)"
  by auto

lemma next_encode:
  assumes "is_character n"
  shows "next_utf8_unsafe (encode n @ r) = Inr (r, word_of_nat n)"
proof -
  have lt: "n < 0x110000" using is_character_less[OF assms] .
  have low: "unat (byte_of (128 + m mod 64)) mod 64 = m mod 64" for m
    unfolding lead_bytes(4) using mod_mult_self3[of 2 64 "m mod 64"] by simp
  consider "n < 0x80" | "0x80 \<le> n" "n < 0x800" | "0x800 \<le> n" "n < 0x10000" | "0x10000 \<le> n"
    by linarith
  then show ?thesis
  proof cases
    case 1
    then have "ucast (byte_of n) = (word_of_nat n :: 32 word)" by (intro word_eqI_unat) simp
    with 1 show ?thesis by (simp add: encode_def next_utf8_cases)
  next
    case 2
    let ?a = "byte_of (192 + n div 64)" and ?b = "byte_of (128 + n mod 64)"
    have a: "unat ?a = 192 + n div 64" using 2 by (rule lead_bytes)
    have r: "192 \<le> unat ?a" "unat ?a < 224" using 2 unfolding a by linarith+
    have "unat (push_bit 6 (ucast ?a AND 0x1F) OR (ucast ?b AND 0x3F) :: 32 word) = n"
      unfolding joined_fields(1)[OF r] low unfolding a by simp
    from word_eqI_unat[OF this] next_utf8_cases(2)[OF r] show ?thesis using 2 by (simp add: encode_def)
  next
    case 3
    let ?a = "byte_of (224 + n div 4096)" and ?b = "byte_of (128 + n div 64 mod 64)" and ?c = "byte_of (128 + n mod 64)"
    have a: "unat ?a = 224 + n div 4096" using 3(2) by (rule lead_bytes)
    have r: "224 \<le> unat ?a" "unat ?a < 240" using 3 unfolding a by linarith+
    have "n div 4096 = n div 64 div 64" using div_mult2_eq[of n 64 64] by simp
    then have "unat ((push_bit 12 (ucast ?a AND 0x0F) OR push_bit 6 (ucast ?b AND 0x3F)) OR (ucast ?c AND 0x3F) :: 32 word) = n"
      unfolding joined_fields(2)[OF r] low unfolding a by simp
    from word_eqI_unat[OF this] next_utf8_cases(3)[OF r] show ?thesis using 3 by (simp add: encode_def)
  next
    case 4
    let ?a = "byte_of (240 + n div 262144)" and ?b = "byte_of (128 + n div 4096 mod 64)"
      and ?c = "byte_of (128 + n div 64 mod 64)" and ?d = "byte_of (128 + n mod 64)"
    have "n < 0x200000" using lt by simp
    then have a: "unat ?a = 240 + n div 262144" by (rule lead_bytes)
    have r: "240 \<le> unat ?a" "unat ?a < 248" using lt unfolding a by linarith+
    have "n div 262144 = n div 64 div 64 div 64" "n div 4096 = n div 64 div 64"
      using div_mult2_eq[of n 64 64] div_mult2_eq[of n 4096 64] by simp_all
    then have "unat (((push_bit 18 (ucast ?a AND 0x07) OR push_bit 12 (ucast ?b AND 0x3F)) OR push_bit 6 (ucast ?c AND 0x3F))
        OR (ucast ?d AND 0x3F) :: 32 word) = n"
      unfolding joined_fields(3)[OF r] low unfolding a by simp
    from word_eqI_unat[OF this] next_utf8_cases(4)[OF r] show ?thesis using 4 by (simp add: encode_def)
  qed
qed

text \<open>A character starts with a first code unit, and only there is one.\<close>

lemma encode_shape:
  assumes "is_character n"
  obtains c cs where "encode n = c # cs" "is_utf8_character_first_code_unit c"
    "list_all (\<lambda>b. \<not> is_utf8_character_first_code_unit b) cs" "unat c < 248" "240 \<le> unat c \<longleftrightarrow> 0x10000 \<le> n"
    "list_all (\<lambda>b. unat b < 240) cs"
proof -
  have lt: "n < 0x110000" using is_character_less[OF assms] .
  have mod: "m mod 64 < 64" for m :: nat by simp
  have cont: "\<not> is_utf8_character_first_code_unit (byte_of (128 + m mod 64))" "unat (byte_of (128 + m mod 64)) < 240" for m
    unfolding first_code_unit_iff lead_bytes(4) using mod[of m] by linarith+
  consider "n < 0x80" | "0x80 \<le> n" "n < 0x800" | "0x800 \<le> n" "n < 0x10000" | "0x10000 \<le> n"
    by linarith
  then show thesis
  proof cases
    case 1
    with that[of "byte_of n" "[]"] show thesis by (simp add: encode_def first_code_unit_iff)
  next
    case 2
    have "n div 64 < 32" using 2 by linarith
    with 2 that[of "byte_of (192 + n div 64)" "[byte_of (128 + n mod 64)]"] lead_bytes(1)[OF 2] cont show thesis
      by (simp add: encode_def first_code_unit_iff)
  next
    case 3
    have "n div 4096 < 16" using 3 by linarith
    with 3 that[of "byte_of (224 + n div 4096)" "[byte_of (128 + n div 64 mod 64), byte_of (128 + n mod 64)]"]
      lead_bytes(2)[OF 3(2)] cont show thesis
      by (simp add: encode_def first_code_unit_iff)
  next
    case 4
    have "n div 262144 < 8" "n < 0x200000" using lt by linarith+
    with 4 that[of "byte_of (240 + n div 262144)"
        "[byte_of (128 + n div 4096 mod 64), byte_of (128 + n div 64 mod 64), byte_of (128 + n mod 64)]"]
      lead_bytes(3)[of n] cont show thesis
      by (simp add: encode_def first_code_unit_iff)
  qed
qed

lemma prev_encode:
  assumes "is_character n"
  shows "prev_utf8_unsafe (s @ encode n) = Inr s"
proof -
  obtain c cs where e: "encode n = c # cs" "is_utf8_character_first_code_unit c"
    "list_all (\<lambda>b. \<not> is_utf8_character_first_code_unit b) cs"
    using encode_shape[OF assms] by metis
  from e(3) have "prev_utf8_unsafe (s @ c # cs) = Inr s"
  proof (induction cs rule: rev_induct)
    case Nil
    with e(2) show ?case by (subst prev_utf8_unsafe.simps) (simp add: butlast_append)
  next
    case (snoc b cs)
    then show ?case by (subst prev_utf8_unsafe.simps) (simp add: butlast_append)
  qed
  with e(1) show ?thesis by simp
qed

lemma put_bytes: "length vs \<le> length room \<Longrightarrow> fold_r put_byte vs (d, room) = Inr (d @ vs, drop (length vs) room)"
proof (induction vs arbitrary: d room)
  case (Cons v vs)
  then show ?case by (cases room) (simp_all add: put_byte_def)
qed simp

lemma append_unsafe_eq:
  "append_utf8_character_unsafe (d, room) code = fold_r put_byte (append_utf8_character [] code) (d, room)"
  by (simp add: append_utf8_character_unsafe_def append_utf8_character_def bind_r_def split: sum.splits)

text \<open>
  reading a character undoes writing it. Both ways of appending a character write its encoding,
  the second one into the room behind the pointer, reading at that place gives the code and the
  position behind the character, and moving back from there gives its start.
\<close>

theorem utf8_character_roundtrip:
  assumes "is_character n"
  shows "append_utf8_character str (word_of_nat n) = str @ encode n \<and>
    (\<forall>d room. length (encode n) \<le> length room \<longrightarrow>
       append_utf8_character_unsafe (d, room) (word_of_nat n) = Inr (d @ encode n, drop (length (encode n)) room)) \<and>
    next_utf8_unsafe (encode n @ r) = Inr (r, word_of_nat n) \<and>
    prev_utf8_unsafe (str @ encode n) = Inr str"
proof -
  have "unat (word_of_nat n :: 32 word) < 0x200000" using is_character_less[OF assms] unat_character[OF assms] by simp
  then have "append_utf8_character st (word_of_nat n) = st @ encode n" for st
    using append_utf8_character_eq[of "word_of_nat n" st] unat_character[OF assms] by simp
  then show ?thesis
    using next_encode[OF assms] prev_encode[OF assms] by (auto simp: append_unsafe_eq put_bytes)
qed

theorem utf8_character_roundtrip_witness:
  "next_utf8_unsafe (encode 0x20AC @ [33]) = Inr ([33], 0x20AC) \<and> prev_utf8_unsafe ([33] @ encode 0x20AC) = Inr [33]"
  using utf8_character_roundtrip[of "0x20AC" "[33]" "[33]"] by (simp add: is_character_def)

section \<open>Text\<close>

text \<open>The length of a character in UTF-16, and of a text.\<close>

definition utf16_units :: "nat \<Rightarrow> nat" where
  "utf16_units n = (if n < 0x10000 then 1 else 2)"

definition units_of :: "nat list \<Rightarrow> nat" where
  "units_of ns = sum_list (map utf16_units ns)"

lemma units_of_simps [simp]: "units_of [] = 0" "units_of (n # ns) = utf16_units n + units_of ns"
  by (simp_all add: units_of_def)

lemma foldl_count: "foldl (\<lambda>result c. result + f c) k cs = k + sum_list (map f cs)" for k :: nat
  by (induction cs arbitrary: k) simp_all

lemma no_units:
  "list_all (\<lambda>b :: byte. \<not> is_utf8_character_first_code_unit b) cs \<Longrightarrow>
   sum_list (map (\<lambda>c. of_bool (is_utf8_character_first_code_unit c)) cs) = (0 :: nat)"
  by (induction cs) simp_all

lemma no_long_units:
  "list_all (\<lambda>b :: byte. unat b < 240) cs \<Longrightarrow>
   sum_list (map (\<lambda>c. of_bool (240 \<le> unat c \<and> unat c < 248)) cs) = (0 :: nat)"
  by (induction cs) simp_all

text \<open>
  the two length functions count what they say: characters, and UTF-16 code units, two for a
  character that needs a surrogate pair.
\<close>

theorem utf8_lengths:
  assumes "list_all is_character ns"
  shows "utf8_length (encode_all ns) = length ns \<and> utf8_utf16_length (encode_all ns) = units_of ns"
  using assms
proof (induction ns)
  case Nil
  then show ?case by (simp add: encode_all_def utf8_length_def utf8_utf16_length_def)
next
  case (Cons n ns)
  obtain c cs where e: "encode n = c # cs" "is_utf8_character_first_code_unit c"
    "list_all (\<lambda>b. \<not> is_utf8_character_first_code_unit b) cs" "unat c < 248" "240 \<le> unat c \<longleftrightarrow> 0x10000 \<le> n"
    "list_all (\<lambda>b. unat b < 240) cs"
    using encode_shape[of n] Cons.prems by auto
  have "encode_all (n # ns) = c # cs @ encode_all ns" by (simp add: encode_all_def e(1))
  with Cons e show ?case
    by (simp add: utf8_length_def utf8_utf16_length_def foldl_count sum_list_addf no_units no_long_units
        next_byte_bits(8) utf16_units_def not_less)
qed

theorem utf8_lengths_witness: "utf8_utf16_length (encode_all [0x48, 0x1F600]) = 3"
  using utf8_lengths[of "[0x48, 0x1F600]"] by (simp add: is_character_def utf16_units_def)

lemma truncate_skip:
  "list_all (\<lambda>b. \<not> is_utf8_character_first_code_unit b) cs \<Longrightarrow>
   utf8_truncate_loop str (cs @ r) i len = utf8_truncate_loop str r (i + length cs) len"
  "list_all (\<lambda>b. \<not> is_utf8_character_first_code_unit b) cs \<Longrightarrow>
   utf8_utf16_truncate_loop str (cs @ r) i len = utf8_utf16_truncate_loop str r (i + length cs) len"
  by (induction cs arbitrary: i) simp_all

lemma unat_pred: "len \<noteq> 0 \<Longrightarrow> unat (len - 1 :: u64) = unat len - 1"
  by (simp add: unat_sub word_le_nat_alt unat_gt_0 Suc_leI)

lemma encode_all_simps [simp]: "encode_all [] = []" "encode_all (n # ns) = encode n @ encode_all ns"
  by (simp_all add: encode_all_def)

lemma encode_all_append: "encode_all (ms @ ns) = encode_all ms @ encode_all ns"
  by (simp add: encode_all_def)

lemma truncate_loop_eq:
  "list_all is_character ns \<Longrightarrow>
   utf8_truncate_loop (encode_all (ms @ ns)) (encode_all ns) (length (encode_all ms)) len
   = encode_all (ms @ take (unat len) ns)"
proof (induction ns arbitrary: ms len)
  case (Cons n ns)
  obtain c cs where e: "encode n = c # cs" "is_utf8_character_first_code_unit c"
    "list_all (\<lambda>b. \<not> is_utf8_character_first_code_unit b) cs"
    using Cons.prems by (auto elim: encode_shape)
  show ?case
  proof (cases "len = 0")
    case True
    then show ?thesis by (simp add: e encode_all_append)
  next
    case False
    then have "take (unat len) (n # ns) = n # take (unat (len - 1)) ns"
      by (cases "unat len") (simp_all add: unat_pred unat_eq_0)
    with False Cons.IH[of "ms @ [n]" "len - 1"] Cons.prems show ?thesis
      by (simp add: e truncate_skip encode_all_append)
  qed
qed simp

lemma length_le_encode_all: "length ns \<le> length (encode_all ns)"
proof (induction ns)
  case (Cons n ns)
  have "1 \<le> length (encode n)" by (simp add: Suc_leI)
  with Cons show ?case by simp
qed simp

lemma truncate_eq: "list_all is_character ns \<Longrightarrow> utf8_truncate (encode_all ns) len = encode_all (take (unat len) ns)"
  using truncate_loop_eq[of ns "[]" len] length_le_encode_all[of ns] by (simp add: utf8_truncate_def)

text \<open>
  C24: cutting by characters cuts between characters: truncation keeps the first \<open>length\<close> characters,
  a substring is the list of characters from the offset on, and the result is valid again.
\<close>

theorem utf8_substr_characters:
  assumes "list_all is_character ns"
  shows "utf8_truncate (encode_all ns) len = encode_all (take (unat len) ns) \<and>
    utf8_substr_from (encode_all ns) offset = encode_all (drop (unat offset) ns) \<and>
    utf8_substr (encode_all ns) offset len = encode_all (take (unat len) (drop (unat offset) ns)) \<and>
    check_utf8 (utf8_substr (encode_all ns) offset len) = Inr True"
proof -
  have from_eq: "utf8_substr_from (encode_all ns) offset = encode_all (drop (unat offset) ns)"
  proof (cases "offset = 0")
    case False
    have e: "encode_all ns = encode_all (take (unat offset) ns) @ encode_all (drop (unat offset) ns)"
      by (simp flip: encode_all_append)
    have "drop (length (encode_all (take (unat offset) ns))) (encode_all ns) = encode_all (drop (unat offset) ns)"
      by (subst e) simp
    with False show ?thesis by (simp add: utf8_substr_from_def truncate_eq[OF assms])
  qed (simp add: utf8_substr_from_def)
  have ok: "list_all is_character (drop k ns)" "list_all is_character (take j (drop k ns))" for j k
    using assms by (auto simp: list_all_iff dest: in_set_dropD in_set_takeD)
  have sub: "utf8_substr (encode_all ns) offset len = encode_all (take (unat len) (drop (unat offset) ns))"
    by (simp add: utf8_substr_def from_eq truncate_eq[OF ok(1)])
  have "check_utf8 (encode_all (take (unat len) (drop (unat offset) ns))) = Inr True"
    using ok(2)[of "unat len" "unat offset"] by (auto simp: check_utf8_characters)
  with from_eq sub truncate_eq[OF assms] show ?thesis by simp
qed

theorem utf8_substr_characters_witness: "utf8_truncate (encode_all [0x48, 0x20AC, 0x49]) 2 = encode_all [0x48, 0x20AC]"
  using utf8_substr_characters[of "[0x48, 0x20AC, 0x49]" 2 0] by (simp add: is_character_def)

text \<open>
  Cutting by code units. The counter is unsigned: when one unit is left and the next character needs
  two, it wraps around and everything is kept.
\<close>

fun keep_units :: "nat \<Rightarrow> nat list \<Rightarrow> nat list" where
  "keep_units l [] = []"
| "keep_units l (n # ns) =
     (if l = 0 then [] else if l < utf16_units n then n # ns else n # keep_units (l - utf16_units n) ns)"

lemma ge_240: "c \<ge> 0xF0 \<longleftrightarrow> 240 \<le> unat (c :: byte)"
  by (simp add: word_le_nat_alt)

lemma utf16_step:
  assumes "is_character n" "len \<noteq> 0"
  shows "utf8_utf16_truncate_loop str (encode n @ r) i len =
    utf8_utf16_truncate_loop str r (i + length (encode n)) (if n < 0x10000 then len - 1 else len - 1 - 1)"
proof -
  obtain c cs where "encode n = c # cs" "is_utf8_character_first_code_unit c"
    "list_all (\<lambda>b. \<not> is_utf8_character_first_code_unit b) cs" "240 \<le> unat c \<longleftrightarrow> 0x10000 \<le> n"
    using assms(1) by (auto elim: encode_shape)
  with assms(2) show ?thesis by (simp add: truncate_skip ge_240 not_less)
qed

lemma utf16_stop:
  assumes "is_character n"
  shows "utf8_utf16_truncate_loop str (encode n @ r) i 0 = take i str"
proof -
  obtain c cs where "encode n = c # cs" "is_utf8_character_first_code_unit c"
    using assms by (auto elim: encode_shape)
  then show ?thesis by simp
qed

lemma unat_after:
  assumes "utf16_units n \<le> unat len"
  shows "len \<noteq> 0" "unat (if n < 0x10000 then len - 1 else len - 1 - 1 :: u64) = unat len - utf16_units n"
proof -
  show ne: "len \<noteq> 0" using assms by (auto simp: utf16_units_def split: if_splits)
  show "unat (if n < 0x10000 then len - 1 else len - 1 - 1) = unat len - utf16_units n"
  proof (cases "n < 0x10000")
    case False
    then have "unat (len - 1) \<noteq> 0" using assms unat_pred[OF ne] by (simp add: utf16_units_def)
    then have "len - 1 \<noteq> 0" by (metis unat_0)
    with False unat_pred[OF this] unat_pred[OF ne] show ?thesis by (simp add: utf16_units_def del: diff_diff_eq)
  qed (simp_all add: unat_pred[OF ne] utf16_units_def)
qed

lemma wrapped_keeps_all:
  "list_all is_character ns \<Longrightarrow> units_of ns \<le> unat len \<Longrightarrow>
   utf8_utf16_truncate_loop str (encode_all ns) i len = str"
proof (induction ns arbitrary: i len)
  case (Cons n ns)
  then have "utf16_units n \<le> unat len" by simp
  note after = unat_after[OF this]
  from Cons.prems have "units_of ns \<le> unat (if n < 0x10000 then len - 1 else len - 1 - 1)"
    by (simp only: after(2)) simp
  from Cons.IH[OF _ this] Cons.prems(1) utf16_step[OF _ after(1), of n] show ?case by simp
qed simp

lemma utf16_truncate_loop_eq:
  "list_all is_character ns \<Longrightarrow> units_of ns < 2 ^ 64 - 1 \<Longrightarrow>
   utf8_utf16_truncate_loop (encode_all (ms @ ns)) (encode_all ns) (length (encode_all ms)) len
   = encode_all (ms @ keep_units (unat len) ns)"
proof (induction ns arbitrary: ms len)
  case (Cons n ns)
  then have n: "is_character n" by simp
  consider "len = 0" | "len \<noteq> 0" "unat len < utf16_units n" | "utf16_units n \<le> unat len" by linarith
  then show ?case
  proof cases
    case 1
    with n show ?thesis by (simp add: utf16_stop encode_all_append)
  next
    case 2
    have "unat len \<noteq> 0" using 2(1) by (simp only: unat_eq_0) simp
    with 2(2) have one: "unat len = 1" "\<not> n < 0x10000"
      by (auto simp: utf16_units_def split: if_splits)
    then have "len = 1" by (simp add: word_unat_eq_iff)
    then have "len - 1 - 1 = - 1" by simp
    moreover have "units_of ns \<le> unat (- 1 :: u64)" using Cons.prems by (simp add: unsigned_minus_1_eq_mask mask_eq_exp_minus_1)
    ultimately have "utf8_utf16_truncate_loop str (encode_all ns) i (len - 1 - 1) = str" for str i
      using wrapped_keeps_all[of ns "- 1"] Cons.prems by simp
    with n one 2 show ?thesis by (simp add: utf16_step)
  next
    case 3
    note after = unat_after[OF this]
    show ?thesis
      using Cons.IH[of "ms @ [n]" "if n < 0x10000 then len - 1 else len - 1 - 1"] Cons.prems 3 after
        utf16_step[OF n after(1)]
      by (simp add: encode_all_append unat_eq_0 del: if_split_asm)
  qed
qed simp

text \<open>
  C25: cutting by UTF-16 code units, for texts of fewer than \<open>2\<^sup>6\<^sup>4 - 1\<close> units. When some number of
  characters has exactly the wanted length, these are kept; a shorter text is kept whole; and when
  the wanted length ends between the two halves of a surrogate pair, nothing is cut off, however
  long the text is, because the unsigned counter wraps around.
\<close>

theorem utf16_truncate_units:
  assumes "list_all is_character ns" "units_of ns < 2 ^ 64 - 1"
  shows "(\<forall>k \<le> length ns. units_of (take k ns) = unat len \<longrightarrow>
      utf8_utf16_truncate (encode_all ns) len = encode_all (take k ns)) \<and>
    ((\<forall>k \<le> length ns. units_of (take k ns) \<noteq> unat len) \<longrightarrow>
      utf8_utf16_truncate (encode_all ns) len = encode_all ns)"
proof -
  have "(k \<le> length ns \<longrightarrow> units_of (take k ns) = l \<longrightarrow> keep_units l ns = take k ns)" for k l ns
  proof (induction ns arbitrary: k l)
    case (Cons n ns)
    show ?case
    proof (cases k)
      case (Suc j)
      have "utf16_units n \<noteq> 0" by (simp add: utf16_units_def)
      with Suc Cons.IH[of j "l - utf16_units n"] show ?thesis by auto
    qed auto
  qed simp
  moreover have "(\<forall>k \<le> length ns. units_of (take k ns) \<noteq> l) \<Longrightarrow> keep_units l ns = ns" for l ns
  proof (induction ns arbitrary: l)
    case (Cons n ns)
    have "units_of (take k ns) \<noteq> l - utf16_units n" if "k \<le> length ns" "utf16_units n \<le> l" for k
      using Cons.prems[rule_format, of "Suc k"] that by auto
    moreover have "l \<noteq> 0" using Cons.prems[rule_format, of 0] by simp
    ultimately show ?case using Cons.IH[of "l - utf16_units n"] by simp
  qed simp
  ultimately show ?thesis
    using utf16_truncate_loop_eq[OF assms, of "[]" len] by (simp add: utf8_utf16_truncate_def)
qed

theorem utf16_truncate_units_witness:
  "utf8_utf16_truncate (encode_all [0x1F600, 0x48, 0x49]) 3 = encode_all [0x1F600, 0x48] \<and>
   utf8_utf16_truncate (encode_all [0x1F600, 0x48, 0x49]) 1 = encode_all [0x1F600, 0x48, 0x49]"
proof -
  let ?ns = "[0x1F600, 0x48, 0x49] :: nat list"
  have ok: "list_all is_character ?ns" "units_of ?ns < 2 ^ 64 - 1"
    by (simp_all add: is_character_def utf16_units_def)
  have "units_of (take k ?ns) \<noteq> 1" if "k \<le> length ?ns" for k
    using that by (cases k) (simp_all add: utf16_units_def)
  then have "utf8_utf16_truncate (encode_all ?ns) 1 = encode_all ?ns"
    using utf16_truncate_units[OF ok, of 1] by simp
  moreover have "utf8_utf16_truncate (encode_all ?ns) 3 = encode_all (take 2 ?ns)"
    by (rule utf16_truncate_units[OF ok, THEN conjunct1, rule_format]) (simp_all add: utf16_units_def)
  ultimately show ?thesis by simp
qed

end
