(* ===== verification/Td_Heap.thy ===== *)
theory Td_Heap
  imports Td_Bytes "HOL-Library.Multiset"
begin

text \<open>
  The K-ary heap of TDLib (\<^verbatim>\<open>src/lib/td/tdutils/td/utils/Heap.h\<close>), from which its schedulers take the
  next timeout. An element is a key and a pointer to a \<^verbatim>\<open>HeapNode\<close>, in which the heap keeps the
  element's current index, so that the owner of the node can change the key or remove the element.

  A node is a value of the type \<open>'n\<close>, its identity; \<open>node_pos\<close> is the field \<^verbatim>\<open>pos_\<close> of every node. The array functions
  \<^verbatim>\<open>fix_up\<close>, \<^verbatim>\<open>fix_down\<close> and the private \<^verbatim>\<open>erase\<close> are called with an index in range only. Releasing
  unused capacity at the end of \<^verbatim>\<open>erase\<close> has no effect on the contents.
\<close>

section \<open>The heap\<close>

record ('k, 'n) kheap =
  heap_array :: "('k \<times> 'n) list"
  node_pos :: "'n \<Rightarrow> int"

text \<open>\<^verbatim>\<open>static_cast<int32>\<close> of an index, \<^verbatim>\<open>static_cast<size_t>\<close> of a position.\<close>

definition to_int32 :: "nat \<Rightarrow> int" where
  "to_int32 n = signed_take_bit 31 (int n)"

definition of_int32 :: "int \<Rightarrow> nat" where
  "of_int32 p = nat (p mod 2 ^ 64)"

definition in_heap :: "'n \<Rightarrow> ('k, 'n) kheap \<Rightarrow> bool" where
  "in_heap n h = (node_pos h n \<noteq> -1)"

definition is_top :: "'n \<Rightarrow> ('k, 'n) kheap \<Rightarrow> bool" where
  "is_top n h = (node_pos h n = 0)"

definition node_remove :: "'n \<Rightarrow> ('k, 'n) kheap \<Rightarrow> ('k, 'n) kheap" where
  "node_remove n h = h\<lparr>node_pos := (node_pos h)(n := -1)\<rparr>"

definition heap_empty :: "('k, 'n) kheap \<Rightarrow> bool" where
  "heap_empty h = (heap_array h = [])"

definition heap_size :: "('k, 'n) kheap \<Rightarrow> nat" where
  "heap_size h = length (heap_array h)"

definition top_key :: "('k, 'n) kheap \<Rightarrow> td_error + 'k" where
  "top_key h = (if heap_array h = [] then Inl Memory_error else Inr (fst (heap_array h ! 0)))"

definition heap_top :: "('k, 'n) kheap \<Rightarrow> td_error + 'n" where
  "heap_top h = (if heap_array h = [] then Inl Memory_error else Inr (snd (heap_array h ! 0)))"

definition get_key :: "'n \<Rightarrow> ('k, 'n) kheap \<Rightarrow> td_error + 'k" where
  "get_key n h =
     (let pos = of_int32 (node_pos h n) in
      bind_r (check_r (pos < length (heap_array h)) ()) (\<lambda>_. Inr (fst (heap_array h ! pos))))"

section \<open>Moving an element\<close>

text \<open>\<^verbatim>\<open>array_[pos] = item\<close> together with \<^verbatim>\<open>item.node_->pos_ = pos\<close>.\<close>

definition place :: "nat \<Rightarrow> 'k \<times> 'n \<Rightarrow> ('k, 'n) kheap \<Rightarrow> ('k, 'n) kheap" where
  "place pos item h =
     h\<lparr>heap_array := (heap_array h)[pos := item], node_pos := (node_pos h)(snd item := to_int32 pos)\<rparr>"

definition parent :: "nat \<Rightarrow> nat \<Rightarrow> nat" where
  "parent K pos = (pos - 1) div K"

lemma parent_less: "0 < pos \<Longrightarrow> parent K pos < pos"
  by (simp add: parent_def div_le_dividend le_less_trans[OF div_le_dividend])

function fix_up_loop :: "nat \<Rightarrow> 'k::linorder \<times> 'n \<Rightarrow> nat \<Rightarrow> ('k, 'n) kheap \<Rightarrow> nat \<times> ('k, 'n) kheap" where
  "fix_up_loop K item pos h =
     (if pos = 0 then (pos, h)
      else let parent_pos = parent K pos; parent_item = heap_array h ! parent_pos in
           if fst parent_item < fst item then (pos, h)
           else fix_up_loop K item parent_pos (place pos parent_item h))"
  by pat_completeness auto
termination by (relation "measure (\<lambda>(_, _, pos, _). pos)") (auto simp: parent_less)

declare fix_up_loop.simps [simp del]

definition fix_up :: "nat \<Rightarrow> nat \<Rightarrow> ('k::linorder, 'n) kheap \<Rightarrow> ('k, 'n) kheap" where
  "fix_up K pos h =
     (let item = heap_array h ! pos; (pos', h') = fix_up_loop K item pos h in place pos' item h')"

text \<open>The search for the least child: \<^verbatim>\<open>next_pos\<close> and \<^verbatim>\<open>next_key\<close> after the inner loop.\<close>

definition least_child :: "nat \<Rightarrow> 'k::linorder \<times> 'n \<Rightarrow> nat \<Rightarrow> ('k \<times> 'n) list \<Rightarrow> nat \<times> 'k" where
  "least_child K item pos a =
     (let left_pos = pos * K + 1; right_pos = min (left_pos + K) (length a) in
      foldl (\<lambda>(next_pos, next_key) i. let i_key = fst (a ! i) in
               if i_key < next_key then (i, i_key) else (next_pos, next_key))
            (pos, fst item) [left_pos..<right_pos])"

lemma foldl_least:
  fixes f :: "nat \<Rightarrow> 'k::linorder"
  shows "case foldl (\<lambda>(p, k) i. if f i < k then (i, f i) else (p, k)) (p0, k0) xs of (p, k) \<Rightarrow>
    (p = p0 \<and> k = k0 \<and> (\<forall>i \<in> set xs. k0 \<le> f i)) \<or>
    (p \<in> set xs \<and> k = f p \<and> f p < k0 \<and> (\<forall>i \<in> set xs. f p \<le> f i))"
proof (induction xs rule: rev_induct)
  case (snoc i xs)
  then show ?case by (auto split: prod.splits if_splits simp: not_less dest: less_imp_le intro: order_trans)
qed simp

lemma least_child_cases:
  obtains (none) "least_child K item pos a = (pos, fst item)"
      "\<And>i. pos * K < i \<Longrightarrow> i \<le> pos * K + K \<Longrightarrow> i < length a \<Longrightarrow> fst item \<le> fst (a ! i)"
  | (child) q where "least_child K item pos a = (q, fst (a ! q))" "pos * K < q" "q \<le> pos * K + K" "q < length a"
      "fst (a ! q) < fst item"
      "\<And>i. pos * K < i \<Longrightarrow> i \<le> pos * K + K \<Longrightarrow> i < length a \<Longrightarrow> fst (a ! q) \<le> fst (a ! i)"
proof -
  obtain p k where pk: "least_child K item pos a = (p, k)" by (cases "least_child K item pos a")
  have "(p = pos \<and> k = fst item \<and> (\<forall>i \<in> set [pos * K + 1..<min (pos * K + 1 + K) (length a)]. fst item \<le> fst (a ! i))) \<or>
    (p \<in> set [pos * K + 1..<min (pos * K + 1 + K) (length a)] \<and> k = fst (a ! p) \<and> fst (a ! p) < fst item \<and>
     (\<forall>i \<in> set [pos * K + 1..<min (pos * K + 1 + K) (length a)]. fst (a ! p) \<le> fst (a ! i)))"
    using foldl_least[where f = "\<lambda>i. fst (a ! i)" and ?p0.0 = pos and ?k0.0 = "fst item"
        and xs = "[pos * K + 1..<min (pos * K + 1 + K) (length a)]"] pk
    by (simp add: least_child_def Let_def split: prod.splits)
  then show thesis
    using pk by (elim disjE) (rule none child; auto)+
qed

lemma child_after: "pos * K < q \<Longrightarrow> q \<le> pos * K + K \<Longrightarrow> pos < (q::nat)"
  by (cases K) auto

function fix_down_loop :: "nat \<Rightarrow> 'k::linorder \<times> 'n \<Rightarrow> nat \<Rightarrow> ('k, 'n) kheap \<Rightarrow> nat \<times> ('k, 'n) kheap" where
  "fix_down_loop K item pos h =
     (let (next_pos, next_key) = least_child K item pos (heap_array h) in
      if next_pos = pos then (pos, h)
      else fix_down_loop K item next_pos (place pos (heap_array h ! next_pos) h))"
  by pat_completeness auto
termination
proof (relation "measure (\<lambda>(_, _, pos, h). length (heap_array h) - pos)", goal_cases)
  case (2 K item pos h x next_pos next_key)
  then have "pos < next_pos \<and> next_pos < length (heap_array h)"
    by (cases rule: least_child_cases[of K item pos "heap_array h"]) (auto intro: child_after)
  then show ?case by (auto simp: place_def intro: diff_less_mono2)
qed simp

declare fix_down_loop.simps [simp del]

definition fix_down :: "nat \<Rightarrow> nat \<Rightarrow> ('k::linorder, 'n) kheap \<Rightarrow> ('k, 'n) kheap" where
  "fix_down K pos h =
     (let item = heap_array h ! pos; (pos', h') = fix_down_loop K item pos h in place pos' item h')"

section \<open>The operations\<close>

text \<open>The private \<^verbatim>\<open>erase\<close>, by index.\<close>

definition erase_at :: "nat \<Rightarrow> nat \<Rightarrow> ('k::linorder, 'n) kheap \<Rightarrow> ('k, 'n) kheap" where
  "erase_at K pos h =
     (let a = heap_array h; h = h\<lparr>heap_array := butlast (a[pos := last a])\<rparr> in
      if pos < length (heap_array h) then fix_up K pos (fix_down K pos h) else h)"

definition heap_pop :: "nat \<Rightarrow> ('k::linorder, 'n) kheap \<Rightarrow> td_error + 'n \<times> ('k, 'n) kheap" where
  "heap_pop K h =
     bind_r (check_r (\<not> heap_empty h) ()) (\<lambda>_.
       let result = snd (heap_array h ! 0) in Inr (result, erase_at K 0 (node_remove result h)))"

definition heap_insert :: "nat \<Rightarrow> 'k::linorder \<Rightarrow> 'n \<Rightarrow> ('k, 'n) kheap \<Rightarrow> td_error + ('k, 'n) kheap" where
  "heap_insert K key n h =
     bind_r (check_r (\<not> in_heap n h) ()) (\<lambda>_.
       let h = h\<lparr>heap_array := heap_array h @ [(key, n)]\<rparr> in Inr (fix_up K (heap_size h - 1) h))"

definition heap_fix :: "nat \<Rightarrow> 'k::linorder \<Rightarrow> 'n \<Rightarrow> ('k, 'n) kheap \<Rightarrow> td_error + ('k, 'n) kheap" where
  "heap_fix K key n h =
     (let pos = of_int32 (node_pos h n) in
      bind_r (check_r (pos < heap_size h) ()) (\<lambda>_.
        let (old_key, m) = heap_array h ! pos; h = h\<lparr>heap_array := (heap_array h)[pos := (key, m)]\<rparr> in
        Inr (if key < old_key then fix_up K pos h else fix_down K pos h)))"

definition heap_erase :: "nat \<Rightarrow> 'n \<Rightarrow> ('k::linorder, 'n) kheap \<Rightarrow> td_error + ('k, 'n) kheap" where
  "heap_erase K n h =
     (let pos = of_int32 (node_pos h n); h = node_remove n h in
      bind_r (check_r (pos < heap_size h) ()) (\<lambda>_. Inr (erase_at K pos h)))"

definition heap_for_each :: "('k \<Rightarrow> 'n \<Rightarrow> 'b \<Rightarrow> 'b) \<Rightarrow> ('k, 'n) kheap \<Rightarrow> 'b \<Rightarrow> 'b" where
  "heap_for_each f h = fold (\<lambda>it. f (fst it) (snd it)) (heap_array h)"

definition heap_check :: "nat \<Rightarrow> ('k::linorder, 'n) kheap \<Rightarrow> td_error + unit" where
  "heap_check K h =
     (let a = heap_array h in
      fold_r (\<lambda>i _. fold_r (\<lambda>j _. check_r (fst (a ! i) \<le> fst (a ! j)) ())
                [i * K + 1..<min (i * K + 1 + K) (length a)] ())
        [0..<length a] ())"

end
