(* ===== verification/Td_Heap_Facts.thy ===== *)
theory Td_Heap_Facts
  imports Td_Heap
begin

text \<open>
  What moving an element does to the heap. The loops of \<open>fix_up\<close> and \<open>fix_down\<close> keep one element in
  a variable and move the others over the hole it left; the lemmas speak of the array with that
  element put into the hole, in which every round exchanges two elements.
\<close>

section \<open>Invariants\<close>

abbreviation key_at :: "('k \<times> 'n) list \<Rightarrow> nat \<Rightarrow> 'k" where
  "key_at a i \<equiv> fst (a ! i)"

definition child_ok :: "nat \<Rightarrow> ('k::linorder \<times> 'n) list \<Rightarrow> nat \<Rightarrow> bool" where
  "child_ok K a i = (key_at a (parent K i) \<le> key_at a i)"

definition heap_ordered :: "nat \<Rightarrow> ('k::linorder \<times> 'n) list \<Rightarrow> bool" where
  "heap_ordered K a = (\<forall>i. 0 < i \<longrightarrow> i < length a \<longrightarrow> child_ok K a i)"

text \<open>The children of \<open>p\<close> are not below its parent, so that exchanging the two breaks nothing.\<close>

definition grand_ok :: "nat \<Rightarrow> ('k::linorder \<times> 'n) list \<Rightarrow> nat \<Rightarrow> bool" where
  "grand_ok K a p = (\<forall>i. 0 < i \<longrightarrow> i < length a \<longrightarrow> parent K i = p \<longrightarrow> 0 < p \<longrightarrow> key_at a (parent K p) \<le> key_at a i)"

text \<open>Only \<open>p\<close> may be below its parent; only \<open>p\<close> may be out of order with parent or children.\<close>

definition up_ok :: "nat \<Rightarrow> ('k::linorder \<times> 'n) list \<Rightarrow> nat \<Rightarrow> bool" where
  "up_ok K a p = ((\<forall>i. 0 < i \<longrightarrow> i < length a \<longrightarrow> i \<noteq> p \<longrightarrow> child_ok K a i) \<and> grand_ok K a p)"

definition down_ok :: "nat \<Rightarrow> ('k::linorder \<times> 'n) list \<Rightarrow> nat \<Rightarrow> bool" where
  "down_ok K a p =
     ((\<forall>i. 0 < i \<longrightarrow> i < length a \<longrightarrow> i \<noteq> p \<longrightarrow> parent K i \<noteq> p \<longrightarrow> child_ok K a i) \<and> grand_ok K a p)"

definition positions_ok :: "('k, 'n) kheap \<Rightarrow> bool" where
  "positions_ok h =
     (distinct (map snd (heap_array h)) \<and> length (heap_array h) < 2 ^ 31 \<and>
      (\<forall>i < length (heap_array h). node_pos h (snd (heap_array h ! i)) = int i) \<and>
      (\<forall>n. n \<notin> snd ` set (heap_array h) \<longrightarrow> node_pos h n = -1))"

definition heap_inv :: "nat \<Rightarrow> ('k::linorder, 'n) kheap \<Rightarrow> bool" where
  "heap_inv K h = (heap_ordered K (heap_array h) \<and> positions_ok h)"

text \<open>The element \<open>item\<close> is held outside the array, \<open>pos\<close> is the hole, \<open>b\<close> the array with it put there.\<close>

definition held :: "nat \<Rightarrow> 'k \<times> 'n \<Rightarrow> ('k, 'n) kheap \<Rightarrow> ('k \<times> 'n) list \<Rightarrow> bool" where
  "held pos item h b =
     (pos < length (heap_array h) \<and> b = (heap_array h)[pos := item] \<and> distinct (map snd b) \<and> length b < 2 ^ 31 \<and>
      (\<forall>i < length b. i \<noteq> pos \<longrightarrow> node_pos h (snd (b ! i)) = int i) \<and>
      (\<forall>n. n \<notin> snd ` set b \<longrightarrow> node_pos h n = -1))"

section \<open>Indices\<close>

lemma to_int32_small: "n < 2 ^ 31 \<Longrightarrow> to_int32 n = int n"
  by (simp add: to_int32_def signed_take_bit_int_eq_self)

lemma of_int32_simps [simp]: "n < 2 ^ 31 \<Longrightarrow> of_int32 (int n) = n" "of_int32 (-1) = 2 ^ 64 - 1"
  by (simp_all add: of_int32_def nat_mod_distrib)

lemma parent_iff: "0 < K \<Longrightarrow> 0 < i \<Longrightarrow> parent K i = p \<longleftrightarrow> p * K < i \<and> i \<le> p * K + K"
proof -
  assume K: "0 < K" "0 < i"
  obtain j where i: "i = Suc j" using K(2) by (cases i) auto
  have "j div K * K \<le> j" "j < j div K * K + K"
    using dividend_less_div_times[of K j] div_times_less_eq_dividend[of j K] K(1) by (simp_all add: mult.commute)
  moreover have "j div K = p" if "p * K \<le> j" "j < p * K + K"
    using that by (intro div_nat_eqI) (auto simp: mult.commute)
  ultimately show ?thesis by (auto simp: parent_def i less_Suc_eq_le)
qed

lemma nth_swap:
  "i < length b \<Longrightarrow> p < length b \<Longrightarrow> q < length b \<Longrightarrow>
    b[p := b ! q, q := b ! p] ! i = (if i = q then b ! p else if i = p then b ! q else b ! i)"
  by (auto simp: nth_list_update)

lemma mset_exchange:
  "p < length b \<Longrightarrow> q < length b \<Longrightarrow> mset (b[p := b ! q, q := b ! p]) = mset b"
  by (simp add: mset_swap)

lemma heap_ordered_up: "heap_ordered K a \<Longrightarrow> 0 < K \<Longrightarrow> up_ok K a p"
  unfolding heap_ordered_def up_ok_def grand_ok_def child_ok_def
  by (metis le_less_trans less_trans not_gr0 order.trans parent_less)

lemma up_ok_ordered: "up_ok K a p \<Longrightarrow> p = 0 \<or> child_ok K a p \<Longrightarrow> heap_ordered K a"
  by (auto simp: heap_ordered_def up_ok_def)

section \<open>One round\<close>

lemma up_round:
  assumes "up_ok K b p" "0 < p" "p < length b" and q: "q = parent K p" and "key_at b p \<le> key_at b q"
  shows "up_ok K (b[p := b ! q, q := b ! p]) q"
proof -
  let ?b = "b[p := b ! q, q := b ! p]"
  have ql: "q < p" "q < length b" using assms parent_less[of p K] by auto
  have ok: "\<And>i. 0 < i \<Longrightarrow> i < length b \<Longrightarrow> i \<noteq> p \<Longrightarrow> key_at b (parent K i) \<le> key_at b i"
    using assms(1) by (simp add: up_ok_def child_ok_def)
  have grand: "\<And>i. 0 < i \<Longrightarrow> i < length b \<Longrightarrow> parent K i = p \<Longrightarrow> key_at b q \<le> key_at b i"
    using assms(1,2) q by (simp add: up_ok_def grand_ok_def)
  have par: "\<And>i. 0 < i \<Longrightarrow> i < length b \<Longrightarrow> parent K i < length b" using parent_less less_trans by blast
  have "child_ok K ?b i" if i: "0 < i" "i < length b" "i \<noteq> q" for i
    unfolding child_ok_def nth_swap[OF i(2) assms(3) ql(2)] nth_swap[OF par[OF i(1,2)] assms(3) ql(2)]
    using i ok[OF i(1,2)] grand[OF i(1,2)] assms(5) ql q by (auto intro: order_trans)
  moreover have "grand_ok K ?b q"
    unfolding grand_ok_def
  proof (intro allI impI)
    fix i assume i: "0 < i" "i < length ?b" "parent K i = q" "0 < q"
    have l: "i < length b" using i(2) by simp
    have pq: "parent K q < q" using i(4) by (rule parent_less)
    have "key_at b (parent K q) \<le> key_at b q" using ok[of q] i(4) ql by simp
    moreover have "i \<noteq> q" using i parent_less[of i K] by auto
    ultimately show "key_at ?b (parent K q) \<le> key_at ?b i"
      using nth_swap[OF l assms(3) ql(2)] nth_swap[OF par[OF i(4) ql(2)] assms(3) ql(2)] ok[OF i(1) l] i(3) pq ql
      by (auto intro: order_trans)
  qed
  ultimately show ?thesis by (simp add: up_ok_def)
qed

lemma down_round:
  assumes "down_ok K b p" "q < length b" "0 < q" and p: "parent K q = p" and "key_at b q < key_at b p"
    and least: "\<And>i. 0 < i \<Longrightarrow> i < length b \<Longrightarrow> parent K i = p \<Longrightarrow> key_at b q \<le> key_at b i"
  shows "down_ok K (b[p := b ! q, q := b ! p]) q" "child_ok K (b[p := b ! q, q := b ! p]) q"
proof -
  let ?b = "b[p := b ! q, q := b ! p]"
  have pl: "p < q" "p < length b" using assms parent_less[of q K] by auto
  have ok: "\<And>i. 0 < i \<Longrightarrow> i < length b \<Longrightarrow> i \<noteq> p \<Longrightarrow> parent K i \<noteq> p \<Longrightarrow> key_at b (parent K i) \<le> key_at b i"
    using assms(1) by (simp add: down_ok_def child_ok_def)
  have grand: "0 < p \<Longrightarrow> key_at b (parent K p) \<le> key_at b q"
    using assms(1-3) p by (auto simp: down_ok_def grand_ok_def)
  have par: "\<And>i. 0 < i \<Longrightarrow> i < length b \<Longrightarrow> parent K i < length b" using parent_less less_trans by blast
  have "child_ok K ?b i" if i: "0 < i" "i < length b" "parent K i \<noteq> q" for i
    unfolding child_ok_def nth_swap[OF i(2) pl(2) assms(2)] nth_swap[OF par[OF i(1,2)] pl(2) assms(2)]
    using i ok[OF i(1,2)] grand least[OF i(1,2)] assms(5) pl p parent_less[OF i(1), of K] by (auto intro: order_trans)
  moreover have "grand_ok K ?b q"
    unfolding grand_ok_def
  proof (intro allI impI)
    fix i assume i: "0 < i" "i < length ?b" "parent K i = q"
    have l: "i < length b" using i(2) by simp
    have "q < i" using parent_less[OF i(1), of K] i(3) by simp
    moreover have "key_at b q \<le> key_at b i" using ok[OF i(1) l] i(3) pl \<open>q < i\<close> by auto
    ultimately show "key_at ?b (parent K q) \<le> key_at ?b i"
      using nth_swap[OF l pl(2) assms(2)] nth_swap[OF pl(2) pl(2) assms(2)] pl p by auto
  qed
  ultimately show "down_ok K ?b q" by (simp add: down_ok_def)
  show "child_ok K ?b q"
    using nth_swap[OF assms(2) pl(2) assms(2)] nth_swap[OF pl(2) pl(2) assms(2)] pl p assms(5)
    by (auto simp: child_ok_def)
qed

section \<open>The hole\<close>

lemma held_move:
  assumes "held pos item h b" "q < length b" "q \<noteq> pos"
  shows "held q item (place pos (heap_array h ! q) h) (b[pos := b ! q, q := b ! pos])"
proof -
  let ?a = "heap_array h" and ?b = "b[pos := b ! q, q := b ! pos]"
  have p: "pos < length ?a" "length b = length ?a" and b: "b = ?a[pos := item]" and d: "distinct (map snd b)"
    using assms(1) by (auto simp: held_def)
  have at: "b ! pos = item" "b ! q = ?a ! q" using p assms(2,3) by (auto simp: b nth_list_update)
  have m: "mset ?b = mset b" using p assms(2) by (simp add: mset_swap)
  have set: "set ?b = set b" using m by (rule mset_eq_setD)
  have ds: "distinct (map snd ?b)" using d mset_eq_imp_distinct_iff[of "map snd ?b" "map snd b"] m by (metis mset_map)
  have other: "snd (b ! i) \<noteq> snd (b ! q)" if "i < length b" "i \<noteq> q" for i
    using d that assms(2) by (simp add: distinct_conv_nth)
  have "node_pos (place pos (?a ! q) h) (snd (?b ! i)) = int i" if i: "i < length b" "i \<noteq> q" for i
    using i other[OF i] nth_swap[OF i(1) _ assms(2), of pos] assms(1) p at(2)
    by (auto simp: place_def held_def to_int32_small)
  moreover have "node_pos (place pos (?a ! q) h) n = -1" if "n \<notin> snd ` set b" for n
    using that assms p at(2) nth_mem[OF assms(2)] by (auto simp: place_def held_def)
  moreover have "?b = (?a[pos := ?a ! q])[q := item]" by (simp only: at, simp add: b)
  ultimately show ?thesis
    using ds set assms(1,2) p by (auto simp: held_def place_def)
qed

lemma held_fill:
  assumes "held pos item h b"
  shows "heap_array (place pos item h) = b" "positions_ok (place pos item h)"
proof -
  have p: "pos < length b" "b ! pos = item" using assms by (auto simp: held_def)
  show "heap_array (place pos item h) = b" using assms by (simp add: place_def held_def)
  moreover have "snd (b ! i) \<noteq> snd item" if "i < length b" "i \<noteq> pos" for i
  proof -
    have "distinct (map snd b)" using assms unfolding held_def by blast
    then have "map snd b ! i \<noteq> map snd b ! pos" using that p(1) by (metis length_map nth_eq_iff_index_eq)
    then show ?thesis using that p by simp
  qed
  moreover have "snd item \<in> snd ` set b" using nth_mem[OF p(1)] p(2) by auto
  ultimately show "positions_ok (place pos item h)"
    using assms p by (auto simp: positions_ok_def held_def place_def to_int32_small)
qed

section \<open>The loops\<close>

lemma held_start:
  assumes "positions_ok h" "pos < length (heap_array h)" "h' = h\<lparr>heap_array := (heap_array h)[pos := (k, snd (heap_array h ! pos))]\<rparr>"
  shows "held pos (k, snd (heap_array h ! pos)) h' (heap_array h')"
proof -
  have "map snd (heap_array h') = map snd (heap_array h)"
    using assms(2) by (simp add: assms(3) map_update list_update_same_conv)
  moreover from this have "snd ` set (heap_array h') = snd ` set (heap_array h)" by (metis image_set)
  ultimately show ?thesis
    using assms by (auto simp: held_def positions_ok_def)
qed

lemma fix_up_loop_ok:
  assumes "held pos item h b" "up_ok K b pos"
  obtains p' h' b' where "fix_up_loop K item pos h = (p', h')" "held p' item h' b'" "mset b' = mset b" "heap_ordered K b'"
  using assms
proof (induction K item pos h arbitrary: thesis b rule: fix_up_loop.induct)
  case (1 K item pos h)
  have p: "pos < length b" "b ! pos = item" "length b = length (heap_array h)" using 1(3) by (auto simp: held_def)
  show ?case
  proof (cases "pos = 0 \<or> key_at (heap_array h) (parent K pos) < fst item")
    case True
    have "pos = 0 \<or> child_ok K b pos"
    proof (cases "pos = 0")
      case False
      then have "b ! parent K pos = heap_array h ! parent K pos" using 1(3) parent_less[of pos K] by (auto simp: held_def)
      then show ?thesis using True False p by (simp add: child_ok_def)
    qed simp
    then show ?thesis
      using 1(2)[OF _ 1(3) refl] up_ok_ordered[OF 1(4)] True by (auto simp: fix_up_loop.simps[of K item pos])
  next
    case False
    define q where "q = parent K pos"
    have q: "0 < pos" "q < pos" "q < length b" "b ! q = heap_array h ! q"
      using False p 1(3) parent_less[of pos K] by (auto simp: q_def held_def)
    have le: "key_at b q \<ge> key_at b pos" using False q p by (simp add: q_def not_less)
    have step: "fix_up_loop K item pos h = fix_up_loop K item q (place pos (heap_array h ! q) h)"
      using False by (simp add: fix_up_loop.simps[of K item pos h] q_def Let_def)
    have m: "mset (b[pos := b ! q, q := b ! pos]) = mset b" using p q by (intro mset_exchange) simp_all
    obtain p' h' b' where "fix_up_loop K item q (place pos (heap_array h ! q) h) = (p', h')" "held p' item h' b'"
        "mset b' = mset (b[pos := b ! q, q := b ! pos])" "heap_ordered K b'"
      using 1(1)[OF _ q_def refl _ _ held_move[OF 1(3), of q] up_round[OF 1(4) q(1) p(1) q_def le]] False q p
      by (auto simp: q_def)
    then show ?thesis using 1(2) m step by simp
  qed
qed

lemma fix_down_loop_ok:
  assumes "held pos item h b" "down_ok K b pos" "0 < K"
  obtains p' h' b' where "fix_down_loop K item pos h = (p', h')" "held p' item h' b'" "mset b' = mset b"
    "up_ok K b' p'" "p' \<noteq> pos \<or> child_ok K b pos \<Longrightarrow> child_ok K b' p'"
  using assms
proof (induction K item pos h arbitrary: thesis b rule: fix_down_loop.induct)
  case (1 K item pos h)
  let ?a = "heap_array h"
  have p: "pos < length b" "b ! pos = item" "length b = length ?a" and other: "\<And>i. i \<noteq> pos \<Longrightarrow> b ! i = ?a ! i"
    using 1(3) by (auto simp: held_def)
  have after: "i \<noteq> pos \<and> pos * K < i \<and> i \<le> pos * K + K" if "0 < i" "parent K i = pos" for i
    using parent_iff[OF 1(5) that(1), of pos] parent_less[OF that(1), of K] that(2) by simp
  show ?case
  proof (cases rule: least_child_cases[of K item pos ?a])
    case none
    have "child_ok K b i" if "0 < i" "i < length b" "parent K i = pos" for i
      using none(2)[of i] after[OF that(1,3)] that p other[of i] by (simp add: child_ok_def)
    then have "up_ok K b pos" using 1(4) by (auto simp: up_ok_def down_ok_def)
    then show ?thesis
      using 1(2)[OF _ 1(3) refl] none(1) by (simp add: fix_down_loop.simps[of K item pos])
  next
    case (child q)
    have q: "0 < q" "q < length b" "q \<noteq> pos" "parent K q = pos"
      using child p parent_iff[OF 1(5), of q pos] child_after[of pos K q] by auto
    have bq: "b ! q = ?a ! q" using other q by simp
    have lt: "key_at b q < key_at b pos" using child(5) bq p by simp
    have least: "key_at b q \<le> key_at b i" if "0 < i" "i < length b" "parent K i = pos" for i
      using child(6)[of i] after[OF that(1,3)] that p other[of i] bq by simp
    note round = down_round[OF 1(4) q(2,1,4) lt least]
    have step: "fix_down_loop K item pos h = fix_down_loop K item q (place pos (?a ! q) h)"
      using child(1) q(3) by (simp add: fix_down_loop.simps[of K item pos h])
    have m: "mset (b[pos := b ! q, q := b ! pos]) = mset b" using p q by (intro mset_exchange) simp_all
    obtain p' h' b' where "fix_down_loop K item q (place pos (?a ! q) h) = (p', h')" "held p' item h' b'"
        "mset b' = mset (b[pos := b ! q, q := b ! pos])" "up_ok K b' p'" "child_ok K b' p'"
      by (rule 1(1)[OF child(1)[symmetric] refl q(3) _ held_move[OF 1(3) q(2,3)] round(1) 1(5)])
        (use round(2) in blast)
    then show ?thesis using 1(2) m step by simp
  qed
qed

section \<open>Sifting\<close>

lemma held_at:
  assumes "positions_ok h" "pos < length (heap_array h)"
  shows "held pos (heap_array h ! pos) h (heap_array h)"
  using held_start[OF assms, of h "fst (heap_array h ! pos)"] by (cases h) simp

lemma held_item: "held pos item h (heap_array h) \<Longrightarrow> heap_array h ! pos = item"
  unfolding held_def by (metis nth_list_update_eq)

lemma fix_up_ok:
  assumes "held pos item h (heap_array h)" "up_ok K (heap_array h) pos"
  shows "heap_inv K (fix_up K pos h)" "mset (heap_array (fix_up K pos h)) = mset (heap_array h)"
proof -
  obtain p' h' b' where l: "fix_up_loop K item pos h = (p', h')" "held p' item h' b'"
    "mset b' = mset (heap_array h)" "heap_ordered K b'"
    by (rule fix_up_loop_ok[OF assms])
  then show "heap_inv K (fix_up K pos h)" "mset (heap_array (fix_up K pos h)) = mset (heap_array h)"
    using held_fill[OF l(2)] by (simp_all add: fix_up_def held_item[OF assms(1)] heap_inv_def)
qed

lemma fix_down_ok:
  assumes "held pos item h (heap_array h)" "down_ok K (heap_array h) pos" "0 < K"
  shows "positions_ok (fix_down K pos h)" "mset (heap_array (fix_down K pos h)) = mset (heap_array h)"
    "up_ok K (heap_array (fix_down K pos h)) pos"
    "child_ok K (heap_array h) pos \<Longrightarrow> heap_inv K (fix_down K pos h)"
proof -
  obtain p' h' b' where l: "fix_down_loop K item pos h = (p', h')" "held p' item h' b'"
    "mset b' = mset (heap_array h)" "up_ok K b' p'" "p' \<noteq> pos \<or> child_ok K (heap_array h) pos \<Longrightarrow> child_ok K b' p'"
    using fix_down_loop_ok[OF assms] by blast
  have eq: "fix_down K pos h = place p' item h'" by (simp add: fix_down_def held_item[OF assms(1)] l(1))
  have ord: "p' \<noteq> pos \<or> child_ok K (heap_array h) pos \<Longrightarrow> heap_ordered K b'"
    using l(4,5) up_ok_ordered by blast
  show "positions_ok (fix_down K pos h)" "mset (heap_array (fix_down K pos h)) = mset (heap_array h)"
    using held_fill[OF l(2)] l(3) by (simp_all add: eq)
  show "up_ok K (heap_array (fix_down K pos h)) pos"
    using held_fill[OF l(2)] l(4) ord heap_ordered_up[OF _ assms(3)] by (cases "p' = pos") (simp_all add: eq)
  show "child_ok K (heap_array h) pos \<Longrightarrow> heap_inv K (fix_down K pos h)"
    using held_fill[OF l(2)] ord by (simp add: eq heap_inv_def)
qed

text \<open>An element put at an inner index of an ordered array, in place of the one there.\<close>

lemma up_ok_decrease:
  assumes "heap_ordered K a" "pos < length a" "k \<le> key_at a pos"
  shows "up_ok K (a[pos := (k, n)]) pos"
  using assms
  unfolding up_ok_def grand_ok_def child_ok_def heap_ordered_def
  by (auto simp: nth_list_update parent_less dest: parent_less[of _ K] intro: order_trans)

lemma parent_neq: "0 < i \<Longrightarrow> parent K i \<noteq> i"
  using parent_less[of i K] by simp

lemma down_ok_update:
  assumes "heap_ordered K a" "pos < length a"
  shows "down_ok K (a[pos := it]) pos"
proof -
  have ok: "\<And>i. 0 < i \<Longrightarrow> i < length a \<Longrightarrow> key_at a (parent K i) \<le> key_at a i"
    using assms(1) by (simp add: heap_ordered_def child_ok_def)
  have "key_at a (parent K pos) \<le> key_at a i" if "0 < i" "i < length a" "parent K i = pos" "0 < pos" for i
    using ok[OF that(1,2)] ok[OF that(4) assms(2)] that(3) by simp
  then show ?thesis
    using ok parent_neq[of _ K] parent_neq[of _ K, symmetric] assms(2) by (auto simp: down_ok_def grand_ok_def child_ok_def nth_list_update)
qed

lemma without_last:
  assumes "pos < length a"
  shows "mset a = add_mset (a ! pos) (mset (butlast (a[pos := last a])))"
    "i \<noteq> pos \<Longrightarrow> i < length a - 1 \<Longrightarrow> butlast (a[pos := last a]) ! i = a ! i"
    "pos < length a - 1 \<Longrightarrow> butlast (a[pos := last a]) = (butlast a)[pos := last a]"
    "\<not> pos < length a - 1 \<Longrightarrow> butlast (a[pos := last a]) = butlast a"
proof -
  let ?b = "a[pos := last a]"
  have ne: "a \<noteq> []" "?b \<noteq> []" using assms by auto
  have lb: "last ?b = last a" using ne assms by (auto simp: last_conv_nth nth_list_update)
  have "mset ?b = add_mset (last a) (mset (butlast ?b))"
    using arg_cong[OF append_butlast_last_id[OF ne(2)], of mset] lb by simp
  moreover have "mset ?b = add_mset (last a) (mset a - {#a ! pos#})" using assms by (rule mset_update)
  ultimately show "mset a = add_mset (a ! pos) (mset (butlast ?b))"
    using insert_DiffM[of "a ! pos" "mset a"] nth_mem[OF assms] by simp
  show "i \<noteq> pos \<Longrightarrow> i < length a - 1 \<Longrightarrow> butlast ?b ! i = a ! i" by (simp add: nth_butlast)
  show "pos < length a - 1 \<Longrightarrow> butlast ?b = (butlast a)[pos := last a]"
    by (auto simp: butlast_list_update)
  show "\<not> pos < length a - 1 \<Longrightarrow> butlast ?b = butlast a"
    using assms by (auto simp: butlast_list_update)
qed

lemma butlast_ordered: "heap_ordered K a \<Longrightarrow> heap_ordered K (butlast a)"
proof -
  assume a: "heap_ordered K a"
  have "child_ok K (butlast a) i" if "0 < i" "i < length (butlast a)" for i
    using a that parent_less[of i K] by (simp add: heap_ordered_def child_ok_def nth_butlast)
  then show ?thesis by (simp add: heap_ordered_def)
qed

lemma erase_at_ok:
  assumes "heap_inv K h" "pos < length (heap_array h)" "0 < K" and n: "n = snd (heap_array h ! pos)"
  shows "heap_inv K (erase_at K pos (node_remove n h))"
    "mset (heap_array h) = add_mset (heap_array h ! pos) (mset (heap_array (erase_at K pos (node_remove n h))))"
proof -
  let ?a = "heap_array h"
  define b where "b = butlast (?a[pos := last ?a])"
  define g where "g = node_remove n h\<lparr>heap_array := b\<rparr>"
  note last = without_last[OF assms(2), folded b_def]
  have g: "heap_array g = b" "\<And>m. node_pos g m = (if m = n then -1 else node_pos h m)"
    by (simp_all add: g_def node_remove_def)
  have m: "mset (map snd ?a) = mset (n # map snd b)" using arg_cong[OF last(1), of "image_mset snd"] by (simp add: n)
  have d: "distinct (n # map snd b)"
    using mset_eq_imp_distinct_iff[OF m] assms(1) by (simp add: heap_inv_def positions_ok_def)
  have set: "snd ` set ?a = insert n (snd ` set b)" using mset_eq_setD[OF m] by simp
  have at: "node_pos g (snd (b ! i)) = int i" if "i < length b" "i \<noteq> pos" for i
  proof -
    have "snd (b ! i) \<noteq> n" using d that(1) nth_mem[of i "map snd b"] by auto
    then show ?thesis using that last(2)[of i] assms(1) by (simp add: g(2) b_def heap_inv_def positions_ok_def)
  qed
  have free: "node_pos g k = -1" if "k \<notin> snd ` set b" for k
    using that set assms(1) by (auto simp: g(2) heap_inv_def positions_ok_def)
  have len: "length b = length ?a - 1" "length b < 2 ^ 31" using assms(1) by (auto simp: b_def heap_inv_def positions_ok_def)
  have ord: "heap_ordered K (butlast ?a)" using assms(1) by (intro butlast_ordered) (simp add: heap_inv_def)
  have eq: "erase_at K pos (node_remove n h) = (if pos < length b then fix_up K pos (fix_down K pos g) else g)"
    by (simp add: erase_at_def Let_def g_def b_def node_remove_def)
  have "heap_inv K (erase_at K pos (node_remove n h)) \<and> mset (heap_array (erase_at K pos (node_remove n h))) = mset b"
  proof (cases "pos < length b")
    case True
    have "held pos (b ! pos) g (heap_array g)" using True d at free len(2) by (simp add: held_def g(1))
    moreover have "down_ok K (heap_array g) pos"
      using down_ok_update[OF ord, of pos "last ?a"] True last(3) len(1) by (simp add: g(1))
    ultimately have down: "positions_ok (fix_down K pos g)" "mset (heap_array (fix_down K pos g)) = mset b"
      "up_ok K (heap_array (fix_down K pos g)) pos"
      using fix_down_ok assms(3) g(1) by metis+
    have l: "pos < length (heap_array (fix_down K pos g))" using True mset_eq_length[OF down(2)] by simp
    show ?thesis using True fix_up_ok[OF held_at[OF down(1) l] down(3)] down(2) by (simp add: eq)
  next
    case False
    then have "heap_inv K g"
      using ord last(4) d at free len by (simp add: heap_inv_def positions_ok_def g(1))
    then show ?thesis using False by (simp add: eq g(1))
  qed
  then show "heap_inv K (erase_at K pos (node_remove n h))"
    "mset ?a = add_mset (?a ! pos) (mset (heap_array (erase_at K pos (node_remove n h))))"
    using last(1) by simp_all
qed

end
