(* ===== verification/Td_Heap_Props.thy ===== *)
theory Td_Heap_Props
  imports Td_Heap_Facts
begin

text \<open>
  The heap is a map from the nodes in it to their keys. Every operation updates the map as its name
  says, keeps the invariant, and reports a failed check exactly when it is called outside its
  contract; \<open>pop\<close> and \<open>top_key\<close> give a least key. The contract is the locale \<open>timer_queue\<close>, interpreted
  here on the heap and used by its clients.
\<close>

section \<open>The heap as a map\<close>

definition heap_map :: "('k, 'n) kheap \<Rightarrow> 'n \<rightharpoonup> 'k" where
  "heap_map h = map_of (map (\<lambda>(k, n). (n, k)) (heap_array h))"

lemma heap_map_Some: "positions_ok h \<Longrightarrow> heap_map h n = Some k \<longleftrightarrow> (k, n) \<in> set (heap_array h)"
proof -
  assume h: "positions_ok h"
  have eq: "map fst (map (\<lambda>(k, n). (n, k)) (heap_array h)) = map snd (heap_array h)" by auto
  have "heap_map h n = Some k \<longleftrightarrow> (n, k) \<in> set (map (\<lambda>(k, n). (n, k)) (heap_array h))"
    using h unfolding heap_map_def by (intro map_of_eq_Some_iff) (simp only: eq positions_ok_def)
  then show ?thesis by force
qed

lemma dom_heap_map: "dom (heap_map h) = snd ` set (heap_array h)"
  by (force simp: heap_map_def dom_map_of_conv_image_fst image_image)

lemma finite_heap_map [simp]: "finite (dom (heap_map h))"
  by (simp add: dom_heap_map)

lemma in_heap_iff: "positions_ok h \<Longrightarrow> in_heap n h \<longleftrightarrow> n \<in> dom (heap_map h)"
  by (auto simp: in_heap_def dom_heap_map positions_ok_def set_conv_nth)

lemma heap_map_insert:
  assumes "positions_ok h'" "positions_ok h" "set (heap_array h') = insert (k, n) (set (heap_array h))" "n \<notin> dom (heap_map h)"
  shows "heap_map h' = (heap_map h)(n \<mapsto> k)"
proof
  fix m
  have "heap_map h' m = Some j \<longleftrightarrow> ((heap_map h)(n \<mapsto> k)) m = Some j" for j
    using assms by (auto simp: heap_map_Some dom_def)
  then show "heap_map h' m = ((heap_map h)(n \<mapsto> k)) m" by (metis not_Some_eq)
qed

lemma heap_map_remove:
  assumes "positions_ok h'" "positions_ok h" "mset (heap_array h) = add_mset (k, n) (mset (heap_array h'))"
  shows "heap_map h' = (heap_map h)(n := None)"
proof
  fix m
  have d: "distinct (n # map snd (heap_array h'))"
    using mset_eq_imp_distinct_iff[of "map snd (heap_array h)" "n # map snd (heap_array h')"] assms(2)
      arg_cong[OF assms(3), of "image_mset snd"] by (simp add: positions_ok_def)
  have "set (heap_array h) = insert (k, n) (set (heap_array h'))" using mset_eq_setD[of "heap_array h" "(k, n) # heap_array h'"] assms(3) by simp
  then have "heap_map h' m = Some j \<longleftrightarrow> ((heap_map h)(n := None)) m = Some j" for j
    using assms(1,2) d by (force simp: heap_map_Some)
  then show "heap_map h' m = ((heap_map h)(n := None)) m" by (metis not_Some_eq)
qed

lemma node_index:
  assumes "positions_ok h" "heap_map h n = Some k"
  obtains i where "i < length (heap_array h)" "node_pos h n = int i" "of_int32 (node_pos h n) = i" "heap_array h ! i = (k, n)"
proof -
  obtain i where i: "i < length (heap_array h)" "heap_array h ! i = (k, n)"
    using assms by (auto simp: heap_map_Some in_set_conv_nth)
  then have "node_pos h n = int i" using assms(1) by (auto simp: positions_ok_def)
  then show ?thesis using that i assms(1) by (simp add: positions_ok_def)
qed

lemma node_outside: "positions_ok h \<Longrightarrow> heap_map h n = None \<Longrightarrow> \<not> of_int32 (node_pos h n) < length (heap_array h)"
proof -
  assume h: "positions_ok h" "heap_map h n = None"
  then have "n \<notin> snd ` set (heap_array h)" using dom_heap_map[of h] by blast
  then have "node_pos h n = -1" "length (heap_array h) < 2 ^ 31" using h(1) by (simp_all add: positions_ok_def)
  then show ?thesis by simp
qed

lemma least_key: "heap_ordered K a \<Longrightarrow> i < length a \<Longrightarrow> key_at a 0 \<le> key_at a i"
proof (induction i rule: less_induct)
  case (less i)
  show ?case
  proof (cases "i = 0")
    case False
    then have "key_at a 0 \<le> key_at a (parent K i)"
      using less.IH[of "parent K i"] less.prems parent_less[of i K] by simp
    also have "\<dots> \<le> key_at a i" using less.prems False by (simp add: heap_ordered_def child_ok_def)
    finally show ?thesis .
  qed simp
qed

section \<open>The operations on the map\<close>

lemma heap_invD: "heap_inv K h \<Longrightarrow> positions_ok h" "heap_inv K h \<Longrightarrow> heap_ordered K (heap_array h)"
  by (simp_all add: heap_inv_def)

lemma heap_insert_ok:
  assumes "heap_inv K h" "0 < K" "heap_map h n = None" "heap_size h + 1 < 2 ^ 31"
  shows "\<exists>h'. heap_insert K k n h = Inr h' \<and> heap_inv K h' \<and> heap_map h' = (heap_map h)(n \<mapsto> k)"
proof -
  let ?a = "heap_array h"
  define g where "g = h\<lparr>heap_array := ?a @ [(k, n)]\<rparr>"
  note p = heap_invD[OF assms(1)]
  have n: "n \<notin> snd ` set ?a" using assms(3) dom_heap_map[of h] by auto
  have "held (length ?a) (k, n) g (heap_array g)"
    using p(1) n assms(4) by (auto simp: g_def held_def positions_ok_def heap_size_def nth_append image_iff)
  moreover have "up_ok K (heap_array g) (length ?a)"
  proof -
    have "child_ok K (heap_array g) i" if "0 < i" "i < length ?a" for i
      using p(2) that parent_less[OF that(1), of K] by (simp add: g_def heap_ordered_def child_ok_def nth_append)
    moreover have "grand_ok K (heap_array g) (length ?a)"
    proof -
      have "parent K i \<noteq> length ?a" if "0 < i" "i < Suc (length ?a)" for i using parent_less[OF that(1), of K] that(2) by simp
      then show ?thesis by (simp add: grand_ok_def g_def)
    qed
    moreover have "length (heap_array g) = Suc (length ?a)" by (simp add: g_def)
    ultimately show ?thesis by (simp add: up_ok_def less_Suc_eq)
  qed
  ultimately have up: "heap_inv K (fix_up K (length ?a) g)" "mset (heap_array (fix_up K (length ?a) g)) = mset (heap_array g)"
    by (rule fix_up_ok)+
  have "heap_map (fix_up K (length ?a) g) = (heap_map h)(n \<mapsto> k)"
    using mset_eq_setD[OF up(2)] heap_invD(1)[OF up(1)] p(1) assms(3)
    by (intro heap_map_insert) (auto simp: g_def)
  moreover have "\<not> in_heap n h" using in_heap_iff[OF p(1)] assms(3) by auto
  ultimately show ?thesis using up(1) by (simp add: heap_insert_def g_def[symmetric] heap_size_def Let_def, simp add: g_def)
qed

lemma heap_insert_present: "heap_inv K h \<Longrightarrow> heap_map h n \<noteq> None \<Longrightarrow> heap_insert K k n h = Inl Check_failed"
  by (simp add: heap_insert_def in_heap_iff[OF heap_invD(1)] dom_def)

lemma heap_erase_ok:
  assumes "heap_inv K h" "0 < K" "heap_map h n = Some k"
  shows "\<exists>h'. heap_erase K n h = Inr h' \<and> heap_inv K h' \<and> heap_map h' = (heap_map h)(n := None)"
proof -
  note p = heap_invD(1)[OF assms(1)]
  obtain i where i: "i < length (heap_array h)" "of_int32 (node_pos h n) = i" "heap_array h ! i = (k, n)"
    using node_index[OF p assms(3)] by metis
  note e = erase_at_ok[OF assms(1) i(1) assms(2), of n]
  have "heap_erase K n h = Inr (erase_at K i (node_remove n h))"
    using i by (simp add: heap_erase_def Let_def heap_size_def node_remove_def)
  then show ?thesis using e i(3) heap_map_remove[OF heap_invD(1) p] by simp
qed

lemma heap_erase_absent: "heap_inv K h \<Longrightarrow> heap_map h n = None \<Longrightarrow> heap_erase K n h = Inl Check_failed"
  using node_outside[OF heap_invD(1), of K h n] by (simp add: heap_erase_def heap_size_def node_remove_def)

lemma top_key_ok:
  assumes "heap_inv K h" "heap_map h \<noteq> Map.empty"
  obtains k n where "top_key h = Inr k" "heap_top h = Inr n" "heap_map h n = Some k" "is_top n h" "heap_array h ! 0 = (k, n)"
    "\<And>m j. heap_map h m = Some j \<Longrightarrow> k \<le> j" "\<And>m. is_top m h \<Longrightarrow> m = n"
proof -
  let ?a = "heap_array h"
  note p = heap_invD[OF assms(1)]
  have ne: "0 < length ?a" using assms(2) by (auto simp: heap_map_def)
  obtain k n where a: "?a ! 0 = (k, n)" by (cases "?a ! 0")
  have n: "heap_map h n = Some k" using heap_map_Some[OF p(1)] nth_mem[OF ne] a by simp
  have le: "k \<le> j" if "heap_map h m = Some j" for m j
    using least_key[OF p(2)] that a unfolding heap_map_Some[OF p(1)] in_set_conv_nth by (metis fst_conv)
  have top: "m = n" if "is_top m h" for m
  proof -
    have "in_heap m h" using that by (simp add: is_top_def in_heap_def)
    then obtain j where "heap_map h m = Some j" using in_heap_iff[OF p(1)] by auto
    then obtain i where "i < length ?a" "node_pos h m = int i" "?a ! i = (j, m)" using node_index[OF p(1)] by metis
    then show ?thesis using that a by (simp add: is_top_def)
  qed
  have "is_top n h" using p(1) ne a by (auto simp: is_top_def positions_ok_def)
  then show thesis using that[OF _ _ n _ a le top] ne a by (simp add: top_key_def heap_top_def)
qed

lemma heap_pop_ok:
  assumes "heap_inv K h" "0 < K" "heap_map h \<noteq> Map.empty"
  shows "\<exists>k n h'. top_key h = Inr k \<and> heap_pop K h = Inr (n, h') \<and> heap_inv K h' \<and> heap_map h n = Some k \<and>
    (\<forall>m j. heap_map h m = Some j \<longrightarrow> k \<le> j) \<and> heap_map h' = (heap_map h)(n := None)"
proof -
  note p = heap_invD(1)[OF assms(1)]
  obtain k n where t: "top_key h = Inr k" "heap_map h n = Some k" "heap_array h ! 0 = (k, n)"
    "\<And>m j. heap_map h m = Some j \<Longrightarrow> k \<le> j"
    using top_key_ok[OF assms(1,3)] by metis
  have ne: "0 < length (heap_array h)" using assms(3) by (auto simp: heap_map_def)
  note e = erase_at_ok[OF assms(1) ne assms(2), of n]
  have "heap_pop K h = Inr (n, erase_at K 0 (node_remove n h))"
    using ne t(3) by (simp add: heap_pop_def heap_empty_def)
  then show ?thesis using e t heap_map_remove[OF heap_invD(1) p] by simp
qed

lemma heap_pop_empty: "heap_map h = Map.empty \<Longrightarrow> heap_pop K h = Inl Check_failed"
  using dom_heap_map[of h] by (simp add: heap_pop_def heap_empty_def)

lemma heap_fix_ok:
  assumes "heap_inv K h" "0 < K" "heap_map h n = Some old"
  shows "\<exists>h'. heap_fix K k n h = Inr h' \<and> heap_inv K h' \<and> heap_map h' = (heap_map h)(n \<mapsto> k)"
proof -
  let ?a = "heap_array h"
  note p = heap_invD[OF assms(1)]
  obtain i where i: "i < length ?a" "of_int32 (node_pos h n) = i" "?a ! i = (old, n)"
    using node_index[OF p(1) assms(3)] by metis
  define g where "g = h\<lparr>heap_array := ?a[i := (k, n)]\<rparr>"
  have held: "held i (k, n) g (heap_array g)"
    using held_start[OF p(1) i(1), of g k] i(3) by (simp add: g_def)
  define g' where "g' = (if k < old then fix_up K i g else fix_down K i g)"
  have "heap_inv K g' \<and> mset (heap_array g') = mset (heap_array g)"
  proof (cases "k < old")
    case True
    then have "up_ok K (heap_array g) i" using up_ok_decrease[OF p(2) i(1), of k n] i(3) by (simp add: g_def)
    then show ?thesis using fix_up_ok[OF held] True by (simp add: g'_def)
  next
    case False
    have "child_ok K (heap_array g) i" if "0 < i"
    proof -
      have "key_at ?a (parent K i) \<le> old" using p(2)[unfolded heap_ordered_def child_ok_def, rule_format, OF that i(1)] i(3) by simp
      then show ?thesis
        using False that i(1) parent_less[OF that, of K] by (simp add: g_def child_ok_def)
    qed
    moreover have "child_ok K (heap_array g) 0" by (simp add: child_ok_def parent_def)
    moreover have "down_ok K (heap_array g) i" using down_ok_update[OF p(2) i(1)] by (simp add: g_def)
    ultimately show ?thesis using fix_down_ok[OF held _ assms(2)] False by (cases "i = 0") (auto simp: g'_def)
  qed
  moreover have "heap_fix K k n h = Inr g'"
    using i by (simp add: heap_fix_def heap_size_def g_def g'_def)
  ultimately have g': "heap_inv K g'" "mset (heap_array g') = mset (?a[i := (k, n)])" "heap_fix K k n h = Inr g'"
    by (simp_all add: g_def)
  have "distinct ?a" using p(1) by (simp add: positions_ok_def distinct_map)
  then have "set (heap_array g') = insert (k, n) (set ?a - {(old, n)})"
    using mset_eq_setD[OF g'(2)] i by (simp add: set_update_distinct)
  then have "heap_map g' m = Some j \<longleftrightarrow> ((heap_map h)(n \<mapsto> k)) m = Some j" for m j
    using heap_map_Some[OF heap_invD(1)[OF g'(1)], of m j] heap_map_Some[OF p(1), of m j] assms(3) by auto
  then have "heap_map g' m = ((heap_map h)(n \<mapsto> k)) m" for m by (metis not_Some_eq)
  then show ?thesis using g'(1,3) by auto
qed

lemma heap_fix_absent: "heap_inv K h \<Longrightarrow> heap_map h n = None \<Longrightarrow> heap_fix K k n h = Inl Check_failed"
  using node_outside[OF heap_invD(1), of K h n] by (simp add: heap_fix_def heap_size_def Let_def)

section \<open>The contract\<close>

locale timer_queue =
  fixes inv :: "'q \<Rightarrow> bool"
    and content :: "'q \<Rightarrow> 'n \<rightharpoonup> 't::linorder"
    and is_empty :: "'q \<Rightarrow> bool"
    and next_key :: "'q \<Rightarrow> td_error + 't"
    and pop :: "'q \<Rightarrow> td_error + 'n \<times> 'q"
  assumes empty_iff: "inv q \<Longrightarrow> is_empty q \<longleftrightarrow> content q = Map.empty"
    and content_finite: "inv q \<Longrightarrow> finite (dom (content q))"
    and pop_least: "inv q \<Longrightarrow> content q \<noteq> Map.empty \<Longrightarrow>
      \<exists>k n q'. next_key q = Inr k \<and> pop q = Inr (n, q') \<and> inv q' \<and> content q n = Some k \<and>
        (\<forall>m j. content q m = Some j \<longrightarrow> k \<le> j) \<and> content q' = (content q)(n := None)"
begin

lemma next_key_least: "inv q \<Longrightarrow> next_key q = Inr k \<Longrightarrow> content q m = Some j \<Longrightarrow> k \<le> j"
  using pop_least[of q] by force

end

text \<open>A client that takes out everything due before \<open>now\<close>, as long as there is something.\<close>

locale expiry = timer_queue inv content is_empty next_key pop
  for inv :: "'q \<Rightarrow> bool" and content :: "'q \<Rightarrow> 'n \<rightharpoonup> 't::linorder" and is_empty next_key pop +
  fixes expire :: "'t \<Rightarrow> 'n set \<Rightarrow> 'q \<Rightarrow> 'n list \<Rightarrow> td_error + 'n list \<times> 'n set \<times> 'q"
  assumes expire_unfold: "expire now items q acc =
    (if is_empty q then Inr (acc, items, q)
     else case next_key q of Inl e \<Rightarrow> Inl e
       | Inr k \<Rightarrow> if k < now then case pop q of Inl e \<Rightarrow> Inl e
             | Inr (n, q') \<Rightarrow> expire now (items - {n}) q' (acc @ [n])
           else Inr (acc, items, q))"
begin

lemma expire_all:
  assumes "inv q"
  shows "\<exists>ns q'. expire now items q acc = Inr (acc @ ns, items - set ns, q') \<and> inv q' \<and> distinct ns \<and>
    set ns = {n. \<exists>t. content q n = Some t \<and> t < now} \<and> sorted (map (\<lambda>n. the (content q n)) ns) \<and>
    content q' = content q |` (- set ns)"
  using assms
proof (induction "card (dom (content q))" arbitrary: q items acc rule: less_induct)
  case less
  show ?case
  proof (cases "content q = Map.empty")
    case True
    then show ?thesis
      using less.prems empty_iff[OF less.prems] by (intro exI[of _ "[]"] exI[of _ q]) (simp add: expire_unfold)
  next
    case False
    then obtain k n q' where q: "next_key q = Inr k" "pop q = Inr (n, q')" "inv q'" "content q n = Some k"
      "\<And>m j. content q m = Some j \<Longrightarrow> k \<le> j" "content q' = (content q)(n := None)"
      using pop_least[OF less.prems] by metis
    have ne: "\<not> is_empty q" using False empty_iff[OF less.prems] by simp
    show ?thesis
    proof (cases "k < now")
      case False
      then have "{m. \<exists>t. content q m = Some t \<and> t < now} = {}" using q(5) by fastforce
      then show ?thesis
        using less.prems ne q(1) False by (intro exI[of _ "[]"] exI[of _ q]) (simp add: expire_unfold restrict_map_def)
    next
      case True
      have fewer: "card (dom (content q')) < card (dom (content q))"
        using q(4,6) content_finite[OF less.prems] by (simp add: card_gt_0_iff) (metis card_Diff1_less domI)
      obtain ns r where r: "expire now (items - {n}) q' (acc @ [n]) = Inr ((acc @ [n]) @ ns, items - {n} - set ns, r)"
          "inv r" "distinct ns" "set ns = {m. \<exists>t. content q' m = Some t \<and> t < now}"
          "sorted (map (\<lambda>m. the (content q' m)) ns)" "content r = content q' |` (- set ns)"
        using less.hyps[OF fewer q(3), of "items - {n}" "acc @ [n]"] by blast
      have notin: "n \<notin> set ns" using r(4) q(6) by auto
      have same: "map (\<lambda>m. the (content q' m)) ns = map (\<lambda>m. the (content q m)) ns"
        using notin q(6) by (intro map_cong) auto
      have "k \<le> the (content q m)" if "m \<in> set ns" for m using that q(5,6) notin r(4) by (auto split: if_splits)
      then have srt: "sorted (map (\<lambda>m. the (content q m)) (n # ns))" using r(5) same q(4) by simp
      have "expire now items q acc = Inr (acc @ n # ns, items - set (n # ns), r)"
      proof -
        have "items - set (n # ns) = items - {n} - set ns" by auto
        then show ?thesis using r(1) ne q(1,2) True by (simp add: expire_unfold[of now items q acc])
      qed
      moreover have "set (n # ns) = {m. \<exists>t. content q m = Some t \<and> t < now}" using r(4) q(4,6) True by auto
      moreover have "content r = content q |` (- set (n # ns))" using r(6) q(6) by (auto simp: restrict_map_def)
      ultimately show ?thesis using r(2,3) notin srt by (intro exI[of _ "n # ns"] exI[of _ r]) simp
    qed
  qed
qed

end

text \<open>The heap with its \<open>K\<close>-fold branching is such a queue.\<close>

lemma heap_timer_queue:
  "0 < K \<Longrightarrow> timer_queue (heap_inv K) heap_map heap_empty top_key (heap_pop K)"
proof (unfold_locales, goal_cases)
  case (1 q)
  then show ?case by (simp add: heap_empty_def heap_map_def)
next
  case (3 q)
  then show ?case using heap_pop_ok[of K q] by blast
qed simp

interpretation heap4: timer_queue "heap_inv 4" heap_map heap_empty top_key "heap_pop 4"
  by (rule heap_timer_queue) simp

lemma heap_inv_empty: "heap_inv K \<lparr>heap_array = [], node_pos = \<lambda>_. -1\<rparr>"
  by (simp add: heap_inv_def heap_ordered_def positions_ok_def)

section \<open>Properties\<close>

text \<open>The four operations that change the heap, and what each does to the map.\<close>

datatype ('k, 'n) heap_op = Insert_op 'k 'n | Fix_op 'k 'n | Erase_op 'n | Pop_op

fun heap_apply :: "nat \<Rightarrow> ('k::linorder, 'n) heap_op \<Rightarrow> ('k, 'n) kheap \<Rightarrow> td_error + 'n option \<times> ('k, 'n) kheap" where
  "heap_apply K (Insert_op k n) h = bind_r (heap_insert K k n h) (\<lambda>h. Inr (None, h))"
| "heap_apply K (Fix_op k n) h = bind_r (heap_fix K k n h) (\<lambda>h. Inr (None, h))"
| "heap_apply K (Erase_op n) h = bind_r (heap_erase K n h) (\<lambda>h. Inr (None, h))"
| "heap_apply K Pop_op h = bind_r (heap_pop K h) (\<lambda>(n, h). Inr (Some n, h))"

fun map_allows :: "('k, 'n) heap_op \<Rightarrow> ('n \<rightharpoonup> 'k) \<Rightarrow> bool" where
  "map_allows (Insert_op k n) m = (m n = None)"
| "map_allows (Fix_op k n) m = (m n \<noteq> None)"
| "map_allows (Erase_op n) m = (m n \<noteq> None)"
| "map_allows Pop_op m = (m \<noteq> Map.empty)"

fun map_effect :: "('k::linorder, 'n) heap_op \<Rightarrow> ('n \<rightharpoonup> 'k) \<Rightarrow> 'n option \<Rightarrow> ('n \<rightharpoonup> 'k) \<Rightarrow> bool" where
  "map_effect (Insert_op k n) m r m' = (r = None \<and> m' = m(n \<mapsto> k))"
| "map_effect (Fix_op k n) m r m' = (r = None \<and> m' = m(n \<mapsto> k))"
| "map_effect (Erase_op n) m r m' = (r = None \<and> m' = m(n := None))"
| "map_effect Pop_op m r m' =
     (\<exists>n k. r = Some n \<and> m n = Some k \<and> (\<forall>j \<in> ran m. k \<le> j) \<and> m' = m(n := None))"

text \<open>C26: the heap implements a map from nodes to keys. Inserting, changing a key, removing a node and
  popping do to the map what their names say, \<open>pop\<close> gives a node with a least key, and the heap's
  order and the positions stored in the nodes stay right; called for a node that is (not) in the heap,
  or on an empty heap, the operation stops at its \<open>CHECK\<close> and nowhere else.\<close>

theorem heap_refines_map:
  assumes "heap_inv K h" "0 < K" "heap_size h + 1 < 2 ^ 31"
  shows "if map_allows oper (heap_map h)
    then \<exists>r h'. heap_apply K oper h = Inr (r, h') \<and> heap_inv K h' \<and> map_effect oper (heap_map h) r (heap_map h')
    else heap_apply K oper h = Inl Check_failed"
proof (cases oper)
  case (Insert_op k n)
  then show ?thesis using heap_insert_ok[OF assms(1,2) _ assms(3), of n k] heap_insert_present[OF assms(1), of n k] by auto
next
  case (Fix_op k n)
  then show ?thesis using heap_fix_ok[OF assms(1,2), of n _ k] heap_fix_absent[OF assms(1), of n k] by auto
next
  case (Erase_op n)
  then show ?thesis using heap_erase_ok[OF assms(1,2), of n] heap_erase_absent[OF assms(1), of n] by auto
next
  case Pop_op
  then show ?thesis
    using heap_pop_ok[OF assms(1,2)] heap_pop_empty[of h K] by (fastforce simp: ran_def)
qed

lemma heap_refines_map_witness:
  "let h = \<lparr>heap_array = [(1, 7), (2, 8)], node_pos = (\<lambda>_. -1)(7 := 0, 8 := 1)\<rparr> :: (int, int) kheap in
   map_allows (Insert_op 0 9) (heap_map h) \<and> \<not> map_allows (Insert_op 0 8) (heap_map h) \<and>
   (\<exists>r h'. heap_apply 4 (Insert_op 0 9) h = Inr (r, h') \<and> heap_inv 4 h' \<and>
      map_effect (Insert_op 0 9) (heap_map h) r (heap_map h'))"
proof -
  let ?h = "\<lparr>heap_array = [(1, 7), (2, 8)], node_pos = (\<lambda>_. -1)(7 := 0, 8 := 1)\<rparr> :: (int, int) kheap"
  have inv: "heap_inv 4 ?h"
    by (auto simp: heap_inv_def heap_ordered_def positions_ok_def child_ok_def parent_def less_Suc_eq)
  have "map_allows (Insert_op 0 9) (heap_map ?h)" "\<not> map_allows (Insert_op 0 8) (heap_map ?h)"
    by (simp_all add: heap_map_def)
  then show ?thesis
    using heap_refines_map[OF inv, of "Insert_op 0 9"] by (simp add: heap_size_def Let_def)
qed

end
