(* ===== verification/Td_Timeouts.thy ===== *)
theory Td_Timeouts
  imports Td_Heap_Props
begin

text \<open>
  \<^verbatim>\<open>MultiTimeout\<close> (\<^verbatim>\<open>src/lib/td/tdactor/td/actor/MultiTimeout.h\<close> and \<^verbatim>\<open>MultiTimeout.cpp\<close>): one timeout per
  key, all driven by the single timeout of the actor. An \<^verbatim>\<open>Item\<close> of the set \<^verbatim>\<open>items_\<close> is the heap node of
  its key, so a node is identified by the key here. Of the actor the model keeps what the class
  uses: its own timeout and how many \<^verbatim>\<open>Timeout\<close> events wait in its mailbox. Times are of any linear
  order (the code has finite \<^verbatim>\<open>double\<close>s); the current time is an argument. A call of the callback is recorded
  in \<open>called\<close>; what it does comes after it, as an operation of its own.
\<close>

section \<open>State\<close>

record 't multi_timeout =
  timeout_queue :: "('t, int) kheap"
  items :: "int set"
  actor_timeout :: "'t option"
  pending_timeouts :: nat
  called :: "int list"

definition new_multi_timeout :: "'t multi_timeout" where
  "new_multi_timeout = \<lparr>timeout_queue = \<lparr>heap_array = [], node_pos = \<lambda>_. -1\<rparr>, items = {},
     actor_timeout = None, pending_timeouts = 0, called = []\<rparr>"

definition has_timeout :: "int \<Rightarrow> 't multi_timeout \<Rightarrow> bool" where
  "has_timeout key s = (key \<in> items s)"

text \<open>\<^verbatim>\<open>items_.emplace(key)\<close>: whether there was no such item, a new item being in no heap.\<close>

definition emplace_item :: "int \<Rightarrow> 't multi_timeout \<Rightarrow> bool \<times> 't multi_timeout" where
  "emplace_item key s =
     (if key \<in> items s then (False, s)
      else (True, s\<lparr>items := insert key (items s), timeout_queue := node_remove key (timeout_queue s)\<rparr>))"

section \<open>Operations\<close>

definition update_timeout :: "'t::linorder multi_timeout \<Rightarrow> td_error + 't multi_timeout" where
  "update_timeout s =
     (if items s = {} then
        bind_r (check_r (heap_empty (timeout_queue s)) ()) (\<lambda>_.
          if actor_timeout s = None then check_r (0 < pending_timeouts s) s
          else Inr (s\<lparr>actor_timeout := None\<rparr>))
      else bind_r (top_key (timeout_queue s)) (\<lambda>t. Inr (s\<lparr>actor_timeout := Some t\<rparr>)))"

definition set_timeout_at :: "int \<Rightarrow> 't::linorder \<Rightarrow> 't multi_timeout \<Rightarrow> td_error + 't multi_timeout" where
  "set_timeout_at key timeout s =
     (let (inserted, s) = emplace_item key s in
      if in_heap key (timeout_queue s) then
        bind_r (check_r (\<not> inserted) ()) (\<lambda>_.
        let need_update_timeout = is_top key (timeout_queue s) in
        bind_r (heap_fix 4 timeout key (timeout_queue s)) (\<lambda>q.
          let s = s\<lparr>timeout_queue := q\<rparr> in
          if need_update_timeout \<or> is_top key q then update_timeout s else Inr s))
      else
        bind_r (check_r inserted ()) (\<lambda>_.
        bind_r (heap_insert 4 timeout key (timeout_queue s)) (\<lambda>q.
          let s = s\<lparr>timeout_queue := q\<rparr> in
          if is_top key q then update_timeout s else Inr s)))"

definition add_timeout_at :: "int \<Rightarrow> 't::linorder \<Rightarrow> 't multi_timeout \<Rightarrow> td_error + 't multi_timeout" where
  "add_timeout_at key timeout s =
     (let (inserted, s) = emplace_item key s in
      if in_heap key (timeout_queue s) then check_r (\<not> inserted) s
      else
        bind_r (check_r inserted ()) (\<lambda>_.
        bind_r (heap_insert 4 timeout key (timeout_queue s)) (\<lambda>q.
          let s = s\<lparr>timeout_queue := q\<rparr> in
          if is_top key q then update_timeout s else Inr s)))"

definition cancel_timeout :: "int \<Rightarrow> 't::linorder multi_timeout \<Rightarrow> td_error + 't multi_timeout" where
  "cancel_timeout key s =
     (if key \<in> items s then
        bind_r (check_r (in_heap key (timeout_queue s)) ()) (\<lambda>_.
        let need_update_timeout = is_top key (timeout_queue s) in
        bind_r (heap_erase 4 key (timeout_queue s)) (\<lambda>q.
          let s = s\<lparr>timeout_queue := q, items := items s - {key}\<rparr> in
          if need_update_timeout then update_timeout s else Inr s))
      else Inr s)"

lemma length_place: "length (heap_array (place p it h)) = length (heap_array h)"
  by (simp add: place_def)

lemma length_fix_up: "length (heap_array (fix_up K p h)) = length (heap_array h)"
proof -
  have "length (heap_array (snd (fix_up_loop K it p h))) = length (heap_array h)" for it
    by (induction K it p h rule: fix_up_loop.induct)
      (subst fix_up_loop.simps, simp add: Let_def length_place)
  then show ?thesis by (simp add: fix_up_def length_place case_prod_beta Let_def)
qed

lemma length_fix_down: "length (heap_array (fix_down K p h)) = length (heap_array h)"
proof -
  have "length (heap_array (snd (fix_down_loop K it p h))) = length (heap_array h)" for it
    by (induction K it p h rule: fix_down_loop.induct)
      (subst fix_down_loop.simps, auto simp: length_place split: prod.split)
  then show ?thesis by (simp add: fix_down_def length_place case_prod_beta Let_def)
qed

lemma heap_pop_shrinks: "heap_pop K h = Inr (n, h') \<Longrightarrow> length (heap_array h') < length (heap_array h)"
  by (auto simp: heap_pop_def heap_empty_def check_r_def erase_at_def Let_def node_remove_def length_fix_up
      length_fix_down split: if_splits)

text \<open>The loop: \<^verbatim>\<open>items_\<close>, the queue and \<^verbatim>\<open>expired_keys\<close> so far.\<close>

function get_expired_keys :: "'t::linorder \<Rightarrow> int set \<Rightarrow> ('t, int) kheap \<Rightarrow> int list \<Rightarrow>
    td_error + int list \<times> int set \<times> ('t, int) kheap" where
  "get_expired_keys now its q expired_keys =
     (if heap_empty q then Inr (expired_keys, its, q)
      else case top_key q of Inl e \<Rightarrow> Inl e
        | Inr t \<Rightarrow> if t < now then case heap_pop 4 q of Inl e \<Rightarrow> Inl e
              | Inr (key, q') \<Rightarrow> get_expired_keys now (its - {key}) q' (expired_keys @ [key])
            else Inr (expired_keys, its, q))"
  by pat_completeness auto
termination
  by (relation "measure (\<lambda>(_, _, q, _). length (heap_array q))") (auto dest: heap_pop_shrinks)

declare get_expired_keys.simps [simp del]

definition timeout_expired :: "'t::linorder \<Rightarrow> 't multi_timeout \<Rightarrow> td_error + 't multi_timeout" where
  "timeout_expired now s =
     bind_r (get_expired_keys now (items s) (timeout_queue s) []) (\<lambda>(expired_keys, its, q).
     let s = s\<lparr>items := its, timeout_queue := q\<rparr> in
     bind_r (if its \<noteq> {} then update_timeout s else Inr s) (\<lambda>s.
     Inr (s\<lparr>called := called s @ expired_keys\<rparr>)))"

text \<open>\<open>horizon\<close> is \<^verbatim>\<open>Time::now_cached() + 1e10\<close>.\<close>

definition run_all :: "'t::linorder \<Rightarrow> 't multi_timeout \<Rightarrow> td_error + 't multi_timeout" where
  "run_all horizon s =
     bind_r (get_expired_keys horizon (items s) (timeout_queue s) []) (\<lambda>(expired_keys, its, q).
     let s = s\<lparr>items := its, timeout_queue := q\<rparr> in
     bind_r (if expired_keys \<noteq> [] then update_timeout s else Inr s) (\<lambda>s.
     Inr (s\<lparr>called := called s @ expired_keys\<rparr>)))"

section \<open>Runs\<close>

text \<open>
  The owner sets, adds, cancels and runs timeouts. \<open>Fire\<close> and \<open>Deliver\<close> are the scheduler's: the
  actor's timeout becomes an event in the mailbox, and the actor takes such an event out and handles it.
\<close>

datatype 't timeout_op =
  Set_timeout int 't | Add_timeout int 't | Cancel int | Run_all 't | Fire | Deliver 't

fun timeout_step :: "'t::linorder timeout_op \<Rightarrow> 't multi_timeout \<Rightarrow> td_error + 't multi_timeout" where
  "timeout_step (Set_timeout key t) s = set_timeout_at key t s"
| "timeout_step (Add_timeout key t) s = add_timeout_at key t s"
| "timeout_step (Cancel key) s = cancel_timeout key s"
| "timeout_step (Run_all horizon) s = run_all horizon s"
| "timeout_step Fire s =
     (if actor_timeout s = None then Inr s
      else Inr (s\<lparr>actor_timeout := None, pending_timeouts := pending_timeouts s + 1\<rparr>))"
| "timeout_step (Deliver now) s =
     (if pending_timeouts s = 0 then Inr s
      else timeout_expired now (s\<lparr>pending_timeouts := pending_timeouts s - 1\<rparr>))"

interpretation expired: expiry "heap_inv 4" heap_map heap_empty top_key "heap_pop 4" get_expired_keys
  by unfold_locales (rule get_expired_keys.simps)

section \<open>Invariant\<close>

abbreviation timeouts :: "'t multi_timeout \<Rightarrow> int \<rightharpoonup> 't" where
  "timeouts s \<equiv> heap_map (timeout_queue s)"

text \<open>The actor's timeout is the least of all, or it fired and the event is on its way.\<close>

definition armed :: "'t::linorder multi_timeout \<Rightarrow> bool" where
  "armed s = (items s \<noteq> {} \<longrightarrow>
     (\<exists>t. top_key (timeout_queue s) = Inr t \<and> actor_timeout s = Some t) \<or> (actor_timeout s = None \<and> 0 < pending_timeouts s))"

definition timeouts_ok :: "'t::linorder multi_timeout \<Rightarrow> bool" where
  "timeouts_ok s = (heap_inv 4 (timeout_queue s) \<and> dom (timeouts s) = items s \<and> armed s)"

definition due :: "'t::linorder \<Rightarrow> (int \<rightharpoonup> 't) \<Rightarrow> int set" where
  "due now m = {key. \<exists>t. m key = Some t \<and> t < now}"

text \<open>What an operation does to the timeouts \<open>m\<close>, and which keys \<open>ks\<close> it calls back.\<close>

fun timeout_effect :: "'t::linorder timeout_op \<Rightarrow> nat \<Rightarrow> (int \<rightharpoonup> 't) \<Rightarrow> int list \<Rightarrow> (int \<rightharpoonup> 't) \<Rightarrow> bool" where
  "timeout_effect (Set_timeout key t) p m ks m' = (ks = [] \<and> m' = m(key \<mapsto> t))"
| "timeout_effect (Add_timeout key t) p m ks m' = (ks = [] \<and> m' = (if key \<in> dom m then m else m(key \<mapsto> t)))"
| "timeout_effect (Cancel key) p m ks m' = (ks = [] \<and> m' = m(key := None))"
| "timeout_effect (Run_all now) p m ks m' =
     (distinct ks \<and> set ks = due now m \<and> sorted (map (\<lambda>key. the (m key)) ks) \<and> m' = m |` (- due now m))"
| "timeout_effect Fire p m ks m' = (ks = [] \<and> m' = m)"
| "timeout_effect (Deliver now) p m ks m' =
     (if p = 0 then ks = [] \<and> m' = m
      else distinct ks \<and> set ks = due now m \<and> sorted (map (\<lambda>key. the (m key)) ks) \<and> m' = m |` (- due now m))"

end
