(* ===== verification/Td_Timeouts_Props.thy ===== *)
theory Td_Timeouts_Props
  imports Td_Timeouts
begin

text \<open>
  \<open>MultiTimeout\<close> keeps its promise: its operations implement a map from keys to times, the actor's one
  timeout is always early enough for every key, and no \<^verbatim>\<open>CHECK\<close> of it can fail.
\<close>

section \<open>The timeout of the actor\<close>

lemma top_kept:
  assumes "heap_inv 4 q" "heap_inv 4 q'" "heap_map q \<noteq> Map.empty" "heap_map q' \<noteq> Map.empty"
    and "\<not> is_top key q" "\<not> is_top key q'" and same: "\<And>k. k \<noteq> key \<Longrightarrow> heap_map q' k = heap_map q k"
  shows "top_key q' = top_key q"
proof -
  obtain t n where t: "top_key q = Inr t" "heap_map q n = Some t" "is_top n q" "\<And>m j. heap_map q m = Some j \<Longrightarrow> t \<le> j"
    using top_key_ok[OF assms(1,3)] by metis
  obtain t' n' where t': "top_key q' = Inr t'" "heap_map q' n' = Some t'" "is_top n' q'"
      "\<And>m j. heap_map q' m = Some j \<Longrightarrow> t' \<le> j"
    using top_key_ok[OF assms(2,4)] by metis
  have "n \<noteq> key" "n' \<noteq> key" using t(3) t'(3) assms(5,6) by auto
  then have "t \<le> t'" "t' \<le> t" using t t' same by metis+
  then show ?thesis using t t' by simp
qed

lemma top_key_map:
  assumes "heap_inv 4 q" "heap_inv 4 q'" "heap_map q = heap_map q'" "heap_map q' \<noteq> Map.empty"
  shows "top_key q = top_key q'"
proof -
  obtain t n where t: "top_key q = Inr t" "heap_map q n = Some t" "\<And>m j. heap_map q m = Some j \<Longrightarrow> t \<le> j"
    using top_key_ok[OF assms(1)] assms(3,4) by metis
  obtain t' n' where "top_key q' = Inr t'" "heap_map q' n' = Some t'" "\<And>m j. heap_map q' m = Some j \<Longrightarrow> t' \<le> j"
    using top_key_ok[OF assms(2,4)] by metis
  then show ?thesis using t assms(3) by (metis antisym)
qed

lemma update_timeout_ok:
  assumes "heap_inv 4 (timeout_queue s)" "dom (timeouts s) = items s"
    and "items s = {} \<Longrightarrow> actor_timeout s \<noteq> None \<or> 0 < pending_timeouts s"
  shows "\<exists>s'. update_timeout s = Inr s' \<and> timeouts_ok s' \<and> timeout_queue s' = timeout_queue s \<and>
    items s' = items s \<and> called s' = called s"
proof (cases "items s = {}")
  case True
  then have "heap_empty (timeout_queue s)" using heap4.empty_iff[OF assms(1)] assms(2) by simp
  then show ?thesis using assms True by (auto simp: update_timeout_def timeouts_ok_def armed_def)
next
  case False
  then obtain t where "top_key (timeout_queue s) = Inr t"
    using top_key_ok[OF assms(1)] assms(2) by (metis dom_empty)
  then show ?thesis using assms False by (simp add: update_timeout_def timeouts_ok_def armed_def)
qed

text \<open>Every change of the queue at one key ends in the same way.\<close>

lemma queue_changed:
  assumes ok: "timeouts_ok s" and q: "heap_inv 4 q" "dom (heap_map q) = its"
    and same: "\<And>k. k \<noteq> key \<Longrightarrow> heap_map q k = timeouts s k"
    and top: "b = (is_top key (timeout_queue s) \<or> is_top key q)"
    and last: "its = {} \<Longrightarrow> items s \<noteq> {}"
  shows "\<exists>s'. (if b then update_timeout (s\<lparr>timeout_queue := q, items := its\<rparr>)
      else Inr (s\<lparr>timeout_queue := q, items := its\<rparr>)) = Inr s' \<and>
    timeouts_ok s' \<and> timeout_queue s' = q \<and> items s' = its \<and> called s' = called s"
proof (cases b)
  case True
  have "its = {} \<Longrightarrow> actor_timeout s \<noteq> None \<or> 0 < pending_timeouts s"
    using ok last by (auto simp: timeouts_ok_def armed_def)
  then show ?thesis using update_timeout_ok[of "s\<lparr>timeout_queue := q, items := its\<rparr>"] q True by simp
next
  case False
  have "armed (s\<lparr>timeout_queue := q, items := its\<rparr>)" if ne: "its \<noteq> {}"
  proof -
    have "heap_map q \<noteq> Map.empty" using ne q(2) by auto
    moreover from this obtain n where n: "n \<in> dom (heap_map q)" "n \<noteq> key"
      using top_key_ok[OF q(1)] False top by (metis domI)
    moreover from n have "timeouts s \<noteq> Map.empty" using same[OF n(2)] by auto
    ultimately have "top_key q = top_key (timeout_queue s)" "items s \<noteq> {}"
      using top_kept[of "timeout_queue s" q key] q same False top ok by (auto simp: timeouts_ok_def)
    then show ?thesis using ok by (simp add: timeouts_ok_def armed_def)
  qed
  then show ?thesis using False q by (auto simp: timeouts_ok_def armed_def)
qed

lemma absent_item:
  assumes "timeouts_ok s"
  shows "key \<notin> items s \<Longrightarrow> node_remove key (timeout_queue s) = timeout_queue s"
    "in_heap key (timeout_queue s) \<longleftrightarrow> key \<in> items s"
    "is_top key (timeout_queue s) \<Longrightarrow> key \<in> items s"
proof -
  have p: "positions_ok (timeout_queue s)" "dom (timeouts s) = items s"
    using assms by (simp_all add: timeouts_ok_def heap_inv_def)
  then show i: "in_heap key (timeout_queue s) \<longleftrightarrow> key \<in> items s" using in_heap_iff[OF p(1)] by simp
  then show "is_top key (timeout_queue s) \<Longrightarrow> key \<in> items s" by (auto simp: is_top_def in_heap_def)
  assume "key \<notin> items s"
  then have "node_pos (timeout_queue s) key = -1" using i by (simp add: in_heap_def)
  then have "(node_pos (timeout_queue s))(key := -1) = node_pos (timeout_queue s)" by (metis fun_upd_triv)
  then show "node_remove key (timeout_queue s) = timeout_queue s" by (simp add: node_remove_def)
qed

section \<open>Each operation\<close>

lemma inserted_ok:
  assumes ok: "timeouts_ok s" "key \<notin> items s" and room: "card (items s) + 1 < 2 ^ 31"
  shows "\<exists>s'. bind_r (heap_insert 4 t key (timeout_queue s)) (\<lambda>q.
      let s = (s\<lparr>items := insert key (items s)\<rparr>)\<lparr>timeout_queue := q\<rparr> in
      if is_top key q then update_timeout s else Inr s) = Inr s' \<and>
    timeouts_ok s' \<and> timeouts s' = (timeouts s)(key \<mapsto> t) \<and> called s' = called s"
proof -
  have h: "heap_inv 4 (timeout_queue s)" "dom (timeouts s) = items s" using ok by (simp_all add: timeouts_ok_def)
  have "distinct (map snd (heap_array (timeout_queue s)))" using h(1) by (simp add: heap_inv_def positions_ok_def)
  then have "heap_size (timeout_queue s) = card (items s)"
    using distinct_card dom_heap_map[of "timeout_queue s"] h(2) unfolding heap_size_def by fastforce
  then obtain q where q: "heap_insert 4 t key (timeout_queue s) = Inr q" "heap_inv 4 q" "heap_map q = (timeouts s)(key \<mapsto> t)"
    using heap_insert_ok[OF h(1), of key t] room ok(2) h(2) by auto
  have nt: "\<not> is_top key (timeout_queue s)" using absent_item(3)[OF ok(1)] ok(2) by blast
  have swap: "s\<lparr>items := its, timeout_queue := q\<rparr> = s\<lparr>timeout_queue := q, items := its\<rparr>" for its by simp
  show ?thesis
    using queue_changed[OF ok(1) q(2), of "insert key (items s)" key "is_top key q"] q h(2) nt
    by (auto simp: Let_def swap)
qed

lemma set_timeout_ok:
  assumes ok: "timeouts_ok s" and room: "card (items s) + 1 < 2 ^ 31"
  shows "\<exists>s'. set_timeout_at key t s = Inr s' \<and> timeouts_ok s' \<and> timeouts s' = (timeouts s)(key \<mapsto> t) \<and> called s' = called s"
proof (cases "key \<in> items s")
  case False
  then show ?thesis
    using inserted_ok[OF ok False room, of t] absent_item(1,2)[OF ok, of key]
    by (simp add: set_timeout_at_def emplace_item_def)
next
  case True
  have h: "heap_inv 4 (timeout_queue s)" "dom (timeouts s) = items s" using ok by (simp_all add: timeouts_ok_def)
  obtain q where q: "heap_fix 4 t key (timeout_queue s) = Inr q" "heap_inv 4 q" "heap_map q = (timeouts s)(key \<mapsto> t)"
    using heap_fix_ok[OF h(1)] True h(2) by (metis domD zero_less_numeral)
  have "s\<lparr>timeout_queue := q, items := items s\<rparr> = s\<lparr>timeout_queue := q\<rparr>" by (cases s) simp
  then show ?thesis
    using queue_changed[OF ok q(2), of "items s" key] q h(2) True absent_item(2)[OF ok, of key]
    by (fastforce simp: set_timeout_at_def emplace_item_def insert_absorb Let_def)
qed

lemma add_timeout_ok:
  assumes ok: "timeouts_ok s" and room: "card (items s) + 1 < 2 ^ 31"
  shows "\<exists>s'. add_timeout_at key t s = Inr s' \<and> timeouts_ok s' \<and>
    timeouts s' = (if key \<in> dom (timeouts s) then timeouts s else (timeouts s)(key \<mapsto> t)) \<and> called s' = called s"
proof (cases "key \<in> items s")
  case False
  then show ?thesis
    using inserted_ok[OF ok False room, of t] absent_item(1,2)[OF ok, of key] ok
    by (simp add: add_timeout_at_def emplace_item_def timeouts_ok_def)
next
  case True
  then show ?thesis
    using ok absent_item(2)[OF ok, of key] by (simp add: add_timeout_at_def emplace_item_def timeouts_ok_def)
qed

lemma cancel_timeout_ok:
  assumes ok: "timeouts_ok s"
  shows "\<exists>s'. cancel_timeout key s = Inr s' \<and> timeouts_ok s' \<and> timeouts s' = (timeouts s)(key := None) \<and> called s' = called s"
proof (cases "key \<in> items s")
  case False
  then have "timeouts s key = None" using ok by (auto simp: timeouts_ok_def)
  then show ?thesis using ok False by (auto simp: cancel_timeout_def)
next
  case True
  have h: "heap_inv 4 (timeout_queue s)" "dom (timeouts s) = items s" using ok by (simp_all add: timeouts_ok_def)
  obtain q where q: "heap_erase 4 key (timeout_queue s) = Inr q" "heap_inv 4 q" "heap_map q = (timeouts s)(key := None)"
    using heap_erase_ok[OF h(1)] True h(2) by (metis domD zero_less_numeral)
  have d: "dom (heap_map q) = items s - {key}" using q(3) h(2) by simp
  have "\<not> is_top key q"
    using in_heap_iff[OF heap_invD(1)[OF q(2)], of key] d by (auto simp: is_top_def in_heap_def)
  then show ?thesis
    using queue_changed[OF ok q(2) d, of key "is_top key (timeout_queue s)"] q True absent_item(2)[OF ok, of key]
    by (fastforce simp: cancel_timeout_def Let_def)
qed

lemma expired_ok:
  assumes ok: "timeouts_ok s"
  shows "\<exists>ks q. get_expired_keys now (items s) (timeout_queue s) [] = Inr (ks, items s - set ks, q) \<and> heap_inv 4 q \<and>
    distinct ks \<and> set ks = due now (timeouts s) \<and> sorted (map (\<lambda>k. the (timeouts s k)) ks) \<and>
    heap_map q = timeouts s |` (- due now (timeouts s)) \<and> dom (heap_map q) = items s - set ks"
  using expired.expire_all[of "timeout_queue s" now "items s" "[]"] ok
  by (fastforce simp: due_def timeouts_ok_def)

lemma timeout_expired_ok:
  assumes ok: "timeouts_ok s" and p: "pending_timeouts s \<noteq> 0"
  defines "s1 \<equiv> s\<lparr>pending_timeouts := pending_timeouts s - 1\<rparr>"
  shows "\<exists>s' ks. timeout_expired now s1 = Inr s' \<and> timeouts_ok s' \<and>
    timeout_effect (Deliver now) (pending_timeouts s) (timeouts s) ks (timeouts s') \<and> called s' = called s @ ks"
proof -
  obtain ks q where e: "get_expired_keys now (items s) (timeout_queue s) [] = Inr (ks, items s - set ks, q)" "heap_inv 4 q"
      "distinct ks" "set ks = due now (timeouts s)" "sorted (map (\<lambda>k. the (timeouts s k)) ks)"
      "heap_map q = timeouts s |` (- due now (timeouts s))" "dom (heap_map q) = items s - set ks"
    using expired_ok[OF ok] by blast
  let ?s = "s1\<lparr>items := items s - set ks, timeout_queue := q\<rparr>"
  have "\<exists>s'. (if items s - set ks \<noteq> {} then update_timeout ?s else Inr ?s) = Inr s' \<and> timeouts_ok s' \<and>
    timeout_queue s' = q \<and> called s' = called s"
  proof (cases "items s - set ks = {}")
    case True
    then show ?thesis using e by (simp add: timeouts_ok_def armed_def s1_def)
  next
    case False
    then show ?thesis using update_timeout_ok[of ?s] e by (auto simp: s1_def)
  qed
  then obtain s' where s': "(if items s - set ks \<noteq> {} then update_timeout ?s else Inr ?s) = Inr s'" "timeouts_ok s'"
    "timeout_queue s' = q" "called s' = called s" by blast
  have "timeouts_ok (s'\<lparr>called := c\<rparr>)" for c using s'(2) by (simp add: timeouts_ok_def armed_def)
  moreover have "timeout_expired now s1 = Inr (s'\<lparr>called := called s @ ks\<rparr>)"
  proof -
    have "items s1 = items s" "timeout_queue s1 = timeout_queue s" by (simp_all add: s1_def)
    then show ?thesis using e(1) s' by (simp add: timeout_expired_def Let_def)
  qed
  ultimately show ?thesis
    using e s' p by (intro exI[of _ "s'\<lparr>called := called s @ ks\<rparr>"] exI[of _ ks]) simp
qed

lemma run_all_ok:
  assumes ok: "timeouts_ok s"
  shows "\<exists>s' ks. run_all now s = Inr s' \<and> timeouts_ok s' \<and>
    timeout_effect (Run_all now) (pending_timeouts s) (timeouts s) ks (timeouts s') \<and> called s' = called s @ ks"
proof -
  obtain ks q where e: "get_expired_keys now (items s) (timeout_queue s) [] = Inr (ks, items s - set ks, q)" "heap_inv 4 q"
      "distinct ks" "set ks = due now (timeouts s)" "sorted (map (\<lambda>k. the (timeouts s k)) ks)"
      "heap_map q = timeouts s |` (- due now (timeouts s))" "dom (heap_map q) = items s - set ks"
    using expired_ok[OF ok] by blast
  let ?s = "s\<lparr>items := items s - set ks, timeout_queue := q\<rparr>"
  have "\<exists>s'. (if ks \<noteq> [] then update_timeout ?s else Inr ?s) = Inr s' \<and> timeouts_ok s' \<and>
    timeout_queue s' = q \<and> called s' = called s"
  proof (cases "ks = []")
    case True
    then have m: "heap_map q = timeouts s" "items s - set ks = items s" using e(4,6) by auto
    then have "top_key q = top_key (timeout_queue s)" if "items s \<noteq> {}"
    proof -
      have "timeouts s \<noteq> Map.empty" using ok that by (metis timeouts_ok_def dom_empty)
      then show ?thesis using top_key_map[of q "timeout_queue s"] e(2) ok m(1) by (simp add: timeouts_ok_def)
    qed
    then show ?thesis using True ok e(2) m by (auto simp: timeouts_ok_def armed_def)
  next
    case False
    have "items s \<noteq> {}" using False e(4) ok by (cases ks) (auto simp: due_def timeouts_ok_def)
    then have "actor_timeout s \<noteq> None \<or> 0 < pending_timeouts s" using ok by (auto simp: timeouts_ok_def armed_def)
    then show ?thesis using update_timeout_ok[of ?s] e False by auto
  qed
  then obtain s' where s': "(if ks \<noteq> [] then update_timeout ?s else Inr ?s) = Inr s'" "timeouts_ok s'"
    "timeout_queue s' = q" "called s' = called s" by blast
  have "timeouts_ok (s'\<lparr>called := c\<rparr>)" for c using s'(2) by (simp add: timeouts_ok_def armed_def)
  moreover have "run_all now s = Inr (s'\<lparr>called := called s @ ks\<rparr>)"
    using e(1) s' by (simp add: run_all_def)
  ultimately show ?thesis
    using e s' by (intro exI[of _ "s'\<lparr>called := called s @ ks\<rparr>"] exI[of _ ks]) simp
qed

lemma timeout_step_ok:
  assumes "timeouts_ok s" "card (items s) + 1 < 2 ^ 31"
  shows "\<exists>s' ks. timeout_step oper s = Inr s' \<and> timeouts_ok s' \<and> called s' = called s @ ks \<and>
    timeout_effect oper (pending_timeouts s) (timeouts s) ks (timeouts s')"
proof (cases oper)
  case (Set_timeout key t)
  then show ?thesis using set_timeout_ok[OF assms, of key t] by auto
next
  case (Add_timeout key t)
  then show ?thesis using add_timeout_ok[OF assms, of key t] by auto
next
  case (Cancel key)
  then show ?thesis using cancel_timeout_ok[OF assms(1), of key] by auto
next
  case (Run_all horizon)
  then show ?thesis using run_all_ok[OF assms(1), of horizon] by auto
next
  case Fire
  then show ?thesis using assms(1) by (auto simp: timeouts_ok_def armed_def)
next
  case (Deliver now)
  then show ?thesis using timeout_expired_ok[OF assms(1), of now] assms(1) by auto
qed

section \<open>Properties\<close>

text \<open>C27: every operation of \<open>MultiTimeout\<close>, the scheduler's steps included, returns and does to the map
  from keys to times what its name says: setting replaces, adding does not, cancelling removes, and an
  expiry calls back exactly the keys due, each once and the earliest first, and forgets them.\<close>

theorem timeout_step_refines_map:
  assumes "timeouts_ok s" "card (items s) + 1 < 2 ^ 31"
  shows "\<exists>s' ks. timeout_step oper s = Inr s' \<and> timeouts_ok s' \<and> called s' = called s @ ks \<and>
    timeout_effect oper (pending_timeouts s) (timeouts s) ks (timeouts s')"
  by (rule timeout_step_ok[OF assms])

lemma timeouts_ok_new: "timeouts_ok new_multi_timeout"
  using heap_inv_empty[of 4] by (simp add: timeouts_ok_def armed_def new_multi_timeout_def heap_map_def)

lemma timeout_step_refines_map_witness:
  "\<exists>s' ks. timeout_step (Set_timeout 5 (10::int)) new_multi_timeout = Inr s' \<and> timeouts_ok s' \<and>
    called s' = called (new_multi_timeout :: int multi_timeout) @ ks \<and>
    timeout_effect (Set_timeout 5 (10::int)) (pending_timeouts (new_multi_timeout :: int multi_timeout))
      (timeouts new_multi_timeout) ks (timeouts s')"
  by (rule timeout_step_refines_map[OF timeouts_ok_new]) (simp add: new_multi_timeout_def)

lemma effect_card:
  assumes "timeout_effect oper p m ks m'" "finite (dom m)"
  shows "card (dom m') \<le> card (dom m) + 1"
proof -
  have "\<exists>k. dom m' \<subseteq> insert k (dom m)"
    using assms(1) by (cases oper) (auto simp: subset_iff restrict_map_def split: if_splits)
  then obtain k where "dom m' \<subseteq> insert k (dom m)" by blast
  then have "card (dom m') \<le> card (insert k (dom m))" using assms(2) by (intro card_mono) auto
  also have "\<dots> \<le> card (dom m) + 1" by (simp add: card_insert_le_m1 card_insert_if assms(2))
  finally show ?thesis .
qed

lemma step_ok:
  assumes "timeouts_ok s" "card (items s) + 1 < 2 ^ 31"
  shows "\<exists>s'. timeout_step oper s = Inr s' \<and> timeouts_ok s' \<and> card (items s') \<le> card (items s) + 1"
proof -
  obtain s' ks where s': "timeout_step oper s = Inr s'" "timeouts_ok s'"
    "timeout_effect oper (pending_timeouts s) (timeouts s) ks (timeouts s')"
    using timeout_step_ok[OF assms] by blast
  then show ?thesis
    using effect_card[OF s'(3)] assms(1) finite_heap_map[of "timeout_queue s"] by (auto simp: timeouts_ok_def)
qed

text \<open>C28: a \<open>MultiTimeout\<close> on which any sequence of operations is performed, interleaved with the
  scheduler's steps in any way, never fails a \<^verbatim>\<open>CHECK\<close>, and no timeout is missed: for every key, either
  the actor's own timeout is set, no later than the key's time, or a timeout event waits in the mailbox.\<close>

theorem timeouts_never_missed:
  assumes "length ops < 2 ^ 31 - 1"
  shows "\<exists>s. fold_r timeout_step ops new_multi_timeout = Inr s \<and>
    (\<forall>key t. timeouts s key = Some t \<longrightarrow>
      0 < pending_timeouts s \<or> (\<exists>u. actor_timeout s = Some u \<and> u \<le> t))"
proof -
  have "\<exists>s. fold_r timeout_step ops s0 = Inr s \<and> timeouts_ok s"
    if "timeouts_ok s0" "card (items s0) + length ops < 2 ^ 31 - 1" for s0
    using that
  proof (induction ops arbitrary: s0)
    case (Cons oper ops)
    then obtain s1 where "timeout_step oper s0 = Inr s1" "timeouts_ok s1" "card (items s1) \<le> card (items s0) + 1"
      using step_ok[of s0 oper] by auto
    then show ?case using Cons by simp
  qed simp
  then obtain s where s: "fold_r timeout_step ops new_multi_timeout = Inr s" "timeouts_ok s"
    using timeouts_ok_new assms by (force simp: new_multi_timeout_def)
  have "0 < pending_timeouts s \<or> (\<exists>u. actor_timeout s = Some u \<and> u \<le> t)" if "timeouts s key = Some t" for key t
    using s(2) that heap4.next_key_least[of "timeout_queue s" _ key t] by (auto simp: timeouts_ok_def armed_def)
  then show ?thesis using s(1) by blast
qed

lemma timeouts_never_missed_witness:
  "\<exists>s. fold_r timeout_step [Set_timeout 1 (20::int), Set_timeout 2 10, Fire, Set_timeout 2 30, Deliver 25] new_multi_timeout = Inr s \<and>
    (\<forall>key t. timeouts s key = Some t \<longrightarrow>
      0 < pending_timeouts s \<or> (\<exists>u. actor_timeout s = Some u \<and> u \<le> t))"
  by (rule timeouts_never_missed) simp

end
