(* ===== verification/Td_Tl.thy ===== *)
theory Td_Tl
  imports Td_Utf8
begin

text \<open>
  The binary form of TL objects (\<^verbatim>\<open>src/lib/td/tdutils/td/utils/tl_storers.h\<close>, \<^verbatim>\<open>tl_parsers.h\<close>,
  \<^verbatim>\<open>tl_parsers.cpp\<close>), in which all requests, updates and stored data are written: the storer, the
  storer that only computes the length, and the parser with its sticky error.

  The object of a number in memory is its bytes, the lowest first (\<open>le_bytes\<close>, \<open>le_nat\<close>), as on the machines
  TDLib supports; a \<^verbatim>\<open>double\<close> is its 64 bits. An object with a \<^verbatim>\<open>store\<close> method is the sequence of the
  calls it makes. The parser is constructed over a copy of the bytes when they are not aligned; reads
  outside the bytes, or outside the zero bytes \<^verbatim>\<open>empty_data\<close>, are memory errors.
\<close>

section \<open>Numbers in memory\<close>

fun le_bytes :: "nat \<Rightarrow> nat \<Rightarrow> bytes" where
  "le_bytes 0 n = []"
| "le_bytes (Suc k) n = word_of_nat n # le_bytes k (n div 256)"

fun le_nat :: "bytes \<Rightarrow> nat" where
  "le_nat [] = 0"
| "le_nat (b # bs) = unat b + 256 * le_nat bs"

section \<open>Storers\<close>

text \<open>The storer is the bytes written so far.\<close>

definition store_binary :: "bytes \<Rightarrow> bytes \<Rightarrow> bytes" where
  "store_binary x buf = buf @ x"

definition store_int :: "32 word \<Rightarrow> bytes \<Rightarrow> bytes" where
  "store_int x = store_binary (le_bytes 4 (unat x))"

definition store_long :: "64 word \<Rightarrow> bytes \<Rightarrow> bytes" where
  "store_long x = store_binary (le_bytes 8 (unat x))"

definition store_slice :: "bytes \<Rightarrow> bytes \<Rightarrow> bytes" where
  "store_slice sl buf = buf @ sl"

text \<open>A \<^verbatim>\<open>Storer\<close> is what it writes.\<close>

definition store_storer :: "bytes \<Rightarrow> bytes \<Rightarrow> bytes" where
  "store_storer storer buf = buf @ storer"

definition string_padding :: "nat \<Rightarrow> bytes" where
  "string_padding len = (if len AND 3 = 1 then [0, 0, 0] else if len AND 3 = 2 then [0, 0] else if len AND 3 = 3 then [0] else [])"

definition store_string :: "bytes \<Rightarrow> bytes \<Rightarrow> td_error + bytes" where
  "store_string str buf =
     (let len = length str in
      if len < 254 then Inr (buf @ [word_of_nat len] @ str @ string_padding (len + 1))
      else if len < push_bit 24 1 then
        Inr (buf @ [254, word_of_nat (len AND 255), word_of_nat (drop_bit 8 len AND 255), word_of_nat (drop_bit 16 len)]
          @ str @ string_padding len)
      else if len < push_bit 32 1 then
        Inr (buf @ [255, word_of_nat (len AND 255), word_of_nat (drop_bit 8 len AND 255),
              word_of_nat (drop_bit 16 len AND 255), word_of_nat (drop_bit 24 len AND 255), 0, 0, 0]
          @ str @ string_padding len)
      else Inl Check_failed)"

text \<open>\<^verbatim>\<open>TlStorerCalcLength\<close>, its counter a \<^verbatim>\<open>size_t\<close>.\<close>

definition calc_binary :: "nat \<Rightarrow> u64 \<Rightarrow> u64" where
  "calc_binary size_of len = len + word_of_nat size_of"

definition calc_slice :: "bytes \<Rightarrow> u64 \<Rightarrow> u64" where
  "calc_slice sl len = len + word_of_nat (length sl)"

definition calc_storer :: "bytes \<Rightarrow> u64 \<Rightarrow> u64" where
  "calc_storer storer len = len + word_of_nat (length storer)"

definition calc_string :: "bytes \<Rightarrow> u64 \<Rightarrow> u64" where
  "calc_string str len =
     (let add = word_of_nat (length str) :: u64;
          add = (if add < 254 then add + 1 else if add < push_bit 24 1 then add + 4 else add + 8) in
      len + ((add + 3) AND - 4))"

datatype tl_item = Tl_int "32 word" | Tl_long "64 word" | Tl_double "64 word" | Tl_binary bytes
  | Tl_slice bytes | Tl_storer bytes | Tl_string bytes

fun store_item :: "tl_item \<Rightarrow> bytes \<Rightarrow> td_error + bytes" where
  "store_item (Tl_int x) buf = Inr (store_int x buf)"
| "store_item (Tl_long x) buf = Inr (store_long x buf)"
| "store_item (Tl_double x) buf = Inr (store_binary (le_bytes 8 (unat x)) buf)"
| "store_item (Tl_binary x) buf = Inr (store_binary x buf)"
| "store_item (Tl_slice x) buf = Inr (store_slice x buf)"
| "store_item (Tl_storer x) buf = Inr (store_storer x buf)"
| "store_item (Tl_string x) buf = store_string x buf"

fun calc_item :: "tl_item \<Rightarrow> u64 \<Rightarrow> u64" where
  "calc_item (Tl_int x) len = calc_binary 4 len"
| "calc_item (Tl_long x) len = calc_binary 8 len"
| "calc_item (Tl_double x) len = calc_binary 8 len"
| "calc_item (Tl_binary x) len = calc_binary (length x) len"
| "calc_item (Tl_slice x) len = calc_slice x len"
| "calc_item (Tl_storer x) len = calc_storer x len"
| "calc_item (Tl_string x) len = calc_string x len"

definition tl_calc_length :: "tl_item list \<Rightarrow> u64" where
  "tl_calc_length data = fold calc_item data 0"

definition tl_store_unsafe :: "tl_item list \<Rightarrow> td_error + bytes" where
  "tl_store_unsafe data = fold_r store_item data []"

section \<open>The parser\<close>

text \<open>The pointer \<^verbatim>\<open>data\<close> is the offset \<open>pos\<close> into the bytes \<open>block\<close> or, with \<open>at_empty\<close>, into \<^verbatim>\<open>empty_data\<close>.\<close>

record tl_parser =
  block :: bytes
  at_empty :: bool
  pos :: nat
  data_len :: nat
  left_len :: nat
  error_pos :: nat
  error :: string

definition size_t_max :: nat where
  "size_t_max = 2 ^ 64 - 1"

definition empty_data :: bytes where
  "empty_data = replicate 64 0"

definition new_parser :: "bytes \<Rightarrow> tl_parser" where
  "new_parser sl = \<lparr>block = sl, at_empty = False, pos = 0, data_len = length sl, left_len = length sl,
     error_pos = size_t_max, error = []\<rparr>"

definition set_error :: "string \<Rightarrow> tl_parser \<Rightarrow> td_error + tl_parser" where
  "set_error error_message p =
     (if error p = [] then
        bind_r (check_r (error_message \<noteq> []) ()) (\<lambda>_.
        Inr (p\<lparr>error := error_message, error_pos := data_len p - left_len p, at_empty := True, pos := 0,
               left_len := 0, data_len := 0\<rparr>))
      else
        bind_r (check_r (error_pos p \<noteq> size_t_max \<and> data_len p = 0 \<and> left_len p = 0) ()) (\<lambda>_.
        Inr (p\<lparr>at_empty := True, pos := 0\<rparr>)))"

definition get_status :: "tl_parser \<Rightarrow> (string \<times> nat) option" where
  "get_status p = (if error p = [] then None else Some (error p, error_pos p))"

definition check_len :: "nat \<Rightarrow> tl_parser \<Rightarrow> td_error + tl_parser" where
  "check_len len p =
     (if left_len p < len then set_error ''Not enough data to read'' p
      else Inr (p\<lparr>left_len := left_len p - len\<rparr>))"

text \<open>\<open>n\<close> bytes at the offset \<open>off\<close> from the pointer.\<close>

definition peek :: "nat \<Rightarrow> nat \<Rightarrow> tl_parser \<Rightarrow> td_error + bytes" where
  "peek off n p =
     (let m = (if at_empty p then empty_data else block p) in
      if pos p + off + n \<le> length m then Inr (take n (drop (pos p + off) m)) else Inl Memory_error)"

definition advance :: "nat \<Rightarrow> tl_parser \<Rightarrow> tl_parser" where
  "advance n p = p\<lparr>pos := pos p + n\<rparr>"

definition fetch_binary_unsafe :: "nat \<Rightarrow> tl_parser \<Rightarrow> td_error + bytes \<times> tl_parser" where
  "fetch_binary_unsafe n p = bind_r (peek 0 n p) (\<lambda>bs. Inr (bs, advance n p))"

definition fetch_binary :: "nat \<Rightarrow> tl_parser \<Rightarrow> td_error + bytes \<times> tl_parser" where
  "fetch_binary n p = bind_r (check_len n p) (fetch_binary_unsafe n)"

definition can_prefetch_int :: "tl_parser \<Rightarrow> bool" where
  "can_prefetch_int p = (4 \<le> left_len p)"

definition prefetch_int_unsafe :: "tl_parser \<Rightarrow> td_error + 32 word" where
  "prefetch_int_unsafe p = bind_r (peek 0 4 p) (\<lambda>bs. Inr (word_of_nat (le_nat bs)))"

definition fetch_int_unsafe :: "tl_parser \<Rightarrow> td_error + 32 word \<times> tl_parser" where
  "fetch_int_unsafe p = bind_r (peek 0 4 p) (\<lambda>bs. Inr (word_of_nat (le_nat bs), advance 4 p))"

definition fetch_int :: "tl_parser \<Rightarrow> td_error + 32 word \<times> tl_parser" where
  "fetch_int p = bind_r (check_len 4 p) fetch_int_unsafe"

definition fetch_long_unsafe :: "tl_parser \<Rightarrow> td_error + 64 word \<times> tl_parser" where
  "fetch_long_unsafe p = bind_r (peek 0 8 p) (\<lambda>bs. Inr (word_of_nat (le_nat bs), advance 8 p))"

definition fetch_long :: "tl_parser \<Rightarrow> td_error + 64 word \<times> tl_parser" where
  "fetch_long p = bind_r (check_len 8 p) fetch_long_unsafe"

definition fetch_double_unsafe :: "tl_parser \<Rightarrow> td_error + 64 word \<times> tl_parser" where
  "fetch_double_unsafe p = bind_r (peek 0 8 p) (\<lambda>bs. Inr (word_of_nat (le_nat bs), advance 8 p))"

definition fetch_double :: "tl_parser \<Rightarrow> td_error + 64 word \<times> tl_parser" where
  "fetch_double p = bind_r (check_len 8 p) fetch_double_unsafe"

text \<open>The end of \<^verbatim>\<open>fetch_string\<close>: the pointer is \<open>head\<close> bytes further, the string begins \<open>back\<close> bytes before it.\<close>

definition fetch_string_body :: "nat \<Rightarrow> nat \<Rightarrow> nat \<Rightarrow> nat \<Rightarrow> tl_parser \<Rightarrow> td_error + bytes \<times> tl_parser" where
  "fetch_string_body head begin result_len result_aligned_len p =
     bind_r (check_len result_aligned_len (advance head p)) (\<lambda>q.
     if error q \<noteq> [] then Inr ([], q)
     else bind_r (peek begin result_len p) (\<lambda>bs. Inr (bs, advance result_aligned_len q)))"

definition fetch_string :: "tl_parser \<Rightarrow> td_error + bytes \<times> tl_parser" where
  "fetch_string p =
     bind_r (check_len 4 p) (\<lambda>p.
     bind_r (peek 0 1 p) (\<lambda>first. let result_len = le_nat first in
     if result_len < 254 then
       fetch_string_body 4 1 result_len (push_bit 2 (drop_bit 2 result_len)) p
     else if result_len = 254 then
       bind_r (peek 1 3 p) (\<lambda>bs. let result_len = le_nat bs in
         fetch_string_body 4 4 result_len (push_bit 2 (drop_bit 2 (result_len + 3))) p)
     else
       bind_r (check_len 4 p) (\<lambda>p.
       bind_r (peek 1 7 p) (\<lambda>bs. let result_len = le_nat bs in
       if result_len > size_t_max - 3 then bind_r (set_error ''Too big string found'' p) (\<lambda>p. Inr ([], p))
       else fetch_string_body 8 8 result_len (push_bit 2 (drop_bit 2 (result_len + 3))) p))))"

definition fetch_string_raw :: "nat \<Rightarrow> tl_parser \<Rightarrow> td_error + bytes \<times> tl_parser" where
  "fetch_string_raw n p =
     bind_r (check_len n p) (\<lambda>p.
     if error p \<noteq> [] then Inr ([], p)
     else bind_r (peek 0 n p) (\<lambda>bs. Inr (bs, advance n p)))"

definition fetch_end :: "tl_parser \<Rightarrow> td_error + tl_parser" where
  "fetch_end p = (if left_len p \<noteq> 0 then set_error ''Too much data to fetch'' p else Inr p)"

section \<open>Strings of the network\<close>

function last_position :: "bytes \<Rightarrow> nat \<Rightarrow> nat" where
  "last_position str position =
     (if position \<noteq> 0 \<and> \<not> is_utf8_character_first_code_unit (str ! position)
      then last_position str (position - 1) else position)"
  by pat_completeness auto
termination by (relation "measure snd") auto

declare last_position.simps [simp del]

definition last_utf8_character_position :: "bytes \<Rightarrow> td_error + nat" where
  "last_utf8_character_position str =
     bind_r (check_r (str \<noteq> []) ()) (\<lambda>_. Inr (last_position str (length str - 1)))"

text \<open>\<^verbatim>\<open>TlBufferParser::fetch_string\<close> for \<^verbatim>\<open>std::string\<close>.\<close>

definition buffer_fetch_string :: "tl_parser \<Rightarrow> td_error + bytes \<times> tl_parser" where
  "buffer_fetch_string p =
     bind_r (fetch_string p) (\<lambda>(result, p). let result = map (\<lambda>c. if c = 0 then 32 else c) result in
     bind_r (check_utf8 result) (\<lambda>valid.
     if valid then Inr (result, p)
     else bind_r (last_utf8_character_position result) (\<lambda>n. let result = take n result in
       bind_r (check_utf8 result) (\<lambda>valid. if valid then Inr (result, p) else Inr ([], p)))))"

section \<open>Sequences of calls\<close>

datatype tl_call = Fetch_int | Fetch_long | Fetch_double | Fetch_binary nat | Fetch_string | Fetch_string_raw nat

fun fetch_item :: "tl_call \<Rightarrow> tl_parser \<Rightarrow> td_error + tl_item \<times> tl_parser" where
  "fetch_item Fetch_int p = bind_r (fetch_int p) (\<lambda>(x, p). Inr (Tl_int x, p))"
| "fetch_item Fetch_long p = bind_r (fetch_long p) (\<lambda>(x, p). Inr (Tl_long x, p))"
| "fetch_item Fetch_double p = bind_r (fetch_double p) (\<lambda>(x, p). Inr (Tl_double x, p))"
| "fetch_item (Fetch_binary n) p = bind_r (fetch_binary n p) (\<lambda>(x, p). Inr (Tl_binary x, p))"
| "fetch_item Fetch_string p = bind_r (fetch_string p) (\<lambda>(x, p). Inr (Tl_string x, p))"
| "fetch_item (Fetch_string_raw n) p = bind_r (fetch_string_raw n p) (\<lambda>(x, p). Inr (Tl_slice x, p))"

fun fetch_all :: "tl_call list \<Rightarrow> tl_parser \<Rightarrow> td_error + tl_item list \<times> tl_parser" where
  "fetch_all [] p = Inr ([], p)"
| "fetch_all (c # cs) p =
     bind_r (fetch_item c p) (\<lambda>(x, p). bind_r (fetch_all cs p) (\<lambda>(xs, p). Inr (x # xs, p)))"

definition tl_parse :: "tl_call list \<Rightarrow> bytes \<Rightarrow> td_error + tl_item list \<times> (string \<times> nat) option" where
  "tl_parse cs bs =
     bind_r (fetch_all cs (new_parser bs)) (\<lambda>(xs, p). bind_r (fetch_end p) (\<lambda>p. Inr (xs, get_status p)))"

end
