(* ===== verification/Td_Tl_Props.thy ===== *)
theory Td_Tl_Props
  imports Td_Tl Td_Utf8_Props
begin

text \<open>
  The length computed is the length written, the parser gives back what the storer wrote, reads
  nothing outside its input whatever the input, and the strings taken from the network are valid.
\<close>

section \<open>Numbers in memory\<close>

lemma length_le_bytes [simp]: "length (le_bytes k n) = k"
  by (induction k n rule: le_bytes.induct) simp_all

lemma unat_byte_of [simp]: "unat (word_of_nat n :: byte) = n mod 256"
  by (simp add: unsigned_of_nat take_bit_eq_mod)

lemma le_nat_bytes: "le_nat (le_bytes k n) = n mod 256 ^ k"
  by (induction k n rule: le_bytes.induct) (simp_all add: mod_mult2_eq)

lemma le_nat_less: "le_nat bs < 256 ^ length bs"
proof (induction bs)
  case (Cons b bs)
  have "unat b \<le> 255" using byte_less[of b] by simp
  then show ?case using Cons by simp
qed simp

lemma le_nat_word: "le_nat (le_bytes 4 (unat (x :: 32 word))) = unat x" "le_nat (le_bytes 8 (unat (y :: 64 word))) = unat y"
  using unsigned_less[of x, where ?'a = nat] unsigned_less[of y, where ?'a = nat] by (simp_all add: le_nat_bytes)

section \<open>The length\<close>

lemma nat_and_3: "n AND 3 = n mod (4 :: nat)"
  using take_bit_eq_mask[of 2 n] by (simp add: take_bit_eq_mod mask_eq_exp_minus_1)

lemma nat_and_255: "n AND 255 = n mod (256 :: nat)"
  using take_bit_eq_mask[of 8 n] by (simp add: take_bit_eq_mod mask_eq_exp_minus_1)

lemma shifts: "push_bit 24 (1::nat) = 2 ^ 24" "push_bit 32 (1::nat) = 2 ^ 32" "drop_bit 8 n = n div 256"
    "drop_bit 16 n = n div 65536" "drop_bit 24 n = n div 16777216" "push_bit 2 (drop_bit 2 n) = n div 4 * 4" for n :: nat
  by (simp_all add: push_bit_eq_mult drop_bit_eq_div)

text \<open>A string takes up its header and its bytes, filled up to a multiple of four.\<close>

definition stored_length :: "nat \<Rightarrow> nat" where
  "stored_length len = ((if len < 254 then len + 1 else if len < 2 ^ 24 then len + 4 else len + 8) + 3) div 4 * 4"

lemma length_padding: "length (string_padding n) = (n + 3) div 4 * 4 - n"
proof -
  obtain q r where n: "n = 4 * q + r" "r < 4" using mod_less_divisor[of 4 n] by (metis mult_div_mod_eq zero_less_numeral)
  then have "r = 0 \<or> r = 1 \<or> r = 2 \<or> r = 3" by auto
  then show ?thesis using n by (auto simp: string_padding_def nat_and_3)
qed

lemma byte_of_mod [simp]: "word_of_nat (n mod 256) = (word_of_nat n :: byte)"
  by (simp add: word_unat_eq_iff)

lemma le_bytes_numeral: "le_bytes (numeral k) n = word_of_nat n # le_bytes (pred_numeral k) (n div 256)"
  by (simp only: numeral_eq_Suc le_bytes.simps)

lemma string_padding_add [simp]: "string_padding (Suc (Suc (Suc (Suc n)))) = string_padding n"
  by (simp add: string_padding_def nat_and_3 suc4_arith)

definition string_header :: "nat \<Rightarrow> bytes" where
  "string_header len = (if len < 254 then [word_of_nat len] else if len < 2 ^ 24 then 254 # le_bytes 3 len else 255 # le_bytes 7 len)"

lemma length_header: "length (string_header len) = (if len < 254 then 1 else if len < 2 ^ 24 then 4 else 8)"
  by (simp add: string_header_def)

lemma store_string_ok:
  assumes "length s < 2 ^ 32"
  shows "store_string s buf = Inr (buf @ string_header (length s) @ s @ string_padding (length (string_header (length s)) + length s))"
proof -
  have "length s div 256 div 256 div 256 div 256 = 0" using assms by (simp add: div_mult2_eq[symmetric])
  then show ?thesis
    using assms
    by (simp add: store_string_def Let_def shifts nat_and_255 string_header_def le_bytes_numeral div_mult2_eq[symmetric])
qed

lemma len64: "LENGTH(64) = 64"
  by simp

lemma unat_add_small: "unat a + n < 2 ^ 64 \<Longrightarrow> unat (a + word_of_nat n :: u64) = unat a + n"
  by (subst unat_add_lem[THEN iffD1]) (simp_all add: unsigned_of_nat take_bit_eq_mod)

lemma and_minus_4: "unat ((a :: u64) AND - 4) = unat a div 4 * 4"
proof -
  have "a AND - 4 = push_bit 2 (drop_bit 2 a)"
  proof -
    have not3: "- 4 = NOT (mask 2 :: u64)" using minus_exp_eq_not_mask[of 2, where ?'a = "64 word"] by simp
    have suc: "2 \<le> n \<Longrightarrow> Suc (Suc (n - 2)) = n" for n by simp
    show ?thesis
      by (simp only: not3, intro bit_eqI) (auto simp: bit_simps suc not_less)
  qed
  moreover have "unat a div 4 * 4 < 2 ^ 64" using unsigned_less[of a, where ?'a = nat] div_times_less_eq_dividend[of "unat a" 4] by simp
  moreover have "unat (push_bit 2 (drop_bit 2 a)) = take_bit LENGTH(64) (push_bit 2 (drop_bit 2 (take_bit LENGTH(64) (unat a))))"
    by (simp only: unsigned_push_bit_eq unsigned_drop_bit_eq)
  moreover have "take_bit LENGTH(64) (unat a) = unat a"
    using unsigned_less[of a, where ?'a = nat] by (simp add: take_bit_nat_eq_self)
  ultimately show ?thesis
    by (simp only: shifts take_bit_eq_mod) simp
qed

text \<open>What an item takes up.\<close>

fun item_length :: "tl_item \<Rightarrow> nat" where
  "item_length (Tl_int x) = 4"
| "item_length (Tl_long x) = 8"
| "item_length (Tl_double x) = 8"
| "item_length (Tl_binary x) = length x"
| "item_length (Tl_slice x) = length x"
| "item_length (Tl_storer x) = length x"
| "item_length (Tl_string x) = stored_length (length x)"

definition storable :: "tl_item \<Rightarrow> bool" where
  "storable x = (\<forall>s. x = Tl_string s \<longrightarrow> length s < 2 ^ 32)"

lemma store_item_ok:
  assumes "storable x"
  obtains bs where "\<And>buf. store_item x buf = Inr (buf @ bs)" "length bs = item_length x"
proof (cases x)
  case (Tl_string s)
  let ?h = "string_header (length s)"
  have "length s < 2 ^ 32" using assms Tl_string by (simp add: storable_def)
  moreover have "length (?h @ s @ string_padding (length ?h + length s)) = stored_length (length s)"
    using length_padding[of "length ?h + length s"] by (simp add: stored_length_def length_header)
  ultimately show ?thesis
    using that[of "?h @ s @ string_padding (length ?h + length s)"] Tl_string by (simp add: store_string_ok)
qed (use that in \<open>auto simp: store_int_def store_long_def store_binary_def store_slice_def store_storer_def\<close>)

lemma calc_item_ok:
  assumes "storable x" "unat len + item_length x < 2 ^ 64"
  shows "unat (calc_item x len) = unat len + item_length x"
proof (cases x)
  case (Tl_string s)
  let ?n = "length s" and ?w = "word_of_nat (length s) :: u64"
  have n: "?n < 2 ^ 32" using assms(1) Tl_string by (simp add: storable_def)
  then have w: "unat ?w = ?n" by (simp add: unsigned_of_nat take_bit_eq_mod)
  have add: "unat (?w + word_of_nat k) = ?n + k" if "k < 2 ^ 32" for k
    using unat_add_small[of ?w k] w n that by simp
  have lt: "?w < 254 \<longleftrightarrow> ?n < 254" "?w < 16777216 \<longleftrightarrow> ?n < 2 ^ 24"
    using w by (simp_all add: word_less_nat_alt push_bit_eq_mult)
  have "unat ((?w + word_of_nat k + word_of_nat 3) AND - 4) = (?n + k + 3) div 4 * 4" if "k < 2 ^ 32" for k
    using unat_add_small[of "?w + word_of_nat k" 3] add[OF that] n that by (simp add: and_minus_4)
  from this[of 1] this[of 4] this[of 8]
  have e: "unat (((if ?w < 254 then ?w + 1 else if ?w < 16777216 then ?w + 4 else ?w + 8) + 3) AND - 4) = stored_length ?n"
    by (auto simp: lt stored_length_def)
  have "calc_item x len = len + (((if ?w < 254 then ?w + 1 else if ?w < 16777216 then ?w + 4 else ?w + 8) + 3) AND - 4)"
    by (simp add: Tl_string calc_string_def Let_def)
  then show ?thesis
    using assms(2) Tl_string e unat_add_lem[THEN iffD1, of len "((if ?w < 254 then ?w + 1 else if ?w < 16777216 then ?w + 4 else ?w + 8) + 3) AND - 4"]
    by (simp only: item_length.simps len64)
qed (use assms unat_add_small[of len 4] unat_add_small[of len 8] in \<open>simp_all add: calc_binary_def calc_slice_def calc_storer_def unat_add_small\<close>)

section \<open>The parser\<close>

definition wf_parser :: "tl_parser \<Rightarrow> bool" where
  "wf_parser p =
     (if error p = []
      then \<not> at_empty p \<and> pos p + left_len p = length (block p) \<and> data_len p = length (block p) \<and>
        length (block p) < size_t_max
      else at_empty p \<and> left_len p = 0 \<and> data_len p = 0 \<and> error_pos p \<le> length (block p) \<and>
        length (block p) < size_t_max \<and> pos p \<le> 64)"

lemma wf_new: "length bs < size_t_max \<Longrightarrow> wf_parser (new_parser bs)"
  by (simp add: wf_parser_def new_parser_def)

lemma set_error_ok:
  assumes "wf_parser p" "msg \<noteq> []"
  obtains p' where "set_error msg p = Inr p'" "wf_parser p'" "error p' \<noteq> []" "pos p' = 0"
  using assms that
  by (cases "error p = []") (auto simp: set_error_def wf_parser_def size_t_max_def)

text \<open>After a check: the pointer is where it was, \<open>n\<close> bytes before the rest, or on the zero bytes.\<close>

lemma check_len_cases:
  assumes "wf_parser p"
  obtains (ok) "check_len n p = Inr (p\<lparr>left_len := left_len p - n\<rparr>)" "error p = []" "n \<le> left_len p"
  | (bad) p' where "check_len n p = Inr p'" "wf_parser p'" "error p' \<noteq> []" "pos p' = 0 \<or> n = 0"
proof (cases "n \<le> left_len p")
  case True
  then show thesis
    using assms ok bad[of p] by (cases "error p = []") (auto simp: check_len_def wf_parser_def)
next
  case False
  obtain p' where "set_error ''Not enough data to read'' p = Inr p'" "wf_parser p'" "error p' \<noteq> []" "pos p' = 0"
    using set_error_ok[OF assms] by auto
  then show thesis using False bad[of p'] by (simp add: check_len_def)
qed

lemma peek_live: "\<not> at_empty p \<Longrightarrow> pos p + off + n \<le> length (block p) \<Longrightarrow> peek off n p = Inr (take n (drop (pos p + off) (block p)))"
  by (simp add: peek_def)

lemma peek_bad: "wf_parser p \<Longrightarrow> error p \<noteq> [] \<Longrightarrow> pos p + off + n \<le> 64 \<Longrightarrow> peek off n p = Inr (replicate n 0)"
  by (simp add: peek_def wf_parser_def empty_data_def)

lemma fetch_n_ok:
  assumes "wf_parser p" "n \<le> 64"
  obtains q where "check_len n p = Inr q" "\<exists>bs. peek 0 n q = Inr bs" "wf_parser (advance n q)"
  using assms(1)
proof (cases rule: check_len_cases[of p n])
  case ok
  then show thesis
    using that assms(1) by (simp add: wf_parser_def advance_def peek_live)
next
  case (bad p')
  then show thesis
    using that[of p'] assms(2) peek_bad[of p' 0 n] by (auto simp: wf_parser_def advance_def)
qed

text \<open>\<open>h\<close> bytes are checked for but not yet taken; after an error the zero bytes lie ahead.\<close>

definition checked :: "nat \<Rightarrow> tl_parser \<Rightarrow> bool" where
  "checked h p = (if error p = [] then wf_parser (advance h p) else wf_parser p \<and> pos p = 0)"

lemma check_len_checked:
  assumes "wf_parser p \<and> h = 0 \<or> checked h p" "0 < n"
  obtains q where "check_len n p = Inr q" "checked (h + n) q"
proof (cases "error p = []")
  case True
  then have wf: "wf_parser (advance h p)" using assms(1) by (auto simp: checked_def advance_def)
  show thesis
  proof (cases "n \<le> left_len p")
    case True
    then show thesis
      using that[of "p\<lparr>left_len := left_len p - n\<rparr>"] wf \<open>error p = []\<close>
      by (simp add: check_len_def checked_def advance_def wf_parser_def)
  next
    case False
    then show thesis
      using that wf \<open>error p = []\<close>
      by (auto simp: check_len_def set_error_def checked_def advance_def wf_parser_def size_t_max_def)
  qed
next
  case False
  then have "wf_parser p" using assms(1) by (auto simp: checked_def)
  then show thesis
  proof (cases rule: check_len_cases[of p n])
    case (bad p')
    then show thesis using that[of p'] assms(2) by (simp add: checked_def)
  qed (use False in simp)
qed

lemma string_body_ok:
  assumes "checked head p" and live: "error p = [] \<Longrightarrow> begin + len \<le> head + aligned"
    and dead: "error p \<noteq> [] \<Longrightarrow> aligned = 0 \<and> head \<le> 64"
  shows "\<exists>x q. fetch_string_body head begin len aligned p = Inr (x, q) \<and> wf_parser q"
proof -
  let ?p = "advance head p"
  have wf: "wf_parser ?p" using assms(1) dead by (auto simp: checked_def advance_def wf_parser_def)
  have e: "error ?p = error p" by (simp add: advance_def)
  from wf show ?thesis
  proof (cases rule: check_len_cases[of ?p aligned])
    case ok
    then have "peek begin len p = Inr (take len (drop (pos p + begin) (block p)))"
      using wf live e by (intro peek_live) (auto simp: wf_parser_def advance_def)
    then show ?thesis using ok wf by (simp add: fetch_string_body_def advance_def wf_parser_def)
  next
    case bad
    then show ?thesis by (simp add: fetch_string_body_def)
  qed
qed

lemma peek_checked:
  assumes "checked h p" "off + n \<le> h" "h \<le> 64"
  obtains bs where "peek off n p = Inr bs" "length bs = n" "error p \<noteq> [] \<Longrightarrow> bs = replicate n 0"
    "error p = [] \<Longrightarrow> bs = take n (drop (pos p + off) (block p))"
proof (cases "error p = []")
  case True
  then have "\<not> at_empty p" "pos p + off + n \<le> length (block p)"
    using assms by (simp_all add: checked_def advance_def wf_parser_def)
  then show thesis using that[of "take n (drop (pos p + off) (block p))"] True peek_live[of p off n] by simp
next
  case False
  then show thesis using that peek_bad[of p off n] assms by (simp add: checked_def)
qed

lemma le_nat_zeros [simp]: "le_nat (replicate n 0) = 0"
  by (induction n) simp_all

lemma round_down: "n div 4 * 4 \<le> n" "n < n div 4 * 4 + 4" "n \<le> (n + 3) div 4 * 4" for n :: nat
  using div_mult_mod_eq[of n 4] mod_less_divisor[of 4 n] div_mult_mod_eq[of "n + 3" 4] mod_less_divisor[of 4 "n + 3"]
  by linarith+

lemma add_four: "4 + n div 4 * 4 = (4 + n) div 4 * 4" "4 + (n + 3) div 4 * 4 = (7 + n) div 4 * 4"
    "8 + (n + 3) div 4 * 4 = (11 + n) div 4 * 4" for n :: nat
  using div_add_self1[of 4 n] div_add_self1[of 4 "n + 3"] div_mult_self1[of 4 "n + 3" 2]
  by (simp_all add: add.commute add.left_commute)

lemma fetch_string_safe:
  assumes "wf_parser p"
  shows "\<exists>x q. fetch_string p = Inr (x, q) \<and> wf_parser q"
proof -
  obtain q where q: "check_len 4 p = Inr q" "checked 4 q" using check_len_checked[of p 0 4] assms by auto
  obtain first where f: "peek 0 1 q = Inr first" "error q \<noteq> [] \<Longrightarrow> first = replicate 1 0"
    using peek_checked[OF q(2), of 0 1] by auto
  let ?n = "le_nat first"
  consider "?n < 254" | "?n = 254" | "?n > 254" by linarith
  then show ?thesis
  proof cases
    case 1
    have "\<exists>x r. fetch_string_body 4 1 ?n (?n div 4 * 4) q = Inr (x, r) \<and> wf_parser r"
      using q(2) round_down(2)[of ?n] f(2) by (intro string_body_ok) auto
    then show ?thesis using 1 q f by (simp add: fetch_string_def shifts Let_def)
  next
    case 2
    obtain bs where b: "peek 1 3 q = Inr bs" using peek_checked[OF q(2), of 1 3] by auto
    have "\<exists>x r. fetch_string_body 4 4 (le_nat bs) ((le_nat bs + 3) div 4 * 4) q = Inr (x, r) \<and> wf_parser r"
      using q(2) round_down(3)[of "le_nat bs"] f(2) 2 by (intro string_body_ok) auto
    then show ?thesis using 2 q f b by (simp add: fetch_string_def shifts Let_def)
  next
    case 3
    obtain r where r: "check_len 4 q = Inr r" "checked 8 r" using check_len_checked[of q 4 4] q(2) by auto
    obtain bs where b: "peek 1 7 r = Inr bs" "length bs = 7" "error r \<noteq> [] \<Longrightarrow> bs = replicate 7 0"
      using peek_checked[OF r(2), of 1 7] by auto
    have "\<exists>x s. fetch_string_body 8 8 (le_nat bs) ((le_nat bs + 3) div 4 * 4) r = Inr (x, s) \<and> wf_parser s"
      using r(2) round_down(3)[of "le_nat bs"] b(3) by (intro string_body_ok) auto
    moreover have "le_nat bs \<le> size_t_max - 3" using le_nat_less[of bs] b(2) by (simp add: size_t_max_def)
    ultimately show ?thesis using 3 q f r b by (simp add: fetch_string_def shifts Let_def)
  qed
qed

lemma checked_binary_safe:
  assumes "wf_parser p" "n \<le> 64"
  shows "\<exists>bs q. check_len n p = Inr q \<and> peek 0 n q = Inr bs \<and> wf_parser (advance n q)"
  using fetch_n_ok[OF assms] by metis

lemma fetch_raw_safe:
  assumes "wf_parser p"
  shows "\<exists>x q. fetch_string_raw n p = Inr (x, q) \<and> wf_parser q"
  using assms
proof (cases rule: check_len_cases[of p n])
  case ok
  then show ?thesis using assms by (simp add: fetch_string_raw_def peek_live wf_parser_def advance_def)
next
  case bad
  then show ?thesis by (simp add: fetch_string_raw_def)
qed

fun call_allowed :: "tl_call \<Rightarrow> bool" where
  "call_allowed (Fetch_binary n) = (n \<le> 64)"
| "call_allowed c = True"

lemma fetch_item_safe:
  assumes "wf_parser p" "call_allowed c"
  shows "\<exists>x q. fetch_item c p = Inr (x, q) \<and> wf_parser q"
proof (cases c)
  case Fetch_int
  then show ?thesis using checked_binary_safe[OF assms(1), of 4] by (auto simp: fetch_int_def fetch_int_unsafe_def)
next
  case Fetch_long
  then show ?thesis using checked_binary_safe[OF assms(1), of 8] by (auto simp: fetch_long_def fetch_long_unsafe_def)
next
  case Fetch_double
  then show ?thesis using checked_binary_safe[OF assms(1), of 8] by (auto simp: fetch_double_def fetch_double_unsafe_def)
next
  case (Fetch_binary n)
  then show ?thesis
    using checked_binary_safe[OF assms(1), of n] assms(2) by (auto simp: fetch_binary_def fetch_binary_unsafe_def)
next
  case Fetch_string
  then show ?thesis using fetch_string_safe[OF assms(1)] by auto
next
  case (Fetch_string_raw n)
  then show ?thesis using fetch_raw_safe[OF assms(1), of n] by auto
qed

lemma fetch_all_safe:
  "wf_parser p \<Longrightarrow> list_all call_allowed cs \<Longrightarrow> \<exists>xs q. fetch_all cs p = Inr (xs, q) \<and> wf_parser q"
proof (induction cs arbitrary: p)
  case (Cons c cs)
  obtain x q where "fetch_item c p = Inr (x, q)" "wf_parser q" using fetch_item_safe[of p c] Cons.prems by auto
  then show ?case using Cons.IH[of q] Cons.prems by auto
qed simp

lemma set_error_block: "set_error msg p = Inr q \<Longrightarrow> block q = block p"
  by (auto simp: set_error_def check_r_def split: if_splits)

lemma check_len_block: "check_len n p = Inr q \<Longrightarrow> block q = block p"
  by (auto simp: check_len_def set_error_block split: if_splits)

lemma string_body_block: "fetch_string_body h b n a p = Inr (x, q) \<Longrightarrow> block q = block p"
  by (auto simp: fetch_string_body_def bind_r_eq_Inr advance_def dest!: check_len_block split: if_splits)

lemma fetch_string_block: "fetch_string p = Inr (x, q) \<Longrightarrow> block q = block p"
  by (auto simp: fetch_string_def bind_r_eq_Inr Let_def dest!: check_len_block string_body_block set_error_block split: if_splits)

lemma fetch_item_block: "fetch_item c p = Inr (x, q) \<Longrightarrow> block q = block p"
  by (cases c)
    (auto simp: fetch_int_def fetch_long_def fetch_double_def fetch_binary_def fetch_string_raw_def fetch_int_unsafe_def
      fetch_long_unsafe_def fetch_double_unsafe_def fetch_binary_unsafe_def bind_r_eq_Inr advance_def
      dest!: check_len_block fetch_string_block split: if_splits)

lemma fetch_all_block: "fetch_all cs p = Inr (xs, q) \<Longrightarrow> block q = block p"
  by (induction cs arbitrary: p xs) (auto simp: bind_r_eq_Inr dest!: fetch_item_block)

section \<open>Reading what was written\<close>

text \<open>No error so far and \<open>rest\<close> still to be read.\<close>

definition reading :: "tl_parser \<Rightarrow> bytes \<Rightarrow> bool" where
  "reading p rest = (wf_parser p \<and> error p = [] \<and> drop (pos p) (block p) = rest)"

lemma reading_check: "reading p rest \<Longrightarrow> n \<le> length rest \<Longrightarrow> check_len n p = Inr (p\<lparr>left_len := length rest - n\<rparr>)"
  by (auto simp: reading_def wf_parser_def check_len_def)

lemma reading_peek: "reading p rest \<Longrightarrow> off + n \<le> length rest \<Longrightarrow> peek off n (p\<lparr>left_len := l\<rparr>) = Inr (take n (drop off rest))"
  by (auto simp: reading_def wf_parser_def peek_def Let_def add.commute)

lemma reading_advance:
  "reading p rest \<Longrightarrow> n \<le> length rest \<Longrightarrow> reading (advance n (p\<lparr>left_len := length rest - n\<rparr>)) (drop n rest)"
  by (auto simp: reading_def wf_parser_def advance_def add.commute)

fun call_of :: "tl_item \<Rightarrow> tl_call" where
  "call_of (Tl_int x) = Fetch_int"
| "call_of (Tl_long x) = Fetch_long"
| "call_of (Tl_double x) = Fetch_double"
| "call_of (Tl_binary x) = Fetch_binary (length x)"
| "call_of (Tl_slice x) = Fetch_string_raw (length x)"
| "call_of (Tl_storer x) = Fetch_string_raw (length x)"
| "call_of (Tl_string x) = Fetch_string"

fun read_back :: "tl_item \<Rightarrow> tl_item" where
  "read_back (Tl_storer x) = Tl_slice x"
| "read_back x = x"

lemma reading_body:
  assumes r: "reading p rest" and len: "head + aligned \<le> length rest" "begin + n \<le> length rest"
  shows "\<exists>q. fetch_string_body head begin n aligned (p\<lparr>left_len := length rest - head\<rparr>) = Inr (take n (drop begin rest), q) \<and>
    reading q (drop (head + aligned) rest)"
proof -
  have "fetch_string_body head begin n aligned (p\<lparr>left_len := length rest - head\<rparr>)
      = Inr (take n (drop begin rest), advance aligned (advance head (p\<lparr>left_len := length rest - (head + aligned)\<rparr>)))"
    using r len by (simp add: fetch_string_body_def check_len_def advance_def reading_peek[OF r len(2)]) (auto simp: reading_def)
  moreover have "advance aligned (advance head q) = advance (head + aligned) q" for q by (simp add: advance_def)
  ultimately show ?thesis using reading_advance[OF r len(1)] by simp
qed

lemma chk_again: "8 \<le> n \<Longrightarrow> check_len 4 (p\<lparr>left_len := n - 4\<rparr>) = Inr (p\<lparr>left_len := n - 8\<rparr>)"
proof -
  assume "8 \<le> n"
  then have "\<not> n - 4 < 4" by linarith
  then show ?thesis by (simp add: check_len_def)
qed

lemma reading_string:
  assumes r: "reading p (string_header (length s) @ s @ string_padding (length (string_header (length s)) + length s) @ rest)"
    and s: "length s < 2 ^ 32"
  shows "\<exists>q. fetch_string p = Inr (s, q) \<and> reading q rest"
proof -
  let ?n = "length s" and ?h = "string_header (length s)"
  let ?pad = "string_padding (length ?h + ?n)" and ?all = "?h @ s @ string_padding (length ?h + length s) @ rest"
  have len: "length (?h @ s @ ?pad) = (length ?h + ?n + 3) div 4 * 4"
    using length_padding[of "length ?h + ?n"] round_down(3)[of "length ?h + ?n"] by simp
  have body: "\<exists>q. fetch_string_body head (length ?h) ?n aligned (p\<lparr>left_len := length ?all - head\<rparr>) = Inr (s, q) \<and> reading q rest"
    if "head + aligned = (length ?h + ?n + 3) div 4 * 4" for head aligned
  proof -
    have "drop (head + aligned) ?all = rest" using that len by simp
    then show ?thesis using reading_body[OF r, of head aligned "length ?h" ?n] that len by simp
  qed
  have "4 div 4 \<le> (length ?h + ?n + 3) div 4" by (rule div_le_mono) (simp add: length_header)
  then have "1 \<le> (length ?h + ?n + 3) div 4" by simp
  then have "1 * 4 \<le> (length ?h + ?n + 3) div 4 * 4" by (rule mult_le_mono1)
  then have "4 \<le> length (?h @ s @ ?pad)" by (simp only: len)
  then have four: "4 \<le> length ?all" by simp
  note chk = reading_check[OF r four]
  consider "?n < 254" | "254 \<le> ?n" "?n < 2 ^ 24" | "2 ^ 24 \<le> ?n" by linarith
  then show ?thesis
  proof cases
    case 1
    then have h: "?h = [word_of_nat ?n]" by (simp add: string_header_def)
    have "peek 0 1 (p\<lparr>left_len := length ?all - 4\<rparr>) = Inr [word_of_nat ?n]"
      using reading_peek[OF r, of 0 1] four h by simp
    then show ?thesis
      using chk 1 body[of 4 "?n div 4 * 4"] h add_four(1)[of ?n] by (simp add: fetch_string_def shifts Let_def)
  next
    case 2
    then have h: "?h = 254 # le_bytes 3 ?n" by (simp add: string_header_def)
    have "peek 0 1 (p\<lparr>left_len := length ?all - 4\<rparr>) = Inr [254]" "peek 1 3 (p\<lparr>left_len := length ?all - 4\<rparr>) = Inr (le_bytes 3 ?n)"
      using reading_peek[OF r, of 0 1] reading_peek[OF r, of 1 3] four h by simp_all
    then show ?thesis
      using chk 2 body[of 4 "(?n + 3) div 4 * 4"] h add_four(2)[of ?n] by (simp add: fetch_string_def shifts Let_def le_nat_bytes)
  next
    case 3
    then have h: "?h = 255 # le_bytes 7 ?n" by (simp add: string_header_def)
    have eight: "8 \<le> length ?all" using h by simp
    have "check_len 4 (p\<lparr>left_len := length ?all - 4\<rparr>) = Inr (p\<lparr>left_len := length ?all - 8\<rparr>)"
      using chk_again[OF eight] .
    moreover have "peek 0 1 (p\<lparr>left_len := length ?all - 4\<rparr>) = Inr [255]" "peek 1 7 (p\<lparr>left_len := length ?all - 8\<rparr>) = Inr (le_bytes 7 ?n)"
      using reading_peek[OF r, of 0 1] reading_peek[OF r, of 1 7] eight h by simp_all
    ultimately show ?thesis
      using chk s body[of 8 "(?n + 3) div 4 * 4"] h add_four(3)[of ?n] by (simp add: fetch_string_def shifts Let_def le_nat_bytes size_t_max_def)
  qed
qed

lemma reading_item:
  assumes "storable x" "\<And>buf. store_item x buf = Inr (buf @ bs)" "reading p (bs @ rest)"
  shows "\<exists>q. fetch_item (call_of x) p = Inr (read_back x, q) \<and> reading q rest"
proof (cases x)
  case (Tl_string s)
  then have "length s < 2 ^ 32" using assms(1) by (simp add: storable_def)
  then show ?thesis using reading_string[of p s rest] assms(2)[of "[]"] assms(3) Tl_string by (auto simp: store_string_ok)
next
  case (Tl_int y)
  then have bs: "bs = le_bytes 4 (unat y)" using assms(2)[of "[]"] by (simp add: store_int_def store_binary_def)
  show ?thesis
    using reading_check[OF assms(3), of 4] reading_peek[OF assms(3), of 0 4] reading_advance[OF assms(3), of 4] Tl_int
    by (simp add: bs fetch_int_def fetch_int_unsafe_def le_nat_word)
next
  case (Tl_long y)
  then have bs: "bs = le_bytes 8 (unat y)" using assms(2)[of "[]"] by (simp add: store_long_def store_binary_def)
  show ?thesis
    using reading_check[OF assms(3), of 8] reading_peek[OF assms(3), of 0 8] reading_advance[OF assms(3), of 8] Tl_long
    by (simp add: bs fetch_long_def fetch_long_unsafe_def le_nat_word)
next
  case (Tl_double y)
  then have bs: "bs = le_bytes 8 (unat y)" using assms(2)[of "[]"] by (simp add: store_binary_def)
  show ?thesis
    using reading_check[OF assms(3), of 8] reading_peek[OF assms(3), of 0 8] reading_advance[OF assms(3), of 8] Tl_double
    by (simp add: bs fetch_double_def fetch_double_unsafe_def le_nat_word)
next
  case (Tl_binary y)
  then have bs: "bs = y" using assms(2)[of "[]"] by (simp add: store_binary_def)
  show ?thesis
    using reading_check[OF assms(3), of "length bs"] reading_peek[OF assms(3), of 0 "length bs"]
      reading_advance[OF assms(3), of "length bs"] Tl_binary
    by (simp add: bs fetch_binary_def fetch_binary_unsafe_def)
next
  case (Tl_slice y)
  then have bs: "bs = y" using assms(2)[of "[]"] by (simp add: store_slice_def)
  show ?thesis
    using reading_check[OF assms(3), of "length bs"] reading_peek[OF assms(3), of 0 "length bs"]
      reading_advance[OF assms(3), of "length bs"] Tl_slice assms(3)
    by (simp add: bs fetch_string_raw_def reading_def)
next
  case (Tl_storer y)
  then have bs: "bs = y" using assms(2)[of "[]"] by (simp add: store_storer_def)
  show ?thesis
    using reading_check[OF assms(3), of "length bs"] reading_peek[OF assms(3), of 0 "length bs"]
      reading_advance[OF assms(3), of "length bs"] Tl_storer assms(3)
    by (simp add: bs fetch_string_raw_def reading_def)
qed

lemma store_all_ok:
  assumes "list_all storable xs"
  obtains bs where "\<And>buf. fold_r store_item xs buf = Inr (buf @ bs)" "length bs = sum_list (map item_length xs)"
    "\<And>p rest. reading p (bs @ rest) \<Longrightarrow> \<exists>q. fetch_all (map call_of xs) p = Inr (map read_back xs, q) \<and> reading q rest"
  using assms
proof (induction xs arbitrary: thesis)
  case Nil
  then show ?case using Nil(1)[of "[]"] by simp
next
  case (Cons x xs)
  have sx: "storable x" "list_all storable xs" using Cons(3) by simp_all
  obtain b where b: "\<And>buf. store_item x buf = Inr (buf @ b)" "length b = item_length x"
    using store_item_ok[OF sx(1)] by blast
  obtain bs where bs: "\<And>buf. fold_r store_item xs buf = Inr (buf @ bs)" "length bs = sum_list (map item_length xs)"
    "\<And>p rest. reading p (bs @ rest) \<Longrightarrow> \<exists>q. fetch_all (map call_of xs) p = Inr (map read_back xs, q) \<and> reading q rest"
    using Cons(1)[OF _ sx(2)] by blast
  have "\<exists>q. fetch_all (map call_of (x # xs)) p = Inr (map read_back (x # xs), q) \<and> reading q rest"
    if r: "reading p ((b @ bs) @ rest)" for p rest
  proof -
    obtain q where "fetch_item (call_of x) p = Inr (read_back x, q)" "reading q (bs @ rest)"
      using reading_item[of x b p "bs @ rest"] b(1) Cons(3) r by auto
    then show ?thesis using bs(3)[of q rest] by auto
  qed
  then show ?case using Cons(2)[of "b @ bs"] b bs by simp
qed

section \<open>Properties\<close>

text \<open>C29: whatever is stored, all of it comes back: fetching, in the same order, the kinds of values that
  were stored into the bytes gives the same values, ends without error and leaves nothing over.\<close>

theorem tl_roundtrip:
  assumes "list_all storable xs" "sum_list (map item_length xs) < size_t_max"
  shows "bind_r (tl_store_unsafe xs) (tl_parse (map call_of xs)) = Inr (map read_back xs, None)"
proof -
  obtain bs where bs: "\<And>buf. fold_r store_item xs buf = Inr (buf @ bs)" "length bs = sum_list (map item_length xs)"
    "\<And>p rest. reading p (bs @ rest) \<Longrightarrow> \<exists>q. fetch_all (map call_of xs) p = Inr (map read_back xs, q) \<and> reading q rest"
    using store_all_ok[OF assms(1)] by blast
  have "reading (new_parser bs) (bs @ [])" using wf_new[of bs] bs(2) assms(2) by (simp add: reading_def new_parser_def)
  then obtain q where q: "fetch_all (map call_of xs) (new_parser bs) = Inr (map read_back xs, q)" "reading q []"
    using bs(3) by blast
  then have "left_len q = 0" "error q = []" by (auto simp: reading_def wf_parser_def)
  then show ?thesis using bs(1)[of "[]"] q(1) by (simp add: tl_store_unsafe_def tl_parse_def fetch_end_def get_status_def)
qed

lemma tl_roundtrip_witness:
  "bind_r (tl_store_unsafe [Tl_int 0x1cb5c415, Tl_string [104, 105], Tl_long (- 1)])
     (tl_parse [Fetch_int, Fetch_string, Fetch_long]) = Inr ([Tl_int 0x1cb5c415, Tl_string [104, 105], Tl_long (- 1)], None)"
  using tl_roundtrip[of "[Tl_int 0x1cb5c415, Tl_string [104, 105], Tl_long (- 1)]"]
  by (simp add: storable_def stored_length_def size_t_max_def)

text \<open>C30: the length computed beforehand, for which the buffer is allocated, is exactly the number of bytes
  the unchecked storer then writes.\<close>

theorem tl_length_exact:
  assumes "list_all storable xs" "sum_list (map item_length xs) < 2 ^ 64"
  shows "\<exists>bs. tl_store_unsafe xs = Inr bs \<and> length bs = unat (tl_calc_length xs)"
proof -
  have "list_all storable xs \<Longrightarrow> unat len + sum_list (map item_length xs) < 2 ^ 64 \<Longrightarrow>
    unat (fold calc_item xs len) = unat len + sum_list (map item_length xs)" for len
    by (induction xs arbitrary: len) (simp_all add: calc_item_ok)
  from this[of 0] have "unat (tl_calc_length xs) = sum_list (map item_length xs)"
    using assms by (simp add: tl_calc_length_def)
  then show ?thesis using store_all_ok[OF assms(1)] by (metis tl_store_unsafe_def append_Nil)
qed

lemma tl_length_exact_witness:
  "\<exists>bs. tl_store_unsafe [Tl_int 7, Tl_string (replicate 300 65)] = Inr bs \<and>
     length bs = unat (tl_calc_length [Tl_int 7, Tl_string (replicate 300 65)])"
  by (rule tl_length_exact) (simp_all add: storable_def stored_length_def)

text \<open>C31: the parser is safe on every input. Any sequence of fetches on any bytes returns: it reads neither
  outside the bytes nor outside the zero bytes it turns to after an error, and no check of it fails. It ends
  either with an error and a position inside the bytes, or having read exactly all of them.\<close>

theorem tl_parse_safe:
  assumes "length bs < size_t_max" "list_all call_allowed cs"
  shows "\<exists>xs q r. fetch_all cs (new_parser bs) = Inr (xs, q) \<and> fetch_end q = Inr r \<and>
    (case get_status r of None \<Rightarrow> pos q = length bs | Some (msg, at) \<Rightarrow> msg \<noteq> [] \<and> at \<le> length bs)"
proof -
  obtain xs q where q: "fetch_all cs (new_parser bs) = Inr (xs, q)" "wf_parser q"
    using fetch_all_safe[OF wf_new[OF assms(1)] assms(2)] by blast
  then have block: "block q = bs" using fetch_all_block by (fastforce simp: new_parser_def)
  show ?thesis
    using q block
    by (cases "error q = []") (auto simp: fetch_end_def set_error_def get_status_def wf_parser_def)
qed

lemma tl_parse_safe_witness:
  "\<exists>xs q r. fetch_all [Fetch_int, Fetch_string, Fetch_string] (new_parser [1, 2, 3, 4, 255, 255, 255]) = Inr (xs, q) \<and>
    fetch_end q = Inr r \<and>
    (case get_status r of None \<Rightarrow> pos q = length [1, 2, 3, 4, 255, 255, 255 :: byte]
      | Some (msg, at) \<Rightarrow> msg \<noteq> [] \<and> at \<le> length [1, 2, 3, 4, 255, 255, 255 :: byte])"
  by (rule tl_parse_safe) (simp_all add: size_t_max_def)

text \<open>C32: every string the network parser delivers is well-formed: UTF-8 text without a zero byte, whatever
  the bytes received; a string that was such text already is delivered as it is.\<close>

theorem buffer_string_valid:
  assumes "wf_parser p"
  shows "\<exists>s q raw. buffer_fetch_string p = Inr (s, q) \<and> wf_parser q \<and> check_utf8 s = Inr True \<and> 0 \<notin> set s \<and>
    fetch_string p = Inr (raw, q) \<and> (0 \<notin> set raw \<and> check_utf8 raw = Inr True \<longrightarrow> s = raw)"
proof -
  obtain raw q where raw: "fetch_string p = Inr (raw, q)" "wf_parser q" using fetch_string_safe[OF assms] by blast
  let ?s = "map (\<lambda>c. if c = 0 then 32 else c) raw :: bytes"
  have z: "0 \<notin> set ?s" by auto
  have same: "0 \<notin> set raw \<Longrightarrow> ?s = raw" by (induction raw) auto
  have total: "\<exists>b. check_utf8 t = Inr b" for t by (simp add: check_utf8_def check_utf8_total)
  have empty: "check_utf8 [] = Inr True" by (simp add: check_utf8_def)
  obtain b where b: "check_utf8 ?s = Inr b" using total by blast
  show ?thesis
  proof (cases b)
    case True
    then show ?thesis using raw b z same by (simp add: buffer_fetch_string_def)
  next
    case False
    then have ne: "?s \<noteq> []" using b empty by auto
    let ?t = "take (last_position ?s (length ?s - 1)) ?s"
    obtain c where c: "check_utf8 ?t = Inr c" using total by blast
    have "0 \<notin> set ?t" using z by (auto dest: in_set_takeD)
    then show ?thesis
      using raw b False ne c empty same
      by (cases c) (auto simp: buffer_fetch_string_def last_utf8_character_position_def Let_def)
  qed
qed

lemma buffer_string_valid_witness:
  "\<exists>s q raw. buffer_fetch_string (new_parser [3, 65, 0, 195]) = Inr (s, q) \<and> wf_parser q \<and> check_utf8 s = Inr True \<and>
    0 \<notin> set s \<and> fetch_string (new_parser [3, 65, 0, 195]) = Inr (raw, q) \<and>
    (0 \<notin> set raw \<and> check_utf8 raw = Inr True \<longrightarrow> s = raw)"
  by (rule buffer_string_valid[OF wf_new]) (simp add: size_t_max_def)

end
