(* ===== verification/Td_Text.thy ===== *)
theory Td_Text
  imports Td_Bytes
begin

text \<open>
  The string helpers of \<^verbatim>\<open>src/lib/td/tdutils/td/utils/misc.h\<close> and \<^verbatim>\<open>misc.cpp\<close>: character classes,
  splitting, trimming and padding, hexadecimal and percent encodings, run-length encodings of zero
  bytes, and numbers read from text.

  Comparisons of \<^verbatim>\<open>char\<close> are modelled on the unsigned byte: all of them test a range of ASCII
  characters, which a byte of 128 or more, negative as a \<^verbatim>\<open>char\<close>, is outside of either way.
\<close>

section \<open>Characters\<close>

definition is_digit :: "byte \<Rightarrow> bool" where
  "is_digit c = (48 \<le> c \<and> c \<le> 57)"

definition is_alpha :: "byte \<Rightarrow> bool" where
  "is_alpha c = (let c = c OR 0x20 in 97 \<le> c \<and> c \<le> 122)"

definition is_alnum :: "byte \<Rightarrow> bool" where
  "is_alnum c = (is_alpha c \<or> is_digit c)"

definition is_hex_digit :: "byte \<Rightarrow> bool" where
  "is_hex_digit c = (if is_digit c then True else let c = c OR 0x20 in 97 \<le> c \<and> c \<le> 102)"

definition is_space :: "byte \<Rightarrow> bool" where
  "is_space c = (c = 32 \<or> c = 9 \<or> c = 13 \<or> c = 10 \<or> c = 0 \<or> c = 11)"

definition hex_to_int :: "byte \<Rightarrow> nat" where
  "hex_to_int c =
     (if is_digit c then unat (c - 48)
      else let c = c OR 0x20 in if 97 \<le> c \<and> c \<le> 102 then unat (c - 97) + 10 else 16)"

definition to_lower_char :: "byte \<Rightarrow> byte" where
  "to_lower_char c = (if 65 \<le> c \<and> c \<le> 90 then c - 65 + 97 else c)"

definition to_upper_char :: "byte \<Rightarrow> byte" where
  "to_upper_char c = (if 97 \<le> c \<and> c \<le> 122 then c - 97 + 65 else c)"

definition to_lower :: "bytes \<Rightarrow> bytes" where
  "to_lower sl = map to_lower_char sl"

definition to_upper :: "bytes \<Rightarrow> bytes" where
  "to_upper sl = map to_upper_char sl"

section \<open>Parts of strings\<close>

definition find_char :: "bytes \<Rightarrow> byte \<Rightarrow> nat option" where
  "find_char s c = (if c \<in> set s then Some (length (takeWhile (\<lambda>x. x \<noteq> c) s)) else None)"

definition split_pair :: "bytes \<Rightarrow> byte \<Rightarrow> bytes \<times> bytes" where
  "split_pair s delimiter =
     (case find_char s delimiter of None \<Rightarrow> (s, []) | Some pos \<Rightarrow> (take pos s, drop (pos + 1) s))"

function full_split_loop :: "bytes \<Rightarrow> byte \<Rightarrow> nat \<Rightarrow> bytes list \<Rightarrow> bytes list" where
  "full_split_loop s delimiter max_parts result =
     (if length result + 1 < max_parts then
        case find_char s delimiter of None \<Rightarrow> result @ [s]
        | Some pos \<Rightarrow> full_split_loop (drop (pos + 1) s) delimiter max_parts (result @ [take pos s])
      else result @ [s])"
  by pat_completeness auto
termination
  by (relation "measure (\<lambda>(s, _, _, _). length s)") (auto simp: find_char_def split: if_splits intro: diff_less length_pos_if_in_set)

declare full_split_loop.simps [simp del]

definition full_split :: "bytes \<Rightarrow> byte \<Rightarrow> nat \<Rightarrow> bytes list" where
  "full_split s delimiter max_parts = (if s = [] then [] else full_split_loop s delimiter max_parts [])"

definition implode_with :: "bytes list \<Rightarrow> byte \<Rightarrow> bytes" where
  "implode_with v delimiter =
     foldl (\<lambda>result i. (if i \<noteq> 0 then result @ [delimiter] else result) @ v ! i) [] [0..<length v]"

definition begins_with :: "bytes \<Rightarrow> bytes \<Rightarrow> bool" where
  "begins_with str pre = (length pre \<le> length str \<and> pre = take (length pre) str)"

definition ends_with :: "bytes \<Rightarrow> bytes \<Rightarrow> bool" where
  "ends_with str suf = (length suf \<le> length str \<and> suf = drop (length str - length suf) str)"

definition trim :: "bytes \<Rightarrow> bytes" where
  "trim str = rev (dropWhile is_space (rev (dropWhile is_space str)))"

definition lpad :: "bytes \<Rightarrow> nat \<Rightarrow> byte \<Rightarrow> bytes" where
  "lpad str n c = (if n \<le> length str then str else replicate (n - length str) c @ str)"

definition lpad0 :: "bytes \<Rightarrow> nat \<Rightarrow> bytes" where
  "lpad0 str n = lpad str n 48"

definition rpad :: "bytes \<Rightarrow> nat \<Rightarrow> byte \<Rightarrow> bytes" where
  "rpad str n c = (if n \<le> length str then str else str @ replicate (n - length str) c)"

fun oneline_loop :: "bytes \<Rightarrow> bool \<Rightarrow> bytes \<Rightarrow> bytes" where
  "oneline_loop [] after_new_line result = result"
| "oneline_loop (c # cs) after_new_line result =
     (if c \<noteq> 10 \<and> c \<noteq> 13 then
        if after_new_line \<and> c = 32 then oneline_loop cs True result
        else oneline_loop cs False (result @ [c])
      else if \<not> after_new_line then oneline_loop cs True (result @ [32])
      else oneline_loop cs after_new_line result)"

definition oneline :: "bytes \<Rightarrow> bytes" where
  "oneline str = rev (dropWhile (\<lambda>c. c = 32) (rev (oneline_loop str True [])))"

section \<open>Hexadecimal and percent encodings\<close>

definition hex_lower :: bytes where
  "hex_lower = bytes_of ''0123456789abcdef''"

definition hex_upper :: bytes where
  "hex_upper = bytes_of ''0123456789ABCDEF''"

definition hex_decode_step :: "bytes \<Rightarrow> nat \<Rightarrow> bytes \<Rightarrow> td_error + bytes" where
  "hex_decode_step hex i result =
     (let high = hex_to_int (hex ! (i + i)); low = hex_to_int (hex ! (i + i + 1)) in
      if high = 16 \<or> low = 16 then Inl (Status_error ''Wrong hex string'')
      else Inr (result[i := word_of_nat (high * 16 + low)]))"

definition hex_decode :: "bytes \<Rightarrow> td_error + bytes" where
  "hex_decode hex =
     (if length hex mod 2 \<noteq> 0 then Inl (Status_error ''Wrong hex string length'')
      else fold_r (hex_decode_step hex) [0..<length hex div 2] (replicate (length hex div 2) 0))"

definition hex_encode :: "bytes \<Rightarrow> bytes" where
  "hex_encode data = foldl (\<lambda>res c. res @ [hex_lower ! unat (drop_bit 4 c)] @ [hex_lower ! unat (c AND 15)]) [] data"

text \<open>\<^verbatim>\<open>buffer_to_hex\<close> writes the low half of a byte first.\<close>

definition buffer_to_hex :: "bytes \<Rightarrow> bytes" where
  "buffer_to_hex buffer =
     foldl (\<lambda>res i. let c = buffer ! i in res[2 * i := hex_upper ! unat (c AND 15), 2 * i + 1 := hex_upper ! unat (drop_bit 4 c)])
       (replicate (2 * length buffer) 0) [0..<length buffer]"

definition is_url_char :: "byte \<Rightarrow> bool" where
  "is_url_char c = (is_alnum c \<or> c = 45 \<or> c = 46 \<or> c = 95 \<or> c = 126)"

definition url_encode :: "bytes \<Rightarrow> td_error + bytes" where
  "url_encode data =
     (let len = foldl (\<lambda>len c. len - 2 * of_bool (is_url_char c)) (3 * word_of_nat (length data) :: u64) data in
      if len = word_of_nat (length data) then Inr data
      else
        let result = foldl (\<lambda>result c.
          if is_url_char c then result @ [c]
          else result @ [37] @ [hex_upper ! (unat c div 16)] @ [hex_upper ! (unat c mod 16)]) [] data in
        check_r (word_of_nat (length result) = len) result)"

text \<open>
  \<^verbatim>\<open>url_decode\<close> from a slice into another, which \<^verbatim>\<open>url_decode_inplace\<close> lets be the same memory: with
  \<open>same\<close>, what is read are the bytes of \<open>to\<close>, some of them already overwritten.
\<close>

function url_decode_loop :: "bool \<Rightarrow> bool \<Rightarrow> bytes \<Rightarrow> nat \<Rightarrow> bytes \<Rightarrow> nat \<Rightarrow> td_error + bytes \<times> nat" where
  "url_decode_loop same spaces from from_i to to_i =
     (let src = (if same then to else from); n = length from in
      if n \<le> from_i then Inr (to, to_i)
      else if length src < n \<or> length to \<le> to_i then Inl Memory_error
      else
        let high = hex_to_int (src ! (from_i + 1)); low = hex_to_int (src ! (from_i + 2)) in
        if (src ! from_i = 37 \<and> from_i + 2 < n) \<and> high < 16 \<and> low < 16
        then url_decode_loop same spaces from (from_i + 3) (to[to_i := word_of_nat (high * 16 + low)]) (to_i + 1)
        else url_decode_loop same spaces from (from_i + 1)
          (to[to_i := if spaces \<and> src ! from_i = 43 then 32 else src ! from_i]) (to_i + 1))"
  by pat_completeness auto
termination by (relation "measure (\<lambda>(_, _, from, from_i, _, _). length from - from_i)") auto

declare url_decode_loop.simps [simp del]

definition url_decode_slice :: "bool \<Rightarrow> bool \<Rightarrow> bytes \<Rightarrow> bytes \<Rightarrow> td_error + bytes \<times> nat" where
  "url_decode_slice same spaces from to =
     bind_r (check_r (length from \<le> length to) ()) (\<lambda>_. url_decode_loop same spaces from 0 to 0)"

definition url_decode :: "bytes \<Rightarrow> bool \<Rightarrow> td_error + bytes" where
  "url_decode from spaces =
     bind_r (url_decode_slice False spaces from (replicate (length from) 0)) (\<lambda>(to, n). Inr (take n to))"

definition url_decode_inplace :: "bytes \<Rightarrow> bool \<Rightarrow> td_error + bytes" where
  "url_decode_inplace str spaces =
     bind_r (url_decode_slice True spaces str str) (\<lambda>(str, n). Inr (take n str))"

section \<open>Runs of zeros\<close>

text \<open>The inner loop counts how many bytes equal to \<open>c\<close> there are, itself included and at most 250.\<close>

fun count_run :: "byte \<Rightarrow> bytes \<Rightarrow> nat \<Rightarrow> nat" where
  "count_run c [] cnt = cnt"
| "count_run c (x # xs) cnt = (if cnt < 250 \<and> x = c then count_run c xs (cnt + 1) else cnt)"

function run_encode :: "(byte \<Rightarrow> bool) \<Rightarrow> bytes \<Rightarrow> bytes \<Rightarrow> bytes" where
  "run_encode special [] res = res"
| "run_encode special (c # cs) res =
     (if special c then
        let cnt = count_run c cs 1 in run_encode special (drop (cnt - 1) cs) (res @ [c] @ [word_of_nat cnt])
      else run_encode special cs (res @ [c]))"
  by pat_completeness auto
termination by (relation "measure (\<lambda>(_, data, _). length data)") auto

fun run_decode :: "(byte \<Rightarrow> bool) \<Rightarrow> bytes \<Rightarrow> bytes \<Rightarrow> bytes" where
  "run_decode special [] res = res"
| "run_decode special [c] res = res @ [c]"
| "run_decode special (c # d # cs) res =
     (if special c then run_decode special cs (res @ replicate (unat d) c)
      else run_decode special (d # cs) (res @ [c]))"

definition zero_encode :: "bytes \<Rightarrow> bytes" where
  "zero_encode data = run_encode (\<lambda>c. c = 0) data []"

definition zero_decode :: "bytes \<Rightarrow> bytes" where
  "zero_decode data = run_decode (\<lambda>c. c = 0) data []"

definition zero_one_encode :: "bytes \<Rightarrow> bytes" where
  "zero_one_encode data = run_encode (\<lambda>c. c = 0 \<or> c = 0xff) data []"

definition zero_one_decode :: "bytes \<Rightarrow> bytes" where
  "zero_one_decode data = run_decode (\<lambda>c. c = 0 \<or> c = 0xff) data []"

section \<open>Numbers\<close>

text \<open>\<^verbatim>\<open>to_integer\<close> for an unsigned and for a signed type; the result type gives the width.\<close>

fun digits_value :: "bytes \<Rightarrow> 'a::len word \<Rightarrow> 'a word" where
  "digits_value [] integer_value = integer_value"
| "digits_value (c # cs) integer_value =
     (if is_digit c then digits_value cs (integer_value * 10 + ucast (c - 48)) else integer_value)"

definition to_integer_unsigned :: "bytes \<Rightarrow> 'a::len word" where
  "to_integer_unsigned str = digits_value str 0"

definition signed_max :: "'a::len word" where
  "signed_max = drop_bit 1 (- 1)"

definition to_integer_signed :: "bytes \<Rightarrow> 'a::len word" where
  "to_integer_signed str =
     (let is_negative = (str \<noteq> [] \<and> hd str = 45);
          integer_value = digits_value (if is_negative then tl str else str) 0 :: 'a word in
      if integer_value > signed_max then
        let integer_value = NOT integer_value + 1; is_negative = (\<not> is_negative) in
        if integer_value > signed_max then signed_max + 1
        else if is_negative then - integer_value else integer_value
      else if is_negative then - integer_value else integer_value)"

fun hex_to_integer_loop :: "bytes \<Rightarrow> 'a::len word \<Rightarrow> 'a word" where
  "hex_to_integer_loop [] integer_value = integer_value"
| "hex_to_integer_loop (c # cs) integer_value =
     (if is_hex_digit c then hex_to_integer_loop cs (integer_value * 16 + word_of_nat (hex_to_int c)) else integer_value)"

definition hex_to_integer :: "bytes \<Rightarrow> 'a::len word" where
  "hex_to_integer str = hex_to_integer_loop str 0"

fun hex_to_integer_safe_loop :: "bytes \<Rightarrow> 'a::len word \<Rightarrow> td_error + 'a word" where
  "hex_to_integer_safe_loop [] integer_value = Inr integer_value"
| "hex_to_integer_safe_loop (c # cs) integer_value =
     (let digit = hex_to_int c in
      if digit = 16 then Inl (Status_error ''String contains non-hex digit'')
      else if integer_value > (- 1) div 16 then Inl (Status_error ''String hex number overflows'')
      else hex_to_integer_safe_loop cs (integer_value * 16 + word_of_nat digit))"

definition hex_to_integer_safe :: "bytes \<Rightarrow> td_error + 'a::len word" where
  "hex_to_integer_safe str =
     (if str = [] then Inl (Status_error ''String is empty'') else hex_to_integer_safe_loop str 0)"

definition clamp :: "'a::linorder \<Rightarrow> 'a \<Rightarrow> 'a \<Rightarrow> 'a" where
  "clamp v min_value max_value = (if v < min_value then min_value else if v > max_value then max_value else v)"

end
