(* ===== verification/Td_Text_Props.thy ===== *)
theory Td_Text_Props
  imports Td_Text
begin

text \<open>
  The encodings of \<open>Td_Text\<close> are undone by their decoders, splitting by joining, and checked numbers
  are exactly those that fit.
\<close>

section \<open>Characters\<close>

lemma hex_digit_cases: "hex_to_int c \<le> 16" "hex_to_int c < 16 \<longleftrightarrow> is_hex_digit c"
proof -
  have "hex_to_int c \<le> 16 \<and> (hex_to_int c < 16 \<longleftrightarrow> is_hex_digit c)"
    by (rule all_bytes) code_simp
  then show "hex_to_int c \<le> 16" "hex_to_int c < 16 \<longleftrightarrow> is_hex_digit c" by simp_all
qed

lemma hex_tables: "k < 16 \<Longrightarrow> hex_to_int (hex_lower ! k) = k \<and> hex_to_int (hex_upper ! k) = k"
proof -
  assume k: "k < 16"
  have "list_all (\<lambda>k. hex_to_int (hex_lower ! k) = k \<and> hex_to_int (hex_upper ! k) = k) [0..<16]" by code_simp
  then show ?thesis using k by (simp add: list_all_iff)
qed

lemma half_bytes: "unat (drop_bit 4 c) = unat c div 16" "unat (c AND 15) = unat c mod 16" for c :: byte
proof -
  have "unat (drop_bit 4 c) = unat c div 16 \<and> unat (c AND 15) = unat c mod 16" by (rule all_bytes) code_simp
  then show "unat (drop_bit 4 c) = unat c div 16" "unat (c AND 15) = unat c mod 16" by simp_all
qed

lemma halves:
  "hex_to_int (hex_lower ! unat (drop_bit 4 c)) = unat c div 16" "hex_to_int (hex_lower ! unat (c AND 15)) = unat c mod 16"
  "hex_to_int (hex_upper ! (unat c div 16)) = unat c div 16" "hex_to_int (hex_upper ! (unat c mod 16)) = unat c mod 16"
  for c :: byte
  using hex_tables[of "unat c div 16"] hex_tables[of "unat c mod 16"] byte_less[of c] by (simp_all add: half_bytes)

lemma hex_lower_value: "hex_to_int c < 16 \<Longrightarrow> hex_lower ! hex_to_int c = to_lower_char c"
proof -
  have "hex_to_int c < 16 \<longrightarrow> hex_lower ! hex_to_int c = to_lower_char c" by (rule all_bytes) code_simp
  then show "hex_to_int c < 16 \<Longrightarrow> hex_lower ! hex_to_int c = to_lower_char c" by simp
qed

section \<open>Hexadecimal\<close>

lemma hex_encode_eq:
  "hex_encode data = concat (map (\<lambda>c. [hex_lower ! unat (drop_bit 4 c), hex_lower ! unat (c AND 15)]) data)"
proof -
  have "foldl (\<lambda>res c. res @ [hex_lower ! unat (drop_bit 4 c)] @ [hex_lower ! unat (c AND 15)]) acc data
      = acc @ concat (map (\<lambda>c. [hex_lower ! unat (drop_bit 4 c), hex_lower ! unat (c AND 15)]) data)" for acc
    by (induction data arbitrary: acc) simp_all
  then show ?thesis by (simp add: hex_encode_def)
qed

text \<open>The decoder on pairs of characters.\<close>

fun pairs_value :: "bytes \<Rightarrow> bytes" where
  "pairs_value (h # l # cs) = word_of_nat (hex_to_int h * 16 + hex_to_int l) # pairs_value cs"
| "pairs_value cs = []"

lemma length_pairs [simp]: "length (pairs_value cs) = length cs div 2"
  by (induction cs rule: pairs_value.induct) auto

lemma nth_pairs: "i < length cs div 2 \<Longrightarrow> pairs_value cs ! i = word_of_nat (hex_to_int (cs ! (2 * i)) * 16 + hex_to_int (cs ! (2 * i + 1)))"
proof (induction cs arbitrary: i rule: pairs_value.induct)
  case (1 h l cs)
  then show ?case by (cases i) auto
qed auto

lemma hex_decode_eq:
  "hex_decode hex =
     (if odd (length hex) then Inl (Status_error ''Wrong hex string length'')
      else if list_all is_hex_digit hex then Inr (pairs_value hex) else Inl (Status_error ''Wrong hex string''))"
proof (cases "even (length hex)")
  case True
  define n where "n = length hex div 2"
  have two: "length hex = 2 * n" using True by (simp add: n_def)
  define good where "good i = (is_hex_digit (hex ! (2 * i)) \<and> is_hex_digit (hex ! (2 * i + 1)))" for i
  have step: "hex_decode_step hex i r = (if good i then Inr (r[i := pairs_value hex ! i]) else Inl (Status_error ''Wrong hex string''))"
    if "i < n" for i r
    using hex_digit_cases[of "hex ! (2 * i)"] hex_digit_cases[of "hex ! (2 * i + 1)"] nth_pairs[of i hex] that
    by (auto simp: hex_decode_step_def good_def mult_2 Let_def n_def)
  have "k \<le> n \<Longrightarrow> fold_r (hex_decode_step hex) [0..<k] (replicate n 0) =
    (if \<forall>i<k. good i then Inr (take k (pairs_value hex) @ replicate (n - k) 0) else Inl (Status_error ''Wrong hex string''))" for k
  proof (induction k)
    case (Suc k)
    have "(take k (pairs_value hex) @ replicate (n - k) 0)[k := pairs_value hex ! k]
        = take (Suc k) (pairs_value hex) @ replicate (n - Suc k) 0"
      using Suc.prems by (simp add: n_def list_update_append take_Suc_conv_app_nth Suc_diff_Suc[symmetric])
    then show ?case using Suc step[of k] by (auto simp: fold_r_append less_Suc_eq)
  qed simp
  from this[of n] have "hex_decode hex = (if \<forall>i<n. good i then Inr (pairs_value hex) else Inl (Status_error ''Wrong hex string''))"
    using True by (simp add: hex_decode_def n_def even_iff_mod_2_eq_zero)
  moreover have "(\<forall>i<n. good i) \<longleftrightarrow> list_all is_hex_digit hex"
  proof -
    have "is_hex_digit (hex ! j)" if g: "\<forall>i<n. good i" and j: "j < length hex" for j
    proof -
      have "j = 2 * (j div 2) \<or> j = 2 * (j div 2) + 1" by presburger
      then obtain k where k: "j = 2 * k \<or> j = 2 * k + 1" by blast
      then have "k < n" using j two by linarith
      then have "good k" using g by simp
      then show ?thesis using k by (auto simp: good_def)
    qed
    moreover have "good i" if l: "list_all is_hex_digit hex" and i: "i < n" for i
    proof -
      have "2 * i < length hex" "2 * i + 1 < length hex" using i two by linarith+
      then show ?thesis using l by (simp add: good_def list_all_length)
    qed
    ultimately show ?thesis unfolding list_all_length by blast
  qed
  ultimately show ?thesis using True by simp
qed (simp add: hex_decode_def odd_iff_mod_2_eq_one)

lemma unat_small_byte: "n < 256 \<Longrightarrow> unat (word_of_nat n :: byte) = n"
  by (simp add: unsigned_of_nat take_bit_eq_mod)

lemma byte_halves: "word_of_nat (unat c div 16) * 16 + word_of_nat (unat c mod 16) = (c :: byte)"
proof -
  have "word_of_nat (unat c div 16 * 16 + unat c mod 16) = c" by (simp only: div_mult_mod_eq) simp
  then show ?thesis by (simp only: of_nat_add of_nat_mult) simp
qed

lemma pairs_encode: "pairs_value (hex_encode data) = data" "list_all is_hex_digit (hex_encode data)"
    "length (hex_encode data) = 2 * length data"
proof -
  have d: "is_hex_digit (hex_lower ! unat (drop_bit 4 c))" "is_hex_digit (hex_lower ! unat (c AND 15))" for c :: byte
    using byte_less[of c] by (simp_all add: halves flip: hex_digit_cases(2))
  show "pairs_value (hex_encode data) = data" "list_all is_hex_digit (hex_encode data)" "length (hex_encode data) = 2 * length data"
    by (induction data) (simp_all add: hex_encode_eq halves d byte_halves)
qed

lemma encode_pairs: "list_all is_hex_digit hex \<Longrightarrow> even (length hex) \<Longrightarrow> hex_encode (pairs_value hex) = to_lower hex"
proof (induction hex rule: pairs_value.induct)
  case (1 h l cs)
  let ?v = "word_of_nat (hex_to_int h * 16 + hex_to_int l) :: byte"
  have d: "hex_to_int h < 16" "hex_to_int l < 16" using 1(2) hex_digit_cases(2) by auto
  then have "unat ?v = hex_to_int h * 16 + hex_to_int l" by (intro unat_small_byte) simp
  then have "unat ?v div 16 = hex_to_int h" "unat ?v mod 16 = hex_to_int l" using d by auto
  then show ?case using 1 d by (simp add: hex_encode_eq half_bytes hex_lower_value to_lower_def)
qed (simp_all add: hex_encode_eq to_lower_def)

section \<open>Percent encoding\<close>

lemma url_chars: "is_url_char c \<Longrightarrow> c \<noteq> 37 \<and> c \<noteq> 43"
proof -
  have "is_url_char c \<longrightarrow> c \<noteq> 37 \<and> c \<noteq> 43" by (rule all_bytes) code_simp
  then show "is_url_char c \<Longrightarrow> c \<noteq> 37 \<and> c \<noteq> 43" by simp
qed

definition url_units :: "byte \<Rightarrow> bytes" where
  "url_units c = (if is_url_char c then [c] else [37, hex_upper ! (unat c div 16), hex_upper ! (unat c mod 16)])"

lemma url_encode_eq:
  assumes "length data < 2 ^ 63"
  shows "url_encode data = Inr (concat (map url_units data))"
proof -
  let ?enc = "concat (map url_units data)" and ?k = "length (filter is_url_char data)"
  have len: "foldl (\<lambda>len c. len - 2 * of_bool (is_url_char c)) a data = a - 2 * word_of_nat ?k" for a :: u64
    by (induction data arbitrary: a) (simp_all add: algebra_simps)
  have enc: "length ?enc + 2 * ?k = 3 * length data" by (induction data) (auto simp: url_units_def)
  have res: "foldl (\<lambda>result c. if is_url_char c then result @ [c]
      else result @ [37] @ [hex_upper ! (unat c div 16)] @ [hex_upper ! (unat c mod 16)]) acc data = acc @ ?enc" for acc
    by (induction data arbitrary: acc) (simp_all add: url_units_def)
  have word: "3 * word_of_nat (length data) - 2 * word_of_nat ?k = (word_of_nat (length ?enc) :: u64)"
    using arg_cong[OF enc, of "word_of_nat :: nat \<Rightarrow> u64"] by (simp add: algebra_simps)
  have "?k \<le> length data" by simp
  show ?thesis
  proof (cases "(word_of_nat (length ?enc) :: u64) = word_of_nat (length data)")
    case True
    then have "length ?enc mod 2 ^ 64 = length data mod 2 ^ 64" by (simp add: word_of_nat_eq_iff take_bit_eq_mod)
    moreover define j where "j = length data - ?k"
    moreover have "length ?enc = length data + 2 * j" using enc \<open>?k \<le> length data\<close> unfolding j_def by linarith
    ultimately have "2 ^ 64 dvd 2 * j" using mod_eq_dvd_iff_nat[of "length data" "length data + 2 * j" "2 ^ 64"] by simp
    moreover have "2 * j < 2 ^ 64" using assms j_def by simp
    ultimately have "j = 0" using dvd_imp_le by fastforce
    then have "?k = length data" using \<open>?k \<le> length data\<close> j_def by simp
    then have "\<forall>c \<in> set data. is_url_char c" by (metis length_filter_less not_less_iff_gr_or_eq)
    then have "?enc = data" by (induction data) (simp_all add: url_units_def)
    then show ?thesis by (simp add: url_encode_def Let_def len word)
  next
    case False
    then show ?thesis by (simp add: url_encode_def Let_def len word res)
  qed
qed

function url_text :: "bool \<Rightarrow> bytes \<Rightarrow> bytes" where
  "url_text sp [] = []"
| "url_text sp (c # cs) =
     (if c = 37 \<and> 2 \<le> length cs \<and> is_hex_digit (cs ! 0) \<and> is_hex_digit (cs ! 1)
      then word_of_nat (hex_to_int (cs ! 0) * 16 + hex_to_int (cs ! 1)) # url_text sp (drop 2 cs)
      else (if sp \<and> c = 43 then 32 else c) # url_text sp cs)"
  by pat_completeness auto
termination by (relation "measure (\<lambda>(_, cs). length cs)") auto

lemma length_url_text: "length (url_text sp cs) \<le> length cs"
  by (induction sp cs rule: url_text.induct) auto

lemma url_text_units: "url_text sp (concat (map url_units data)) = data"
proof (induction data)
  case (Cons c data)
  have "is_hex_digit (hex_upper ! (unat c div 16))" "is_hex_digit (hex_upper ! (unat c mod 16))"
    using byte_less[of c] by (simp_all add: halves flip: hex_digit_cases(2))
  then show ?case
    using Cons url_chars[of c] by (cases "is_url_char c") (simp_all add: url_units_def halves byte_halves)
qed simp

lemma url_decode_loop_eq:
  assumes "to_i \<le> from_i" "length from \<le> length to" "same \<Longrightarrow> length to = length from \<and> drop from_i to = drop from_i from"
    and t: "t = url_text sp (drop from_i from)"
  shows "\<exists>to'. url_decode_loop same sp from from_i to to_i = Inr (to', to_i + length t) \<and> length to' = length to \<and>
    take (to_i + length t) to' = take to_i to @ t"
  using assms
proof (induction "length from - from_i" arbitrary: from_i to to_i t rule: less_induct)
  case less
  let ?src = "if same then to else from" and ?n = "length from"
  show ?case
  proof (cases "?n \<le> from_i")
    case True
    then show ?thesis using less by (subst url_decode_loop.simps) (simp add: Let_def)
  next
    case False
    have src: "?src ! (from_i + k) = from ! (from_i + k)" if "from_i + k < ?n" for k
      using less.prems(3) that nth_drop[of from_i to k] nth_drop[of from_i "from" k] by (cases same) auto
    have lt: "from_i < ?n" "to_i < length to" "\<not> length ?src < ?n" using False less.prems(1-3) by auto
    have put: "\<exists>to'. url_decode_loop same sp from (from_i + k) (to[to_i := v]) (to_i + 1) = Inr (to', to_i + length (v # u)) \<and>
        length to' = length to \<and> take (to_i + length (v # u)) to' = take to_i to @ v # u"
      if "0 < k" "u = url_text sp (drop (from_i + k) from)" for k v u
    proof -
      have "drop (from_i + k) (to[to_i := v]) = drop (from_i + k) from" if same
        using less.prems(1,3) that \<open>0 < k\<close> drop_drop[of k from_i to] drop_drop[of k from_i "from"]
        by (simp add: drop_update_cancel add.commute)
      moreover have "take (to_i + 1) (to[to_i := v]) = take to_i to @ [v]" using lt(2) by (simp add: take_Suc_conv_app_nth)
      ultimately show ?thesis
        using less.hyps[of "from_i + k" "to_i + 1" "to[to_i := v]" u] less.prems(1-3) that lt(1) by simp
    qed
    define v where "v = (word_of_nat (hex_to_int (from ! (from_i + 1)) * 16 + hex_to_int (from ! (from_i + 2))) :: byte)"
    define w where "w = (if sp \<and> from ! from_i = 43 then 32 else from ! from_i)"
    define esc where "esc = (from ! from_i = 37 \<and> from_i + 2 < ?n \<and> is_hex_digit (from ! (from_i + 1)) \<and> is_hex_digit (from ! (from_i + 2)))"
    have cond: "((?src ! from_i = 37 \<and> from_i + 2 < ?n) \<and> hex_to_int (?src ! (from_i + 1)) < 16 \<and> hex_to_int (?src ! (from_i + 2)) < 16) = esc"
      using src[of 0] src[of 1] src[of 2] lt(1) by (auto simp: esc_def hex_digit_cases(2))
    have "url_decode_loop same sp from from_i to to_i = (if esc then url_decode_loop same sp from (from_i + 3) (to[to_i := v]) (to_i + 1)
        else url_decode_loop same sp from (from_i + 1) (to[to_i := w]) (to_i + 1))"
      using lt src[of 0] src[of 1] src[of 2] cond
      by (subst url_decode_loop.simps) (simp add: Let_def esc_def v_def w_def)
    moreover have "t = (if esc then v # url_text sp (drop (from_i + 3) from) else w # url_text sp (drop (from_i + 1) from))"
    proof -
      have "drop from_i from = from ! from_i # drop (Suc from_i) from" using lt(1) by (simp add: Cons_nth_drop_Suc)
      then show ?thesis
        using less.prems(4) lt(1) by (auto simp: esc_def v_def w_def numeral_eq_Suc)
    qed
    ultimately show ?thesis using put[of 3 _ v] put[of 1 _ w] by auto
  qed
qed

section \<open>Runs of zeros\<close>

lemma count_run_eq:
  "1 \<le> cnt \<Longrightarrow> cnt \<le> 250 \<Longrightarrow>
   \<exists>k. count_run c cs cnt = cnt + k \<and> k \<le> length cs \<and> take k cs = replicate k c \<and> cnt + k \<le> 250"
proof (induction c cs cnt rule: count_run.induct)
  case (2 c x xs cnt)
  show ?case
  proof (cases "cnt < 250 \<and> x = c")
    case True
    then obtain k where "count_run c xs (cnt + 1) = cnt + 1 + k" "k \<le> length xs" "take k xs = replicate k c" "cnt + 1 + k \<le> 250"
      using 2 by auto
    then show ?thesis using True by (intro exI[of _ "Suc k"]) simp
  qed (use 2 in auto)
qed auto

lemma run_encode_acc: "run_encode special data res = res @ run_encode special data []"
proof (induction "length data" arbitrary: data res rule: less_induct)
  case less
  show ?case
  proof (cases data)
    case (Cons c cs)
    let ?rest = "drop (count_run c cs 1 - 1) cs"
    have "run_encode special ?rest r = r @ run_encode special ?rest []" for r using less[of ?rest r] Cons by simp
    note rest = this[of "res @ [c] @ [word_of_nat (count_run c cs 1)]"] this[of "[] @ [c] @ [word_of_nat (count_run c cs 1)]"]
    have "run_encode special cs r = r @ run_encode special cs []" for r using less[of cs r] Cons by simp
    note tail = this[of "res @ [c]"] this[of "[] @ [c]"]
    show ?thesis by (simp only: Cons run_encode.simps Let_def rest tail) simp
  qed simp
qed

lemma run_encode_Cons:
  "run_encode special (c # cs) [] =
     (if special c then c # word_of_nat (count_run c cs 1) # run_encode special (drop (count_run c cs 1 - 1) cs) []
      else c # run_encode special cs [])"
  by (subst run_encode.simps, subst (1 2) run_encode_acc) (simp add: Let_def)

lemma run_decode_encode: "run_decode special (run_encode special data []) res = res @ data"
proof (induction "length data" arbitrary: data res rule: less_induct)
  case less
  show ?case
  proof (cases data)
    case (Cons c cs)
    show ?thesis
    proof (cases "special c")
      case True
      obtain k where k: "count_run c cs 1 = 1 + k" "k \<le> length cs" "take k cs = replicate k c" "1 + k \<le> 250"
        using count_run_eq[of 1 c cs] by auto
      then have "unat (word_of_nat (1 + k) :: byte) = 1 + k" by (intro unat_small_byte) simp
      moreover have "replicate (1 + k) c @ drop k cs = c # cs" using append_take_drop_id[of k cs] k(3) by simp
      moreover have "run_encode special (c # cs) [] = c # word_of_nat (1 + k) # run_encode special (drop k cs) []"
        using True k(1) by (simp only: run_encode_Cons) simp
      moreover have "run_decode special (run_encode special (drop k cs) []) r = r @ drop k cs" for r
        using less[of "drop k cs" r] Cons by simp
      ultimately show ?thesis using True Cons by (simp only: run_decode.simps) simp
    next
      case False
      have "run_decode special (c # ds) r = run_decode special ds (r @ [c])" for ds r
        using False by (cases ds) simp_all
      moreover have "run_encode special (c # cs) [] = c # run_encode special cs []" using False by (simp only: run_encode_Cons) simp
      ultimately show ?thesis using less[of cs "res @ [c]"] Cons by simp
    qed
  qed simp
qed

section \<open>Splitting and joining\<close>

text \<open>The parts with the delimiter between them.\<close>

fun join :: "byte \<Rightarrow> bytes list \<Rightarrow> bytes" where
  "join d [] = []"
| "join d (x # xs) = (if xs = [] then x else x @ d # join d xs)"

lemma join_snoc: "join d (xs @ [x]) = (if xs = [] then x else join d xs @ d # x)"
  by (induction xs) auto

lemma implode_eq: "implode_with v d = join d v"
proof (induction v rule: rev_induct)
  case (snoc x v)
  have "foldl (\<lambda>result i. (if i \<noteq> 0 then result @ [d] else result) @ (v @ [x]) ! i) [] [0..<length v]
      = foldl (\<lambda>result i. (if i \<noteq> 0 then result @ [d] else result) @ v ! i) [] [0..<length v]"
    by (rule foldl_cong) (auto simp: nth_append)
  then show ?case using snoc by (simp add: implode_with_def join_snoc)
qed (simp add: implode_with_def)

lemma find_char_Some:
  "find_char s c = Some pos \<Longrightarrow> take pos s @ c # drop (pos + 1) s = s \<and> pos < length s"
proof -
  assume f: "find_char s c = Some pos"
  then have "c \<in> set s" by (simp add: find_char_def split: if_splits)
  then obtain xs ys where s: "s = xs @ c # ys" "c \<notin> set xs" by (metis split_list_first)
  have "\<forall>x \<in> set xs. x \<noteq> c" using s(2) by blast
  then have "takeWhile (\<lambda>x. x \<noteq> c) s = xs" by (simp add: s(1))
  then show ?thesis using f s by (auto simp: find_char_def)
qed

lemma find_char_part: "c \<notin> set x \<Longrightarrow> find_char (x @ c # y) c = Some (length x)" "c \<notin> set x \<Longrightarrow> find_char x c = None"
proof -
  assume "c \<notin> set x"
  then have "\<forall>z \<in> set x. z \<noteq> c" by blast
  then show "find_char (x @ c # y) c = Some (length x)" by (simp add: find_char_def)
qed (simp add: find_char_def)

lemma join_split_loop:
  "join d (full_split_loop s d m result) = (if result = [] then s else join d result @ d # s)"
proof (induction s d m result rule: full_split_loop.induct)
  case (1 s d m result)
  show ?case
  proof (cases "length result + 1 < m \<and> find_char s d \<noteq> None")
    case True
    then obtain pos where pos: "length result + 1 < m" "find_char s d = Some pos" by auto
    then have "full_split_loop s d m result = full_split_loop (drop (pos + 1) s) d m (result @ [take pos s])"
      by (subst full_split_loop.simps) simp
    then show ?thesis
      using 1[OF pos] find_char_Some[OF pos(2)] by (simp add: join_snoc)
  next
    case False
    then have "full_split_loop s d m result = result @ [s]"
      by (subst full_split_loop.simps) auto
    then show ?thesis by (simp add: join_snoc)
  qed
qed

lemma split_join_loop:
  "v \<noteq> [] \<Longrightarrow> \<forall>x \<in> set v. d \<notin> set x \<Longrightarrow> length result + length v \<le> m \<Longrightarrow>
   full_split_loop (join d v) d m result = result @ v"
proof (induction v arbitrary: result)
  case (Cons x v)
  show ?case
  proof (cases "v = []")
    case True
    then show ?thesis using Cons by (subst full_split_loop.simps) (simp add: find_char_part)
  next
    case False
    then have "1 \<le> length v" by (cases v) simp_all
    then have "length result + 1 < m" using Cons.prems(3) by simp
    then have "full_split_loop (join d (x # v)) d m result = full_split_loop (join d v) d m (result @ [x])"
      using Cons.prems False by (subst full_split_loop.simps) (simp add: find_char_part)
    then show ?thesis using Cons.IH[of "result @ [x]"] Cons.prems False by simp
  qed
qed simp

section \<open>Numbers\<close>

definition hex_value :: "bytes \<Rightarrow> nat" where
  "hex_value str = foldl (\<lambda>v c. 16 * v + hex_to_int c) 0 str"

lemma foldl_hex_mono: "v \<le> foldl (\<lambda>v c. 16 * v + hex_to_int c) v str"
proof (induction str arbitrary: v)
  case (Cons c str)
  have "v \<le> 16 * v + hex_to_int c" by simp
  also have "\<dots> \<le> foldl (\<lambda>v c. 16 * v + hex_to_int c) (16 * v + hex_to_int c) str" by (rule Cons)
  finally show ?case by simp
qed simp

lemma max_sixteenth:
  assumes "8 \<le> LENGTH('a::len)"
  shows "unat ((- 1 :: 'a word) div 16) = 2 ^ (LENGTH('a) - 4) - 1"
proof -
  have "(2 :: nat) ^ 8 \<le> 2 ^ LENGTH('a)" using assms by (rule power_increasing) simp
  then have n: "unat (16 :: 'a word) = 16" by (simp add: unsigned_numeral take_bit_nat_eq_self)
  have "(2 :: nat) ^ LENGTH('a) = 16 * 2 ^ (LENGTH('a) - 4)"
    using assms power_add[of "2 :: nat" 4 "LENGTH('a) - 4"] by simp
  moreover have "(16 * m - 1) div 16 = m - 1" if "0 < m" for m :: nat
    using that by (cases m) (simp_all add: algebra_simps)
  ultimately have "(2 ^ LENGTH('a) - 1) div 16 = 2 ^ (LENGTH('a) - 4) - (1 :: nat)" by simp
  then show ?thesis
    by (simp only: unat_div n unsigned_minus_1_eq_mask mask_eq_exp_minus_1)
qed

lemma hex_safe_loop:
  fixes v :: "'a::len word"
  assumes "8 \<le> LENGTH('a)"
  shows "hex_to_integer_safe_loop str v = Inr w \<longleftrightarrow>
    list_all is_hex_digit str \<and> unat w = foldl (\<lambda>v c. 16 * v + hex_to_int c) (unat v) str"
proof (induction str arbitrary: v)
  case Nil
  show ?case by (auto simp: word_unat_eq_iff)
next
  case (Cons c str)
  let ?top = "2 ^ (LENGTH('a) - 4) :: nat"
  have top: "(2 :: nat) ^ LENGTH('a) = 16 * ?top" using assms power_add[of "2 :: nat" 4 "LENGTH('a) - 4"] by simp
  have big: "v > (- 1) div 16 \<longleftrightarrow> ?top \<le> unat v"
  proof -
    have "0 < ?top" by simp
    then show ?thesis unfolding word_less_nat_alt max_sixteenth[OF assms] by linarith
  qed
  show ?case
  proof (cases "hex_to_int c = 16")
    case True
    then show ?thesis using hex_digit_cases(2)[of c] by simp
  next
    case False
    then have d: "hex_to_int c < 16" "is_hex_digit c" using hex_digit_cases[of c] by auto
    show ?thesis
    proof (cases "?top \<le> unat v")
      case True
      have "unat w < 16 * ?top" using unsigned_less[of w, where ?'a = nat] top by simp
      moreover have "16 * ?top \<le> foldl (\<lambda>v c. 16 * v + hex_to_int c) (16 * unat v + hex_to_int c) str"
        using foldl_hex_mono[of "16 * unat v + hex_to_int c" str] True by linarith
      ultimately show ?thesis using True False big by auto
    next
      case small: False
      have "unat v * 16 + hex_to_int c < 2 ^ LENGTH('a)" using small d(1) top by linarith
      then have "unat (word_of_nat (unat v * 16 + hex_to_int c) :: 'a word) = unat v * 16 + hex_to_int c"
        by (simp only: unsigned_of_nat take_bit_nat_eq_self of_nat_id)
      then have "unat (v * 16 + word_of_nat (hex_to_int c)) = 16 * unat v + hex_to_int c"
        by (simp add: mult.commute)
      then show ?thesis using Cons.IH[of "v * 16 + word_of_nat (hex_to_int c)"] small big False d(2) by simp
    qed
  qed
qed

section \<open>Properties\<close>

text \<open>C33: hexadecimal text is decoded exactly when it consists of pairs of hexadecimal digits; decoding undoes
  encoding, and encoding what was decoded gives the text in lower case. The error names what is wrong.\<close>

theorem hex_roundtrip:
  "hex_decode (hex_encode data) = Inr data \<and>
   hex_decode hex =
     (if odd (length hex) then Inl (Status_error ''Wrong hex string length'')
      else if \<not> list_all is_hex_digit hex then Inl (Status_error ''Wrong hex string'')
      else Inr (pairs_value hex)) \<and>
   (list_all is_hex_digit hex \<and> even (length hex) \<longrightarrow> hex_encode (pairs_value hex) = to_lower hex)"
  using encode_pairs[of hex] by (simp add: hex_decode_eq pairs_encode)

lemma hex_roundtrip_witness:
  "list_all is_hex_digit (bytes_of ''4aF0'') \<and> even (length (bytes_of ''4aF0'')) \<and>
   hex_encode (pairs_value (bytes_of ''4aF0'')) = to_lower (bytes_of ''4aF0'')"
proof -
  have "list_all is_hex_digit (bytes_of ''4aF0'')" "even (length (bytes_of ''4aF0''))" by code_simp+
  then show ?thesis using hex_roundtrip[of "[]" "bytes_of ''4aF0''"] by blast
qed

text \<open>C34: percent encoding never fails its check and is undone by decoding, whether or not \<^verbatim>\<open>+\<close> stands for a
  space; and decoding in place, over bytes still to be read, gives the same as decoding into a fresh string.\<close>

theorem url_roundtrip:
  assumes "length data < 2 ^ 63"
  shows "(\<exists>enc. url_encode data = Inr enc \<and> url_decode enc spaces = Inr data) \<and>
    url_decode_inplace data spaces = url_decode data spaces"
proof -
  have run: "\<exists>to'. url_decode_slice same spaces from to = Inr (to', length (url_text spaces from)) \<and>
      take (length (url_text spaces from)) to' = url_text spaces from"
    if "length to = length from" "same \<Longrightarrow> to = from" for same "from" to
    using url_decode_loop_eq[of 0 0 "from" to same "url_text spaces from" spaces] that by (auto simp: url_decode_slice_def)
  have plain: "url_decode from spaces = Inr (url_text spaces from)" for "from"
    using run[of "replicate (length from) 0" "from" False] by (auto simp: url_decode_def)
  have inplace: "url_decode_inplace data spaces = Inr (url_text spaces data)"
    using run[of data data True] by (auto simp: url_decode_inplace_def)
  show ?thesis using plain inplace url_encode_eq[OF assms] url_text_units by simp
qed

lemma url_roundtrip_witness:
  "(\<exists>enc. url_encode (bytes_of ''a b+%'') = Inr enc \<and> url_decode enc True = Inr (bytes_of ''a b+%'')) \<and>
    url_decode_inplace (bytes_of ''a b+%'') True = url_decode (bytes_of ''a b+%'') True"
  by (rule url_roundtrip) (simp add: bytes_of_def)

text \<open>both run-length encodings are undone by their decoders, on every byte string, also where a run is
  longer than the largest count.\<close>

theorem zero_roundtrip:
  "zero_decode (zero_encode data) = data \<and> zero_one_decode (zero_one_encode data) = data"
  by (simp add: zero_encode_def zero_decode_def zero_one_encode_def zero_one_decode_def run_decode_encode)

text \<open>joining the parts of a split string gives it back, whatever the limit on their number, and splitting
  a joined list gives the list, if the delimiter occurs in no part and the limit allows for them all.\<close>

theorem split_join:
  "implode_with (full_split s d m) d = s \<and>
   (v \<noteq> [] \<and> v \<noteq> [[]] \<and> (\<forall>x \<in> set v. d \<notin> set x) \<and> length v \<le> m \<longrightarrow> full_split (implode_with v d) d m = v)"
proof (intro conjI impI)
  show "implode_with (full_split s d m) d = s"
    by (simp add: implode_eq full_split_def join_split_loop)
next
  assume v: "v \<noteq> [] \<and> v \<noteq> [[]] \<and> (\<forall>x \<in> set v. d \<notin> set x) \<and> length v \<le> m"
  then have "join d v \<noteq> []" by (cases v) auto
  then show "full_split (implode_with v d) d m = v"
    using split_join_loop[of v d "[]" m] v by (simp add: implode_eq full_split_def)
qed

lemma split_join_witness:
  "full_split (implode_with [[1], [], [2, 3]] 44) 44 3 = [[1], [], [2, 3 :: byte]]"
  using split_join[of "[]" 44 3 "[[1], [], [2, 3]]"] by simp

text \<open>a hexadecimal number is accepted exactly when the text is not empty, has digits only and denotes a
  number that fits the result type, which is then the result: no overflow goes unnoticed.\<close>

theorem hex_number_exact:
  assumes "8 \<le> LENGTH('a::len)"
  shows "hex_to_integer_safe str = Inr (w :: 'a word) \<longleftrightarrow>
    str \<noteq> [] \<and> list_all is_hex_digit str \<and> unat w = hex_value str"
  using hex_safe_loop[OF assms, of str 0 w] by (simp add: hex_to_integer_safe_def hex_value_def)

lemma hex_number_exact_witness:
  "hex_to_integer_safe (bytes_of ''0fF'') = Inr (255 :: 8 word) \<longleftrightarrow>
    bytes_of ''0fF'' \<noteq> [] \<and> list_all is_hex_digit (bytes_of ''0fF'') \<and> unat (255 :: 8 word) = hex_value (bytes_of ''0fF'')"
  by (rule hex_number_exact) simp

end
