(* ===== verification/Td_Ordered.thy ===== *)
theory Td_Ordered
  imports Td_Bytes
begin

text \<open>
  The two queues in which TDLib puts results back into order: \<^verbatim>\<open>OrderedEventsProcessor\<close>
  (\<^verbatim>\<open>src/lib/td/tdutils/td/utils/OrderedEventsProcessor.h\<close>), which runs numbered events in the order of
  their numbers whatever order they arrive in, and \<^verbatim>\<open>ChangesProcessor\<close> (\<^verbatim>\<open>ChangesProcessor.h\<close>), which
  passes changes on in the order they were added although they finish in any order.

  The calls of the function given to an operation are its result. \<open>dflt\<close> is the value of \<^verbatim>\<open>DataT()\<close> in the new
  elements of a resized vector; a value that was moved out stays in the model's vector and is never
  read again. The function does not call the queue again, and memory suffices for the vectors.
\<close>

section \<open>Ordered events\<close>

text \<open>
  \<^verbatim>\<open>SeqNo\<close> is \<^verbatim>\<open>uint64\<close> and so are the counters: every sum and difference of the code wraps, as the
  positions, which are \<^verbatim>\<open>size_t\<close>, do. An index outside the vector is a fault.
\<close>

record 'd ordered_events =
  ev_offset :: u64
  ev_begin :: u64
  ev_end :: u64
  ev_data :: "('d \<times> bool) list"

definition new_ordered_events :: "u64 \<Rightarrow> 'd ordered_events" where
  "new_ordered_events n = \<lparr>ev_offset = n, ev_begin = n, ev_end = n, ev_data = []\<rparr>"

lemma unat_succ: "(n :: u64) \<noteq> - 1 \<Longrightarrow> unat (n + 1) = unat n + 1"
  by (metis Suc_eq_plus1 add.commute eq_neg_iff_add_eq_0 unatSuc)

lemma less_not_last: "(n :: u64) < m \<Longrightarrow> n \<noteq> - 1"
  using word_n1_ge leD by metis

text \<open>The loop of \<^verbatim>\<open>add\<close> over the events that have become ready.\<close>

function run_ready :: "'d ordered_events \<Rightarrow> (u64 \<times> 'd) list \<Rightarrow> td_error + (u64 \<times> 'd) list \<times> 'd ordered_events" where
  "run_ready p calls =
     (if ev_begin p < ev_end p then
        let i = unat (ev_begin p - ev_offset p) in
        if length (ev_data p) \<le> i then Inl Memory_error
        else if \<not> snd (ev_data p ! i) then Inr (calls, p)
        else run_ready (p\<lparr>ev_data := (ev_data p)[i := (fst (ev_data p ! i), False)], ev_begin := ev_begin p + 1\<rparr>)
               (calls @ [(ev_begin p, fst (ev_data p ! i))])
      else Inr (calls, p))"
  by pat_completeness auto
termination
proof (relation "measure (\<lambda>(p, _). unat (ev_end p) - unat (ev_begin p))")
  fix p :: "'d ordered_events" and i and calls :: "(u64 \<times> 'd) list"
  assume less: "ev_begin p < ev_end p"
  then have "unat (ev_begin p + 1) = Suc (unat (ev_begin p))"
    using unat_succ[OF less_not_last] by simp
  then show "((p\<lparr>ev_data := (ev_data p)[i := (fst (ev_data p ! i), False)], ev_begin := ev_begin p + 1\<rparr>,
      calls @ [(ev_begin p, fst (ev_data p ! i))]), p, calls) \<in> measure (\<lambda>(p, _). unat (ev_end p) - unat (ev_begin p))"
    using less by (simp add: word_less_nat_alt)
qed simp

declare run_ready.simps [simp del]

definition events_compactify :: "'d ordered_events \<Rightarrow> 'd ordered_events" where
  "events_compactify p =
     (let begin_pos = ev_begin p - ev_offset p in
      if begin_pos > 5 \<and> unat (begin_pos * 2) > length (ev_data p)
      then p\<lparr>ev_data := drop (unat begin_pos) (ev_data p), ev_offset := ev_begin p\<rparr> else p)"

definition events_add :: "'d \<Rightarrow> u64 \<Rightarrow> 'd \<Rightarrow> 'd ordered_events \<Rightarrow> td_error + (u64 \<times> 'd) list \<times> 'd ordered_events" where
  "events_add dflt seq_no data p =
     bind_r (check_r (ev_begin p \<le> seq_no) ()) (\<lambda>_.
     if seq_no = ev_begin p then
       bind_r (run_ready (p\<lparr>ev_begin := ev_begin p + 1\<rparr>) [(seq_no, data)]) (\<lambda>(calls, p).
       let p = (if ev_begin p > ev_end p then p\<lparr>ev_end := ev_begin p\<rparr> else p);
           p = (if ev_begin p = ev_end p then p\<lparr>ev_offset := ev_begin p\<rparr> else p) in
       Inr (calls, events_compactify p))
     else
       let i = seq_no - ev_offset p; need_size = i + 1;
           array = (if length (ev_data p) < unat need_size
                    then ev_data p @ replicate (unat need_size - length (ev_data p)) (dflt, False) else ev_data p) in
       if length array \<le> unat i then Inl Memory_error
       else Inr ([], p\<lparr>ev_data := array[unat i := (data, True)],
                       ev_end := (if ev_end p < seq_no + 1 then seq_no + 1 else ev_end p)\<rparr>))"

definition events_clear :: "'d ordered_events \<Rightarrow> 'd list \<times> 'd ordered_events" where
  "events_clear p = (map fst (filter snd (ev_data p)), new_ordered_events 1)"

definition has_events :: "'d ordered_events \<Rightarrow> bool" where
  "has_events p = (ev_begin p \<noteq> ev_end p)"

definition max_unfinished_seq_no :: "'d ordered_events \<Rightarrow> u64" where
  "max_unfinished_seq_no p = ev_end p - 1"

definition max_finished_seq_no :: "'d ordered_events \<Rightarrow> u64" where
  "max_finished_seq_no p = ev_begin p - 1"

section \<open>Changes\<close>

record 'd changes =
  ch_offset :: nat
  ch_ready :: nat
  ch_data :: "('d \<times> bool) list"

definition new_changes :: "'d changes" where
  "new_changes = \<lparr>ch_offset = 1, ch_ready = 0, ch_data = []\<rparr>"

definition changes_clear :: "'d changes \<Rightarrow> 'd changes" where
  "changes_clear p = \<lparr>ch_offset = ch_offset p + length (ch_data p), ch_ready = 0, ch_data = []\<rparr>"

definition changes_add :: "'d \<Rightarrow> 'd changes \<Rightarrow> nat \<times> 'd changes" where
  "changes_add data p = (ch_offset p + length (ch_data p), p\<lparr>ch_data := ch_data p @ [(data, False)]\<rparr>)"

function ready_loop :: "('d \<times> bool) list \<Rightarrow> nat \<Rightarrow> 'd list \<Rightarrow> 'd list \<times> nat" where
  "ready_loop array ready_i calls =
     (if ready_i < length array \<and> snd (array ! ready_i)
      then ready_loop array (ready_i + 1) (calls @ [fst (array ! ready_i)]) else (calls, ready_i))"
  by pat_completeness auto
termination by (relation "measure (\<lambda>(array, ready_i, _). length array - ready_i)") auto

declare ready_loop.simps [simp del]

definition changes_compactify :: "'d changes \<Rightarrow> 'd changes" where
  "changes_compactify p =
     (if ch_ready p > 5 \<and> ch_ready p * 2 > length (ch_data p)
      then \<lparr>ch_offset = ch_offset p + ch_ready p, ch_ready = 0, ch_data = drop (ch_ready p) (ch_data p)\<rparr> else p)"

text \<open>The subtraction is one of \<^verbatim>\<open>size_t\<close>: the position of an older token is beyond every vector.\<close>

definition changes_finish :: "nat \<Rightarrow> 'd changes \<Rightarrow> 'd list \<times> 'd changes" where
  "changes_finish token p =
     (let i = nat ((int token - int (ch_offset p)) mod 2 ^ 64) in
      if length (ch_data p) \<le> i then ([], p)
      else
        let array = (ch_data p)[i := (fst (ch_data p ! i), True)];
            (calls, ready_i) = ready_loop array (ch_ready p) [] in
        (calls, changes_compactify (p\<lparr>ch_data := array, ch_ready := ready_i\<rparr>)))"

end
