(* ===== verification/Td_Ordered_Props.thy ===== *)
theory Td_Ordered_Props
  imports Td_Ordered
begin

text \<open>
  Events come out in the order of their numbers, each exactly once and as soon as all earlier ones
  have arrived; changes come out in the order of addition. The compaction of the vectors never shows.
\<close>

section \<open>Ordered events with counters that do not wrap\<close>

text \<open>The same operations on counters without bound; the operations of the code implement them below
  the last sequence number.\<close>

record 'd nat_events =
  n_offset :: nat
  n_begin :: nat
  n_end :: nat
  n_data :: "('d \<times> bool) list"

definition new_nat_events :: "nat \<Rightarrow> 'd nat_events" where
  "new_nat_events n = \<lparr>n_offset = n, n_begin = n, n_end = n, n_data = []\<rparr>"

function run_ready_nat :: "'d nat_events \<Rightarrow> (nat \<times> 'd) list \<Rightarrow> td_error + (nat \<times> 'd) list \<times> 'd nat_events" where
  "run_ready_nat p calls =
     (if n_begin p < n_end p then
        let i = n_begin p - n_offset p in
        if length (n_data p) \<le> i then Inl Memory_error
        else if \<not> snd (n_data p ! i) then Inr (calls, p)
        else run_ready_nat (p\<lparr>n_data := (n_data p)[i := (fst (n_data p ! i), False)], n_begin := n_begin p + 1\<rparr>)
               (calls @ [(n_begin p, fst (n_data p ! i))])
      else Inr (calls, p))"
  by pat_completeness auto
termination by (relation "measure (\<lambda>(p, _). n_end p - n_begin p)") auto

declare run_ready_nat.simps [simp del]

definition compactify_nat :: "'d nat_events \<Rightarrow> 'd nat_events" where
  "compactify_nat p =
     (let begin_pos = n_begin p - n_offset p in
      if begin_pos > 5 \<and> (begin_pos * 2) mod 2 ^ 64 > length (n_data p)
      then p\<lparr>n_data := drop begin_pos (n_data p), n_offset := n_begin p\<rparr> else p)"

definition events_add_nat :: "'d \<Rightarrow> nat \<Rightarrow> 'd \<Rightarrow> 'd nat_events \<Rightarrow> td_error + (nat \<times> 'd) list \<times> 'd nat_events" where
  "events_add_nat dflt seq_no data p =
     bind_r (check_r (n_begin p \<le> seq_no) ()) (\<lambda>_.
     if seq_no = n_begin p then
       bind_r (run_ready_nat (p\<lparr>n_begin := n_begin p + 1\<rparr>) [(seq_no, data)]) (\<lambda>(calls, p).
       let p = (if n_begin p > n_end p then p\<lparr>n_end := n_begin p\<rparr> else p);
           p = (if n_begin p = n_end p then p\<lparr>n_offset := n_begin p\<rparr> else p) in
       Inr (calls, compactify_nat p))
     else
       let i = seq_no - n_offset p; need_size = i + 1;
           array = (if length (n_data p) < need_size
                    then n_data p @ replicate (need_size - length (n_data p)) (dflt, False) else n_data p) in
       Inr ([], p\<lparr>n_data := array[i := (data, True)],
                  n_end := (if n_end p < seq_no + 1 then seq_no + 1 else n_end p)\<rparr>))"


definition ev_pending :: "'d nat_events \<Rightarrow> nat \<rightharpoonup> 'd" where
  "ev_pending p n =
     (if n_offset p \<le> n \<and> n - n_offset p < length (n_data p) \<and> snd (n_data p ! (n - n_offset p))
      then Some (fst (n_data p ! (n - n_offset p))) else None)"

lemma ev_pending_frame [simp]: "ev_pending (p\<lparr>n_begin := x\<rparr>) = ev_pending p" "ev_pending (p\<lparr>n_end := x\<rparr>) = ev_pending p"
  by (simp_all add: ev_pending_def fun_eq_iff)

definition ev_room :: "'d nat_events \<Rightarrow> bool" where
  "ev_room p =
     (n_offset p \<le> n_begin p \<and> (n_begin p < n_end p \<longrightarrow> n_end p \<le> n_offset p + length (n_data p)) \<and>
      dom (ev_pending p) \<subseteq> {n_begin p..<n_end p})"

definition ev_ok :: "'d nat_events \<Rightarrow> bool" where
  "ev_ok p = (ev_room p \<and> n_begin p \<le> n_end p \<and> ev_pending p (n_begin p) = None)"

lemma run_ready_nat_ok:
  assumes "ev_room p"
  shows "\<exists>k p'. run_ready_nat p calls = Inr (calls @ map (\<lambda>n. (n, the (ev_pending p n))) [n_begin p..<n_begin p + k], p') \<and>
    n_begin p' = n_begin p + k \<and> n_offset p' = n_offset p \<and> n_end p' = n_end p \<and>
    length (n_data p') = length (n_data p) \<and> {n_begin p..<n_begin p + k} \<subseteq> dom (ev_pending p) \<and>
    ev_pending p (n_begin p + k) = None \<and> ev_pending p' = ev_pending p |` {n_begin p + k..}"
  using assms
proof (induction p calls rule: run_ready_nat.induct)
  case (1 p calls)
  let ?b = "n_begin p" and ?i = "n_begin p - n_offset p"
  have dom: "dom (ev_pending p) \<subseteq> {?b..<n_end p}" "n_offset p \<le> ?b" using 1(2) by (auto simp: ev_room_def)
  have all: "ev_pending p = ev_pending p |` {?b..}"
    using dom(1) by (force simp: restrict_map_def fun_eq_iff dom_def)
  show ?case
  proof (cases "?b < n_end p \<and> ev_pending p ?b \<noteq> None")
    case False
    then have none: "ev_pending p ?b = None" using dom(1) by (force simp: dom_def)
    have "run_ready_nat p calls = Inr (calls, p)"
      using False 1(2) by (subst run_ready_nat.simps) (auto simp: ev_room_def ev_pending_def Let_def)
    then show ?thesis using none all by (intro exI[of _ 0] exI[of _ p]) simp
  next
    case True
    define q where "q = p\<lparr>n_data := (n_data p)[?i := (fst (n_data p ! ?i), False)], n_begin := ?b + 1\<rparr>"
    have i: "?i < length (n_data p)" "snd (n_data p ! ?i)" "ev_pending p ?b = Some (fst (n_data p ! ?i))"
      using True by (auto simp: ev_pending_def split: if_splits)
    have pq: "ev_pending q n = (if n = ?b then None else ev_pending p n)" for n
      using dom(2) i(1) by (auto simp: ev_pending_def q_def nth_list_update)
    have "dom (ev_pending q) \<subseteq> {Suc ?b..<n_end p}"
    proof
      fix n assume "n \<in> dom (ev_pending q)"
      then have "n \<noteq> ?b" "n \<in> dom (ev_pending p)" by (auto simp: pq dom_def split: if_splits)
      then show "n \<in> {Suc ?b..<n_end p}" using dom(1) by (auto simp: Suc_le_eq order_less_le)
    qed
    then have room: "ev_room q" using 1(2) by (simp add: ev_room_def q_def)
    have step: "run_ready_nat p calls = run_ready_nat q (calls @ [(?b, the (ev_pending p ?b))])"
      using True i by (subst run_ready_nat.simps) (simp add: q_def Let_def)
    obtain k p' where IH: "run_ready_nat q (calls @ [(?b, the (ev_pending p ?b))]) =
        Inr ((calls @ [(?b, the (ev_pending p ?b))]) @ map (\<lambda>n. (n, the (ev_pending q n))) [n_begin q..<n_begin q + k], p')"
      "n_begin p' = n_begin q + k" "n_offset p' = n_offset q" "n_end p' = n_end q" "length (n_data p') = length (n_data q)"
      "{n_begin q..<n_begin q + k} \<subseteq> dom (ev_pending q)" "ev_pending q (n_begin q + k) = None"
      "ev_pending p' = ev_pending q |` {n_begin q + k..}"
      using 1(1)[of ?i] True i room by (auto simp: q_def)
    have bq: "n_begin q = Suc ?b" "n_offset q = n_offset p" "n_end q = n_end p" "length (n_data q) = length (n_data p)"
      by (simp_all add: q_def)
    have "map (\<lambda>n. (n, the (ev_pending q n))) [Suc ?b..<Suc ?b + k] = map (\<lambda>n. (n, the (ev_pending p n))) [Suc ?b..<Suc ?b + k]"
      by (rule map_cong) (auto simp: pq)
    moreover have "[?b..<?b + Suc k] = ?b # [Suc ?b..<Suc ?b + k]" by (simp add: upt_conv_Cons)
    moreover have "{?b..<?b + Suc k} \<subseteq> dom (ev_pending p)"
    proof
      fix n assume "n \<in> {?b..<?b + Suc k}"
      then show "n \<in> dom (ev_pending p)"
        using IH(6) True by (cases "n = ?b") (auto simp: bq pq subset_iff dom_def split: if_splits)
    qed
    moreover have "ev_pending p' = ev_pending p |` {?b + Suc k..}"
      using IH(8) by (auto simp: bq pq restrict_map_def fun_eq_iff)
    moreover have "ev_pending p (?b + Suc k) = None" using IH(7) by (simp add: bq pq)
    ultimately show ?thesis
      using IH(1-5) step by (intro exI[of _ "Suc k"] exI[of _ p']) (simp add: bq)
  qed
qed

lemma compactify_ok:
  assumes "ev_ok p"
  shows "ev_ok (compactify_nat p) \<and> ev_pending (compactify_nat p) = ev_pending p \<and> n_begin (compactify_nat p) = n_begin p"
proof -
  let ?k = "n_begin p - n_offset p"
  let ?q = "p\<lparr>n_data := drop ?k (n_data p), n_offset := n_begin p\<rparr>"
  have room: "ev_room p" using assms by (simp add: ev_ok_def)
  then have dom: "dom (ev_pending p) \<subseteq> {n_begin p..<n_end p}" "n_offset p \<le> n_begin p" by (simp_all add: ev_room_def)
  have eq: "ev_pending ?q n = ev_pending p n" for n
  proof (cases "n_begin p \<le> n")
    case True
    then have "?k + (n - n_begin p) = n - n_offset p" "n - n_begin p < length (n_data p) - ?k \<longleftrightarrow> n - n_offset p < length (n_data p)"
      using dom(2) by linarith+
    then show ?thesis
      using True dom(2) by (cases "n - n_offset p < length (n_data p)") (simp_all add: ev_pending_def)
  next
    case False
    then have "ev_pending p n = None" using dom(1) by (force simp: dom_def)
    then show ?thesis using False by (simp add: ev_pending_def)
  qed
  then have "ev_pending ?q = ev_pending p" by (rule ext)
  moreover from this have "ev_ok ?q" using assms by (auto simp: ev_ok_def ev_room_def)
  ultimately show ?thesis using assms by (simp add: compactify_nat_def Let_def)
qed

lemma events_add_nat_now:
  assumes ok: "ev_ok p"
  shows "\<exists>calls p'. events_add_nat dflt (n_begin p) d p = Inr (calls, p') \<and> ev_ok p' \<and> n_begin p < n_begin p' \<and>
    calls = (n_begin p, d) # map (\<lambda>m. (m, the (ev_pending p m))) [Suc (n_begin p)..<n_begin p'] \<and>
    {Suc (n_begin p)..<n_begin p'} \<subseteq> dom (ev_pending p) \<and> ev_pending p' = ev_pending p |` {n_begin p'..}"
proof -
  let ?b = "n_begin p" and ?p = "p\<lparr>n_begin := n_begin p + 1\<rparr>"
  have room: "ev_room p" "?b \<le> n_end p" "ev_pending p ?b = None" using ok by (simp_all add: ev_ok_def)
  note same = ev_pending_frame
  have dom: "dom (ev_pending p) \<subseteq> {Suc ?b..<n_end p}"
  proof
    fix n assume n: "n \<in> dom (ev_pending p)"
    then have "n \<noteq> ?b" using room(3) by auto
    then show "n \<in> {Suc ?b..<n_end p}" using n room(1) by (force simp: ev_room_def Suc_le_eq order_less_le)
  qed
  have "ev_room ?p" using room dom by (auto simp: ev_room_def same)
  from run_ready_nat_ok[OF this, of "[(?b, d)]"] obtain k q where q:
    "run_ready_nat ?p [(?b, d)] = Inr ([(?b, d)] @ map (\<lambda>n. (n, the (ev_pending p n))) [Suc ?b..<Suc ?b + k], q)"
    "n_begin q = Suc ?b + k" "n_offset q = n_offset p" "n_end q = n_end p" "length (n_data q) = length (n_data p)"
    "{Suc ?b..<Suc ?b + k} \<subseteq> dom (ev_pending p)" "ev_pending p (Suc ?b + k) = None"
    "ev_pending q = ev_pending p |` {Suc ?b + k..}"
    by (auto simp: same)
  define q1 where "q1 = (if n_begin q > n_end q then q\<lparr>n_end := n_begin q\<rparr> else q)"
  define q2 where "q2 = (if n_begin q1 = n_end q1 then q1\<lparr>n_offset := n_begin q1\<rparr> else q1)"
  have q1: "n_begin q1 = Suc ?b + k" "n_offset q1 = n_offset p" "ev_pending q1 = ev_pending q" "n_data q1 = n_data q"
    "n_end q1 = max (n_end p) (Suc ?b + k)"
    using q(2-5) by (auto simp: q1_def)
  have q2: "n_begin q2 = Suc ?b + k" "ev_pending q2 = ev_pending q" "ev_ok q2"
  proof -
    show b2: "n_begin q2 = Suc ?b + k" using q1(1) by (simp add: q2_def)
    have bound: "Suc ?b + k < n_end q1 \<Longrightarrow> n_end q1 = n_end p" using q1(5) by simp
    have o: "n_offset p \<le> Suc ?b + k" using room(1) by (simp add: ev_room_def)
    have sub: "dom (ev_pending q) \<subseteq> {Suc ?b + k..<n_end p}" using q(8) dom by auto
    show eq: "ev_pending q2 = ev_pending q"
    proof (cases "n_begin q1 = n_end q1")
      case True
      then have "{Suc ?b + k..<n_end p} = {}" using q1(1,5) by simp
      then have none: "ev_pending q = Map.empty" using sub by simp
      have "\<not> snd (n_data q ! i)" if "i < length (n_data q)" for i
        using fun_cong[OF none, of "n_offset q + i"] that by (simp add: ev_pending_def split: if_splits)
      then have "ev_pending q2 = Map.empty" using True q1(4) by (auto simp: q2_def ev_pending_def fun_eq_iff)
      then show ?thesis using none by simp
    next
      case False
      then show ?thesis using q1(3) by (simp add: q2_def)
    qed
    have "ev_pending q (Suc ?b + k) = None" using q(7,8) by simp
    moreover have "n_end q2 = n_end q1" by (simp add: q2_def)
    moreover have "n_data q2 = n_data q" using q1(4) by (simp add: q2_def)
    moreover have "n_end q1 \<noteq> Suc ?b + k \<Longrightarrow> n_offset q2 = n_offset p" using q1(1,2) by (auto simp: q2_def)
    moreover have "n_end q1 = Suc ?b + k \<Longrightarrow> n_offset q2 = Suc ?b + k" using q1(1) by (simp add: q2_def)
    ultimately have q2: "ev_pending q2 (n_begin q2) = None" "n_end q2 = n_end q1" "n_data q2 = n_data q"
      "n_end q1 \<noteq> Suc ?b + k \<Longrightarrow> n_offset q2 = n_offset p" "n_end q1 = Suc ?b + k \<Longrightarrow> n_offset q2 = Suc ?b + k"
      unfolding eq b2 by blast+
    have le: "n_begin q2 \<le> n_end q2" unfolding b2 q2(2) q1(5) by simp
    have off: "n_offset q2 \<le> n_begin q2" using q2(4,5) o b2 by (cases "n_end q1 = Suc ?b + k") simp_all
    have fits: "n_end q2 \<le> n_offset q2 + length (n_data q2)" if "n_begin q2 < n_end q2"
    proof -
      have less: "Suc ?b + k < n_end q1" using that b2 q2(2) by simp
      then have "n_end p \<le> n_offset p + length (n_data p)"
        using bound room(1) by (simp add: ev_room_def)
      then show ?thesis using less bound q2(2,3,4) q(5) by simp
    qed
    have "{Suc ?b + k..<n_end p} \<subseteq> {n_begin q2..<n_end q2}" unfolding b2 q2(2) q1(5) by auto
    then have "dom (ev_pending q2) \<subseteq> {n_begin q2..<n_end q2}" unfolding eq using sub by (rule subset_trans[rotated])
    then show "ev_ok q2" using le off fits q2(1) by (simp add: ev_ok_def ev_room_def)
  qed
  have "events_add_nat dflt ?b d p = Inr ((?b, d) # map (\<lambda>m. (m, the (ev_pending p m))) [Suc ?b..<Suc ?b + k], compactify_nat q2)"
    using q(1) by (simp add: events_add_nat_def q1_def q2_def Let_def)
  then show ?thesis
    using compactify_ok[OF q2(3)] q2(1,2) q(6,8) by simp
qed

lemma events_add_nat_later:
  assumes ok: "ev_ok p" and n: "n_begin p < n"
  shows "\<exists>p'. events_add_nat dflt n d p = Inr ([], p') \<and> ev_ok p' \<and> n_begin p' = n_begin p \<and> ev_pending p' = (ev_pending p)(n \<mapsto> d)"
proof -
  define i where "i = n - n_offset p"
  define array where "array = (if length (n_data p) < i + 1 then n_data p @ replicate (i + 1 - length (n_data p)) (dflt, False) else n_data p)"
  define q where "q = p\<lparr>n_data := array[i := (d, True)], n_end := (if n_end p < n + 1 then n + 1 else n_end p)\<rparr>"
  have room: "ev_room p" "n_begin p \<le> n_end p" "ev_pending p (n_begin p) = None" "n_offset p \<le> n_begin p"
    using ok by (simp_all add: ev_ok_def ev_room_def)
  have arr: "i < length array" "length (n_data p) \<le> length array" "length array = max (i + 1) (length (n_data p))"
    by (auto simp: array_def)
  have at: "array ! j = (if j < length (n_data p) then n_data p ! j else (dflt, False))" if "j < length array" for j
    using that by (auto simp: array_def nth_append)
  have pend: "ev_pending q m = ((ev_pending p)(n \<mapsto> d)) m" for m
  proof (cases "m = n")
    case True
    then show ?thesis using arr(1) n room(4) by (simp add: ev_pending_def q_def i_def)
  next
    case False
    then show ?thesis
      using arr(2) n room(4) at[of "m - n_offset p"]
      by (cases "m - n_offset p < length (n_data p)") (auto simp: ev_pending_def q_def i_def)
  qed
  then have eq: "ev_pending q = (ev_pending p)(n \<mapsto> d)" by (rule ext)
  have "n_end q \<le> n_offset q + length (n_data q)"
    using room n arr(1,2) by (auto simp: q_def i_def ev_room_def not_less)
  moreover have "dom (ev_pending q) \<subseteq> {n_begin q..<n_end q}"
    using room(1) n unfolding eq by (auto simp: q_def ev_room_def)
  moreover have "ev_pending q (n_begin q) = None" unfolding eq using room(3) n by (simp add: q_def)
  moreover have "n_offset q \<le> n_begin q" "n_begin q \<le> n_end q" using room n by (auto simp: q_def)
  ultimately have "ev_ok q" by (simp add: ev_ok_def ev_room_def)
  moreover have "events_add_nat dflt n d p = Inr ([], q)"
    using n by (simp add: events_add_nat_def Let_def q_def array_def i_def)
  ultimately show ?thesis using eq by (simp add: q_def)
qed

text \<open>A whole history: every event with its data, in the order of arrival.\<close>

definition nat_events_step :: "'d \<Rightarrow> nat \<times> 'd \<Rightarrow> (nat \<times> 'd) list \<times> 'd nat_events \<Rightarrow> td_error + (nat \<times> 'd) list \<times> 'd nat_events" where
  "nat_events_step dflt = (\<lambda>(n, d) (calls, p). bind_r (events_add_nat dflt n d p) (\<lambda>(c, p). Inr (calls @ c, p)))"

definition restored :: "nat \<Rightarrow> (nat \<times> 'd) list \<Rightarrow> (nat \<times> 'd) list \<times> 'd nat_events \<Rightarrow> bool" where
  "restored start xs = (\<lambda>(calls, p). ev_ok p \<and> start \<le> n_begin p \<and> {start..<n_begin p} \<subseteq> fst ` set xs \<and>
     calls = map (\<lambda>n. (n, the (map_of xs n))) [start..<n_begin p] \<and> ev_pending p = map_of xs |` {n_begin p..})"

lemma map_of_snoc:
  assumes "n \<notin> fst ` set xs"
  shows "map_of (xs @ [(n, d)]) = (map_of xs)(n \<mapsto> d)"
proof
  fix k
  have "map_of xs n = None" using assms by (simp add: map_of_eq_None_iff)
  then show "map_of (xs @ [(n, d)]) k = ((map_of xs)(n \<mapsto> d)) k"
    by (cases "k = n") (simp_all add: map_add_def split: option.splits)
qed

lemma nat_events_step_ok:
  assumes r: "restored start xs (calls, p)" and new: "n \<notin> fst ` set xs" "start \<le> n"
  shows "\<exists>s. nat_events_step dflt (n, d) (calls, p) = Inr s \<and> restored start (xs @ [(n, d)]) s"
proof -
  define f where "f = map_of (xs @ [(n, d)])"
  have m: "f = (map_of xs)(n \<mapsto> d)" unfolding f_def by (rule map_of_snoc[OF new(1)])
  have ok: "ev_ok p" "start \<le> n_begin p" "{start..<n_begin p} \<subseteq> fst ` set xs" "ev_pending p = map_of xs |` {n_begin p..}"
    "calls = map (\<lambda>n. (n, the (map_of xs n))) [start..<n_begin p]"
    using r by (simp_all add: restored_def)
  have ge: "n_begin p \<le> n" using ok(3) new by (meson atLeastLessThan_iff linorder_not_le subsetD)
  have old: "map (\<lambda>k. (k, the (map_of xs k))) [start..<n_begin p] = map (\<lambda>k. (k, the (f k))) [start..<n_begin p]"
    using ge by (intro map_cong) (auto simp: m)
  show ?thesis
  proof (cases "n = n_begin p")
    case True
    obtain c q where q: "events_add_nat dflt (n_begin p) d p = Inr (c, q)" "ev_ok q" "n_begin p < n_begin q"
        "c = (n_begin p, d) # map (\<lambda>m. (m, the (ev_pending p m))) [Suc (n_begin p)..<n_begin q]"
        "{Suc (n_begin p)..<n_begin q} \<subseteq> dom (ev_pending p)" "ev_pending q = ev_pending p |` {n_begin q..}"
      using events_add_nat_now[OF ok(1), of dflt d] by blast
    have "c = map (\<lambda>k. (k, the (f k))) [n_begin p..<n_begin q]"
      using q(3,4) True ok(4) by (simp add: upt_conv_Cons m)
    moreover have "[start..<n_begin q] = [start..<n_begin p] @ [n_begin p..<n_begin q]"
      using upt_add_eq_append[of start "n_begin p" "n_begin q - n_begin p"] ok(2) q(3) by simp
    moreover have "{start..<n_begin q} \<subseteq> fst ` set (xs @ [(n, d)])"
    proof
      fix k assume k: "k \<in> {start..<n_begin q}"
      consider "k < n_begin p" | "k = n" | "Suc (n_begin p) \<le> k" using True by linarith
      then show "k \<in> fst ` set (xs @ [(n, d)])"
      proof cases
        case 3
        then have "k \<in> dom (map_of xs)" using q(5) k ok(4) by (auto simp: subset_iff)
        then show ?thesis by (simp add: dom_map_of_conv_image_fst)
      qed (use ok(3) k in auto)
    qed
    moreover have "ev_pending q = f |` {n_begin q..}"
      using q(3,6) ok(4) True by (auto simp: m restrict_map_def fun_eq_iff)
    moreover have "calls = map (\<lambda>k. (k, the (f k))) [start..<n_begin p]" using ok(5) old by (simp only:)
    moreover have "nat_events_step dflt (n, d) (calls, p) = Inr (calls @ c, q)" using q(1) True by (simp add: nat_events_step_def)
    ultimately have "restored start (xs @ [(n, d)]) (calls @ c, q)"
      unfolding restored_def prod.case f_def[symmetric] using q(2,3) ok(2) by (simp only: map_append) simp
    then show ?thesis using \<open>nat_events_step dflt (n, d) (calls, p) = Inr (calls @ c, q)\<close> by blast
  next
    case False
    then obtain q where q: "events_add_nat dflt n d p = Inr ([], q)" "ev_ok q" "n_begin q = n_begin p" "ev_pending q = (ev_pending p)(n \<mapsto> d)"
      using events_add_nat_later[OF ok(1), of n dflt d] ge by auto
    have "ev_pending q = f |` {n_begin p..}"
      using q(4) ok(4) ge by (auto simp: m restrict_map_def fun_eq_iff)
    then show ?thesis using q(1-3) ok(2,3,5) old by (auto simp: nat_events_step_def restored_def f_def[symmetric] simp del: map_of_append)
  qed
qed

section \<open>The counters of the code\<close>

text \<open>Below the last sequence number no counter wraps, so the operations on words do what those on
  unbounded counters do.\<close>

definition nat_view :: "'d ordered_events \<Rightarrow> 'd nat_events" where
  "nat_view p = \<lparr>n_offset = unat (ev_offset p), n_begin = unat (ev_begin p), n_end = unat (ev_end p), n_data = ev_data p\<rparr>"

lemma nat_view_simps [simp]:
  "n_offset (nat_view p) = unat (ev_offset p)" "n_begin (nat_view p) = unat (ev_begin p)"
  "n_end (nat_view p) = unat (ev_end p)" "n_data (nat_view p) = ev_data p"
  "nat_view (new_ordered_events n) = new_nat_events (unat n)"
  by (simp_all add: nat_view_def new_ordered_events_def new_nat_events_def)

definition nat_calls :: "(u64 \<times> 'd) list \<Rightarrow> (nat \<times> 'd) list" where
  "nat_calls = map (\<lambda>(n, d). (unat n, d))"

lemma unat_inj: "unat (a :: u64) = unat b \<longleftrightarrow> a = b"
  by (simp flip: word_eq_iff_unsigned)

lemma run_ready_view:
  assumes "ev_offset p \<le> ev_begin p"
  shows "(case run_ready p calls of Inl e \<Rightarrow> run_ready_nat (nat_view p) (nat_calls calls) = Inl e
    | Inr (c, q) \<Rightarrow> run_ready_nat (nat_view p) (nat_calls calls) = Inr (nat_calls c, nat_view q)
        \<and> ev_offset q = ev_offset p \<and> ev_offset p \<le> ev_begin q)"
  using assms
proof (induction p calls rule: run_ready.induct)
  case (1 p calls)
  let ?i = "unat (ev_begin p - ev_offset p)"
  have i: "?i = unat (ev_begin p) - unat (ev_offset p)" using "1.prems" by (simp add: unat_sub)
  show ?case
  proof (cases "ev_begin p < ev_end p \<and> ?i < length (ev_data p) \<and> snd (ev_data p ! ?i)")
    case False
    then show ?thesis
      using "1.prems" i
      by (auto simp: run_ready.simps[of p calls] run_ready_nat.simps[of "nat_view p" "nat_calls calls"]
          Let_def word_less_nat_alt not_less)
  next
    case True
    let ?q = "p\<lparr>ev_data := (ev_data p)[?i := (fst (ev_data p ! ?i), False)], ev_begin := ev_begin p + 1\<rparr>"
    let ?c = "calls @ [(ev_begin p, fst (ev_data p ! ?i))]"
    have succ: "unat (ev_begin p + 1) = unat (ev_begin p) + 1"
      using True less_not_last unat_succ by blast
    have le: "ev_offset ?q \<le> ev_begin ?q" using "1.prems" succ by (simp add: word_le_nat_alt)
    have view: "run_ready_nat (nat_view p) (nat_calls calls) = run_ready_nat (nat_view ?q) (nat_calls ?c)"
      using True i succ
      by (subst run_ready_nat.simps) (simp add: Let_def word_less_nat_alt nat_view_def nat_calls_def)
    have run: "run_ready p calls = run_ready ?q ?c"
      using True by (subst run_ready.simps) (simp add: Let_def)
    show ?thesis
      using "1.IH"[OF _ refl _ _ le] True unfolding view run by (simp split: sum.splits prod.splits)
  qed
qed

lemma compactify_view:
  assumes "ev_offset p \<le> ev_begin p"
  shows "nat_view (events_compactify p) = compactify_nat (nat_view p)"
proof -
  have i: "unat (ev_begin p - ev_offset p) = unat (ev_begin p) - unat (ev_offset p)"
    using assms by (simp add: unat_sub)
  have "5 < ev_begin p - ev_offset p \<longleftrightarrow> 5 < unat (ev_begin p) - unat (ev_offset p)"
    by (simp add: word_less_nat_alt i)
  moreover have "unat (w * 2) = unat w * 2 mod 2 ^ 64" for w :: u64
    by (simp add: unat_word_ariths)
  then have "unat ((ev_begin p - ev_offset p) * 2) = (unat (ev_begin p) - unat (ev_offset p)) * 2 mod 2 ^ 64"
    by (simp only: i)
  ultimately show ?thesis
    by (simp add: events_compactify_def compactify_nat_def Let_def i nat_view_def)
qed

lemma events_add_view:
  assumes "ev_offset p \<le> ev_begin p" "n \<noteq> - 1"
  shows "(case events_add dflt n d p of Inl e \<Rightarrow> events_add_nat dflt (unat n) d (nat_view p) = Inl e
    | Inr (c, q) \<Rightarrow> events_add_nat dflt (unat n) d (nat_view p) = Inr (nat_calls c, nat_view q))"
proof (cases "ev_begin p < n")
  case False
  show ?thesis
  proof (cases "n = ev_begin p")
    case True
    let ?p = "p\<lparr>ev_begin := ev_begin p + 1\<rparr>"
    have succ: "unat (ev_begin p + 1) = unat (ev_begin p) + 1" using assms(2) True unat_succ by blast
    then have le: "ev_offset ?p \<le> ev_begin ?p" using assms(1) by (simp add: word_le_nat_alt)
    have p: "nat_view ?p = (nat_view p)\<lparr>n_begin := unat (ev_begin p) + 1\<rparr>" using succ by (simp add: nat_view_def)
    have c: "nat_calls [(n, d)] = [(unat n, d)]" by (simp add: nat_calls_def)
    show ?thesis
    proof (cases "run_ready ?p [(n, d)]")
      case (Inl e)
      then show ?thesis
        using run_ready_view[OF le, of "[(n, d)]"] True
        by (simp add: events_add_def events_add_nat_def p nat_calls_def)
    next
      case (Inr r)
      obtain c' q where r: "run_ready ?p [(n, d)] = Inr (c', q)" using Inr by (cases r) simp
      have q: "run_ready_nat (nat_view ?p) [(unat n, d)] = Inr (nat_calls c', nat_view q)"
        "ev_offset q \<le> ev_begin q"
        using run_ready_view[OF le, of "[(n, d)]"] r by (auto simp: c)
      define q1 where "q1 = (if ev_begin q > ev_end q then q\<lparr>ev_end := ev_begin q\<rparr> else q)"
      define q2 where "q2 = (if ev_begin q1 = ev_end q1 then q1\<lparr>ev_offset := ev_begin q1\<rparr> else q1)"
      have v2: "nat_view q2 = (let r = (if n_begin (nat_view q) > n_end (nat_view q)
            then (nat_view q)\<lparr>n_end := n_begin (nat_view q)\<rparr> else nat_view q)
          in if n_begin r = n_end r then r\<lparr>n_offset := n_begin r\<rparr> else r)"
        by (simp add: q1_def q2_def Let_def word_less_nat_alt unat_inj nat_view_def)
      have "ev_offset q2 \<le> ev_begin q2" using q(2) by (simp add: q1_def q2_def)
      from compactify_view[OF this] have "events_add_nat dflt (unat n) d (nat_view p) = Inr (nat_calls c', nat_view (events_compactify q2))"
        using q(1) True by (simp add: events_add_nat_def p v2 del: nat_view_simps) (simp add: Let_def)
      moreover have "events_add dflt n d p = Inr (c', events_compactify q2)"
        using r True by (simp add: events_add_def Let_def q1_def q2_def)
      ultimately show ?thesis by simp
    qed
  next
    case ne: False
    then have "\<not> ev_begin p \<le> n" using False by simp
    then show ?thesis by (simp add: events_add_def events_add_nat_def word_le_nat_alt)
  qed
next
  case True
  have sub: "unat (n - ev_offset p) = unat n - unat (ev_offset p)"
    using True assms(1) by (intro unat_sub) simp
  have "n < - 1" using assms(2) word_n1_ge[of n] le_neq_trans by blast
  then have "unat n < unat (- 1 :: u64)" by (simp only: word_less_nat_alt)
  then have "unat (n - ev_offset p) \<noteq> unat (- 1 :: u64)" unfolding sub by linarith
  then have "n - ev_offset p \<noteq> - 1" using arg_cong[of "n - ev_offset p" "- 1" unat] by argo
  then have need: "unat (n - ev_offset p + 1) = unat n - unat (ev_offset p) + 1"
    unfolding sub[symmetric] by (rule unat_succ)
  have last: "unat (n + 1) = unat n + 1" by (rule unat_succ[OF assms(2)])
  let ?i = "unat n - unat (ev_offset p)"
  let ?array = "if length (ev_data p) < ?i + 1 then ev_data p @ replicate (?i + 1 - length (ev_data p)) (dflt, False) else ev_data p"
  let ?q = "p\<lparr>ev_data := ?array[?i := (d, True)], ev_end := (if ev_end p < n + 1 then n + 1 else ev_end p)\<rparr>"
  have n: "ev_begin p \<le> n" "n \<noteq> ev_begin p" using True by auto
  then have nat_n: "unat (ev_begin p) \<le> unat n" "unat n \<noteq> unat (ev_begin p)" by (simp_all only: word_le_nat_alt unat_inj not_False_eq_True)
  have len: "?i < length ?array" by simp
  have "events_add dflt n d p = Inr ([], ?q)"
    using n len by (simp only: events_add_def Let_def sub need check_r_simps bind_r_simps if_False not_le[symmetric] if_True)
  moreover have "events_add_nat dflt (unat n) d (nat_view p) = Inr ([], nat_view ?q)"
    using nat_n last by (simp only: events_add_nat_def Let_def nat_view_simps check_r_simps bind_r_simps if_False)
      (simp add: nat_view_def word_less_nat_alt)
  ultimately show ?thesis by (simp add: nat_calls_def)
qed

lemma map_of_nat_calls: "map_of (nat_calls xs) (unat n) = map_of xs n"
  by (induction xs) (auto simp: nat_calls_def unat_inj)

lemma nat_calls_inverse:
  assumes "nat_calls calls = map (\<lambda>n. (n, the (map_of (nat_calls xs) n))) [a..<unat (b :: u64)]"
  shows "calls = map (\<lambda>n. (of_nat n, the (map_of xs (of_nat n)))) [a..<unat b]"
proof -
  have "calls = map (\<lambda>(n, d). (of_nat n, d)) (nat_calls calls)"
    by (simp add: nat_calls_def comp_def case_prod_beta)
  also have "\<dots> = map (\<lambda>n. (of_nat n, the (map_of xs (of_nat n)))) [a..<unat b]"
    unfolding assms
  proof (simp, intro ballI)
    fix n assume "n \<in> {a..<unat b}"
    then have "unat (of_nat n :: u64) = n"
      using unsigned_less[of b, where 'a = nat] by (simp add: unsigned_of_nat take_bit_nat_eq_self_iff)
    then show "the (map_of (nat_calls xs) n) = the (map_of xs (of_nat n))"
      using map_of_nat_calls[of xs "of_nat n"] by simp
  qed
  finally show ?thesis .
qed

text \<open>A whole history on the operations of the code.\<close>

definition events_step :: "'d \<Rightarrow> u64 \<times> 'd \<Rightarrow> (u64 \<times> 'd) list \<times> 'd ordered_events \<Rightarrow> td_error + (u64 \<times> 'd) list \<times> 'd ordered_events" where
  "events_step dflt = (\<lambda>(n, d) (calls, p). bind_r (events_add dflt n d p) (\<lambda>(c, p). Inr (calls @ c, p)))"

lemma events_step_view:
  assumes r: "restored (unat start) (nat_calls xs) (nat_calls calls, nat_view p)"
    and new: "n \<notin> fst ` set xs" "start \<le> n" "n \<noteq> - 1"
  shows "\<exists>calls' p'. events_step dflt (n, d) (calls, p) = Inr (calls', p')
    \<and> restored (unat start) (nat_calls (xs @ [(n, d)])) (nat_calls calls', nat_view p')"
proof -
  have "unat n \<notin> fst ` set (nat_calls xs)" using new(1) by (force simp: nat_calls_def unat_inj)
  from nat_events_step_ok[OF r this, of dflt d] new(2) obtain c q where
    q: "events_add_nat dflt (unat n) d (nat_view p) = Inr (c, q)"
      "restored (unat start) (nat_calls xs @ [(unat n, d)]) (nat_calls calls @ c, q)"
    by (auto simp: nat_events_step_def word_le_nat_alt)
  have "ev_offset p \<le> ev_begin p"
    using r by (simp add: restored_def ev_ok_def ev_room_def word_le_nat_alt)
  from events_add_view[OF this new(3), of dflt d] q(1) obtain c' q' where
    "events_add dflt n d p = Inr (c', q')" "c = nat_calls c'" "q = nat_view q'"
    by (auto split: sum.splits)
  with q(2) show ?thesis by (auto simp: events_step_def nat_calls_def)
qed

section \<open>Changes\<close>

text \<open>The reference keeps every change since the last \<open>clear\<close>; its first token is \<open>base\<close>.\<close>

datatype 'd change_op = Add_change 'd | Finish_change nat | Clear_changes

fun change_step :: "'d change_op \<Rightarrow> 'd changes \<Rightarrow> (nat option \<times> 'd list) \<times> 'd changes" where
  "change_step (Add_change d) p = (let (i, p) = changes_add d p in ((Some i, []), p))"
| "change_step (Finish_change t) p = (let (calls, p) = changes_finish t p in ((None, calls), p))"
| "change_step Clear_changes p = ((None, []), changes_clear p)"

fun reference_step :: "'d change_op \<Rightarrow> nat \<times> ('d \<times> bool) list \<Rightarrow> (nat option \<times> 'd list) \<times> nat \<times> ('d \<times> bool) list" where
  "reference_step (Add_change d) (base, l) = ((Some (base + length l), []), base, l @ [(d, False)])"
| "reference_step (Finish_change t) (base, l) =
     (if base \<le> t \<and> t < base + length l then
        let l' = l[t - base := (fst (l ! (t - base)), True)] in
        ((None, map fst (drop (length (takeWhile snd l)) (takeWhile snd l'))), base, l')
      else ((None, []), base, l))"
| "reference_step Clear_changes (base, l) = ((None, []), base + length l, [])"

fun trace :: "('o \<Rightarrow> 's \<Rightarrow> 'r \<times> 's) \<Rightarrow> 'o list \<Rightarrow> 's \<Rightarrow> 'r list" where
  "trace f [] s = []"
| "trace f (x # xs) s = fst (f x s) # trace f xs (snd (f x s))"

text \<open>The vector is what is left of the reference list; what was cut off had all been passed on.\<close>

definition change_rel :: "nat \<times> ('d \<times> bool) list \<Rightarrow> 'd changes \<Rightarrow> bool" where
  "change_rel = (\<lambda>(base, l) p. base \<le> ch_offset p \<and> ch_data p = drop (ch_offset p - base) l \<and> ch_offset p - base \<le> length l \<and>
     ch_offset p - base + ch_ready p = length (takeWhile snd l))"

lemma ready_loop_eq:
  "r \<le> length (takeWhile snd a) \<Longrightarrow>
   ready_loop a r calls = (calls @ map fst (drop r (takeWhile snd a)), length (takeWhile snd a))"
proof (induction a r calls rule: ready_loop.induct)
  case (1 a r calls)
  let ?w = "takeWhile snd a"
  show ?case
  proof (cases "r < length ?w")
    case True
    then have r: "r < length a" "snd (a ! r)" "?w ! r = a ! r"
      using length_takeWhile_le[of snd a] takeWhile_nth[OF True] set_takeWhileD[of "?w ! r" snd a] nth_mem[OF True] by auto
    then have "drop r ?w = a ! r # drop (Suc r) ?w" using Cons_nth_drop_Suc[OF True] by simp
    then show ?thesis using 1(1) r True by (subst ready_loop.simps) simp
  next
    case False
    then have "r = length ?w" using 1(2) by simp
    then have "\<not> (r < length a \<and> snd (a ! r))" using nth_length_takeWhile[of snd a] by auto
    then have "ready_loop a r calls = (calls, r)" by (simp only: ready_loop.simps[of a r calls] if_False)
    then show ?thesis using \<open>r = length ?w\<close> by simp
  qed
qed

lemma takeWhile_drop: "k \<le> length (takeWhile P l) \<Longrightarrow> takeWhile P (drop k l) = drop k (takeWhile P l)"
proof (induction k arbitrary: l)
  case (Suc k)
  then show ?case by (cases l) (auto split: if_splits)
qed simp

lemma takeWhile_update_true: "length (takeWhile snd l) \<le> length (takeWhile snd (l[i := (d, True)]))"
proof (induction l arbitrary: i)
  case (Cons x l)
  then show ?case by (cases i) auto
qed simp

lemma update_true_prefix: "i < length (takeWhile snd l) \<Longrightarrow> l[i := (fst (l ! i), True)] = l"
proof (induction l arbitrary: i)
  case (Cons x l)
  then show ?case by (cases i) (auto split: if_splits simp: prod_eq_iff intro: list_update_id)
qed simp

lemma compactify_rel:
  assumes "change_rel (base, l) p"
  shows "change_rel (base, l) (changes_compactify p)"
proof -
  have "ch_offset p - base + ch_ready p \<le> length l"
    using assms length_takeWhile_le[of snd l] by (simp add: change_rel_def)
  then show ?thesis
    using assms by (auto simp: change_rel_def changes_compactify_def add.commute)
qed

lemma token_position:
  fixes t off base :: nat
  assumes "base \<le> off" "off \<le> base + n" "base + n < 2 ^ 64" "t < 2 ^ 64"
  shows "off \<le> t \<Longrightarrow> nat ((int t - int off) mod 2 ^ 64) = t - off"
    "t < off \<Longrightarrow> base + n - off \<le> nat ((int t - int off) mod 2 ^ 64)"
proof -
  show "nat ((int t - int off) mod 2 ^ 64) = t - off" if "off \<le> t"
    using assms(4) that by (subst mod_pos_pos_trivial) auto
  show "base + n - off \<le> nat ((int t - int off) mod 2 ^ 64)" if "t < off"
  proof -
    have le: "int off < 2 ^ 64" "int base + int n < 2 ^ 64" using assms(2,3) by (simp_all flip: of_nat_add)
    have "(int t - int off) mod 2 ^ 64 = (int t - int off + 2 ^ 64) mod 2 ^ 64" by simp
    also have "\<dots> = int t - int off + 2 ^ 64" using le(1) that by (intro mod_pos_pos_trivial) linarith+
    finally show ?thesis using assms(1,2) le that by linarith
  qed
qed

lemma change_step_rel:
  assumes rel: "change_rel (base, l) p" and small: "base + length l < 2 ^ 64" "\<And>t. oper = Finish_change t \<Longrightarrow> t < 2 ^ 64"
  shows "fst (change_step oper p) = fst (reference_step oper (base, l)) \<and>
    change_rel (snd (reference_step oper (base, l))) (snd (change_step oper p))"
proof -
  define k where "k = ch_offset p - base"
  have r: "base \<le> ch_offset p" "ch_data p = drop k l" "k \<le> length l" "k + ch_ready p = length (takeWhile snd l)"
    using rel by (simp_all add: change_rel_def k_def)
  show ?thesis
  proof (cases oper)
    case (Add_change d)
    have "takeWhile snd (l @ [(d, False)]) = takeWhile snd l" by (induction l) auto
    then show ?thesis using r Add_change by (simp add: changes_add_def change_rel_def k_def)
  next
    case Clear_changes
    then show ?thesis using r by (simp add: changes_clear_def change_rel_def k_def)
  next
    case (Finish_change t)
    let ?i = "nat ((int t - int (ch_offset p)) mod 2 ^ 64)"
    have t: "t < 2 ^ 64" using small(2)[OF Finish_change] .
    have off: "ch_offset p \<le> base + length l" using r(1,3) by (simp add: k_def)
    note pos = token_position[OF r(1) off small(1) t]
    have len: "length (ch_data p) = base + length l - ch_offset p" using r(1-3) by (simp add: k_def)
    show ?thesis
    proof (cases "ch_offset p \<le> t \<and> t < base + length l")
      case False
      then have "changes_finish t p = ([], p)"
      proof -
        have "length (ch_data p) \<le> ?i" using pos len False by (cases "ch_offset p \<le> t") simp_all
        then show ?thesis by (simp only: changes_finish_def Let_def if_True)
      qed
      moreover have "reference_step oper (base, l) = ((None, []), base, l)"
      proof (cases "base \<le> t \<and> t < base + length l")
        case True
        then have "t - base < k" using False True by (simp add: k_def diff_less_mono not_le)
        then have "t - base < length (takeWhile snd l)" using r(4) by linarith
        then show ?thesis using True Finish_change update_true_prefix[of "t - base" l] by (simp add: Let_def)
      qed (use Finish_change in auto)
      ultimately show ?thesis using rel Finish_change by simp
    next
      case True
      define l' where "l' = l[t - base := (fst (l ! (t - base)), True)]"
      have tb: "t - base = k + (t - ch_offset p)" "base \<le> t" using True r(1) by (simp_all add: k_def)
      have i: "?i = t - ch_offset p" using pos(1) True by simp
      have fst_eq: "fst (ch_data p ! (t - ch_offset p)) = fst (l ! (t - base))" using r(2,3) tb by simp
      have data: "(ch_data p)[t - ch_offset p := (fst (ch_data p ! (t - ch_offset p)), True)] = drop k l'"
        unfolding fst_eq l'_def using tb by (simp add: r(2) drop_update_swap)
      have mono: "length (takeWhile snd l) \<le> length (takeWhile snd l')" unfolding l'_def by (rule takeWhile_update_true)
      have tw: "takeWhile snd (drop k l') = drop k (takeWhile snd l')" using r(4) mono by (intro takeWhile_drop) simp
      have loop: "ready_loop (drop k l') (ch_ready p) [] = (map fst (drop (length (takeWhile snd l)) (takeWhile snd l')), length (takeWhile snd l') - k)"
        using ready_loop_eq[of "ch_ready p" "drop k l'" "[]"] r(4) mono by (simp add: tw add.commute)
      let ?q = "p\<lparr>ch_data := drop k l', ch_ready := length (takeWhile snd l') - k\<rparr>"
      have fin: "changes_finish t p = (map fst (drop (length (takeWhile snd l)) (takeWhile snd l')), changes_compactify ?q)"
      proof -
        have "\<not> length (ch_data p) \<le> t - ch_offset p" using True unfolding len by linarith
        then show ?thesis
          by (simp only: changes_finish_def Let_def i data loop if_False prod.case)
      qed
      have "change_rel (base, l') ?q" using r mono by (simp add: change_rel_def k_def l'_def)
      then show ?thesis
        using compactify_rel[of base l' ?q] fin Finish_change True tb(2) by (simp add: Let_def l'_def)
    qed
  qed
qed

section \<open>Properties\<close>

text \<open>C35: Whatever order events with distinct numbers from \<open>start\<close> up to \<open>2 ^ 64 - 2\<close> arrive in,
  \<open>OrderedEventsProcessor\<close> runs them in the order of their numbers, each once and with its own data, and
  has always run exactly those before the first number still missing. (With the last number of
  \<^verbatim>\<open>uint64\<close> the bound \<open>end\<close> would wrap.)\<close>

theorem events_in_order:
  assumes "distinct (map fst xs)" "\<forall>(n, d) \<in> set xs. start \<le> n \<and> n < - 1"
  shows "\<exists>calls p. fold_r (events_step dflt) xs ([], new_ordered_events start) = Inr (calls, p) \<and>
    calls = map (\<lambda>n. (of_nat n, the (map_of xs (of_nat n)))) [unat start..<unat (ev_begin p)] \<and>
    {start..<ev_begin p} \<subseteq> fst ` set xs \<and> ev_begin p \<notin> fst ` set xs"
proof -
  have "\<exists>calls p. fold_r (events_step dflt) xs ([], new_ordered_events start) = Inr (calls, p)
      \<and> restored (unat start) (nat_calls xs) (nat_calls calls, nat_view p)"
    using assms
  proof (induction xs rule: rev_induct)
    case Nil
    have view: "nat_view (new_ordered_events start) = new_nat_events (unat start)" by simp
    have "restored (unat start) (nat_calls []) (nat_calls [], nat_view (new_ordered_events start))"
      unfolding view by (auto simp: restored_def new_nat_events_def ev_ok_def ev_room_def ev_pending_def dom_def nat_calls_def)
    then show ?case by auto
  next
    case (snoc x xs)
    obtain n d where x: "x = (n, d)" by (cases x)
    obtain calls p where s: "fold_r (events_step dflt) xs ([], new_ordered_events start) = Inr (calls, p)"
      "restored (unat start) (nat_calls xs) (nat_calls calls, nat_view p)"
      using snoc by auto
    have "n \<notin> fst ` set xs" "start \<le> n" "n \<noteq> - 1" using snoc(2,3) x by auto
    from events_step_view[OF s(2) this, of dflt d] s(1) x show ?case by (auto simp: fold_r_append)
  qed
  then obtain calls p where run: "fold_r (events_step dflt) xs ([], new_ordered_events start) = Inr (calls, p)"
    and r: "restored (unat start) (nat_calls xs) (nat_calls calls, nat_view p)" by blast
  have "ev_ok (nat_view p)" and m: "ev_pending (nat_view p) = map_of (nat_calls xs) |` {unat (ev_begin p)..}"
    and c: "nat_calls calls = map (\<lambda>n. (n, the (map_of (nat_calls xs) n))) [unat start..<unat (ev_begin p)]"
    and sub: "{unat start..<unat (ev_begin p)} \<subseteq> fst ` set (nat_calls xs)"
    using r by (simp_all add: restored_def)
  from this(1) have "ev_pending (nat_view p) (unat (ev_begin p)) = None" by (simp add: ev_ok_def)
  then have "map_of (nat_calls xs) (unat (ev_begin p)) = None" unfolding m by simp
  then have "ev_begin p \<notin> fst ` set xs" by (force simp: map_of_eq_None_iff nat_calls_def)
  moreover have "{start..<ev_begin p} \<subseteq> fst ` set xs"
  proof
    fix n assume "n \<in> {start..<ev_begin p}"
    then have "unat n \<in> fst ` set (nat_calls xs)" using sub by (auto simp: word_le_nat_alt word_less_nat_alt)
    then show "n \<in> fst ` set xs" by (force simp: nat_calls_def unat_inj)
  qed
  moreover have "calls = map (\<lambda>n. (of_nat n, the (map_of xs (of_nat n)))) [unat start..<unat (ev_begin p)]"
    by (rule nat_calls_inverse[OF c])
  ultimately show ?thesis using run by blast
qed

lemma events_in_order_witness:
  "\<exists>calls p. fold_r (events_step 0) [(3, 30), (1, 10), (2, 20), (5, 50 :: int)] ([], new_ordered_events 1) = Inr (calls, p) \<and>
    calls = map (\<lambda>n. (of_nat n, the (map_of [(3 :: u64, 30), (1, 10), (2, 20), (5, 50 :: int)] (of_nat n)))) [unat (1 :: u64)..<unat (ev_begin p)] \<and>
    {1..<ev_begin p} \<subseteq> fst ` set [(3, 30), (1, 10), (2, 20), (5, 50 :: int)] \<and>
    ev_begin p \<notin> fst ` set [(3, 30), (1, 10), (2, 20), (5, 50 :: int)]"
  by (rule events_in_order) (simp_all add: order_less_le)

text \<open>With the last number the bound wraps and the event is lost: the number is stored, but \<open>end\<close> stays,
  and the loop never reaches it.\<close>

lemma last_number_lost:
  "fold_r (events_step 0) [(- 1, 1), (- 2, 2 :: int)] ([], new_ordered_events (- 2)) =
    Inr ([(- 2, 2)], \<lparr>ev_offset = - 1, ev_begin = - 1, ev_end = - 1, ev_data = [(0, False), (1, True)]\<rparr>)"
proof -
  have two: "replicate 2 x = [x, x]" for x :: "int \<times> bool" by (simp add: numeral_2_eq_2)
  show ?thesis
    by (simp add: events_step_def events_add_def new_ordered_events_def run_ready.simps Let_def events_compactify_def
        check_r_def two)
qed

text \<open>C36: \<open>ChangesProcessor\<close> behaves as if it never cut anything off its vector: on any sequence of
  additions, completions (of old tokens, too) and clearings it hands out the tokens and passes on
  the changes of the reference, which are the longest finished prefix of the changes added.\<close>

theorem changes_refine_reference:
  assumes "length ops < 2 ^ 64 - 1" "\<forall>t. Finish_change t \<in> set ops \<longrightarrow> t < 2 ^ 64"
  shows "trace change_step ops new_changes = trace reference_step ops (1, [])"
proof -
  have "trace change_step ops p = trace reference_step ops (base, l)"
    if "change_rel (base, l) p" "base + length l + length ops < 2 ^ 64" "\<forall>t. Finish_change t \<in> set ops \<longrightarrow> t < 2 ^ 64" for base l p
    using that
  proof (induction ops arbitrary: base l p)
    case (Cons oper ops)
    obtain base' l' where s: "snd (reference_step oper (base, l)) = (base', l')" by (cases "snd (reference_step oper (base, l))")
    have "base' + length l' \<le> base + length l + 1" using s by (cases oper) (auto simp: Let_def split: if_splits)
    then show ?case
      using Cons.IH[of base' l' "snd (change_step oper p)"] change_step_rel[OF Cons.prems(1), of oper] Cons.prems(2,3) s by simp
  qed simp
  from this[of 1 "[]" new_changes] show ?thesis
    using assms by (simp add: change_rel_def new_changes_def)
qed

lemma changes_refine_reference_witness:
  "trace change_step [Add_change ''a'', Add_change ''b'', Finish_change 2, Finish_change 1, Clear_changes, Finish_change 1] new_changes =
   trace reference_step [Add_change ''a'', Add_change ''b'', Finish_change 2, Finish_change 1, Clear_changes, Finish_change 1] (1, [])"
  by (rule changes_refine_reference) auto

end
