(* ===== verification/Td_Ids.thy ===== *)
theory Td_Ids
  imports Td_Tl
begin

text \<open>
  The identifiers of TDLib (\<^verbatim>\<open>src/lib/td/td/telegram\<close>: \<^verbatim>\<open>UserId.h\<close>, \<^verbatim>\<open>ChatId.h\<close>, \<^verbatim>\<open>ChannelId.h\<close>,
  \<^verbatim>\<open>SecretChatId.h\<close>, \<^verbatim>\<open>DialogId.h\<close>, \<^verbatim>\<open>DialogId.cpp\<close>). A dialog identifier, which is the chat
  identifier the client sees, packs the identifier of a user, a basic group, a channel or a secret chat
  into one number.

  A class is a datatype with its single field; an \<^verbatim>\<open>int64\<close> or \<^verbatim>\<open>int32\<close> is the integer it holds. No
  operation here leaves the range of its type. An object of the Telegram API is a constructor with
  the fields that are read, a pointer that may be null an option.
\<close>

section \<open>Users, basic groups, channels and secret chats\<close>

datatype user_id = UserId (user_value: int)
datatype chat_id = ChatId (chat_value: int)
datatype channel_id = ChannelId (channel_value: int)
datatype secret_chat_id = SecretChatId (secret_chat_value: int)

definition MAX_USER_ID :: int where "MAX_USER_ID = push_bit 40 1 - 1"
definition MAX_CHAT_ID :: int where "MAX_CHAT_ID = 999999999999"
definition MAX_CHANNEL_ID :: int where "MAX_CHANNEL_ID = 1000000000000 - push_bit 31 1"

definition user_id_valid :: "user_id \<Rightarrow> bool" where
  "user_id_valid u = (0 < user_value u \<and> user_value u \<le> MAX_USER_ID)"

definition chat_id_valid :: "chat_id \<Rightarrow> bool" where
  "chat_id_valid c = (0 < chat_value c \<and> chat_value c \<le> MAX_CHAT_ID)"

definition channel_id_valid :: "channel_id \<Rightarrow> bool" where
  "channel_id_valid c = (0 < channel_value c \<and> channel_value c < MAX_CHANNEL_ID)"

definition secret_chat_id_valid :: "secret_chat_id \<Rightarrow> bool" where
  "secret_chat_id_valid s = (secret_chat_value s \<noteq> 0)"

definition get_user_ids :: "int list \<Rightarrow> bool \<Rightarrow> user_id list" where
  "get_user_ids input_user_ids only_valid =
     foldl (\<lambda>user_ids input_user_id. let user_id = UserId input_user_id in
       if \<not> only_valid \<or> user_id_valid user_id then user_ids @ [user_id] else user_ids) [] input_user_ids"

definition get_input_user_ids :: "user_id list \<Rightarrow> int list" where
  "get_input_user_ids user_ids = foldl (\<lambda>input_user_ids user_id. input_user_ids @ [user_value user_id]) [] user_ids"

text \<open>Storing and parsing; \<open>version\<close> is the version of the stored data, older ones have 32-bit identifiers.\<close>

definition Support64BitIds :: int where "Support64BitIds = 33"

definition store_id :: "int \<Rightarrow> bytes \<Rightarrow> bytes" where
  "store_id i = store_long (word_of_int i)"

definition parse_id :: "tl_parser \<Rightarrow> td_error + int \<times> tl_parser" where
  "parse_id p = bind_r (fetch_long p) (\<lambda>(x, p). Inr (sint x, p))"

definition parse_id_of_version :: "int \<Rightarrow> tl_parser \<Rightarrow> td_error + int \<times> tl_parser" where
  "parse_id_of_version version p =
     (if version \<ge> Support64BitIds then parse_id p
      else bind_r (fetch_int p) (\<lambda>(x, p). Inr (sint x, p)))"

definition user_id_store :: "user_id \<Rightarrow> bytes \<Rightarrow> bytes" where
  "user_id_store u = store_id (user_value u)"

definition user_id_parse :: "int \<Rightarrow> tl_parser \<Rightarrow> td_error + user_id \<times> tl_parser" where
  "user_id_parse version p = bind_r (parse_id_of_version version p) (\<lambda>(i, p). Inr (UserId i, p))"

definition chat_id_store :: "chat_id \<Rightarrow> bytes \<Rightarrow> bytes" where
  "chat_id_store c = store_id (chat_value c)"

definition chat_id_parse :: "int \<Rightarrow> tl_parser \<Rightarrow> td_error + chat_id \<times> tl_parser" where
  "chat_id_parse version p = bind_r (parse_id_of_version version p) (\<lambda>(i, p). Inr (ChatId i, p))"

definition channel_id_store :: "channel_id \<Rightarrow> bytes \<Rightarrow> bytes" where
  "channel_id_store c = store_id (channel_value c)"

definition channel_id_parse :: "int \<Rightarrow> tl_parser \<Rightarrow> td_error + channel_id \<times> tl_parser" where
  "channel_id_parse version p = bind_r (parse_id_of_version version p) (\<lambda>(i, p). Inr (ChannelId i, p))"

definition secret_chat_id_store :: "secret_chat_id \<Rightarrow> bytes \<Rightarrow> bytes" where
  "secret_chat_id_store s = store_int (word_of_int (secret_chat_value s))"

definition secret_chat_id_parse :: "tl_parser \<Rightarrow> td_error + secret_chat_id \<times> tl_parser" where
  "secret_chat_id_parse p = bind_r (fetch_int p) (\<lambda>(x, p). Inr (SecretChatId (sint x), p))"

section \<open>Dialogs\<close>

datatype dialog_type = Dialog_none | Dialog_user | Dialog_chat | Dialog_channel | Dialog_secret_chat

datatype dialog_id = DialogId (dialog_value: int)

definition ZERO_SECRET_CHAT_ID :: int where "ZERO_SECRET_CHAT_ID = - 2000000000000"
definition ZERO_CHANNEL_ID :: int where "ZERO_CHANNEL_ID = - 1000000000000"

definition dialog_get_type :: "dialog_id \<Rightarrow> dialog_type" where
  "dialog_get_type d =
     (let i = dialog_value d in
      if i < 0
      then if - MAX_CHAT_ID \<le> i then Dialog_chat
           else if ZERO_CHANNEL_ID - MAX_CHANNEL_ID \<le> i \<and> i \<noteq> ZERO_CHANNEL_ID then Dialog_channel
           else if ZERO_SECRET_CHAT_ID + (- push_bit 31 1) \<le> i \<and> i \<noteq> ZERO_SECRET_CHAT_ID then Dialog_secret_chat
           else Dialog_none
      else if 0 < i \<and> i \<le> MAX_USER_ID then Dialog_user
      else Dialog_none)"

definition dialog_id_valid :: "dialog_id \<Rightarrow> bool" where
  "dialog_id_valid d = (dialog_get_type d \<noteq> Dialog_none)"

definition get_user_id :: "dialog_id \<Rightarrow> td_error + user_id" where
  "get_user_id d = check_r (dialog_get_type d = Dialog_user) (UserId (dialog_value d))"

definition get_chat_id :: "dialog_id \<Rightarrow> td_error + chat_id" where
  "get_chat_id d = check_r (dialog_get_type d = Dialog_chat) (ChatId (- dialog_value d))"

definition get_channel_id :: "dialog_id \<Rightarrow> td_error + channel_id" where
  "get_channel_id d = check_r (dialog_get_type d = Dialog_channel) (ChannelId (ZERO_CHANNEL_ID - dialog_value d))"

definition get_secret_chat_id :: "dialog_id \<Rightarrow> td_error + secret_chat_id" where
  "get_secret_chat_id d =
     check_r (dialog_get_type d = Dialog_secret_chat)
       (SecretChatId (signed_take_bit 31 (dialog_value d - ZERO_SECRET_CHAT_ID)))"

definition dialog_of_user :: "user_id \<Rightarrow> dialog_id" where
  "dialog_of_user u = DialogId (if user_id_valid u then user_value u else 0)"

definition dialog_of_chat :: "chat_id \<Rightarrow> dialog_id" where
  "dialog_of_chat c = DialogId (if chat_id_valid c then - chat_value c else 0)"

definition dialog_of_channel :: "channel_id \<Rightarrow> dialog_id" where
  "dialog_of_channel c = DialogId (if channel_id_valid c then ZERO_CHANNEL_ID - channel_value c else 0)"

definition dialog_of_secret_chat :: "secret_chat_id \<Rightarrow> dialog_id" where
  "dialog_of_secret_chat s = DialogId (if secret_chat_id_valid s then ZERO_SECRET_CHAT_ID + secret_chat_value s else 0)"

section \<open>Objects of the Telegram API\<close>

datatype peer = Peer_user int | Peer_chat int | Peer_channel int

datatype dialog_peer = Dialog_peer "peer option" | Dialog_peer_folder

text \<open>The two fields \<^verbatim>\<open>id_\<close> and \<^verbatim>\<open>peer_id_\<close>, and \<^verbatim>\<open>date_\<close> between them where there is one.\<close>

datatype api_message =
    Api_message_empty int "peer option"
  | Api_message int int "peer option"
  | Api_message_service int int "peer option"

definition get_peer_id :: "peer option \<Rightarrow> td_error + int" where
  "get_peer_id p =
     (case p of
        None \<Rightarrow> Inl Check_failed
      | Some (Peer_user i) \<Rightarrow>
          let user_id = UserId i in if \<not> user_id_valid user_id then Inr 0 else Inr (user_value user_id)
      | Some (Peer_chat i) \<Rightarrow>
          let chat_id = ChatId i in if \<not> chat_id_valid chat_id then Inr 0 else Inr (- chat_value chat_id)
      | Some (Peer_channel i) \<Rightarrow>
          let channel_id = ChannelId i in
          if \<not> channel_id_valid channel_id then Inr 0 else Inr (ZERO_CHANNEL_ID - channel_value channel_id))"

definition dialog_of_peer :: "peer option \<Rightarrow> td_error + dialog_id" where
  "dialog_of_peer p = bind_r (get_peer_id p) (\<lambda>i. Inr (DialogId i))"

definition dialog_of_dialog_peer :: "dialog_peer option \<Rightarrow> td_error + dialog_id" where
  "dialog_of_dialog_peer p =
     (case p of
        None \<Rightarrow> Inl Check_failed
      | Some (Dialog_peer q) \<Rightarrow> bind_r (get_peer_id q) (\<lambda>i. Inr (DialogId i))
      | Some Dialog_peer_folder \<Rightarrow> Inr (DialogId 0))"

definition get_message_dialog_id :: "api_message option \<Rightarrow> td_error + dialog_id" where
  "get_message_dialog_id m =
     (case m of
        None \<Rightarrow> Inl Check_failed
      | Some (Api_message_empty _ p) \<Rightarrow> if p = None then Inr (DialogId 0) else dialog_of_peer p
      | Some (Api_message _ _ p) \<Rightarrow> dialog_of_peer p
      | Some (Api_message_service _ _ p) \<Rightarrow> dialog_of_peer p)"

definition get_dialog_ids :: "int list \<Rightarrow> dialog_id list" where
  "get_dialog_ids chat_ids = map DialogId chat_ids"

definition remove_secret_chat_dialog_ids :: "dialog_id list \<Rightarrow> dialog_id list" where
  "remove_secret_chat_dialog_ids dialog_ids = filter (\<lambda>d. \<not> dialog_get_type d = Dialog_secret_chat) dialog_ids"

definition dialog_id_store :: "dialog_id \<Rightarrow> bytes \<Rightarrow> bytes" where
  "dialog_id_store d = store_id (dialog_value d)"

definition dialog_id_parse :: "tl_parser \<Rightarrow> td_error + dialog_id \<times> tl_parser" where
  "dialog_id_parse p = bind_r (parse_id p) (\<lambda>(i, p). Inr (DialogId i, p))"

end
