(* ===== verification/Td_Message_Ids.thy ===== *)
theory Td_Message_Ids
  imports Td_Ids
begin

unbundle bit_operations_syntax

text \<open>
  Message identifiers (\<^verbatim>\<open>src/lib/td/td/telegram/MessageId.h\<close>, \<^verbatim>\<open>MessageId.cpp\<close>, \<^verbatim>\<open>ServerMessageId.h\<close>,
  \<^verbatim>\<open>ScheduledServerMessageId.h\<close>). One number holds the identifier the server gave, or the date and number of
  a scheduled message, and in its low bits the type, so that the order of the numbers is the
  order of the messages in a chat.

  An \<^verbatim>\<open>int64\<close> or \<^verbatim>\<open>int32\<close> is the integer it holds, the bit operations are those of two's complement. Sums
  that could leave the range of their type end in \<open>Overflow_error\<close>.
\<close>

section \<open>Layout\<close>

datatype server_message_id = ServerMessageId (server_message_value: int)
datatype scheduled_server_message_id = ScheduledServerMessageId (scheduled_message_value: int)

definition server_message_id_valid :: "server_message_id \<Rightarrow> bool" where
  "server_message_id_valid s = (server_message_value s > 0)"

definition scheduled_server_message_id_valid :: "scheduled_server_message_id \<Rightarrow> bool" where
  "scheduled_server_message_id_valid s = (scheduled_message_value s > 0 \<and> scheduled_message_value s < push_bit 18 1)"

datatype message_type = Message_none | Message_server | Message_yet_unsent | Message_local

fun message_type_value :: "message_type \<Rightarrow> int" where
  "message_type_value Message_none = 0"
| "message_type_value Message_server = 1"
| "message_type_value Message_yet_unsent = 2"
| "message_type_value Message_local = 3"

datatype message_id = MessageId (message_value: int)

definition SERVER_ID_SHIFT :: nat where "SERVER_ID_SHIFT = 20"
definition SHORT_TYPE_MASK :: int where "SHORT_TYPE_MASK = push_bit 2 1 - 1"
definition TYPE_MASK :: int where "TYPE_MASK = push_bit 3 1 - 1"
definition FULL_TYPE_MASK :: int where "FULL_TYPE_MASK = push_bit SERVER_ID_SHIFT 1 - 1"
definition SCHEDULED_MASK :: int where "SCHEDULED_MASK = 4"
definition TYPE_YET_UNSENT :: int where "TYPE_YET_UNSENT = 1"
definition TYPE_LOCAL :: int where "TYPE_LOCAL = 2"

definition int32_r :: "int \<Rightarrow> td_error + int" where
  "int32_r x = (if - (2 ^ 31) \<le> x \<and> x < 2 ^ 31 then Inr x else Inl Overflow_error)"

definition int64_r :: "int \<Rightarrow> td_error + int" where
  "int64_r x = (if - (2 ^ 63) \<le> x \<and> x < 2 ^ 63 then Inr x else Inl Overflow_error)"

text \<open>\<^verbatim>\<open>narrow_cast<int32>\<close> of an \<^verbatim>\<open>int64\<close>.\<close>

definition narrow_int32 :: "int \<Rightarrow> td_error + int" where
  "narrow_int32 x = (let r = signed_take_bit 31 x in check_r (r = x) r)"

definition message_of_server :: "server_message_id \<Rightarrow> message_id" where
  "message_of_server s = MessageId (push_bit SERVER_ID_SHIFT (server_message_value s))"

definition message_of_scheduled :: "scheduled_server_message_id \<Rightarrow> int \<Rightarrow> bool \<Rightarrow> message_id" where
  "message_of_scheduled s send_date force =
     (if send_date \<le> push_bit 30 1 then MessageId 0
      else if \<not> scheduled_server_message_id_valid s \<and> \<not> force then MessageId 0
      else MessageId (push_bit 21 (send_date - push_bit 30 1) OR push_bit 3 (scheduled_message_value s) OR SCHEDULED_MASK))"

definition min_message_id :: message_id where
  "min_message_id = MessageId TYPE_YET_UNSENT"

definition max_message_id :: message_id where
  "max_message_id = MessageId (push_bit SERVER_ID_SHIFT (2 ^ 31 - 1))"

section \<open>Tests\<close>

definition is_scheduled :: "message_id \<Rightarrow> bool" where
  "is_scheduled m = (message_value m AND SCHEDULED_MASK \<noteq> 0)"

definition message_id_valid :: "message_id \<Rightarrow> bool" where
  "message_id_valid m =
     (let i = message_value m in
      if i \<le> 0 \<or> i > message_value max_message_id then False
      else if i AND FULL_TYPE_MASK = 0 then True
      else let t = i AND TYPE_MASK in t = TYPE_YET_UNSENT \<or> t = TYPE_LOCAL)"

definition message_id_valid_scheduled :: "message_id \<Rightarrow> bool" where
  "message_id_valid_scheduled m =
     (let i = message_value m in
      if i \<le> 0 \<or> i > push_bit 51 1 then False
      else let t = i AND TYPE_MASK in
           t = SCHEDULED_MASK \<or> t = (SCHEDULED_MASK OR TYPE_YET_UNSENT) \<or> t = (SCHEDULED_MASK OR TYPE_LOCAL))"

definition message_id_valid_sponsored :: "message_id \<Rightarrow> bool" where
  "message_id_valid_sponsored m =
     (let i = message_value m in
      if i \<le> message_value max_message_id \<or> i > push_bit 51 1 then False
      else let t = i AND TYPE_MASK in t = TYPE_LOCAL)"

definition message_get_type :: "message_id \<Rightarrow> message_type" where
  "message_get_type m =
     (let i = message_value m in
      if i \<le> 0 \<or> i > push_bit 51 1 then Message_none
      else if is_scheduled m
      then let t = i AND TYPE_MASK in
           if t = (SCHEDULED_MASK OR TYPE_YET_UNSENT) then Message_yet_unsent
           else if t = (SCHEDULED_MASK OR TYPE_LOCAL) then Message_local
           else if t = SCHEDULED_MASK then Message_server
           else Message_none
      else if i AND FULL_TYPE_MASK = 0 then Message_server
      else let t = i AND TYPE_MASK in
           if t = TYPE_YET_UNSENT then Message_yet_unsent
           else if t = TYPE_LOCAL then Message_local
           else Message_none)"

definition is_yet_unsent :: "message_id \<Rightarrow> td_error + bool" where
  "is_yet_unsent m =
     check_r (message_id_valid m \<or> is_scheduled m) (message_value m AND SHORT_TYPE_MASK = TYPE_YET_UNSENT)"

definition is_local :: "message_id \<Rightarrow> td_error + bool" where
  "is_local m =
     check_r (message_id_valid m \<or> is_scheduled m) (message_value m AND SHORT_TYPE_MASK = TYPE_LOCAL)"

definition is_server :: "message_id \<Rightarrow> td_error + bool" where
  "is_server m = check_r (message_id_valid m) (message_value m AND FULL_TYPE_MASK = 0)"

definition is_scheduled_server :: "message_id \<Rightarrow> td_error + bool" where
  "is_scheduled_server m = check_r (message_id_valid_scheduled m) (message_value m AND SHORT_TYPE_MASK = 0)"

definition is_any_server :: "message_id \<Rightarrow> td_error + bool" where
  "is_any_server m = (if is_scheduled m then is_scheduled_server m else is_server m)"

section \<open>Parts\<close>

definition get_server_message_id_force :: "message_id \<Rightarrow> td_error + server_message_id" where
  "get_server_message_id_force m =
     bind_r (check_r (\<not> is_scheduled m) ()) (\<lambda>_.
     bind_r (narrow_int32 (drop_bit SERVER_ID_SHIFT (message_value m))) (\<lambda>x. Inr (ServerMessageId x)))"

definition get_scheduled_server_message_id_force :: "message_id \<Rightarrow> td_error + scheduled_server_message_id" where
  "get_scheduled_server_message_id_force m =
     check_r (is_scheduled m)
       (ScheduledServerMessageId (signed_take_bit 31 (drop_bit 3 (message_value m) AND (push_bit 18 1 - 1))))"

text \<open>The right operand of \<^verbatim>\<open>||\<close> is evaluated only for a number other than zero.\<close>

definition get_server_message_id :: "message_id \<Rightarrow> td_error + server_message_id" where
  "get_server_message_id m =
     bind_r (if message_value m = 0 then Inr True else is_server m) (\<lambda>b.
     bind_r (check_r b ()) (\<lambda>_. get_server_message_id_force m))"

definition get_prev_server_message_id :: "message_id \<Rightarrow> td_error + message_id" where
  "get_prev_server_message_id m =
     check_r (\<not> is_scheduled m) (MessageId (message_value m AND NOT FULL_TYPE_MASK))"

definition get_next_server_message_id :: "message_id \<Rightarrow> td_error + message_id" where
  "get_next_server_message_id m =
     bind_r (check_r (\<not> is_scheduled m) ()) (\<lambda>_.
     bind_r (int64_r (message_value m + FULL_TYPE_MASK)) (\<lambda>x. Inr (MessageId (x AND NOT FULL_TYPE_MASK))))"

definition get_scheduled_server_message_id :: "message_id \<Rightarrow> td_error + scheduled_server_message_id" where
  "get_scheduled_server_message_id m =
     bind_r (is_scheduled_server m) (\<lambda>b.
     bind_r (check_r b ()) (\<lambda>_. get_scheduled_server_message_id_force m))"

definition get_scheduled_message_date :: "message_id \<Rightarrow> td_error + int" where
  "get_scheduled_message_date m =
     bind_r (check_r (message_id_valid_scheduled m) ()) (\<lambda>_.
     int32_r (signed_take_bit 31 (drop_bit 21 (message_value m)) + push_bit 30 1))"

section \<open>The next message\<close>

text \<open>\<^verbatim>\<open>UNREACHABLE\<close> ends the process.\<close>

definition next_scheduled :: "message_type \<Rightarrow> message_id \<Rightarrow> td_error + message_id" where
  "next_scheduled t m =
     bind_r (check_r (message_id_valid_scheduled m) ()) (\<lambda>_.
     let i = message_value m; current_type = message_get_type m in
     if message_type_value current_type < message_type_value t
     then Inr (MessageId (i - message_type_value current_type + message_type_value t))
     else
       let base_id = (i AND NOT TYPE_MASK) + TYPE_MASK + 1 + SCHEDULED_MASK in
       case t of
         Message_server \<Rightarrow> Inr (MessageId base_id)
       | Message_yet_unsent \<Rightarrow> Inr (MessageId (base_id + TYPE_YET_UNSENT))
       | Message_local \<Rightarrow> Inr (MessageId (base_id + TYPE_LOCAL))
       | Message_none \<Rightarrow> Inl Check_failed)"

definition get_next_message_id :: "message_type \<Rightarrow> message_id \<Rightarrow> td_error + message_id" where
  "get_next_message_id t m =
     (if is_scheduled m then next_scheduled t m
      else
        case t of
          Message_server \<Rightarrow>
            bind_r (is_server m) (\<lambda>b.
            if b then
              bind_r (get_server_message_id m) (\<lambda>s.
              bind_r (int32_r (server_message_value s + 1)) (\<lambda>x. Inr (message_of_server (ServerMessageId x))))
            else get_next_server_message_id m)
        | Message_yet_unsent \<Rightarrow>
            bind_r (int64_r (message_value m + TYPE_MASK + 1)) (\<lambda>x.
            Inr (MessageId (((x - TYPE_YET_UNSENT) AND NOT TYPE_MASK) + TYPE_YET_UNSENT)))
        | Message_local \<Rightarrow>
            bind_r (int64_r (message_value m + TYPE_MASK + 1)) (\<lambda>x.
            Inr (MessageId (((x - TYPE_LOCAL) AND NOT TYPE_MASK) + TYPE_LOCAL)))
        | Message_none \<Rightarrow> Inl Check_failed)"

section \<open>Order and lists\<close>

definition message_less :: "message_id \<Rightarrow> message_id \<Rightarrow> td_error + bool" where
  "message_less l r = check_r (is_scheduled l = is_scheduled r) (message_value l < message_value r)"

definition message_greater :: "message_id \<Rightarrow> message_id \<Rightarrow> td_error + bool" where
  "message_greater l r = check_r (is_scheduled l = is_scheduled r) (message_value l > message_value r)"

definition message_less_eq :: "message_id \<Rightarrow> message_id \<Rightarrow> td_error + bool" where
  "message_less_eq l r = check_r (is_scheduled l = is_scheduled r) (message_value l \<le> message_value r)"

definition message_greater_eq :: "message_id \<Rightarrow> message_id \<Rightarrow> td_error + bool" where
  "message_greater_eq l r = check_r (is_scheduled l = is_scheduled r) (message_value l \<ge> message_value r)"

definition get_message_id :: "api_message option \<Rightarrow> bool \<Rightarrow> td_error + message_id" where
  "get_message_id m scheduled =
     (case m of
        None \<Rightarrow> Inl Check_failed
      | Some (Api_message_empty i _) \<Rightarrow> Inr (if scheduled then MessageId 0 else message_of_server (ServerMessageId i))
      | Some (Api_message i date _) \<Rightarrow>
          Inr (if scheduled then message_of_scheduled (ScheduledServerMessageId i) date False
               else message_of_server (ServerMessageId i))
      | Some (Api_message_service i date _) \<Rightarrow>
          Inr (if scheduled then message_of_scheduled (ScheduledServerMessageId i) date False
               else message_of_server (ServerMessageId i)))"

definition get_max_message_id :: "api_message option list \<Rightarrow> td_error + message_id" where
  "get_max_message_id messages =
     fold_r (\<lambda>message max_id.
       bind_r (get_message_id message False) (\<lambda>message_id.
       bind_r (message_greater message_id max_id) (\<lambda>b. Inr (if b then message_id else max_id)))) messages (MessageId 0)"

definition get_message_ids :: "int list \<Rightarrow> message_id list" where
  "get_message_ids input_message_ids = map MessageId input_message_ids"

definition get_server_message_ids :: "message_id list \<Rightarrow> td_error + int list" where
  "get_server_message_ids message_ids =
     fold_r (\<lambda>m res. bind_r (get_server_message_id m) (\<lambda>s. Inr (res @ [server_message_value s]))) message_ids []"

definition get_scheduled_server_message_ids :: "message_id list \<Rightarrow> td_error + int list" where
  "get_scheduled_server_message_ids message_ids =
     fold_r (\<lambda>m res. bind_r (get_scheduled_server_message_id m) (\<lambda>s. Inr (res @ [scheduled_message_value s]))) message_ids []"

definition message_id_store :: "message_id \<Rightarrow> bytes \<Rightarrow> bytes" where
  "message_id_store m = store_id (message_value m)"

definition message_id_parse :: "tl_parser \<Rightarrow> td_error + message_id \<times> tl_parser" where
  "message_id_parse p = bind_r (parse_id p) (\<lambda>(i, p). Inr (MessageId i, p))"

end
