(* ===== verification/Td_Ids_Props.thy ===== *)
theory Td_Ids_Props
  imports Td_Ids Td_Tl_Props
begin

text \<open>
  The four kinds of identifiers occupy disjoint ranges of the dialog identifiers and are recovered from
  them; stored identifiers are parsed back.
\<close>

section \<open>Ranges\<close>

named_theorems id_simps

lemmas [id_simps] = MAX_USER_ID_def MAX_CHAT_ID_def MAX_CHANNEL_ID_def ZERO_CHANNEL_ID_def ZERO_SECRET_CHAT_ID_def
  user_id_valid_def chat_id_valid_def channel_id_valid_def secret_chat_id_valid_def

lemma dialog_type_iff:
  "dialog_get_type (DialogId i) = Dialog_user \<longleftrightarrow> i \<in> {1..2 ^ 40 - 1}"
  "dialog_get_type (DialogId i) = Dialog_chat \<longleftrightarrow> i \<in> {- 999999999999..- 1}"
  "dialog_get_type (DialogId i) = Dialog_channel \<longleftrightarrow> i \<in> {- 1997852516352..- 1000000000001}"
  "dialog_get_type (DialogId i) = Dialog_secret_chat \<longleftrightarrow>
     i \<in> {- 2002147483648..- 1997852516353} - {- 2000000000000} \<or> i = ZERO_CHANNEL_ID"
  by (auto simp: dialog_get_type_def Let_def id_simps)

lemma dialog_of_iff:
  "(\<exists>u. user_id_valid u \<and> DialogId i = dialog_of_user u) \<longleftrightarrow> i \<in> {1..2 ^ 40 - 1}"
  "(\<exists>c. chat_id_valid c \<and> DialogId i = dialog_of_chat c) \<longleftrightarrow> i \<in> {- 999999999999..- 1}"
  "(\<exists>c. channel_id_valid c \<and> DialogId i = dialog_of_channel c) \<longleftrightarrow> i \<in> {- 1997852516351..- 1000000000001}"
  "(\<exists>s. secret_chat_id_valid s \<and> secret_chat_value s \<in> {- (2 ^ 31)..2 ^ 31 - 1} \<and> DialogId i = dialog_of_secret_chat s) \<longleftrightarrow>
     i \<in> {- 2002147483648..- 1997852516353} - {- 2000000000000}"
proof -
  show "(\<exists>u. user_id_valid u \<and> DialogId i = dialog_of_user u) \<longleftrightarrow> i \<in> {1..2 ^ 40 - 1}"
    by (auto simp: dialog_of_user_def id_simps intro!: exI[of _ "UserId i"])
  show "(\<exists>c. chat_id_valid c \<and> DialogId i = dialog_of_chat c) \<longleftrightarrow> i \<in> {- 999999999999..- 1}"
    by (auto simp: dialog_of_chat_def id_simps intro!: exI[of _ "ChatId (- i)"])
  show "(\<exists>c. channel_id_valid c \<and> DialogId i = dialog_of_channel c) \<longleftrightarrow> i \<in> {- 1997852516351..- 1000000000001}"
    by (auto simp: dialog_of_channel_def id_simps intro!: exI[of _ "ChannelId (- 1000000000000 - i)"])
  show "(\<exists>s. secret_chat_id_valid s \<and> secret_chat_value s \<in> {- (2 ^ 31)..2 ^ 31 - 1} \<and> DialogId i = dialog_of_secret_chat s) \<longleftrightarrow>
     i \<in> {- 2002147483648..- 1997852516353} - {- 2000000000000}"
    by (auto simp: dialog_of_secret_chat_def id_simps intro!: exI[of _ "SecretChatId (i + 2000000000000)"])
qed

lemma int32_id: "x \<in> {- (2 ^ 31)..2 ^ 31 - 1} \<Longrightarrow> signed_take_bit 31 x = (x :: int)"
  by (simp add: signed_take_bit_int_eq_self_iff)

section \<open>Stored identifiers\<close>

lemma parse_stored_id:
  assumes "i \<in> {- (2 ^ 63)..2 ^ 63 - 1}" "reading p (store_id i [] @ rest)"
  shows "\<exists>q. parse_id p = Inr (i, q) \<and> reading q rest"
proof -
  have "\<And>buf. store_item (Tl_long (word_of_int i)) buf = Inr (buf @ store_id i [])"
    by (simp add: store_id_def store_long_def store_binary_def)
  from reading_item[OF _ this assms(2)] obtain q where q: "fetch_long p = Inr (word_of_int i, q)" "reading q rest"
    by (auto simp: storable_def bind_r_eq_Inr)
  have "sint (word_of_int i :: u64) = i" using assms(1) by (simp add: signed_of_int signed_take_bit_int_eq_self_iff)
  then show ?thesis using q by (simp add: parse_id_def)
qed

theorem stored_ids_parsed:
  assumes "i \<in> {- (2 ^ 63)..2 ^ 63 - 1}" "version \<ge> Support64BitIds"
  shows "reading p (dialog_id_store (DialogId i) [] @ rest) \<Longrightarrow> \<exists>q. dialog_id_parse p = Inr (DialogId i, q) \<and> reading q rest"
    and "reading p (user_id_store (UserId i) [] @ rest) \<Longrightarrow> \<exists>q. user_id_parse version p = Inr (UserId i, q) \<and> reading q rest"
    and "reading p (chat_id_store (ChatId i) [] @ rest) \<Longrightarrow> \<exists>q. chat_id_parse version p = Inr (ChatId i, q) \<and> reading q rest"
    and "reading p (channel_id_store (ChannelId i) [] @ rest) \<Longrightarrow> \<exists>q. channel_id_parse version p = Inr (ChannelId i, q) \<and> reading q rest"
  using parse_stored_id[OF assms(1), of p rest] assms(2)
  by (auto simp: dialog_id_store_def user_id_store_def chat_id_store_def channel_id_store_def dialog_id_parse_def
      user_id_parse_def chat_id_parse_def channel_id_parse_def parse_id_of_version_def)

section \<open>Objects of the Telegram API\<close>

text \<open>A peer is null only by an error of the caller; an invalid peer gives the invalid dialog \<open>0\<close>.\<close>

theorem dialog_of_peer_valid:
  "dialog_of_peer p = Inl e \<longleftrightarrow> p = None \<and> e = Check_failed"
  "dialog_of_peer p = Inr d \<Longrightarrow> dialog_id_valid d \<or> d = DialogId 0"
  by (auto simp: dialog_of_peer_def get_peer_id_def Let_def bind_r_eq_Inr bind_r_eq_Inl dialog_id_valid_def dialog_get_type_def
      id_simps split: option.splits peer.splits if_splits)

theorem message_dialog_valid:
  "get_message_dialog_id (Some m) = Inl e \<longleftrightarrow> e = Check_failed \<and> (\<exists>i d. m = Api_message i d None \<or> m = Api_message_service i d None)"
  "get_message_dialog_id (Some m) = Inr d \<Longrightarrow> dialog_id_valid d \<or> d = DialogId 0"
  using dialog_of_peer_valid by (cases m; force simp: get_message_dialog_id_def split: if_splits)+

section \<open>Properties\<close>

text \<open>C37: A dialog identifier has the type of a user, basic group, channel or secret chat exactly when
  it is the identifier of a valid user, group, channel or secret chat, which the getter of the type
  gives back. There are two exceptions: the least number of the channel range has the type of a channel,
  but the channel identifier it stands for is not valid; and the zero of the channel range, which the
  test for channels leaves out, has the type of a secret chat.\<close>

theorem dialog_identifiers:
  "(dialog_get_type d = Dialog_user \<longleftrightarrow> (\<exists>u. user_id_valid u \<and> d = dialog_of_user u)) \<and>
   (dialog_get_type d = Dialog_chat \<longleftrightarrow> (\<exists>c. chat_id_valid c \<and> d = dialog_of_chat c)) \<and>
   (dialog_get_type d = Dialog_channel \<longleftrightarrow>
      (\<exists>c. channel_id_valid c \<and> d = dialog_of_channel c) \<or> d = DialogId (ZERO_CHANNEL_ID - MAX_CHANNEL_ID)) \<and>
   (dialog_get_type d = Dialog_secret_chat \<longleftrightarrow>
      (\<exists>s. secret_chat_id_valid s \<and> secret_chat_value s \<in> {- (2 ^ 31)..2 ^ 31 - 1} \<and> d = dialog_of_secret_chat s) \<or>
      d = DialogId ZERO_CHANNEL_ID) \<and>
   (user_id_valid u \<longrightarrow> get_user_id (dialog_of_user u) = Inr u) \<and>
   (chat_id_valid c \<longrightarrow> get_chat_id (dialog_of_chat c) = Inr c) \<and>
   (channel_id_valid ch \<longrightarrow> get_channel_id (dialog_of_channel ch) = Inr ch) \<and>
   (secret_chat_id_valid s \<and> secret_chat_value s \<in> {- (2 ^ 31)..2 ^ 31 - 1} \<longrightarrow>
      get_secret_chat_id (dialog_of_secret_chat s) = Inr s)"
proof -
  obtain i where d: "d = DialogId i" by (cases d)
  have getters: "user_id_valid u \<Longrightarrow> get_user_id (dialog_of_user u) = Inr u"
    "chat_id_valid c \<Longrightarrow> get_chat_id (dialog_of_chat c) = Inr c"
    "channel_id_valid ch \<Longrightarrow> get_channel_id (dialog_of_channel ch) = Inr ch"
    by (cases u, simp add: get_user_id_def dialog_of_user_def dialog_type_iff id_simps)
      (cases c, simp add: get_chat_id_def dialog_of_chat_def dialog_type_iff id_simps,
        cases ch, simp add: get_channel_id_def dialog_of_channel_def dialog_type_iff id_simps)
  have secret: "get_secret_chat_id (dialog_of_secret_chat s) = Inr s"
    if "secret_chat_id_valid s" "secret_chat_value s \<in> {- (2 ^ 31)..2 ^ 31 - 1}"
    using that int32_id[OF that(2)]
    by (cases s) (simp add: get_secret_chat_id_def dialog_of_secret_chat_def dialog_type_iff id_simps)
  have "i \<in> {- 1997852516352..- 1000000000001} \<longleftrightarrow> i \<in> {- 1997852516351..- 1000000000001} \<or> i = ZERO_CHANNEL_ID - MAX_CHANNEL_ID"
    by (auto simp: id_simps)
  then show ?thesis
    unfolding d dialog_type_iff dialog_of_iff using getters secret by simp
qed

theorem dialog_identifiers_witness:
  "get_channel_id (dialog_of_channel (ChannelId 42)) = Inr (ChannelId 42) \<and>
   get_secret_chat_id (dialog_of_secret_chat (SecretChatId (- 7))) = Inr (SecretChatId (- 7))"
  using dialog_identifiers[of "DialogId 0" "UserId 1" "ChatId 1" "ChannelId 42" "SecretChatId (- 7)"]
  by (simp add: id_simps)

end
