(* ===== verification/Td_Message_Ids_Props.thy ===== *)
theory Td_Message_Ids_Props
  imports Td_Message_Ids Td_Ids_Props
begin

unbundle bit_operations_syntax

text \<open>
  The layout of message identifiers in numbers: the parts are recovered, the order is that of the parts,
  and the next identifier of a type is the least greater one.
\<close>

section \<open>Masks as remainders\<close>

lemma and_not_mask: "i AND NOT (mask n) = i - i mod 2 ^ n" for i :: int
proof -
  have "i AND NOT (mask n) = push_bit n (drop_bit n i)" by (rule bit_eqI) (auto simp: bit_simps)
  then show ?thesis by (simp add: push_bit_eq_mult drop_bit_eq_div minus_mod_eq_div_mult)
qed

lemma masks_eq: "TYPE_MASK = mask 3" "SHORT_TYPE_MASK = mask 2" "FULL_TYPE_MASK = mask 20"
  by (simp_all add: TYPE_MASK_def SHORT_TYPE_MASK_def FULL_TYPE_MASK_def SERVER_ID_SHIFT_def mask_eq_exp_minus_1)

lemma and_masks [simp]:
  "i AND TYPE_MASK = i mod 8" "i AND SHORT_TYPE_MASK = i mod 4" "i AND FULL_TYPE_MASK = i mod 1048576"
  "i AND NOT TYPE_MASK = i - i mod 8" "i AND NOT FULL_TYPE_MASK = i - i mod 1048576"
  by (simp_all add: masks_eq and_not_mask take_bit_eq_mod flip: take_bit_eq_mask)

lemma mask7: "a + TYPE_MASK + 1 = a + 8"
  by (simp add: masks_eq mask_eq_exp_minus_1)

lemma scheduled_mask: "is_scheduled m \<longleftrightarrow> 4 \<le> message_value m mod 8"
proof -
  let ?i = "message_value m"
  have "?i AND 2 ^ 2 \<noteq> 0 \<longleftrightarrow> odd (?i div 2 ^ 2)" by (simp only: and_exp_eq_0_iff_not_bit bit_iff_odd not_not)
  moreover have "odd (?i div 2 ^ 2) \<longleftrightarrow> 4 \<le> ?i mod 8" by simp presburger
  ultimately show ?thesis by (simp add: is_scheduled_def SCHEDULED_MASK_def)
qed

lemma type_constants [simp]:
  "SCHEDULED_MASK = 4" "TYPE_YET_UNSENT = 1" "TYPE_LOCAL = 2" "(4 OR 1 :: int) = 5" "(4 OR 2 :: int) = 6"
  "message_value max_message_id = 2 ^ 51 - 2 ^ 20"
  by (simp_all add: SCHEDULED_MASK_def TYPE_YET_UNSENT_def TYPE_LOCAL_def max_message_id_def SERVER_ID_SHIFT_def push_bit_eq_mult)

lemma valid_iff:
  "message_id_valid (MessageId i) \<longleftrightarrow> 0 < i \<and> i \<le> 2 ^ 51 - 2 ^ 20 \<and> (i mod 1048576 = 0 \<or> i mod 8 = 1 \<or> i mod 8 = 2)"
  "message_id_valid_scheduled (MessageId i) \<longleftrightarrow> 0 < i \<and> i \<le> 2 ^ 51 \<and> i mod 8 \<in> {4, 5, 6}"
  by (auto simp: message_id_valid_def message_id_valid_scheduled_def Let_def)

lemma full_mod: "i mod 1048576 = 0 \<Longrightarrow> i mod 8 = 0" for i :: int
  using dvd_trans[of "8 :: int" 1048576 i] by (simp add: mod_eq_0_iff_dvd)

lemma valid_not_scheduled: "message_id_valid m \<Longrightarrow> \<not> is_scheduled m"
  by (cases m) (auto simp: valid_iff scheduled_mask dest: full_mod)

lemma valid_scheduled_is: "message_id_valid_scheduled m \<Longrightarrow> is_scheduled m"
  by (cases m) (auto simp: valid_iff scheduled_mask)

text \<open>Up to the greatest identifier of a message, having a type is being valid.\<close>

theorem message_type_valid:
  assumes "message_value m \<le> message_value max_message_id"
  shows "message_get_type m \<noteq> Message_none \<longleftrightarrow> message_id_valid m \<or> message_id_valid_scheduled m"
proof -
  obtain i where m: "m = MessageId i" by (cases m)
  show ?thesis
    using assms full_mod[of i] by (auto simp: m message_get_type_def valid_iff scheduled_mask Let_def)
qed

section \<open>Composition\<close>

lemma scheduled_value:
  assumes "0 < s" "s < 2 ^ 18" "2 ^ 30 < d"
  shows "message_of_scheduled (ScheduledServerMessageId s) d force = MessageId ((d - 2 ^ 30) * 2 ^ 21 + s * 8 + 4)"
proof -
  have "push_bit 3 s OR 4 = s * 8 + 4"
  proof -
    have "\<not> bit (push_bit 3 s) n \<or> \<not> bit (push_bit 2 1 :: int) n" for n
      by (simp only: bit_push_bit_iff bit_1_iff) auto
    from disjunctive_add[OF this] show ?thesis by (simp add: push_bit_eq_mult)
  qed
  moreover have "push_bit 21 (d - 2 ^ 30) OR (s * 8 + 4) = push_bit 21 (d - 2 ^ 30) + (s * 8 + 4)"
  proof (rule disjunctive_add[symmetric])
    have "take_bit 21 (s * 8 + 4) = s * 8 + 4" using assms(1,2) by (simp add: take_bit_int_eq_self)
    then have "\<not> bit (s * 8 + 4) n" if "21 \<le> n" for n using that by (metis bit_take_bit_iff not_le)
    then show "\<not> bit (push_bit 21 (d - 2 ^ 30)) n \<or> \<not> bit (s * 8 + 4) n" for n
      by (cases "21 \<le> n") (auto simp: bit_simps)
  qed
  ultimately show ?thesis
    using assms by (simp add: message_of_scheduled_def scheduled_server_message_id_valid_def or.assoc push_bit_eq_mult)
qed

section \<open>The least greater number of a residue\<close>

lemma least_of_residue:
  fixes i k r :: int
  assumes k: "0 < k" "0 \<le> r" "r < k" and x: "x = (i + k - r) - (i + k - r) mod k + r"
  shows "i < x" "x mod k = r" "i < y \<Longrightarrow> y mod k = r \<Longrightarrow> x \<le> y"
proof -
  let ?q = "(i + k - r) div k"
  have xq: "x = ?q * k + r" using x by (simp add: minus_mod_eq_div_mult)
  have "(i + k - r) mod k < k" using k(1) by (rule pos_mod_bound)
  then have "i - r < ?q * k" using div_mult_mod_eq[of "i + k - r" k] by linarith
  then show "i < x" using xq by linarith
  show "x mod k = r" using xq k by simp
  assume y: "i < y" "y mod k = r"
  have yq: "y = (y div k) * k + r" using div_mult_mod_eq[of y k] y(2) by simp
  have "0 \<le> (i + k - r) mod k" using k(1) by (rule pos_mod_sign)
  then have "?q * k \<le> i + k - r" using div_mult_mod_eq[of "i + k - r" k] by linarith
  moreover have "i + k - r < (y div k) * k + k" using yq y(1) by linarith
  ultimately have "?q * k < (y div k + 1) * k" by (simp add: distrib_right)
  then have "?q \<le> y div k" using k(1) by (simp add: mult_less_cancel_right)
  then have "?q * k \<le> (y div k) * k" using k(1) by (simp add: mult_right_mono)
  then show "x \<le> y" using xq yq by linarith
qed

text \<open>What the low bits of an identifier of a type are.\<close>

fun has_layout :: "message_type \<Rightarrow> bool \<Rightarrow> int \<Rightarrow> bool" where
  "has_layout Message_server False x = (x mod 1048576 = 0)"
| "has_layout Message_yet_unsent False x = (x mod 8 = 1)"
| "has_layout Message_local False x = (x mod 8 = 2)"
| "has_layout Message_server True x = (x mod 8 = 4)"
| "has_layout Message_yet_unsent True x = (x mod 8 = 5)"
| "has_layout Message_local True x = (x mod 8 = 6)"
| "has_layout Message_none _ x = False"

definition least_after :: "message_type \<Rightarrow> message_id \<Rightarrow> int \<Rightarrow> bool" where
  "least_after t m x =
     (message_value m < x \<and> has_layout t (is_scheduled m) x \<and>
      (\<forall>y. message_value m < y \<and> has_layout t (is_scheduled m) y \<longrightarrow> x \<le> y))"

lemma next_scheduled_least:
  assumes "message_id_valid_scheduled m" "t \<noteq> Message_none"
  shows "\<exists>x. next_scheduled t m = Inr (MessageId x) \<and> least_after t m x"
proof -
  obtain i where m: "m = MessageId i" by (cases m)
  have s: "is_scheduled m" using valid_scheduled_is[OF assms(1)] .
  have i: "0 < i" "i \<le> 2 ^ 51" using assms(1) by (simp_all add: m valid_iff)
  have c: "i mod 8 = 4 \<or> i mod 8 = 5 \<or> i mod 8 = 6" using assms(1) by (simp add: m valid_iff)
  have t: "t = Message_server \<or> t = Message_yet_unsent \<or> t = Message_local" using assms(2) by (cases t) auto
  have up: "j mod 8 = d \<Longrightarrow> i < j \<Longrightarrow> d < 8 \<Longrightarrow> (if i mod 8 < d then i - i mod 8 + d else i - i mod 8 + 8 + d) \<le> j"
    for j d :: int
  proof -
    assume j: "j mod 8 = d" "i < j" "d < 8"
    have e: "i = (i div 8) * 8 + i mod 8" "j = (j div 8) * 8 + d" "0 \<le> i mod 8"
      using j(1) div_mult_mod_eq[of i 8] div_mult_mod_eq[of j 8] by simp_all
    then have "i div 8 < j div 8 + 1" "i mod 8 \<ge> d \<Longrightarrow> i div 8 < j div 8" using j(2,3) by linarith+
    then have "i mod 8 < d \<Longrightarrow> i - i mod 8 + d \<le> j" "\<not> i mod 8 < d \<Longrightarrow> i - i mod 8 + 8 + d \<le> j" using e by linarith+
    then show ?thesis by presburger
  qed
  have low: "(i - i mod 8 + d) mod 8 = d" "(i - i mod 8 + 8 + d) mod 8 = d" if "0 \<le> d" "d < 8" for d :: int
  proof -
    have "i - i mod 8 + d = d + 8 * (i div 8)" "i - i mod 8 + 8 + d = d + 8 * (i div 8 + 1)"
      by (simp_all add: minus_mod_eq_mult_div)
    then show "(i - i mod 8 + d) mod 8 = d" "(i - i mod 8 + 8 + d) mod 8 = d"
      using that by (simp_all only: mod_mult_self2 mod_pos_pos_trivial)
  qed
  let ?x = "\<lambda>d. if i mod 8 < d then i - i mod 8 + d else i - i mod 8 + 8 + d"
  have less: "i < ?x d" if "0 \<le> d" "d < 8" for d using that by simp presburger
  have eq: "next_scheduled t m = Inr (MessageId (?x (3 + message_type_value t)))"
    using c t i assms(1) s
    by (elim disjE; simp add: next_scheduled_def m message_get_type_def Let_def mask7)
  have lay: "has_layout t True y \<longleftrightarrow> y mod 8 = 3 + message_type_value t" for y using t by auto
  have d: "0 \<le> 3 + message_type_value t" "3 + message_type_value t < 8" using t by auto
  have "least_after t m (?x (3 + message_type_value t))"
    using less[OF d] low[OF d] up[OF _ _ d(2)] s by (simp add: least_after_def m lay)
  then show ?thesis using eq by blast
qed

lemma next_ordinary_least:
  assumes v: "message_id_valid m" and t: "t \<noteq> Message_none" "t = Message_server \<Longrightarrow> m \<noteq> max_message_id"
  shows "\<exists>x. get_next_message_id t m = Inr (MessageId x) \<and> least_after t m x"
proof -
  obtain i where m: "m = MessageId i" by (cases m)
  have s: "\<not> is_scheduled m" using valid_not_scheduled[OF v] .
  have i: "0 < i" "i \<le> 2 ^ 51 - 2 ^ 20" using v by (simp_all add: m valid_iff)
  have small: "int64_r (i + TYPE_MASK + 1) = Inr (i + 8)" "int64_r (i + FULL_TYPE_MASK) = Inr (i + 1048575)"
    using i by (simp_all add: int64_r_def masks_eq mask_eq_exp_minus_1)
  consider (server) "t = Message_server" "i mod 1048576 = 0" | (other) "t = Message_server" "i mod 1048576 \<noteq> 0"
    | (unsent) "t = Message_yet_unsent" | (loc) "t = Message_local" using t(1) by (cases t) auto
  then show ?thesis
  proof cases
    case server
    define n where "n = i div 1048576"
    have n: "i = n * 1048576" "0 < n" "n \<le> 2147483647" using server(2) i by (auto simp: n_def)
    have "n \<noteq> 2147483647" using t(2)[OF server(1)] n(1) by (auto simp: m max_message_id_def SERVER_ID_SHIFT_def push_bit_eq_mult)
    then have fits: "int32_r (n + 1) = Inr (n + 1)" using n by (simp add: int32_r_def)
    have get: "get_server_message_id m = Inr (ServerMessageId n)"
      using v s server(2) i n int32_id[of n]
      by (simp add: get_server_message_id_def is_server_def get_server_message_id_force_def m drop_bit_eq_div SERVER_ID_SHIFT_def
          narrow_int32_def)
    have "get_next_message_id t m = Inr (MessageId ((n + 1) * 1048576))"
      using s v server get fits by (simp add: get_next_message_id_def is_server_def m message_of_server_def SERVER_ID_SHIFT_def push_bit_eq_mult)
    moreover have "least_after t m ((n + 1) * 1048576)"
      using least_of_residue[of 1048576 0 "(n + 1) * 1048576" i] n(1) s server(1) by (simp add: least_after_def m algebra_simps)
    ultimately show ?thesis by blast
  next
    case other
    let ?x = "(i + 1048575) - (i + 1048575) mod 1048576"
    have "get_next_message_id t m = Inr (MessageId ?x)"
      using s v other small(2) by (simp add: get_next_message_id_def is_server_def get_next_server_message_id_def m)
    moreover have "?x = (i + 1048576) - (i + 1048576) mod 1048576"
    proof -
      define n c where "n = i div 1048576" and "c = i mod 1048576"
      have c: "i = c + n * 1048576" "0 < c" "c < 1048576"
        using other(2) pos_mod_sign[of 1048576 i] pos_mod_bound[of 1048576 i] by (simp_all add: n_def c_def)
      have "(c - 1 + (n + 1) * 1048576) mod 1048576 = c - 1" "(c + (n + 1) * 1048576) mod 1048576 = c"
        using c(2,3) by (simp_all only: mod_mult_self1) simp_all
      moreover have "i + 1048575 = c - 1 + (n + 1) * 1048576" "i + 1048576 = c + (n + 1) * 1048576" using c(1) by simp_all
      ultimately have "(i + 1048575) mod 1048576 = c - 1" "(i + 1048576) mod 1048576 = c" by (simp_all only:)
      then show ?thesis by simp
    qed
    ultimately show ?thesis
      using least_of_residue[of 1048576 0 ?x i] s other(1) by (intro exI[of _ ?x]) (simp add: least_after_def m)
  next
    case unsent
    let ?x = "(i + 8 - 1) - (i + 8 - 1) mod 8 + 1"
    have "get_next_message_id t m = Inr (MessageId ?x)"
      using s unsent small(1) by (simp add: get_next_message_id_def m)
    then show ?thesis
      using least_of_residue[of 8 1 ?x i] s unsent by (intro exI[of _ ?x]) (simp add: least_after_def m)
  next
    case loc
    let ?x = "(i + 8 - 2) - (i + 8 - 2) mod 8 + 2"
    have "get_next_message_id t m = Inr (MessageId ?x)"
      using s loc small(1) by (simp add: get_next_message_id_def m)
    then show ?thesis
      using least_of_residue[of 8 2 ?x i] s loc by (intro exI[of _ ?x]) (simp add: least_after_def m)
  qed
qed

lemma layout_type:
  assumes "0 < x" "x \<le> 2 ^ 51" "has_layout t b x"
  shows "message_get_type (MessageId x) = t"
  using assms full_mod[of x]
  by (cases t; cases b) (auto simp: message_get_type_def scheduled_mask Let_def dest: full_mod)

section \<open>Both layouts\<close>

lemma server_value: "message_of_server (ServerMessageId k) = MessageId (k * 1048576)"
  by (simp add: message_of_server_def SERVER_ID_SHIFT_def push_bit_eq_mult)

lemma server_parts:
  assumes "n \<in> {1..2 ^ 31 - 1}"
  shows "message_id_valid (MessageId (n * 1048576))" "message_get_type (MessageId (n * 1048576)) = Message_server"
    "get_server_message_id (MessageId (n * 1048576)) = Inr (ServerMessageId n)"
proof -
  show v: "message_id_valid (MessageId (n * 1048576))" using assms by (simp add: valid_iff)
  show "message_get_type (MessageId (n * 1048576)) = Message_server"
    using assms by (intro layout_type[of _ _ False]) simp_all
  show "get_server_message_id (MessageId (n * 1048576)) = Inr (ServerMessageId n)"
    using assms v valid_not_scheduled[OF v] int32_id[of n]
    by (simp add: get_server_message_id_def is_server_def get_server_message_id_force_def drop_bit_eq_div SERVER_ID_SHIFT_def narrow_int32_def)
qed

text \<open>The identifier of scheduled message \<open>s\<close> of date \<open>d\<close>.\<close>

definition scheduled_number :: "int \<Rightarrow> int \<Rightarrow> int" where
  "scheduled_number s d = (d - 2 ^ 30) * 2 ^ 21 + s * 8 + 4"

lemma scheduled_number_mod: "scheduled_number s d mod 8 = 4"
proof -
  have "scheduled_number s d = 8 * ((d - 2 ^ 30) * 2 ^ 18 + s) + 4" by (simp add: scheduled_number_def)
  also have "\<dots> mod 8 = 4" by (simp only: mod_mult_self4) simp
  finally show ?thesis .
qed

lemma scheduled_number_div:
  assumes "s \<in> {1..2 ^ 18 - 1}"
  shows "scheduled_number s d div 8 = s + (d - 2 ^ 30) * 2 ^ 18" "scheduled_number s d div 2 ^ 21 = d - 2 ^ 30"
proof -
  have "scheduled_number s d = 4 + 8 * (s + (d - 2 ^ 30) * 2 ^ 18)" by (simp add: scheduled_number_def)
  then show "scheduled_number s d div 8 = s + (d - 2 ^ 30) * 2 ^ 18" by simp
  have "scheduled_number s d = (s * 8 + 4) + 2 ^ 21 * (d - 2 ^ 30)" by (simp add: scheduled_number_def)
  moreover have "(s * 8 + 4) div 2 ^ 21 = 0" using assms by (intro div_pos_pos_trivial) simp_all
  ultimately show "scheduled_number s d div 2 ^ 21 = d - 2 ^ 30" by (simp only: div_mult_self2) simp
qed

lemma scheduled_parts:
  assumes s: "s \<in> {1..2 ^ 18 - 1}" and d: "d \<in> {2 ^ 30 + 1..2 ^ 31 - 1}"
  defines "m \<equiv> MessageId (scheduled_number s d)"
  shows "message_id_valid_scheduled m" "message_get_type m = Message_server"
    "get_scheduled_server_message_id m = Inr (ScheduledServerMessageId s)" "get_scheduled_message_date m = Inr d"
proof -
  let ?v = "scheduled_number s d"
  have range: "0 < ?v" "?v \<le> 2 ^ 51" using s d by (auto simp: scheduled_number_def)
  show v: "message_id_valid_scheduled m" using range scheduled_number_mod[of s d] by (simp add: m_def valid_iff)
  show "message_get_type m = Message_server"
    using range scheduled_number_mod[of s d] unfolding m_def by (intro layout_type[of _ _ True]) simp_all
  have "drop_bit 3 ?v AND mask 18 = drop_bit 3 ?v mod 2 ^ 18"
    by (simp only: take_bit_eq_mod flip: take_bit_eq_mask)
  then have "drop_bit 3 ?v AND (push_bit 18 1 - 1) = ?v div 8 mod 2 ^ 18"
    by (simp add: mask_eq_exp_minus_1 drop_bit_eq_div)
  also have "\<dots> = s" unfolding scheduled_number_div(1)[OF s] using s by (simp only: mod_mult_self1) simp
  finally have low: "drop_bit 3 ?v AND (push_bit 18 1 - 1) = s" .
  have "?v mod 4 = 0" using scheduled_number_mod[of s d] mod_mod_cancel[of 4 8 ?v] by simp
  then have "is_scheduled_server m = Inr True" using v by (simp add: is_scheduled_server_def m_def)
  then show "get_scheduled_server_message_id m = Inr (ScheduledServerMessageId s)"
    using valid_scheduled_is[OF v] int32_id[of s] s low
    by (simp add: get_scheduled_server_message_id_def get_scheduled_server_message_id_force_def m_def)
  have "signed_take_bit 31 (drop_bit 21 ?v) = d - 2 ^ 30"
    unfolding drop_bit_eq_div scheduled_number_div(2)[OF s] using d by (intro int32_id) simp
  then show "get_scheduled_message_date m = Inr d"
    using v d by (simp add: get_scheduled_message_date_def m_def int32_r_def)
qed

lemma scheduled_order:
  assumes "s \<in> {1..2 ^ 18 - 1}" "s' \<in> {1..2 ^ 18 - 1}"
  shows "message_less (MessageId (scheduled_number s d)) (MessageId (scheduled_number s' d')) = Inr (d < d' \<or> d = d' \<and> s < s')"
proof -
  have "scheduled_number s d < scheduled_number s' d' \<longleftrightarrow> d < d' \<or> d = d' \<and> s < s'"
    using assms by (cases d d' rule: linorder_cases) (auto simp: scheduled_number_def)
  then show ?thesis by (simp add: message_less_def scheduled_mask scheduled_number_mod)
qed

section \<open>The order\<close>

instantiation message_id :: linorder
begin

definition less_eq_message_id :: "message_id \<Rightarrow> message_id \<Rightarrow> bool" where
  "l \<le> r \<longleftrightarrow> message_value l \<le> message_value r"

definition less_message_id :: "message_id \<Rightarrow> message_id \<Rightarrow> bool" where
  "l < r \<longleftrightarrow> message_value l < message_value r"

instance
  by standard (auto simp: less_eq_message_id_def less_message_id_def message_id.expand)

end

text \<open>The comparisons of the code are those of this order, where they are defined.\<close>

theorem message_comparisons:
  assumes "is_scheduled l = is_scheduled r"
  shows "message_less l r = Inr (l < r)" "message_greater l r = Inr (r < l)"
    "message_less_eq l r = Inr (l \<le> r)" "message_greater_eq l r = Inr (r \<le> l)"
  using assms by (simp_all add: message_less_def message_greater_def message_less_eq_def message_greater_eq_def
      less_message_id_def less_eq_message_id_def)

fun api_message_number :: "api_message \<Rightarrow> int" where
  "api_message_number (Api_message_empty i _) = i"
| "api_message_number (Api_message i _ _) = i"
| "api_message_number (Api_message_service i _ _) = i"

lemma server_not_scheduled: "\<not> is_scheduled (message_of_server s)"
  using full_mod[of "server_message_value s * 1048576"]
  by (cases s) (simp add: scheduled_mask server_value)

text \<open>The greatest identifier of a list of messages, or zero, whatever numbers the server sent.\<close>

theorem greatest_message_id:
  "get_max_message_id (map Some ms) =
     Inr (foldl max (MessageId 0) (map (\<lambda>m. message_of_server (ServerMessageId (api_message_number m))) ms))"
proof -
  let ?f = "\<lambda>m. message_of_server (ServerMessageId (api_message_number m))"
  have get: "get_message_id (Some m) False = Inr (?f m)" for m by (cases m) (simp_all add: get_message_id_def)
  have "\<not> is_scheduled a \<Longrightarrow> fold_r (\<lambda>message max_id.
       bind_r (get_message_id message False) (\<lambda>message_id.
       bind_r (message_greater message_id max_id) (\<lambda>b. Inr (if b then message_id else max_id)))) (map Some ms) a =
     Inr (foldl max a (map ?f ms))" for a
  proof (induction ms arbitrary: a)
    case (Cons m ms)
    have "message_greater (?f m) a = Inr (a < ?f m)"
      using Cons.prems server_not_scheduled by (intro message_comparisons(2)) simp
    moreover have "(if a < ?f m then ?f m else a) = max a (?f m)" by (auto simp: max_def)
    moreover have "\<not> is_scheduled (max a (?f m))" using Cons.prems server_not_scheduled by (simp add: max_def)
    ultimately show ?case using Cons.IH[of "max a (?f m)"] get[of m] by simp
  qed simp
  then show ?thesis by (simp add: get_max_message_id_def scheduled_mask)
qed

section \<open>Properties\<close>

text \<open>C38: The parts of a message identifier are recovered from it, the identifiers of server messages are
  ordered by the numbers the server gave, those of scheduled messages by date and then by number.\<close>

theorem message_id_layout:
  assumes "n \<in> {1..2 ^ 31 - 1}" "s \<in> {1..2 ^ 18 - 1}" "d \<in> {2 ^ 30 + 1..2 ^ 31 - 1}"
  shows "message_id_valid (message_of_server (ServerMessageId n)) \<and>
    message_get_type (message_of_server (ServerMessageId n)) = Message_server \<and>
    get_server_message_id (message_of_server (ServerMessageId n)) = Inr (ServerMessageId n) \<and>
    message_id_valid_scheduled (message_of_scheduled (ScheduledServerMessageId s) d force) \<and>
    message_get_type (message_of_scheduled (ScheduledServerMessageId s) d force) = Message_server \<and>
    get_scheduled_server_message_id (message_of_scheduled (ScheduledServerMessageId s) d force) = Inr (ScheduledServerMessageId s) \<and>
    get_scheduled_message_date (message_of_scheduled (ScheduledServerMessageId s) d force) = Inr d \<and>
    (n' \<in> {1..2 ^ 31 - 1} \<longrightarrow>
      message_less (message_of_server (ServerMessageId n)) (message_of_server (ServerMessageId n')) = Inr (n < n')) \<and>
    (s' \<in> {1..2 ^ 18 - 1} \<and> d' \<in> {2 ^ 30 + 1..2 ^ 31 - 1} \<longrightarrow>
      message_less (message_of_scheduled (ScheduledServerMessageId s) d force)
        (message_of_scheduled (ScheduledServerMessageId s') d' force) = Inr (d < d' \<or> d = d' \<and> s < s'))"
proof -
  have val: "message_of_scheduled (ScheduledServerMessageId s) d force = MessageId (scheduled_number s d)"
    if "s \<in> {1..2 ^ 18 - 1}" "d \<in> {2 ^ 30 + 1..2 ^ 31 - 1}" for s d
    using that scheduled_value[of s d force] by (simp add: scheduled_number_def)
  have "message_less (MessageId (n * 1048576)) (MessageId (n' * 1048576)) = Inr (n < n')" if "n' \<in> {1..2 ^ 31 - 1}"
    using server_parts(1)[OF that] server_parts(1)[OF assms(1)] by (simp add: message_less_def valid_not_scheduled)
  then show ?thesis
    unfolding server_value using server_parts[OF assms(1)] scheduled_parts[OF assms(2,3)] scheduled_order assms(2,3) val by simp
qed

theorem message_id_layout_witness:
  "get_scheduled_message_date (message_of_scheduled (ScheduledServerMessageId 5) (2 ^ 30 + 9) False) = Inr (2 ^ 30 + 9)"
  using message_id_layout[of 1 5 "2 ^ 30 + 9" False 1 1 "2 ^ 30 + 1"] by simp

text \<open>C39: The next message identifier of a type is the least greater identifier that has the low bits of that
  type, for ordinary and for scheduled messages; it has the type as long as it is in range. After the
  last server message the 32-bit sum overflows.\<close>

theorem next_message_id_least:
  assumes "message_id_valid m \<or> message_id_valid_scheduled m" "t \<noteq> Message_none"
  shows "if t = Message_server \<and> m = max_message_id then get_next_message_id t m = Inl Overflow_error
    else \<exists>x. get_next_message_id t m = Inr (MessageId x) \<and> least_after t m x \<and>
      (x \<le> 2 ^ 51 \<longrightarrow> message_get_type (MessageId x) = t)"
proof -
  have max: "message_id_valid max_message_id" by (simp add: max_message_id_def valid_iff SERVER_ID_SHIFT_def push_bit_eq_mult)
  have over: "get_next_message_id Message_server max_message_id = Inl Overflow_error"
    using max valid_not_scheduled[OF max] int32_id[of "2 ^ 31 - 1"]
    by (simp add: get_next_message_id_def is_server_def get_server_message_id_def get_server_message_id_force_def narrow_int32_def
        drop_bit_eq_div SERVER_ID_SHIFT_def int32_r_def)
  have pos: "0 < message_value m" using assms(1) by (cases m) (auto simp: valid_iff)
  have "\<exists>x. get_next_message_id t m = Inr (MessageId x) \<and> least_after t m x" if "\<not> (t = Message_server \<and> m = max_message_id)"
  proof (cases "message_id_valid m")
    case True
    then show ?thesis using next_ordinary_least assms(2) that by blast
  next
    case False
    then have v: "message_id_valid_scheduled m" using assms(1) by blast
    then show ?thesis
      using next_scheduled_least[OF v assms(2)] valid_scheduled_is[OF v] by (simp add: get_next_message_id_def)
  qed
  moreover have "message_get_type (MessageId x) = t" if "least_after t m x" "x \<le> 2 ^ 51" for x
    using that pos by (intro layout_type[of _ _ "is_scheduled m"]) (auto simp: least_after_def)
  ultimately show ?thesis using over by auto
qed

theorem next_message_id_least_witness:
  "\<exists>x. get_next_message_id Message_local (MessageId 1048577) = Inr (MessageId x) \<and> least_after Message_local (MessageId 1048577) x"
  using next_message_id_least[of "MessageId 1048577" Message_local] by (auto simp: valid_iff)

end
