(* ===== verification/Td_Container.thy ===== *)
theory Td_Container
  imports Td_Bytes
begin

unbundle bit_operations_syntax

text \<open>
  \<^verbatim>\<open>Container\<close> (\<^verbatim>\<open>src/lib/td/tdutils/td/utils/Container.h\<close>): objects in the slots of a vector, reached by
  64-bit identifiers of a slot and its generation, so that the identifier of an erased object is not mistaken for
  that of the object that took its slot. The lowest byte of a generation is the type given to \<^verbatim>\<open>create\<close>.

  The index of a slot, an \<^verbatim>\<open>int32\<close> that is never negative, is a natural number; \<open>None\<close> is the index \<open>-1\<close>. \<open>dflt\<close>
  is \<^verbatim>\<open>DataT()\<close>; a value that was moved out is not read again.
\<close>

record 'd slot =
  generation :: "32 word"
  slot_data :: 'd

record 'd container =
  slots :: "'d slot list"
  empty_slots :: "nat list"

definition GENERATION_STEP :: "32 word" where "GENERATION_STEP = push_bit 8 1"
definition SLOT_TYPE_MASK :: "32 word" where "SLOT_TYPE_MASK = push_bit 8 1 - 1"

definition new_container :: "'d container" where
  "new_container = \<lparr>slots = [], empty_slots = []\<rparr>"

section \<open>Identifiers\<close>

definition encode_id :: "nat \<Rightarrow> 'd container \<Rightarrow> u64" where
  "encode_id i c = push_bit 32 (word_of_nat i) OR ucast (generation (slots c ! i))"

definition decode_id :: "u64 \<Rightarrow> 'd container \<Rightarrow> nat option" where
  "decode_id x c =
     (let slot_id = sint (ucast (drop_bit 32 x) :: 32 word); gen = (ucast x :: 32 word) in
      if slot_id < 0 \<or> slot_id \<ge> signed_take_bit 31 (int (length (slots c))) then None
      else if gen \<noteq> generation (slots c ! nat slot_id) then None
      else Some (nat slot_id))"

definition type_from_id :: "u64 \<Rightarrow> 8 word" where
  "type_from_id x = ucast x"

section \<open>Slots\<close>

definition inc_generation :: "nat \<Rightarrow> 'd container \<Rightarrow> 'd container" where
  "inc_generation i c =
     c\<lparr>slots := (slots c)[i := (slots c ! i)\<lparr>generation := generation (slots c ! i) + GENERATION_STEP\<rparr>]\<rparr>"

definition slot_release :: "'d \<Rightarrow> nat \<Rightarrow> 'd container \<Rightarrow> 'd container" where
  "slot_release dflt i c =
     (let c = inc_generation i c;
          c = c\<lparr>slots := (slots c)[i := (slots c ! i)\<lparr>slot_data := dflt\<rparr>]\<rparr> in
      if generation (slots c ! i) AND NOT SLOT_TYPE_MASK \<noteq> 0 then c\<lparr>empty_slots := empty_slots c @ [i]\<rparr> else c)"

definition slot_store :: "'d \<Rightarrow> 8 word \<Rightarrow> 'd container \<Rightarrow> td_error + nat \<times> 'd container" where
  "slot_store data ty c =
     (if empty_slots c \<noteq> [] then
        let i = last (empty_slots c); s = slots c ! i in
        Inr (i, c\<lparr>empty_slots := butlast (empty_slots c),
                 slots := (slots c)[i := s\<lparr>slot_data := data,
                   generation := generation s XOR ((generation s AND SLOT_TYPE_MASK) XOR ucast ty)\<rparr>]\<rparr>)
      else
        bind_r (check_r (length (slots c) \<le> 2 ^ 31 - 1) ()) (\<lambda>_.
        Inr (length (slots c),
             c\<lparr>slots := slots c @ [\<lparr>generation = GENERATION_STEP + ucast ty, slot_data = data\<rparr>]\<rparr>)))"

section \<open>Operations\<close>

definition container_get :: "u64 \<Rightarrow> 'd container \<Rightarrow> 'd option" where
  "container_get x c = (case decode_id x c of None \<Rightarrow> None | Some i \<Rightarrow> Some (slot_data (slots c ! i)))"

definition container_erase :: "'d \<Rightarrow> u64 \<Rightarrow> 'd container \<Rightarrow> 'd container" where
  "container_erase dflt x c = (case decode_id x c of None \<Rightarrow> c | Some i \<Rightarrow> slot_release dflt i c)"

definition container_extract :: "'d \<Rightarrow> u64 \<Rightarrow> 'd container \<Rightarrow> td_error + 'd \<times> 'd container" where
  "container_extract dflt x c =
     (case decode_id x c of
        None \<Rightarrow> Inl Check_failed
      | Some i \<Rightarrow> Inr (slot_data (slots c ! i), slot_release dflt i c))"

definition container_create :: "'d \<Rightarrow> 8 word \<Rightarrow> 'd container \<Rightarrow> td_error + u64 \<times> 'd container" where
  "container_create data ty c = bind_r (slot_store data ty c) (\<lambda>(i, c). Inr (encode_id i c, c))"

definition container_reset_id :: "u64 \<Rightarrow> 'd container \<Rightarrow> td_error + u64 \<times> 'd container" where
  "container_reset_id x c =
     (case decode_id x c of
        None \<Rightarrow> Inl Check_failed
      | Some i \<Rightarrow> let c = inc_generation i c in Inr (encode_id i c, c))"

definition container_ids :: "'d container \<Rightarrow> u64 list" where
  "container_ids c =
     (let is_bad = foldl (\<lambda>is_bad i. is_bad[i := True]) (replicate (length (slots c)) False) (empty_slots c) in
      foldl (\<lambda>res i. if \<not> is_bad ! i then res @ [encode_id i c] else res) [] [0..<length (slots c)])"

text \<open>The calls of the function given.\<close>

definition container_for_each :: "'d container \<Rightarrow> td_error + (u64 \<times> 'd) list" where
  "container_for_each c =
     fold_r (\<lambda>x calls. case container_get x c of None \<Rightarrow> Inl Memory_error | Some d \<Rightarrow> Inr (calls @ [(x, d)])) (container_ids c) []"

definition container_size :: "'d container \<Rightarrow> td_error + nat" where
  "container_size c =
     check_r (length (empty_slots c) \<le> length (slots c)) (length (slots c) - length (empty_slots c))"

definition container_empty :: "'d container \<Rightarrow> td_error + bool" where
  "container_empty c = bind_r (container_size c) (\<lambda>n. Inr (n = 0))"

definition container_clear :: "'d container \<Rightarrow> 'd container" where
  "container_clear c = new_container"

end
