(* ===== verification/Td_Container_Props.thy ===== *)
theory Td_Container_Props
  imports Td_Container
begin

unbundle bit_operations_syntax

text \<open>
  \<^verbatim>\<open>Container\<close> implements a map from identifiers to objects in which no identifier is used twice, as long as
  no generation has come to its end; what remains of a slot whose generation has.
\<close>

section \<open>Words\<close>

definition slot_of :: "u64 \<Rightarrow> nat" where "slot_of x = unat (drop_bit 32 x)"
definition gen_of :: "u64 \<Rightarrow> 32 word" where "gen_of x = ucast x"
definition count_of :: "32 word \<Rightarrow> nat" where "count_of g = unat (drop_bit 8 g)"

lemma encoded_parts:
  assumes "i < 2 ^ 32"
  shows "slot_of (push_bit 32 (word_of_nat i) OR ucast g) = i" "gen_of (push_bit 32 (word_of_nat i) OR ucast g) = g"
proof -
  have i: "word_of_nat i = (ucast (word_of_nat i :: 32 word) :: u64)"
    using assms by (simp add: word_unat_eq_iff unat_of_nat unsigned_ucast_eq take_bit_nat_eq_self)
  have "drop_bit 32 (push_bit 32 (word_of_nat i) OR ucast (g :: 32 word)) = (word_of_nat i :: u64)"
    unfolding i by (rule bit_word_eqI) (auto simp: bit_simps dest: bit_imp_le_length)
  then show "slot_of (push_bit 32 (word_of_nat i) OR ucast g) = i"
    using assms by (simp add: slot_of_def unat_of_nat)
  show "gen_of (push_bit 32 (word_of_nat i) OR ucast g) = g"
    unfolding gen_of_def by (rule bit_word_eqI) (auto simp: bit_simps)
qed

lemma id_eqI: "slot_of x = slot_of y \<Longrightarrow> gen_of x = gen_of y \<Longrightarrow> x = y"
proof -
  assume a: "slot_of x = slot_of y" "gen_of x = gen_of y"
  have hi: "drop_bit 32 x = drop_bit 32 y" using a(1) by (simp add: slot_of_def word_unat_eq_iff)
  show "x = y"
  proof (rule bit_word_eqI)
    fix n assume n: "n < LENGTH(64)"
    show "bit x n = bit y n"
    proof (cases "n < 32")
      case True
      then show ?thesis using arg_cong[OF a(2), of "\<lambda>w. bit w n"] by (simp add: gen_of_def bit_simps)
    next
      case False
      then show ?thesis using arg_cong[OF hi, of "\<lambda>w. bit w (n - 32)"] by (simp add: bit_simps)
    qed
  qed
qed

lemma gen_eqI: "count_of g = count_of h \<Longrightarrow> ucast g = (ucast h :: 8 word) \<Longrightarrow> g = h"
proof -
  assume a: "count_of g = count_of h" "ucast g = (ucast h :: 8 word)"
  have hi: "drop_bit 8 g = drop_bit 8 h" using a(1) by (simp add: count_of_def word_unat_eq_iff)
  show "g = h"
  proof (rule bit_word_eqI)
    fix n assume n: "n < LENGTH(32)"
    show "bit g n = bit h n"
    proof (cases "n < 8")
      case True
      then show ?thesis using arg_cong[OF a(2), of "\<lambda>w. bit w n"] by (simp add: bit_simps)
    next
      case False
      then show ?thesis using arg_cong[OF hi, of "\<lambda>w. bit w (n - 8)"] by (simp add: bit_simps)
    qed
  qed
qed

lemma type_of_generation: "type_from_id x = ucast (gen_of x)"
  unfolding type_from_id_def gen_of_def by (rule bit_word_eqI) (simp add: bit_simps)

lemma count_of_div: "count_of g = unat g div 256"
  by (simp add: count_of_def drop_bit_eq_div unat_div)

lemma count_step: "count_of g + 1 < 2 ^ 24 \<Longrightarrow> count_of (g + GENERATION_STEP) = count_of g + 1"
proof -
  assume "count_of g + 1 < 2 ^ 24"
  then have "unat g + 256 < 2 ^ 32" by (simp add: count_of_div)
  then have "unat (g + 256) = unat g + 256" by (simp add: unat_word_ariths)
  then show ?thesis by (simp add: count_of_div GENERATION_STEP_def)
qed

lemma retyped:
  "count_of (g XOR ((g AND SLOT_TYPE_MASK) XOR ucast (t :: 8 word))) = count_of g"
  "ucast (g XOR ((g AND SLOT_TYPE_MASK) XOR ucast t)) = t"
proof -
  have m: "SLOT_TYPE_MASK = mask 8" by (simp add: SLOT_TYPE_MASK_def mask_eq_exp_minus_1)
  have "drop_bit 8 (g XOR ((g AND SLOT_TYPE_MASK) XOR ucast t)) = drop_bit 8 g"
    unfolding m by (rule bit_word_eqI) (auto simp: bit_simps)
  then show "count_of (g XOR ((g AND SLOT_TYPE_MASK) XOR ucast t)) = count_of g" by (simp add: count_of_def)
  show "ucast (g XOR ((g AND SLOT_TYPE_MASK) XOR ucast t)) = t"
    unfolding m by (rule bit_word_eqI) (auto simp: bit_simps)
qed

lemma first_generation: "count_of (GENERATION_STEP + ucast (t :: 8 word)) = 1" "ucast (GENERATION_STEP + ucast t) = t"
proof -
  have t: "unat (ucast t :: 32 word) = unat t" by (simp add: unsigned_ucast_eq take_bit_nat_eq_self less_trans[OF byte_less])
  have u: "unat (GENERATION_STEP + ucast t) = 256 + unat t"
    using byte_less[of t] by (simp add: GENERATION_STEP_def unat_word_ariths t)
  show "count_of (GENERATION_STEP + ucast t) = 1" using u byte_less[of t] by (simp add: count_of_div)
  show "ucast (GENERATION_STEP + ucast t) = t"
    using u byte_less[of t] by (simp add: word_unat_eq_iff unsigned_ucast_eq take_bit_eq_mod)
qed

lemma overflow_iff: "g AND NOT SLOT_TYPE_MASK = 0 \<longleftrightarrow> count_of g = 0"
proof -
  have "g AND NOT (mask 8) = 0 \<longleftrightarrow> drop_bit 8 g = 0"
  proof
    assume "g AND NOT (mask 8) = 0"
    then have "\<not> bit (g AND NOT (mask 8)) (8 + n)" for n by simp
    then have "\<not> bit g (8 + n)" for n
      by (cases "n < 24") (simp_all add: bit_simps, use bit_imp_le_length[of g "8 + n"] in auto)
    then show "drop_bit 8 g = 0" by (intro bit_word_eqI) (simp add: bit_simps)
  next
    assume z: "drop_bit 8 g = 0"
    have "\<not> bit g n" if "8 \<le> n" for n using arg_cong[OF z, of "\<lambda>w. bit w (n - 8)"] that by (simp add: bit_simps)
    then have "n < 8" if "bit g n" for n using that not_le by blast
    then show "g AND NOT (mask 8) = 0" by (intro bit_word_eqI) (auto simp: bit_simps)
  qed
  then show ?thesis by (simp add: count_of_def SLOT_TYPE_MASK_def mask_eq_exp_minus_1 unat_eq_0)
qed

section \<open>The container as a map\<close>

lemma slot_updates [simp]:
  "s\<lparr>generation := g\<rparr> = \<lparr>generation = g, slot_data = slot_data s\<rparr>" "s\<lparr>slot_data := d\<rparr> = \<lparr>generation = generation s, slot_data = d\<rparr>"
  by simp_all

text \<open>
  After \<open>k\<close> operations the container holds the map \<open>m\<close>, and \<open>used\<close> are the identifiers given out so far: those of
  a slot have generations up to the current one, and reach it only if the slot is occupied.
\<close>

definition live :: "'d container \<Rightarrow> nat \<Rightarrow> bool" where
  "live c i = (i < length (slots c) \<and> i \<notin> set (empty_slots c))"

definition contents :: "'d container \<Rightarrow> u64 \<rightharpoonup> 'd" where
  "contents c x = (if live c (slot_of x) \<and> gen_of x = generation (slots c ! slot_of x) then Some (slot_data (slots c ! slot_of x)) else None)"

definition known :: "'d container \<Rightarrow> u64 \<Rightarrow> bool" where
  "known c x =
     (slot_of x < length (slots c) \<and> count_of (gen_of x) \<le> count_of (generation (slots c ! slot_of x)) \<and>
      (count_of (gen_of x) = count_of (generation (slots c ! slot_of x)) \<longrightarrow>
         live c (slot_of x) \<and> gen_of x = generation (slots c ! slot_of x)))"

definition tracks :: "nat \<Rightarrow> 'd container \<Rightarrow> (u64 \<rightharpoonup> 'd) \<Rightarrow> u64 set \<Rightarrow> bool" where
  "tracks k c m used =
     (length (slots c) \<le> k \<and> distinct (empty_slots c) \<and> set (empty_slots c) \<subseteq> {..<length (slots c)} \<and>
      (\<forall>s \<in> set (slots c). 1 \<le> count_of (generation s) \<and> count_of (generation s) \<le> k + 1) \<and>
      m = contents c \<and> dom m \<subseteq> used \<and> (\<forall>x \<in> used. known c x))"

lemma tracks_new: "tracks 0 new_container Map.empty {}"
  by (simp add: tracks_def new_container_def contents_def live_def fun_eq_iff)

lemma encode_parts:
  assumes "i < 2 ^ 32"
  shows "slot_of (encode_id i c) = i" "gen_of (encode_id i c) = generation (slots c ! i)"
  unfolding encode_id_def using encoded_parts[OF assms] by simp_all

lemma decode_known:
  assumes "tracks k c m used" "k < 2 ^ 31 - 1" "x \<in> used"
  shows "decode_id x c = (if m x = None then None else Some (slot_of x))"
    "m x \<noteq> None \<Longrightarrow> live c (slot_of x) \<and> gen_of x = generation (slots c ! slot_of x) \<and> m x = Some (slot_data (slots c ! slot_of x))"
proof -
  have n: "length (slots c) < 2 ^ 31 - 1" and m: "m = contents c" and x: "known c x" using assms by (auto simp: tracks_def)
  have i: "slot_of x < 2 ^ 31" using x n by (simp add: known_def)
  have "unat (ucast (drop_bit 32 x) :: 32 word) = slot_of x"
    using i by (simp add: slot_of_def unsigned_ucast_eq take_bit_nat_eq_self)
  then have "sint (ucast (drop_bit 32 x) :: 32 word) = int (slot_of x)"
    using i by (simp add: sint_uint uint_nat signed_take_bit_int_eq_self_iff)
  moreover have "signed_take_bit 31 (int (length (slots c))) = int (length (slots c))"
    using n by (simp add: signed_take_bit_int_eq_self_iff)
  ultimately have d: "decode_id x c = (if gen_of x = generation (slots c ! slot_of x) then Some (slot_of x) else None)"
    using x by (simp add: decode_id_def known_def gen_of_def)
  show "decode_id x c = (if m x = None then None else Some (slot_of x))"
    unfolding d m using x by (auto simp: contents_def known_def)
  show "m x \<noteq> None \<Longrightarrow> live c (slot_of x) \<and> gen_of x = generation (slots c ! slot_of x) \<and> m x = Some (slot_data (slots c ! slot_of x))"
    unfolding m by (auto simp: contents_def split: if_splits)
qed

lemma contents_encoded:
  assumes "live c i" "i < 2 ^ 32"
  shows "contents c (encode_id i c) = Some (slot_data (slots c ! i))"
  using assms encode_parts[OF assms(2), of c] by (simp add: contents_def)

text \<open>A change of one live slot.\<close>

lemma tracks_slot:
  assumes t: "tracks k c m used" and i: "i < length (slots c)" "k < 2 ^ 24 - 2"
    and s: "count_of (generation s) \<in> {count_of (generation (slots c ! i))..k + 2}"
    and c': "slots c' = (slots c)[i := s]" "distinct (empty_slots c')" "set (empty_slots c') \<union> {i} = set (empty_slots c) \<union> {i}"
    and new: "count_of (generation s) > count_of (generation (slots c ! i)) \<or> i \<in> set (empty_slots c)"
    and m': "m' = (\<lambda>x. if slot_of x = i then (if i \<notin> set (empty_slots c') \<and> gen_of x = generation s then Some (slot_data s) else None) else m x)"
    and used': "used' = (if i \<in> set (empty_slots c') then used else insert (encode_id i c') used)"
    and strict: "i \<in> set (empty_slots c') \<Longrightarrow> count_of (generation s) > count_of (generation (slots c ! i))"
  shows "tracks (k + 1) c' m' used' \<and> encode_id i c' \<notin> used"
proof -
  note d = t[unfolded tracks_def]
  have n: "length (slots c') = length (slots c)" using c'(1) by simp
  have i32: "i < 2 ^ 32" using i d by simp
  have e: "slot_of (encode_id i c') = i" "gen_of (encode_id i c') = generation s"
    using encode_parts[OF i32, of c'] c'(1) i by simp_all
  have live: "j \<noteq> i \<Longrightarrow> live c' j = live c j" for j using c'(3) n by (auto simp: live_def)
  have at: "j \<noteq> i \<Longrightarrow> slots c' ! j = slots c ! j" "slots c' ! i = s" for j using c'(1) i by simp_all
  have old: "known c' x \<and> count_of (gen_of x) < count_of (generation s) \<or> known c' x \<and> slot_of x \<noteq> i" if "x \<in> used" for x
  proof -
    have x: "known c x" using d that by blast
    show ?thesis
    proof (cases "slot_of x = i")
      case True
      then have "count_of (gen_of x) < count_of (generation s)"
        using x new s by (auto simp: known_def live_def)
      then show ?thesis using True at(2) i(1) n by (simp add: known_def)
    next
      case False
      then show ?thesis using x live at(1) n by (simp add: known_def)
    qed
  qed
  have fresh: "encode_id i c' \<notin> used" using old e by fastforce
  have m: "m' = contents c'"
  proof
    fix x
    show "m' x = contents c' x"
      using d live[of "slot_of x"] at(1)[of "slot_of x"] at(2) i(1) n
      by (cases "slot_of x = i") (simp_all add: m' contents_def live_def)
  qed
  have "known c' x" if "x \<in> used'" for x
    using that old[of x] e at(2) i(1) n by (auto simp: used' known_def live_def split: if_splits)
  moreover have "dom m' \<subseteq> used'"
  proof
    fix x assume x: "x \<in> dom m'"
    show "x \<in> used'"
    proof (cases "slot_of x = i")
      case True
      then have "i \<notin> set (empty_slots c')" "x = encode_id i c'" using x e by (auto simp: m' dom_def split: if_splits intro: id_eqI)
      then show ?thesis by (simp add: used')
    next
      case False
      then show ?thesis using x d by (auto simp: m' used' dom_def)
    qed
  qed
  moreover have "1 \<le> count_of (generation s)" using s d nth_mem[OF i(1)] by fastforce
  moreover have "set (empty_slots c') \<subseteq> {..<length (slots c)}" using c'(3) d i(1) by blast
  ultimately have "tracks (k + 1) c' m' used'"
    using d s c' i(1) m by (auto simp: tracks_def dest!: set_update_subset_insert[THEN subsetD])
  then show ?thesis using fresh by blast
qed

lemma contents_slot: "contents c x = Some d \<Longrightarrow> slot_of y = slot_of x \<Longrightarrow> y \<noteq> x \<Longrightarrow> contents c y = None"
  by (auto simp: contents_def split: if_splits dest: id_eqI)

lemma contents_empty_slot: "slot_of y \<in> set (empty_slots c) \<Longrightarrow> contents c y = None"
  by (simp add: contents_def live_def)

lemma live_item:
  assumes "tracks k c m used" "m x = Some d"
  shows "slot_of x < length (slots c)" "slot_of x \<notin> set (empty_slots c)" "gen_of x = generation (slots c ! slot_of x)"
    "d = slot_data (slots c ! slot_of x)" "count_of (generation (slots c ! slot_of x)) \<le> k + 1" "m = contents c"
  using assms by (auto simp: tracks_def contents_def live_def split: if_splits)

lemma release_ok:
  assumes t: "tracks k c m used" and m: "m x = Some d" and k: "k < 2 ^ 24 - 2"
  shows "tracks (k + 1) (slot_release dflt (slot_of x) c) (m(x := None)) used"
proof -
  let ?i = "slot_of x" and ?g = "generation (slots c ! slot_of x) + GENERATION_STEP"
  note l = live_item[OF t m]
  have g: "count_of ?g = count_of (generation (slots c ! ?i)) + 1" using l(5) k by (intro count_step) simp
  have c': "slots (slot_release dflt ?i c) = (slots c)[?i := \<lparr>generation = ?g, slot_data = dflt\<rparr>]"
    "empty_slots (slot_release dflt ?i c) = empty_slots c @ [?i]"
    using l(1) g overflow_iff[of ?g] by (simp_all add: slot_release_def inc_generation_def Let_def)
  have m': "m(x := None) = (\<lambda>y. if slot_of y = ?i then None else m y)"
    using contents_slot[of c x d] m l(6) by (auto simp: fun_eq_iff)
  have "distinct (empty_slots c)" using t by (simp add: tracks_def)
  then have "tracks (k + 1) (slot_release dflt ?i c) (m(x := None)) used \<and> encode_id ?i (slot_release dflt ?i c) \<notin> used"
    by (intro tracks_slot[OF t l(1) k _ c'(1)]) (use l(2,5) g in \<open>simp_all add: c'(2) m' cong: if_cong\<close>)
  then show ?thesis by blast
qed

lemma reset_ok:
  assumes t: "tracks k c m used" and m: "m x = Some d" and k: "k < 2 ^ 24 - 2"
  shows "\<exists>j c'. container_reset_id x c = Inr (j, c') \<and> j \<notin> used \<and> tracks (k + 1) c' (m(x := None, j \<mapsto> d)) (insert j used)"
proof -
  let ?i = "slot_of x" and ?g = "generation (slots c ! slot_of x) + GENERATION_STEP"
  let ?c = "inc_generation (slot_of x) c"
  note l = live_item[OF t m]
  have g: "count_of ?g = count_of (generation (slots c ! ?i)) + 1" using l(5) k by (intro count_step) simp
  have x: "x \<in> used" "k < 2 ^ 31 - 1" using t m k by (auto simp: tracks_def)
  have dec: "decode_id x c = Some ?i" using decode_known(1)[OF t x(2,1)] m by simp
  have c': "slots ?c = (slots c)[?i := \<lparr>generation = ?g, slot_data = d\<rparr>]" "empty_slots ?c = empty_slots c"
    using l(1,4) by (simp_all add: inc_generation_def)
  have i32: "?i < 2 ^ 32" using l(1) t x(2) by (simp add: tracks_def)
  have e: "slot_of (encode_id ?i ?c) = ?i" "gen_of (encode_id ?i ?c) = ?g"
    using encode_parts[OF i32, of ?c] c'(1) l(1) by simp_all
  have "m(x := None, encode_id ?i ?c \<mapsto> d) =
      (\<lambda>y. if slot_of y = ?i then (if ?i \<notin> set (empty_slots ?c) \<and> gen_of y = ?g then Some d else None) else m y)"
    using contents_slot[of c x d] m l(2,6) e by (auto simp: fun_eq_iff c'(2) intro: id_eqI)
  then have "tracks (k + 1) ?c (m(x := None, encode_id ?i ?c \<mapsto> d)) (insert (encode_id ?i ?c) used) \<and> encode_id ?i ?c \<notin> used"
    using t by (intro tracks_slot[OF t l(1) k _ c'(1)]) (use l(2,5) g in \<open>simp_all add: c'(2) tracks_def cong: if_cong\<close>)
  then show ?thesis using dec by (simp add: container_reset_id_def Let_def)
qed

lemma reuse_ok:
  assumes t: "tracks k c m used" and k: "k < 2 ^ 24 - 2" and e: "empty_slots c \<noteq> []"
  shows "\<exists>j c'. container_create d ty c = Inr (j, c') \<and> j \<notin> used \<and> j \<noteq> 0 \<and> type_from_id j = ty \<and> tracks (k + 1) c' (m(j \<mapsto> d)) (insert j used)"
proof -
  let ?i = "last (empty_slots c)"
  define g where "g = generation (slots c ! ?i) XOR ((generation (slots c ! ?i) AND SLOT_TYPE_MASK) XOR ucast ty)"
  define c' where "c' = c\<lparr>empty_slots := butlast (empty_slots c), slots := (slots c)[?i := \<lparr>generation = g, slot_data = d\<rparr>]\<rparr>"
  have i: "?i \<in> set (empty_slots c)" "?i < length (slots c)" using t last_in_set[OF e] by (auto simp: tracks_def subset_iff)
  have split: "empty_slots c = butlast (empty_slots c) @ [?i]" using e by simp
  have dist: "distinct (butlast (empty_slots c) @ [?i])" using t split by (simp add: tracks_def)
  then have out: "?i \<notin> set (butlast (empty_slots c))" "distinct (butlast (empty_slots c))" by simp_all
  have sets: "set (butlast (empty_slots c)) \<union> {?i} = set (empty_slots c) \<union> {?i}" using arg_cong[OF split, of set] by auto
  have g: "count_of g = count_of (generation (slots c ! ?i))" "ucast g = ty" unfolding g_def by (rule retyped)+
  have bound: "count_of (generation (slots c ! ?i)) \<le> k + 1" "1 \<le> count_of (generation (slots c ! ?i))"
    using t nth_mem[OF i(2)] by (auto simp: tracks_def)
  have i32: "?i < 2 ^ 32" using i(2) t k by (simp add: tracks_def)
  have enc: "slot_of (encode_id ?i c') = ?i" "gen_of (encode_id ?i c') = g"
    using encode_parts[OF i32, of c'] i(2) by (simp_all add: c'_def)
  have "m(encode_id ?i c' \<mapsto> d) = (\<lambda>y. if slot_of y = ?i then (if ?i \<notin> set (empty_slots c') \<and> gen_of y = g then Some d else None) else m y)"
    using contents_empty_slot[of _ c] i(1) enc out(1) t by (auto simp: fun_eq_iff c'_def tracks_def intro: id_eqI)
  then have "tracks (k + 1) c' (m(encode_id ?i c' \<mapsto> d)) (insert (encode_id ?i c') used) \<and> encode_id ?i c' \<notin> used"
    by (intro tracks_slot[OF t i(2) k, where s = "\<lparr>generation = g, slot_data = d\<rparr>"])
      (use g bound out sets i(1) in \<open>simp_all add: c'_def cong: if_cong\<close>)
  moreover have "type_from_id (encode_id ?i c') = ty" using enc(2) g(2) by (simp add: type_of_generation)
  moreover have "encode_id ?i c' \<noteq> 0" using enc(2) g(1) bound(2) by (auto simp: gen_of_def count_of_def)
  moreover have "container_create d ty c = Inr (encode_id ?i c', c')"
    using e by (simp add: container_create_def slot_store_def Let_def c'_def g_def)
  ultimately show ?thesis by blast
qed

lemma append_ok:
  assumes t: "tracks k c m used" and k: "k < 2 ^ 24 - 2" and e: "empty_slots c = []"
  shows "\<exists>j c'. container_create d ty c = Inr (j, c') \<and> j \<notin> used \<and> j \<noteq> 0 \<and> type_from_id j = ty \<and> tracks (k + 1) c' (m(j \<mapsto> d)) (insert j used)"
proof -
  let ?n = "length (slots c)"
  define g :: "32 word" where "g = GENERATION_STEP + ucast ty"
  define c' where "c' = c\<lparr>slots := slots c @ [\<lparr>generation = g, slot_data = d\<rparr>]\<rparr>"
  note d = t[unfolded tracks_def]
  have n: "?n < 2 ^ 24" using d k by simp
  have g: "count_of g = 1" "ucast g = ty" unfolding g_def by (rule first_generation)+
  have c': "slots c' = slots c @ [\<lparr>generation = g, slot_data = d\<rparr>]" "empty_slots c' = []" using e by (simp_all add: c'_def)
  have enc: "slot_of (encode_id ?n c') = ?n" "gen_of (encode_id ?n c') = g"
    using encode_parts[of ?n c'] n by (simp_all add: c'(1))
  have at: "j < ?n \<Longrightarrow> slots c' ! j = slots c ! j" "slots c' ! ?n = \<lparr>generation = g, slot_data = d\<rparr>" for j by (simp_all add: c'(1) nth_append)
  have old: "known c' x \<and> slot_of x < ?n" if "x \<in> used" for x
    using d that at(1)[of "slot_of x"] e by (auto simp: known_def live_def c')
  have "(m(encode_id ?n c' \<mapsto> d)) x = contents c' x" for x
  proof (cases "slot_of x = ?n")
    case True
    then show ?thesis using d enc at(2) by (auto simp: contents_def live_def c' intro: id_eqI)
  next
    case False
    then show ?thesis using d enc at(1)[of "slot_of x"] e by (auto simp: contents_def live_def c')
  qed
  moreover have "known c' (encode_id ?n c')" using enc at(2) by (simp add: known_def live_def c')
  ultimately have "tracks (k + 1) c' (m(encode_id ?n c' \<mapsto> d)) (insert (encode_id ?n c') used)"
    using d old g(1) by (fastforce simp: tracks_def c' fun_eq_iff)
  moreover have "encode_id ?n c' \<notin> used" using old enc(1) by fastforce
  moreover have "type_from_id (encode_id ?n c') = ty" using enc(2) g(2) by (simp add: type_of_generation)
  moreover have "encode_id ?n c' \<noteq> 0" using enc(2) g(1) by (auto simp: gen_of_def count_of_def)
  moreover have "container_create d ty c = Inr (encode_id ?n c', c')"
    using e n by (simp add: container_create_def slot_store_def c'_def g_def)
  ultimately show ?thesis by blast
qed

section \<open>All objects\<close>

lemma marked: "i < length b \<Longrightarrow> foldl (\<lambda>b i. b[i := True]) b es ! i = (b ! i \<or> i \<in> set es)"
proof (induction es arbitrary: b)
  case (Cons a es)
  then show ?case by (cases "a = i") simp_all
qed simp

lemma foldl_collect: "foldl (\<lambda>res i. if P i then res @ [f i] else res) acc xs = acc @ map f (filter P xs)"
  by (induction xs arbitrary: acc) simp_all

lemma container_ids_eq:
  "container_ids c = map (\<lambda>i. encode_id i c) (filter (live c) [0..<length (slots c)])"
proof -
  have "filter (\<lambda>i. \<not> foldl (\<lambda>b i. b[i := True]) (replicate (length (slots c)) False) (empty_slots c) ! i) [0..<length (slots c)] =
      filter (live c) [0..<length (slots c)]"
    by (rule filter_cong) (auto simp: marked live_def)
  then show ?thesis by (simp add: container_ids_def foldl_collect)
qed

lemma container_ids_ok:
  assumes t: "tracks k c m used" "k < 2 ^ 24"
  shows "set (container_ids c) = dom m" "distinct (container_ids c)"
proof -
  have n: "i < length (slots c) \<Longrightarrow> i < 2 ^ 32" for i using t by (simp add: tracks_def)
  have m: "m = contents c" using t by (simp add: tracks_def)
  have live: "live c i \<Longrightarrow> i < length (slots c)" for i by (simp add: live_def)
  show "set (container_ids c) = dom m"
  proof
    show "set (container_ids c) \<subseteq> dom m"
      using contents_encoded n live by (force simp: container_ids_eq m)
    show "dom m \<subseteq> set (container_ids c)"
    proof
      fix x assume "x \<in> dom m"
      then have x: "live c (slot_of x)" "gen_of x = generation (slots c ! slot_of x)" by (auto simp: m contents_def split: if_splits)
      then have "x = encode_id (slot_of x) c" using encode_parts[OF n[OF live[OF x(1)]], of c] by (intro id_eqI) simp_all
      then show "x \<in> set (container_ids c)" using x(1) live[OF x(1)] by (auto simp: container_ids_eq)
    qed
  qed
  have "inj_on (\<lambda>i. encode_id i c) {..<length (slots c)}"
    using encode_parts(1)[OF n, of _ c] by (metis (no_types, lifting) inj_onI lessThan_iff)
  then show "distinct (container_ids c)"
    by (auto simp: container_ids_eq distinct_map intro: inj_on_subset)
qed

lemma container_size_ok:
  assumes t: "tracks k c m used" "k < 2 ^ 24"
  shows "container_size c = Inr (card (dom m))"
proof -
  have d: "distinct (empty_slots c)" "set (empty_slots c) \<subseteq> {..<length (slots c)}" using t by (simp_all add: tracks_def)
  have e: "length (empty_slots c) = card (set (empty_slots c))" using d(1) by (simp add: distinct_card)
  have "card (dom m) = length (filter (live c) [0..<length (slots c)])"
    using container_ids_ok[OF t] distinct_card[of "container_ids c"] by (simp add: container_ids_eq)
  also have "\<dots> = card ({..<length (slots c)} - set (empty_slots c))"
    by (subst distinct_card[symmetric]) (auto simp: live_def intro: arg_cong[of _ _ card])
  also have "\<dots> = length (slots c) - length (empty_slots c)" using d(2) by (simp add: card_Diff_subset e)
  finally have "card (dom m) = length (slots c) - length (empty_slots c)" .
  moreover have "length (empty_slots c) \<le> length (slots c)" unfolding e using card_mono[OF _ d(2)] by simp
  ultimately show ?thesis by (simp add: container_size_def)
qed

lemma container_get_ok:
  assumes t: "tracks k c m used" "k < 2 ^ 24" "x \<in> used"
  shows "container_get x c = m x"
  using decode_known[OF t(1) _ t(3)] t(2) by (cases "m x") (auto simp: container_get_def)

lemma for_each_ok:
  assumes t: "tracks k c m used" "k < 2 ^ 24"
  shows "container_for_each c = Inr (map (\<lambda>x. (x, the (m x))) (container_ids c))"
proof -
  have "fold_r (\<lambda>x calls. case container_get x c of None \<Rightarrow> Inl Memory_error | Some d \<Rightarrow> Inr (calls @ [(x, d)])) xs acc =
      Inr (acc @ map (\<lambda>x. (x, the (m x))) xs)" if "set xs \<subseteq> dom m" for xs acc
    using that
  proof (induction xs arbitrary: acc)
    case (Cons x xs)
    then have "x \<in> used" using t(1) by (auto simp: tracks_def)
    then show ?case using Cons container_get_ok[OF t] by auto
  qed simp
  then show ?thesis using container_ids_ok(1)[OF t] by (simp add: container_for_each_def)
qed

section \<open>Properties\<close>

text \<open>C40: \<open>Container\<close> implements a map from identifiers to objects: a new object gets an identifier that was never
  given out before, is not zero and carries its type; an identifier given out earlier reaches exactly the
  object that still has it, whatever became of its slot; erasing, extracting and renaming do to the map what
  they say, and fail their \<^verbatim>\<open>CHECK\<close> exactly for erased objects; \<^verbatim>\<open>ids\<close>, \<^verbatim>\<open>for_each\<close> and \<^verbatim>\<open>size\<close> show the map. This holds for
  \<open>2 ^ 24 - 3\<close> operations, before any generation can come to its end.\<close>

theorem container_refines_map:
  assumes "tracks k c m used" "k < 2 ^ 24 - 2" "x \<in> used"
  shows "tracks 0 new_container Map.empty {} \<and>
    (\<exists>j c'. container_create d ty c = Inr (j, c') \<and> j \<notin> used \<and> j \<noteq> 0 \<and> type_from_id j = ty \<and>
       tracks (k + 1) c' (m(j \<mapsto> d)) (insert j used)) \<and>
    container_get x c = m x \<and>
    tracks (k + 1) (container_erase dflt x c) (m(x := None)) used \<and>
    (case m x of
       None \<Rightarrow> container_extract dflt x c = Inl Check_failed \<and> container_reset_id x c = Inl Check_failed
     | Some d \<Rightarrow>
         (\<exists>c'. container_extract dflt x c = Inr (d, c') \<and> tracks (k + 1) c' (m(x := None)) used) \<and>
         (\<exists>j c'. container_reset_id x c = Inr (j, c') \<and> j \<notin> used \<and> tracks (k + 1) c' (m(x := None, j \<mapsto> d)) (insert j used))) \<and>
    set (container_ids c) = dom m \<and> distinct (container_ids c) \<and> container_size c = Inr (card (dom m)) \<and>
    container_for_each c = Inr (map (\<lambda>x. (x, the (m x))) (container_ids c))"
proof -
  have k: "k < 2 ^ 24" "k < 2 ^ 31 - 1" using assms(2) by simp_all
  note dec = decode_known[OF assms(1) k(2) assms(3)]
  have later: "tracks (k + 1) c m used" using assms(1) by (fastforce simp: tracks_def)
  have erase: "tracks (k + 1) (container_erase dflt x c) (m(x := None)) used"
    using later dec(1) release_ok[OF assms(1) _ assms(2)] by (cases "m x") (auto simp: container_erase_def fun_upd_idem)
  have "case m x of
       None \<Rightarrow> container_extract dflt x c = Inl Check_failed \<and> container_reset_id x c = Inl Check_failed
     | Some d \<Rightarrow>
         (\<exists>c'. container_extract dflt x c = Inr (d, c') \<and> tracks (k + 1) c' (m(x := None)) used) \<and>
         (\<exists>j c'. container_reset_id x c = Inr (j, c') \<and> j \<notin> used \<and> tracks (k + 1) c' (m(x := None, j \<mapsto> d)) (insert j used))"
  proof (cases "m x")
    case None
    then show ?thesis using dec(1) by (simp add: container_extract_def container_reset_id_def)
  next
    case (Some e)
    have "container_extract dflt x c = Inr (e, slot_release dflt (slot_of x) c)"
      using dec Some by (simp add: container_extract_def)
    then show ?thesis
      using reset_ok[OF assms(1) Some assms(2)] release_ok[OF assms(1) Some assms(2)] by (simp add: Some)
  qed
  then show ?thesis
    using tracks_new append_ok[OF assms(1,2)] reuse_ok[OF assms(1,2)] container_get_ok[OF assms(1) k(1) assms(3)] erase
      container_ids_ok[OF assms(1) k(1)] container_size_ok[OF assms(1) k(1)] for_each_ok[OF assms(1) k(1)] by blast
qed

theorem container_refines_map_witness:
  "\<exists>j c. container_create (7 :: nat) 3 new_container = Inr (j, c) \<and> container_get j c = Some 7 \<and>
     container_get j (container_erase 0 j c) = None"
proof -
  have "empty_slots (new_container :: nat container) = []" by (simp add: new_container_def)
  from append_ok[OF tracks_new _ this, of 7 3] obtain j and c :: "nat container" where
    j: "container_create 7 3 new_container = Inr (j, c)" "tracks 1 c [j \<mapsto> 7] {j}" by auto
  have small: "(1 :: nat) < 2 ^ 24 - 2" "(1 :: nat) + 1 < 2 ^ 24" "j \<in> {j}" by simp_all
  note all = container_refines_map[OF j(2) small(1,3), of 7 3 0]
  have "container_get j c = [j \<mapsto> 7] j" using all by blast
  then have get: "container_get j c = Some 7" by simp
  have "tracks (1 + 1) (container_erase 0 j c) ([j \<mapsto> 7](j := None)) {j}" using all by blast
  from container_get_ok[OF this small(2,3)] j(1) get show ?thesis by simp
qed

text \<open>After its last generation a slot is not reused, as intended, but \<^verbatim>\<open>ids\<close> and \<^verbatim>\<open>size\<close> still count it.\<close>

theorem retired_slot_listed:
  assumes "slots c = [\<lparr>generation = - GENERATION_STEP, slot_data = d\<rparr>]" "empty_slots c = []"
  shows "container_ids (slot_release dflt 0 c) = [0] \<and> container_size (slot_release dflt 0 c) = Inr 1"
proof -
  have "slot_release dflt 0 c = c\<lparr>slots := [\<lparr>generation = 0, slot_data = dflt\<rparr>]\<rparr>"
    using assms by (simp add: slot_release_def inc_generation_def Let_def)
  then show ?thesis using assms by (simp add: container_ids_eq container_size_def live_def encode_id_def)
qed

end
