(* ===== verification/Spec2Isabelle.thy ===== *)
theory Spec2Isabelle
  imports Threads Qr_Props Td_Base64_Props Td_Base32 Td_Utf8_Text Td_Timeouts_Props Td_Tl_Props Td_Text_Props Td_Ordered_Props Td_Message_Ids_Props Td_Container_Props
begin

text \<open>
  A verification development for \<^bold>\<open>chatcurse\<close>, a Telegram client for the terminal
  (\<^verbatim>\<open>src/src\<close>), with the code generator it prints its login link with
  (\<^verbatim>\<open>src/lib/qrcodegen\<close>) and those utilities of TDLib (\<^verbatim>\<open>src/lib/td/tdutils\<close>,
  \<^verbatim>\<open>src/lib/td/tdactor\<close>) that carry data between the client and the network, with its identifiers of
  chats and messages (\<^verbatim>\<open>src/lib/td/td/telegram\<close>).

  \<^bold>\<open>The program.\<close> Two threads share the application state. The Telegram thread
  (\<^verbatim>\<open>TgClient::set_response_handlers\<close>) receives objects from TDLib, dispatches responses to the
  handlers registered with their requests and updates to the update handlers, which write the state and
  push events. The user-interface thread (the loop of \<^verbatim>\<open>main\<close>) reads a key or a mouse event, changes
  layout, cursors and scroll offsets or sends a request, pops one event and redraws what it names. Before
  the threads start, \<^verbatim>\<open>init_auth\<close> signs the user in and \<^verbatim>\<open>init_layout\<close> creates the windows.

  \<^bold>\<open>Theories, in the order of the code.\<close>
  \<^item> \<open>Prelude\<close>: faults (the undefined behaviours and escaping exceptions of the C++ code) as the left
    side of a sum, \<open>bind_r\<close>, \<open>fold_r\<close> and \<open>check_r\<close> for code that may fault, \<^verbatim>\<open>std::map\<close> access, \<^verbatim>\<open>std::set\<close>
    as a strictly sorted list with a locale for its laws; fact collections.
  \<^item> \<open>Event_Queue\<close> (\<^verbatim>\<open>event_types.h\<close>, \<^verbatim>\<open>global.cc\<close>): the coalescing queue, its locale and its
    refinement of a list of last events per type.
  \<^item> \<open>Td_Api\<close> (\<^verbatim>\<open>td_api.tl\<close>), \<open>App_State\<close> (\<^verbatim>\<open>global.h\<close>), \<open>Chat_Updates\<close> (\<^verbatim>\<open>tg.cc\<close>): the objects
    exchanged, the application state, the update handlers with the abstract chat list they implement.
  \<^item> \<open>Tg_Client\<close>, \<open>Login\<close> (\<^verbatim>\<open>tg.h\<close>, \<^verbatim>\<open>tg.cc\<close>): requests, handlers, dispatch, the authorization
    dialogue and the two receive loops; whole dialogues.
  \<^item> \<open>Curses\<close>, \<open>Layout\<close>, \<open>Layout_Facts\<close>, \<open>Layout_Inv\<close>, \<open>Layout_Steps\<close>, \<open>Layout_Props\<close> (\<^verbatim>\<open>layout.h\<close>,
    \<^verbatim>\<open>layout.cc\<close>): the curses interface as a parameter, windows in a store of live handles, drawing as a
    list of recorded calls; the invariant that five live windows tile the terminal, and what is drawn.
  \<^item> \<open>Process_Input\<close>, \<open>Input_Facts\<close>, \<open>Input_Props\<close>, \<open>Input_Claims\<close> (\<^verbatim>\<open>process_input.h\<close>,
    \<^verbatim>\<open>process_input.cc\<close>): every key of both panes and the mouse.
  \<^item> \<open>Chatcurse\<close>, \<open>Thread_Inputs\<close>, \<open>Threads\<close> and this theory (\<^verbatim>\<open>chatcurse.cc\<close>): options, the start, the main
    loop, and the interleaving of the two threads as the inductive relation \<open>step\<close>, labelled with what
    comes from outside, with the relation \<open>faults\<close> for its undefined behaviours and data races; the inputs
    under which the program lasts; the invariant of all reachable states, the faults that remain in
    them, and termination after the program was told to stop.
  \<^item> \<open>Qr_Segments\<close>, \<open>Qr_Galois\<close>, \<open>Qr_Code\<close> (\<^verbatim>\<open>qrcodegen.cpp\<close>, \<^verbatim>\<open>qrcodegen.hpp\<close>): the QR code
    generator from text to printed lines. \<open>Qr_Text\<close>, \<open>Qr_Blocks\<close>, \<open>Qr_Read\<close> hold a reader written from the
    format; \<open>Qr_Draw\<close>, \<open>Qr_Scan\<close>, \<open>Qr_Count\<close>, \<open>Qr_Mask\<close>, \<open>Qr_Penalty\<close>, \<open>Qr_Symbol\<close>, \<open>Qr_Encode\<close>, \<open>Qr_Link\<close>
    the lemmas for each stage, \<open>Qr_Props\<close> the properties: what is printed can be scanned.
    \<open>Bit_Lists\<close> has the bit strings of numbers.
  \<^item> \<open>Td_Bytes\<close>, \<open>Td_Base64\<close>, \<open>Td_Base64_Facts\<close>, \<open>Td_Base64_Props\<close>, \<open>Td_Base32\<close>
    (\<^verbatim>\<open>tdutils/td/utils/base64.cpp\<close>): the codecs of login links and their canonical form.
  \<^item> \<open>Td_Utf8\<close>, \<open>Td_Utf8_Facts\<close>, \<open>Td_Utf8_Props\<close>, \<open>Td_Utf8_Text\<close> (\<^verbatim>\<open>utf8.h\<close>, \<^verbatim>\<open>utf8.cpp\<close>): the validity
    check against the definition of UTF-8, and the text routines in terms of characters.
  \<^item> \<open>Td_Heap\<close>, \<open>Td_Heap_Facts\<close>, \<open>Td_Heap_Props\<close> (\<^verbatim>\<open>Heap.h\<close>): the K-ary heap with its node indices,
    refined to a map; the locale \<open>timer_queue\<close> is what a client may rely on.
  \<^item> \<open>Td_Timeouts\<close>, \<open>Td_Timeouts_Props\<close> (\<^verbatim>\<open>tdactor/td/actor/MultiTimeout.h\<close>, \<^verbatim>\<open>.cpp\<close>): many timeouts
    over the one of an actor, on the interface of the heap.
  \<^item> \<open>Td_Ordered\<close>, \<open>Td_Ordered_Props\<close> (\<^verbatim>\<open>OrderedEventsProcessor.h\<close>, \<^verbatim>\<open>ChangesProcessor.h\<close>): the queues
    that restore the order of events and of changes.
  \<^item> \<open>Td_Container\<close>, \<open>Td_Container_Props\<close> (\<^verbatim>\<open>Container.h\<close>): objects in slots with generations, refined to a map
    whose identifiers are never used twice.
  \<^item> \<open>Td_Tl\<close>, \<open>Td_Tl_Props\<close> (\<^verbatim>\<open>tl_storers.h\<close>, \<^verbatim>\<open>tl_parsers.h\<close>, \<^verbatim>\<open>tl_parsers.cpp\<close>): the binary form of
    all objects; \<open>Td_Text\<close>, \<open>Td_Text_Props\<close> (\<^verbatim>\<open>misc.h\<close>, \<^verbatim>\<open>misc.cpp\<close>): the string helpers.
  \<^item> \<open>Td_Ids\<close>, \<open>Td_Ids_Props\<close>, \<open>Td_Message_Ids\<close>, \<open>Td_Message_Ids_Props\<close> (\<^verbatim>\<open>td/telegram/DialogId.cpp\<close>,
    \<^verbatim>\<open>MessageId.cpp\<close> and the headers of the identifiers): the numbers in which users, chats and messages are
    named, their ranges and the order of messages.

  \<^bold>\<open>State and operations.\<close> A C++ class is a record of its fields, a method a function on the record; a
  method that may index out of range, dereference null, throw or fail a \<^verbatim>\<open>CHECK\<close> returns a sum. Integers
  that may wrap are words or are reduced explicitly. What comes from outside (curses results, keys, responses
  of TDLib, the words typed at the login prompt, uninitialised memory) is an argument or part of the initial
  world.

  \<^bold>\<open>The two threads.\<close> A step of \<open>step\<close> is one operation of one thread, from one point where it takes its input
  to the next: a key, popping an event, handling it, testing the flag, a response. It is guarded by the
  places of the threads and by the flag only. The handlers of responses hold the lock of the chat lists
  or of the messages while they use them, and drawing holds it, too; what the code uses outside these locks is
  listed by \<open>ui_accesses\<close> and \<open>tg_accesses\<close>, and a key and a response that overlap with conflicting
  accesses are the fault \<open>Data_race\<close>. Operations that overlap without a race have the effect of some
  order of them; the exception is a resize, whose drawings of the messages and of the chat list may
  show two moments with responses in between.

  \<^bold>\<open>What is shown.\<close> For the client: every state the two threads reach with acceptable input satisfies the
  program invariant, and the faults of its next operations are exactly those of a response that faults by
  itself and data races; the program stops after Ctrl-q or a quit event; an announced chat is on its line of the
  screen; beneath these, the refinement of the event queue and of the chat lists, the dispatch of responses, the
  login dialogue, the layout invariant and the effect of the keys. For the QR generator: totality, codewords,
  masks, the round trip from text to the scanned symbol and to the printed lines. For the utilities: round
  trips and exact acceptance of the codecs, safety of the parser on every input, the refinement of the
  heap, of the timeouts, of the container and of the ordering queues, and the ranges and order of the
  identifiers. Where the code does something else than it means to, a theorem states what it does: a chat
  listed again stays in the list twice (\<open>Chat_Updates\<close>, with the message of the same second that is dropped), \<^verbatim>\<open>G\<close> in the message window scrolls beyond the messages
  (\<open>Input_Claims\<close>), drawing beyond the end and a composer of no line fault (\<open>Layout_Props\<close>), the termination flag has no
  initial value (below), a login link that is too long for a code ends the program (\<open>Tg_Client\<close>), a key and a
  response race (below), the last 64-bit number of an ordered event is lost (\<open>Td_Ordered_Props\<close>), two numbers
  between the ranges of chat identifiers have a wrong type (\<open>Td_Ids_Props\<close>), truncation inside a surrogate pair cuts nothing (\<open>Td_Utf8_Text\<close>).

  \<^bold>\<open>Bounds and hypotheses.\<close> No definition uses fuel: the loops that are not structural have a measure,
  and the two receive loops consume the list of responses the environment gives. \<open>curses_ok\<close> is what the
  curses and panel manuals promise. The steps of the code have no hypothesis; the properties of the
  threads are about acceptable input, the predicate \<open>input_ok\<close> on the input and the state before it:
  \<open>key_ok\<close> leaves out drags that give a window no cell, \<^verbatim>\<open>G\<close> in the message window, and \<^verbatim>\<open>o\<close> while that
  window is scrolled or no request number is left (\<open>ids_left\<close>, below \<open>2 ^ 31\<close>); \<open>terminal_ok\<close> asks for a terminal with
  room for the panes; \<open>arrival_ok\<close> asks of a response that an announced chat is new and a chat added to
  a list is known and not in it (\<open>response_ok\<close>, as \<^verbatim>\<open>td_api.tl\<close> has it), that it takes no chat out of a
  list that is scrolled to its end, and that its texts and the containers stay below their limits of
  memory (\<open>room_for\<close>, \<open>2 ^ 31\<close> and \<open>2 ^ 63\<close>). Responses that fault by themselves are not left out. What happens
  with the keys left out is stated by the theories named above. Heaps hold
  fewer than \<open>2 ^ 31\<close> elements and have at least one child per node (\<open>K > 0\<close>), strings are shorter than \<open>2 ^ 63\<close> bytes
  (\<open>2 ^ 64\<close> in the computed lengths), tokens are below \<open>2 ^ 64\<close>, numbers of events are words below \<open>2 ^ 64 - 1\<close>, keys
  of timeouts are \<^verbatim>\<open>int64\<close>, a container sees fewer than \<open>2 ^ 24 - 2\<close> operations (the generations of a slot). Each
  property with a hypothesis has a witness at a concrete input.

  \<^bold>\<open>Not modelled.\<close> The logging helpers (\<^verbatim>\<open>utils.h\<close>, \<^verbatim>\<open>utils.cc\<close>) and all log output; the set-up of the
  terminal, the signals and the wait for a debugger in \<^verbatim>\<open>main\<close>. Of TDLib everything else: the
  managers, the network, the database (with the SQLite it includes) and the generated API are
  third-party code that the client uses only through \<^verbatim>\<open>ClientManager\<close>, where its responses are the input of the model. Of \<^verbatim>\<open>utf8.cpp\<close> case folding and search words,
  which rest on the generated Unicode tables; of \<^verbatim>\<open>misc.h\<close> \<^verbatim>\<open>to_double\<close>, \<^verbatim>\<open>to_integer_safe\<close> and
  \<^verbatim>\<open>narrow_cast\<close>, which rest on stream formatting and on templates over all types; of \<^verbatim>\<open>tl_parsers.h\<close> the sharing
  of memory by \<^verbatim>\<open>BufferSlice\<close>; re-entrant calls of the functions given to the ordering queues.
\<close>

section \<open>The command line\<close>

definition valid_options :: "string list" where
  "valid_options = [''--debug'', ''--attach'', ''--use-test-dc'', ''--logout'']"

lemma parse_options_eq:
  "parse_options args (opt, debug) =
    (case find (\<lambda>a. a \<notin> set valid_options) args of
       Some a \<Rightarrow> Inl a
     | None \<Rightarrow> Inr (\<lparr>use_test_dc = use_test_dc opt \<or> ''--use-test-dc'' \<in> set args,
                       logout_next = logout_next opt \<or> ''--logout'' \<in> set args,
                       debug_attach = debug_attach opt \<or> ''--attach'' \<in> set args\<rparr>,
                     debug \<or> ''--debug'' \<in> set args))"
proof (induction args arbitrary: opt debug)
  case Nil
  then show ?case by simp
next
  case (Cons a args)
  consider "a = ''--debug''" | "a = ''--attach''" | "a = ''--use-test-dc''" | "a = ''--logout''"
    | "a \<notin> set valid_options" by (auto simp: valid_options_def)
  then show ?case
  proof cases
    case 5
    then have "parse_options (a # args) (opt, debug) = Inl a" by (simp add: valid_options_def)
    with 5 show ?thesis by simp
  qed (simp_all add: Cons.IH valid_options_def cong: option.case_cong)
qed

text \<open>The command line is accepted exactly when every argument is one of the four options, whatever
  their order and number; then each option is on exactly when it occurs. Otherwise the program exits
  with a message about the first argument that is no option.\<close>

theorem command_line:
  "parse_options args (default_options, False) =
    (case find (\<lambda>a. a \<notin> set valid_options) args of
       Some a \<Rightarrow> Inl a
     | None \<Rightarrow> Inr (\<lparr>use_test_dc = (''--use-test-dc'' \<in> set args),
                       logout_next = (''--logout'' \<in> set args),
                       debug_attach = (''--attach'' \<in> set args)\<rparr>, ''--debug'' \<in> set args))"
  by (simp add: parse_options_eq default_options_def cong: option.case_cong)

section \<open>The start\<close>

text \<open>C11: On a terminal of at least 5 lines and 4 columns, with a client in order that has shown
  nothing yet, the start of the user interface succeeds, sends one request, for as many chats as the
  chat list has lines, leaves the shared state alone, enters the loop, and establishes the invariant of
  the two threads.\<close>

theorem start_establishes:
  assumes "curses_ok api" "4 \<le> COLS sc" "5 \<le> LINES sc" "COLS sc < 2 ^ 31" "LINES sc < 2 ^ 31"
    and "windows sc = Map.empty" "panels sc = Map.empty" "cursor_positions sc = Map.empty"
    and "world_good w" "ids_left 1 w"
    and "chosen_chat_id (app_state (shared w)) = - 1" "scroll_offset (app_state (shared w)) = Map.empty"
  shows "\<exists>m. start_ui api w sc = Inr m \<and> sys_inv \<lparr>mach = m, ui = At_input, tg = At_check\<rparr>
    \<and> requests (wd m) = requests w @ [LoadChats ChatListMain (LINES sc - composer_h (scr m) - 1)]
    \<and> shared (wd m) = shared w \<and> cont m"
proof -
  let ?a = "app_state (shared w)"
  have scroll: "scroll_of ?a k = 0" for k using assms(12) by (simp add: scroll_of_def)
  have draw: "side_drawable ?a" "main_drawable ?a"
    using assms(9,11) scroll
    by (simp_all add: side_drawable_def main_drawable_def world_good_def tg_inv_def app_inv_def)
  have empty: "windows (init_config sc) = Map.empty" "panels (init_config sc) = Map.empty"
    using assms(6,7) by (simp_all add: init_config_def)
  obtain sc1 where sc1: "init_layout api ?a (init_config sc) = Inr sc1" "layout_inv sc1"
    "current_pan sc1 = ID_SIDE" "cursor_positions sc1 = Map.empty" "LINES sc1 = LINES sc"
    using init_layout_state[OF assms(1) empty init_config_fits[OF assms(2-5)] draw] assms(8)
    by (auto simp: init_config_def)
  have w: "windows_inv sc1" using sc1(2) by (simp add: layout_inv_def)
  have "cursor_in sc1 k" if k: "k \<in> set pane_ids" for k
  proof -
    obtain r where "panel_rect sc1 k = Some r" "size_ok r"
      using windows_inv_panel[OF w pane_ids_sub[OF k]] by metis
    then show ?thesis by (simp add: cursor_in_def cursor_of_def sc1(4) size_ok_def)
  qed
  then have inv: "screen_inv sc1"
    using sc1 by (simp add: screen_inv_def cursors_in_def pane_ids_def)
  obtain wdw where "panel_window sc1 ID_SIDE = Some wdw" "shows_window sc1 ID_SIDE wdw
      \<lparr>r_y = 0, r_x = 0, r_rows = LINES sc1 - composer_h sc1 - 1, r_cols = side_w sc1\<rparr>"
    using layout_shows(1)[OF sc1(2)] by blast
  then have rows: "getmaxy api (panel_window sc1 ID_SIDE) sc1 = Inr (LINES sc - composer_h sc1 - 1)"
    using shows_window_getmaxyx[OF assms(1), of sc1 ID_SIDE] sc1(5) by (fastforce simp: getmaxy_def)
  let ?m = "\<lparr>wd = init_data (LINES sc - composer_h sc1 - 1) w, scr = sc1,
      input_state = initial_input_state, cont = True\<rparr>"
  have "start_ui api w sc = Inr ?m" by (simp add: start_ui_def sc1(1) rows)
  moreover have "scrolls_ok (app ?m)"
    using scroll assms(11) by (simp add: scrolls_ok_def app_def init_data_def)
  moreover have "requests (wd ?m) = requests w @ [LoadChats ChatListMain (LINES sc - composer_h sc1 - 1)]"
    by (simp add: requests_def init_data_def send_query_def next_query_id_def Let_def)
  moreover have "shared (wd ?m) = shared w \<and> cont ?m" by (simp add: init_data_def)
  ultimately show ?thesis
    using inv world_good_init_data[OF assms(9,10)] by (simp add: sys_inv_def)
qed

lemma world_good_start: "world_good (start_world opts' example_environment)"
  using env_ok_example tg_inv_start
  by (simp add: world_good_def)
    (simp add: data_ok_def start_world_def new_tg_client_def Let_def new_app_state_def texts_ok_def
      messages_of_def position_set_def)

lemma start_world_view:
  "chosen_chat_id (app_state (shared (start_world opts' e))) = - 1"
  "scroll_offset (app_state (shared (start_world opts' e))) = Map.empty"
  by (simp_all add: start_world_def new_tg_client_def Let_def new_app_state_def)

theorem start_establishes_witness:
  "\<exists>m. start_ui plain_curses (start_world default_options example_environment) (blank_screen 24 80) = Inr m
    \<and> sys_inv \<lparr>mach = m, ui = At_input, tg = At_check\<rparr>"
  using start_establishes[OF curses_ok_plain, of "blank_screen 24 80"
      "start_world default_options example_environment"] world_good_start ids_left_start[of 1]
  by (auto simp: blank_screen_def start_world_view)

section \<open>The two threads\<close>

lemma example_system_inv: "sys_inv \<lparr>mach = example_machine, ui = At_input, tg = At_check\<rparr>"
proof -
  let ?w0 = "start_world \<lparr>use_test_dc = False, logout_next = False, debug_attach = False\<rparr>
      example_environment"
  have ms: "messages_of example_state c = (if c = 7 then
      [\<lparr>msg_id = 2, msg_chat_id = 7, msg_date = 60, msg_content = MessageText ''yes''\<rparr>,
       \<lparr>msg_id = 1, msg_chat_id = 7, msg_date = 30, msg_content = MessageText ''hi''\<rparr>] else [])" for c
    by (simp add: messages_of_def example_state_def at_def_def)
  have ps: "position_set example_state l = (if l = chat_list_id ChatListMain then [(9, 8), (5, 7)] else [])" for l
    by (simp add: position_set_def example_state_def at_def_def)
  have "app_inv example_state"
    using example_state_drawable(1)
    by (simp add: app_inv_def side_drawable_def messages_ok_def ms oset_def)
  moreover have "data_ok example_state"
    by (simp add: data_ok_def ms ps texts_ok_def)
  ultimately have "world_good (?w0\<lparr>shared := \<lparr>app_state = example_state, events = empty_event_queue\<rparr>\<rparr>)"
    using tg_inv_start env_ok_example
    by (simp add: world_good_def tg_inv_def handlers_inv_def auth_inv_def env_ok_def)
  then have "world_good (wd example_machine)" by (simp add: example_machine_def)
  then show ?thesis
    using ui_inv_scrolls[OF example_machine_inv] ui_invD(1)[OF example_machine_inv]
    by (simp add: sys_inv_def)
qed


lemma example_machine_events: "events (shared (wd example_machine)) = empty_event_queue"
  by (simp add: example_machine_def)

lemma example_no_resize: "no_resize \<lparr>mach = example_machine, ui = At_input, tg = g\<rparr>"
  by (simp add: no_resize_def resize_waits_def example_machine_def empty_event_queue_def)



text \<open>C13: After Ctrl-q was read, or a quit event handled, the program stops: from then on, however the
  two threads interleave and whatever acceptable input they get, they take at most four more steps, none of
  which reads a key, and they can take a step exactly as long as not both have left their loops. The
  state before is one of the invariant, with no resize event waiting.\<close>

theorem quit_stops:
  assumes "curses_ok api" "sys_inv s" "no_resize s" "step api s a s1"
    and "a = Key_read CTRL_q \<or> (a = Handled \<and> ui s = At_event event_quit)"
    and "(good_step api ^^ n) s1 s'"
  shows "n \<le> 4 \<and> ui s' \<noteq> At_input
    \<and> ((\<exists>t. good_step api s' t) \<longleftrightarrow> \<not> (ui s' = Ui_stopped \<and> tg s' = Tg_stopped))"
proof -
  note q = quit_step_stops[OF assms(4,5)]
  have inv1: "sys_inv s1" "no_resize s1"
    using step_keeps_inv[OF assms(4) q(2) assms(1-3)] no_resize_step[OF assms(4,3)] .
  have inv: "sys_inv s'" "no_resize s'"
    using run_invariant[OF relpowp_imp_rtranclp[OF assms(6)] assms(1) inv1] by simp_all
  note run = stopping_run[OF q(1) assms(6)]
  have "n \<le> 4" using run stopping_max[OF q(1)] by linarith
  moreover have "ui s' \<noteq> At_input" using run by (simp add: stopping_def)
  moreover have "(\<exists>t. good_step api s' t) \<longleftrightarrow> \<not> (ui s' = Ui_stopped \<and> tg s' = Tg_stopped)"
    using stopped_no_step stopping_progress[OF assms(1) inv] run by (auto simp: steps_left_0)
  ultimately show ?thesis by blast
qed

theorem quit_stops_witness:
  "\<exists>s1 s'. step plain_curses \<lparr>mach = example_machine, ui = At_input, tg = At_check\<rparr> (Key_read CTRL_q) s1
    \<and> (good_step plain_curses ^^ 1) s1 s' \<and> tg s' = Tg_stopped \<and> ui s' = At_pop
    \<and> (\<exists>t. good_step plain_curses s' t)"
proof -
  let ?s = "\<lparr>mach = example_machine, ui = At_input, tg = At_check\<rparr>"
  let ?m = "on_app (set_terminating True) (example_machine\<lparr>cont := False\<rparr>)"
  let ?s1 = "\<lparr>mach = ?m, ui = At_pop, tg = At_check\<rparr>"
  let ?s2 = "\<lparr>mach = ?m, ui = At_pop, tg = Tg_stopped\<rparr>"
  have s1: "step plain_curses ?s (Key_read CTRL_q) ?s1"
    using step.ui_input[of ?s plain_curses CTRL_q ?m] by (simp add: ctrl_q_input)
  have "step plain_curses ?s1 Tested ?s2"
    using step.tg_return[of ?s1 plain_curses] by (simp add: terminating_def set_terminating_def)
  moreover have "input_ok ?s1 Tested" by (simp add: input_ok_def)
  ultimately have "good_step plain_curses ?s1 ?s2" unfolding good_step_def by blast
  then have run: "(good_step plain_curses ^^ 1) ?s1 ?s2" by (simp only: One_nat_def relpowp.simps eq_OO)
  from quit_stops[OF curses_ok_plain example_system_inv example_no_resize s1 _ run]
  have "\<exists>t. good_step plain_curses ?s2 t" by simp
  with s1 run show ?thesis by (intro exI[of _ ?s1] exI[of _ ?s2]) simp
qed

text \<open>The flag the Telegram thread tests before every response has no initial value. If the memory of
  the new application state happens to hold a non-zero byte there, the thread returns at once and no
  response is ever processed; otherwise it processes all of them, as long as none of them faults.\<close>

theorem uninitialised_flag:
  "set_response_handlers rs (new_tg_client w) =
    (if garbage_terminating (sys w) then Inr (new_tg_client w, True)
     else bind_r (fold_r process_response rs (new_tg_client w)) (\<lambda>w'. Inr (w', False)))"
proof -
  have run: "\<not> st_terminating (app_state (shared v)) \<Longrightarrow>
      set_response_handlers rs v = bind_r (fold_r process_response rs v) (\<lambda>w'. Inr (w', False))" for v
  proof (induction rs arbitrary: v)
    case Nil
    then show ?case by (simp add: terminating_def)
  next
    case (Cons r rs)
    show ?case
    proof (cases "process_response r v")
      case (Inl e)
      with Cons.prems show ?thesis by (simp add: terminating_def)
    next
      case (Inr v1)
      then have "\<not> st_terminating (app_state (shared v1))"
        using process_response_terminating[OF Inr] Cons.prems by simp
      with Cons.IH[of v1] Cons.prems Inr show ?thesis by (simp add: terminating_def)
    qed
  qed
  have "st_terminating (app_state (shared (new_tg_client w))) = garbage_terminating (sys w)"
    by (simp add: new_tg_client_def Let_def new_app_state_def send_query_def next_query_id_def)
  with run[of "new_tg_client w"] show ?thesis
    by (cases rs) (simp_all add: terminating_def)
qed

section \<open>From an update to the screen\<close>

lemma chatlist_event_drawn:
  assumes api: "curses_ok api" and inv: "screen_inv (scr m)" and side: "side_drawable (app m)"
    and ps: "ps = position_set (app m) (current_chatlist (app m))"
  shows "\<exists>s cs. handle_event api event_chatlist m = Inr (m\<lparr>scr := s\<rparr>) \<and> calls s = calls (scr m) @ cs
    \<and> lines_written (panel_window (scr m) ID_SIDE) cs =
        map (\<lambda>j. (int j, side_row (app m) (nat (side_w (scr m)))
               (nth_opt ps (unat (scroll_of (app m) ID_SIDE) + j))))
            [0..<min (length ps) (nat (LINES (scr m) - composer_h (scr m) - 1))]"
proof -
  note i = screen_invD[OF inv]
  let ?s0 = "curs_set 0 (scr m)"
  let ?rows = "map (\<lambda>j. (int j, side_row (app m) (nat (side_w (scr m)))
      (nth_opt ps (unat (scroll_of (app m) ID_SIDE) + j))))
    [0..<min (length ps) (nat (LINES (scr m) - composer_h (scr m) - 1))]"
  have d0: "draws (scr m) ?s0" by simp
  obtain win where win: "panel_window (scr m) ID_SIDE = Some win" "shows_window (scr m) ID_SIDE win
      \<lparr>r_y = 0, r_x = 0, r_rows = LINES (scr m) - composer_h (scr m) - 1, r_cols = side_w (scr m)\<rparr>"
    using layout_shows(1)[OF i(2)] by blast
  then have "shows_window ?s0 ID_SIDE win
      \<lparr>r_y = 0, r_x = 0, r_rows = LINES (scr m) - composer_h (scr m) - 1, r_cols = side_w (scr m)\<rparr>"
    by (simp add: shows_window_def draws_frame[OF d0])
  from draw_side_eq[OF api this] side obtain cs where cs:
    "draw_side api (app m) ?s0 = Inr (?s0\<lparr>calls := calls ?s0 @ cs\<rparr>)" "lines_written (Some win) cs = ?rows"
    by (auto simp: side_drawable_def ps)
  let ?s1 = "?s0\<lparr>calls := calls ?s0 @ cs\<rparr>"
  have d1: "draws (scr m) ?s1" using d0 draws_trans by (fastforce simp: draws_def)
  let ?s2 = "record_call Update_panels ?s1"
  have s2: "update_panels ?s1 = Inr ?s2"
    using windows_inv_alive[of ?s1] i(1) draws_inv(1)[OF d1] by (simp add: update_panels_def list_all_iff)
  have d2: "draws (scr m) ?s2" using d1 by simp
  let ?p = "panel_window ?s2 (current_pan ?s2)" and ?c = "cursor_of ?s2 (current_pan ?s2)"
  let ?s3 = "record_call (Wnoutrefresh ?p) (record_call (Wmove ?p (fst ?c) (snd ?c)) ?s2)"
  have "alive ?p ?s2"
    using windows_inv_alive[OF i(1) pane_ids_sub[OF i(5)]]
    by (simp add: draws_derived[OF d2] draws_frame[OF d2] draws_derived[OF d0])
  then have s3: "draw_cursor ?s2 = Inr ?s3" by (simp add: draw_cursor_def Let_def on_window_alive)
  have "handle_event api event_chatlist m = Inr (m\<lparr>scr := curs_set 1 (doupdate ?s3)\<rparr>)"
    by (simp only: handle_event_def event.case on_scr_def cs(1) s2 s3 bind_r_simps)
  moreover have "calls (curs_set 1 (doupdate ?s3)) = calls (scr m) @ (Curs_set 0 # cs @
      [Update_panels, Wmove ?p (fst ?c) (snd ?c), Wnoutrefresh ?p, Doupdate, Curs_set 1])"
    by (simp add: curs_set_def doupdate_def)
  moreover have "lines_written (Some win) (Curs_set 0 # cs @
      [Update_panels, Wmove ?p (fst ?c) (snd ?c), Wnoutrefresh ?p, Doupdate, Curs_set 1]) = ?rows"
    by (simp add: cs(2))
  ultimately show ?thesis unfolding win(1) by blast
qed

text \<open>An iteration without input that finds the event of the chat list alone in the queue.\<close>

lemma chatlist_iteration:
  assumes "curses_ok api" "screen_inv (scr m)" "side_drawable (app m)"
    and "ps = position_set (app m) (current_chatlist (app m))"
    and "events (shared (wd m)) = push event_chatlist empty_event_queue"
  shows "\<exists>s cs. ui_iteration api ERR m =
      Inr (m\<lparr>wd := upd_shared (\<lambda>s. s\<lparr>events := empty_event_queue\<rparr>) (wd m), scr := s\<rparr>)
    \<and> calls s = calls (scr m) @ cs
    \<and> lines_written (panel_window (scr m) ID_SIDE) cs =
        map (\<lambda>j. (int j, side_row (app m) (nat (side_w (scr m)))
               (nth_opt ps (unat (scroll_of (app m) ID_SIDE) + j))))
            [0..<min (length ps) (nat (LINES (scr m) - composer_h (scr m) - 1))]"
proof -
  let ?m1 = "m\<lparr>wd := upd_shared (\<lambda>s. s\<lparr>events := empty_event_queue\<rparr>) (wd m)\<rparr>"
  have app: "app ?m1 = app m" by (simp add: app_def)
  have "pop_and_get (push event_chatlist empty_event_queue) = Inr (Some event_chatlist, empty_event_queue)"
    by (simp add: push_def pop_and_get_def empty_event_queue_def)
  then have pop: "pop_event m = Inr (Some event_chatlist, ?m1)" by (simp add: pop_event_def assms(5))
  have input: "process_input api ERR m = Inr m"
    by (simp add: process_input_def process_common_def process_pane_other pane_keys_def)
  from chatlist_event_drawn[OF assms(1), of ?m1 ps] assms(2-4) obtain s cs where
    "handle_event api event_chatlist ?m1 = Inr (?m1\<lparr>scr := s\<rparr>)" "calls s = calls (scr m) @ cs"
    "lines_written (panel_window (scr m) ID_SIDE) cs =
        map (\<lambda>j. (int j, side_row (app m) (nat (side_w (scr m)))
               (nth_opt ps (unat (scroll_of (app m) ID_SIDE) + j))))
            [0..<min (length ps) (nat (LINES (scr m) - composer_h (scr m) - 1))]"
    by (auto simp: app)
  then show ?thesis by (auto simp: ui_iteration_def input pop)
qed

text \<open>The order an announced chat gets in a list: that of its last position there, or 0.\<close>

definition announced_order :: "int \<Rightarrow> chat \<Rightarrow> int" where
  "announced_order l ch =
     foldl (\<lambda>q p. if chat_list_id (pos_list p) = l then pos_order p else q) 0 (chat_positions ch)"

lemma listed_after_fold:
  assumes "l \<in> chat_list_id ` set ls"
  shows "position_map (fold (list_chat cid) ls st) l cid = Some 0"
proof -
  have keep: "position_map (fold (list_chat cid) ks t) l cid = Some 0"
    if "position_map t l cid = Some 0" for ks t
    using that by (induction ks arbitrary: t) (simp_all add: position_map_list_chat)
  show ?thesis
    using assms
  proof (induction ls arbitrary: st)
    case Nil
    then show ?case by simp
  next
    case (Cons li ls)
    then show ?case
      using keep[of "list_chat cid li st" ls]
      by (cases "l = chat_list_id li") (auto simp: position_map_list_chat)
  qed
qed

lemma others_after_fold:
  assumes "c \<noteq> cid"
  shows "position_map (fold (list_chat cid) ls st) l c = position_map st l c"
    "position_map (fold (update_position cid) ps st) l c = position_map st l c"
proof -
  show "position_map (fold (list_chat cid) ls st) l c = position_map st l c"
    using assms by (induction ls arbitrary: st) (simp_all add: position_map_list_chat)
  show "position_map (fold (update_position cid) ps st) l c = position_map st l c"
    using assms by (induction ps arbitrary: st) (simp_all add: position_map_update_position)
qed

lemma order_after_fold:
  assumes "position_map st l cid = Some q" "\<not> removes_from l ps"
  shows "position_map (fold (update_position cid) ps st) l cid =
    Some (foldl (\<lambda>q p. if chat_list_id (pos_list p) = l then pos_order p else q) q ps)"
  using assms
proof (induction ps arbitrary: st q)
  case Nil
  then show ?case by simp
next
  case (Cons p ps)
  let ?q = "if chat_list_id (pos_list p) = l then pos_order p else q"
  have "position_map (update_position cid p st) l cid = Some ?q" "\<not> removes_from l ps"
    using Cons.prems by (auto simp: position_map_update_position removes_from_def)
  with Cons.IH show ?case by simp
qed

lemma announced_listed:
  assumes "app_inv (app_state s)" "announces_new (app_state s) (chat_id ch)"
    and "l \<in> chat_list_id ` set (chat_lists ch)" "\<not> removes_from l (chat_positions ch)"
  shows "set (position_set (app_state (process_update_new_chat ch s)) l) =
    insert (announced_order l ch, chat_id ch) {q \<in> set (position_set (app_state s) l). snd q \<noteq> chat_id ch}"
proof -
  let ?st1 = "fold (list_chat (chat_id ch)) (chat_lists ch) (app_state s)"
  let ?st = "app_state (process_update_new_chat ch s)"
  have map: "position_map ?st l = position_map (fold (update_position (chat_id ch)) (chat_positions ch) ?st1) l"
    by (simp add: process_update_new_chat_def Let_def)
  have ok: "chat_lists_ok ?st" "chat_lists_ok (app_state s)"
    using app_inv_new_chat[OF assms(1,2)] assms(1) by (simp_all add: app_inv_def)
  have new: "position_map ?st l (chat_id ch) = Some (announced_order l ch)"
    using order_after_fold[OF listed_after_fold[OF assms(3)] assms(4)] by (simp add: map announced_order_def)
  have "(q, c) \<in> set (position_set ?st l) \<longleftrightarrow> (if c = chat_id ch then q = announced_order l ch
      else (q, c) \<in> set (position_set (app_state s) l))" for q c
    unfolding chat_lists_okD(2)[OF ok(1)] chat_lists_okD(2)[OF ok(2)]
    using new by (auto simp: map others_after_fold)
  then show ?thesis by (auto split: if_splits)
qed

text \<open>C14: An update reaches the screen. When TDLib announces a new chat that is in the current list, with
  no position that takes it out again, while no event waits, then processing the response and the next
  iteration of the main loop without input succeed; afterwards the list has the chat with the order of its
  last position there (0 without one) beside the chats it had, the chat list is redrawn from the scroll offset, one line per
  chat, and if the place of the chat in the list is on the lines of the window, that line shows its
  title (or that the account is deleted), cut or filled to the width. The event queue is empty again. The
  announcement is acceptable input: a new chat, while memory and request identifiers last.\<close>

theorem announced_chat_displayed:
  assumes "curses_ok api" "world_good (wd m)" "screen_inv (scr m)" "scrolls_ok (app m)"
    and "r = \<lparr>resp_request_id = 0, resp_object = Some (Update (UpdateNewChat ch))\<rparr>" "arrival_ok r (wd m)"
    and "l = current_chatlist (app m)" "l \<in> chat_list_id ` set (chat_lists ch)"
    and "\<not> removes_from l (chat_positions ch)" "events (shared (wd m)) = empty_event_queue"
  shows "\<exists>w m' cs k ps. process_response r (wd m) = Inr w
    \<and> ui_iteration api ERR (m\<lparr>wd := w\<rparr>) = Inr m' \<and> calls (scr m') = calls (scr m) @ cs
    \<and> ps = position_set (app m') l
    \<and> set ps = insert (announced_order l ch, chat_id ch) {q \<in> set (position_set (app m) l). snd q \<noteq> chat_id ch}
    \<and> distinct ps \<and> k < length ps \<and> ps ! k = (announced_order l ch, chat_id ch)
    \<and> lines_written (panel_window (scr m) ID_SIDE) cs =
        map (\<lambda>j. (int j, side_row (app m') (nat (side_w (scr m)))
               (nth_opt ps (unat (scroll_of (app m) ID_SIDE) + j))))
            [0..<min (length ps) (nat (LINES (scr m) - composer_h (scr m) - 1))]
    \<and> (\<forall>j < nat (LINES (scr m) - composer_h (scr m) - 1). k = unat (scroll_of (app m) ID_SIDE) + j \<longrightarrow>
         (int j, c_str (if chat_title ch = [] then take (nat (side_w (scr m))) ''deleted account''
                        else fit (nat (side_w (scr m))) (chat_title ch)))
           \<in> set (lines_written (panel_window (scr m) ID_SIDE) cs))
    \<and> events (shared (wd m')) = empty_event_queue"
proof -
  have new: "announces_new (app m) (chat_id ch)" and fault: "response_fault r (wd m) = None"
    using assms(5,6) by (simp_all add: arrival_ok_def response_ok_def response_fault_def app_def
        is_update_option_def)
  let ?w = "upd_shared (process_update_new_chat ch) (wd m)"
  have w: "process_response r (wd m) = Inr ?w"
    by (simp add: assms(5) process_response_def is_update_option_def)
  have good: "world_good ?w" "scrolls_ok (app_state (shared ?w))"
    using response_step[OF assms(2) _ assms(6) fault] assms(4) w by (simp_all add: app_def)
  let ?m1 = "m\<lparr>wd := upd_shared (\<lambda>s. s\<lparr>events := empty_event_queue\<rparr>) ?w\<rparr>"
  have st: "app ?m1 = app_state (process_update_new_chat ch (shared (wd m)))" by (simp add: app_def)
  have view: "current_chatlist (app ?m1) = l" "scroll_of (app ?m1) ID_SIDE = scroll_of (app m) ID_SIDE"
    "id_to_chat (app ?m1) (chat_id ch) = Some ch"
    by (simp_all add: st assms(7) process_update_new_chat_def Let_def app_def scroll_of_def)
  let ?ps = "position_set (app ?m1) l"
  have "side_drawable (app (m\<lparr>wd := ?w\<rparr>))"
    using good by (simp add: app_def world_good_def tg_inv_def app_inv_def side_drawable_def scrolls_ok_def)
  with chatlist_iteration[OF assms(1), of "m\<lparr>wd := ?w\<rparr>" ?ps] assms(3,10) view obtain s cs where
    ev: "ui_iteration api ERR (m\<lparr>wd := ?w\<rparr>) = Inr (?m1\<lparr>scr := s\<rparr>)" "calls s = calls (scr m) @ cs"
    and rows: "lines_written (panel_window (scr m) ID_SIDE) cs =
        map (\<lambda>j. (int j, side_row (app ?m1) (nat (side_w (scr m)))
               (nth_opt ?ps (unat (scroll_of (app m) ID_SIDE) + j))))
            [0..<min (length ?ps) (nat (LINES (scr m) - composer_h (scr m) - 1))]"
    by (auto simp: app_def)
  have start: "app_inv (app_state (shared (wd m)))" "announces_new (app_state (shared (wd m))) (chat_id ch)"
    using new assms(2) by (simp_all add: app_def world_good_def tg_inv_def)
  have listed: "set ?ps = insert (announced_order l ch, chat_id ch)
      {q \<in> set (position_set (app m) l). snd q \<noteq> chat_id ch}"
    using announced_listed[OF start assms(8,9)] unfolding st app_def[of m] .
  then have "(announced_order l ch, chat_id ch) \<in> set ?ps" by (simp only: insertI1)
  then obtain k where k: "k < length ?ps" "?ps ! k = (announced_order l ch, chat_id ch)"
    unfolding in_set_conv_nth by blast
  have "distinct ?ps"
    using good listed_once[of "app ?m1" l]
    by (simp add: st world_good_def tg_inv_def app_inv_def distinct_map)
  have shown: "(int j, c_str (if chat_title ch = [] then take (nat (side_w (scr m))) ''deleted account''
                        else fit (nat (side_w (scr m))) (chat_title ch)))
           \<in> set (lines_written (panel_window (scr m) ID_SIDE) cs)"
    if "j < nat (LINES (scr m) - composer_h (scr m) - 1)" "k = unat (scroll_of (app m) ID_SIDE) + j" for j
    using that k view(3) unfolding rows
    by (auto simp: image_iff nth_opt_def side_row_def intro!: bexI[of _ j])
  with w ev rows k shown listed \<open>distinct ?ps\<close> show ?thesis
    by (intro exI[of _ ?w] exI[of _ "?m1\<lparr>scr := s\<rparr>"] exI[of _ cs] exI[of _ k] exI[of _ ?ps])
      (simp add: app_def)
qed

theorem announced_chat_displayed_witness:
  "\<exists>w m' cs. process_response \<lparr>resp_request_id = 0, resp_object = Some (Update (UpdateNewChat
        \<lparr>chat_id = 9, chat_title = ''Cy'', chat_last_message = None,
         chat_positions = [\<lparr>pos_list = ChatListMain, pos_order = 7\<rparr>],
         chat_lists = [ChatListMain]\<rparr>))\<rparr> (wd example_machine) = Inr w
    \<and> ui_iteration plain_curses ERR (example_machine\<lparr>wd := w\<rparr>) = Inr m'
    \<and> calls (scr m') = calls example_screen @ cs
    \<and> (\<exists>k < 3. (int k, ''Cy                  '') \<in> set (lines_written (panel_window example_screen ID_SIDE) cs))"
proof -
  let ?ch = "\<lparr>chat_id = 9, chat_title = ''Cy'', chat_last_message = None,
         chat_positions = [\<lparr>pos_list = ChatListMain, pos_order = 7\<rparr>], chat_lists = [ChatListMain]\<rparr>"
  let ?r = "\<lparr>resp_request_id = 0, resp_object = Some (Update (UpdateNewChat ?ch))\<rparr>"
  note inv = example_system_inv[unfolded sys_inv_def, simplified]
  have st: "app_state (shared (wd example_machine)) = example_state" by (simp add: example_machine_def)
  have ids: "ids_left 1 (wd example_machine)"
    using ids_left_start[of 1] by (simp add: example_machine_def ids_left_def)
  have "length (position_set example_state l) + 1 < 2 ^ 63" for l
    by (simp add: position_set_def example_state_def at_def_def)
  moreover have "announces_new example_state 9"
    by (simp add: announces_new_def position_map_def example_state_def at_def_def)
  ultimately have ok: "arrival_ok ?r (wd example_machine)"
    using ids by (simp add: arrival_ok_def response_ok_def st removes_from_def Let_def)
  have ps: "set (position_set example_state (chat_list_id ChatListMain)) = {(9, 8), (5, 7)}"
    by (simp add: position_set_def example_state_def at_def_def)
  have e: "announced_order (chat_list_id ChatListMain) ?ch = 7" "scroll_of example_state k = 0"
    "current_chatlist example_state = chat_list_id ChatListMain" for k
    by (simp_all add: announced_order_def scroll_of_def example_state_def new_app_state_def at_def_def)
  have nine: "c_str (fit 20 ''Cy'') = ''Cy                  ''"
    by (simp add: fit_def c_str_def numeral_eq_Suc)
  let ?l = "chat_list_id ChatListMain" and ?win = "panel_window (scr example_machine) ID_SIDE"
    and ?rows = "nat (LINES (scr example_machine) - composer_h (scr example_machine) - 1)"
    and ?width = "nat (side_w (scr example_machine))"
  have pre: "world_good (wd example_machine)" "screen_inv (scr example_machine)"
    "scrolls_ok (app example_machine)" "?l = current_chatlist (app example_machine)"
    "?l \<in> chat_list_id ` set (chat_lists ?ch)" "\<not> removes_from ?l (chat_positions ?ch)"
    using inv by (simp_all add: e removes_from_def)
  obtain w m' cs k and xs :: "chat_order list" where r: "process_response ?r (wd example_machine) = Inr w"
    "ui_iteration plain_curses ERR (example_machine\<lparr>wd := w\<rparr>) = Inr m'"
    "calls (scr m') = calls (scr example_machine) @ cs"
    "set xs = insert (announced_order ?l ?ch, chat_id ?ch)
      {q \<in> set (position_set (app example_machine) ?l). snd q \<noteq> chat_id ?ch}" "distinct xs" "k < length xs"
    "\<forall>j < ?rows. k = unat (scroll_of (app example_machine) ID_SIDE) + j \<longrightarrow>
       (int j, c_str (if chat_title ?ch = [] then take ?width ''deleted account''
                      else fit ?width (chat_title ?ch))) \<in> set (lines_written ?win cs)"
    using announced_chat_displayed[OF curses_ok_plain pre(1-3) refl ok pre(4-6) example_machine_events]
    by blast
  have "set xs \<subseteq> {(7, 9), (9, 8), (5, 7)}" unfolding r(4) example_machine_simps ps e by auto
  then have "card (set xs) \<le> card {(7 :: int, 9 :: int53), (9, 8), (5, 7)}" by (intro card_mono) simp_all
  then have "k < 3" using r(6) distinct_card[OF r(5)] by simp
  moreover have "?rows = 20" "?width = 20" by (simp_all add: example_screen_dims)
  ultimately have "(int k, ''Cy                  '') \<in> set (lines_written ?win cs)"
    using r(7)[rule_format, of k] by (simp add: e nine)
  with r(1-3) \<open>k < 3\<close> show ?thesis by auto
qed

end
